(* ===== verification/Prelude.thy ===== *)
theory Prelude
  imports Main "HOL-Library.Word" "HOL-Library.List_Lexorder" "HOL-Library.Char_ord"
    "HOL-Library.Product_Lexorder"
begin

text \<open>
  Shared vocabulary of the development: machine integers, Rust's \<open>Result\<close> as a sum,
  checked and saturating arithmetic, \<open>BTreeMap\<close> as a strictly sorted association list, and
  the generic lemmas the component theories use.
\<close>

named_theorems wire_simps \<open>round trips of the byte codecs\<close>
named_theorems btree_simps \<open>lookup laws of the ordered maps\<close>

section \<open>Types\<close>

type_synonym u8 = "8 word"
type_synonym u32 = "32 word"
type_synonym u64 = "64 word"
type_synonym u128 = "128 word"
type_synonym bytes = "u8 list"

text \<open>A Rust \<open>Result<T, E>\<close> is \<open>E + T\<close>: \<open>Inl\<close> is \<open>Err\<close>, \<open>Inr\<close> is \<open>Ok\<close>.\<close>

type_synonym ('a, 'e) result = "'e + 'a"

section \<open>Results\<close>

definition rbind :: "'e + 'a \<Rightarrow> ('a \<Rightarrow> 'e + 'b) \<Rightarrow> 'e + 'b" where
  "rbind m f = (case m of Inl e \<Rightarrow> Inl e | Inr x \<Rightarrow> f x)"

definition map_err :: "('e \<Rightarrow> 'f) \<Rightarrow> 'e + 'a \<Rightarrow> 'f + 'a" where
  "map_err g m = (case m of Inl e \<Rightarrow> Inl (g e) | Inr x \<Rightarrow> Inr x)"

definition ok_or :: "'e \<Rightarrow> 'a option \<Rightarrow> 'e + 'a" where
  "ok_or e m = (case m of None \<Rightarrow> Inl e | Some x \<Rightarrow> Inr x)"

definition is_ok :: "'e + 'a \<Rightarrow> bool" where
  "is_ok m = (case m of Inl _ \<Rightarrow> False | Inr _ \<Rightarrow> True)"

section \<open>Checked and saturating arithmetic\<close>

definition checked_add :: "'a::len word \<Rightarrow> 'a word \<Rightarrow> 'a word option" where
  "checked_add a b = (if unat a + unat b < 2 ^ LENGTH('a) then Some (a + b) else None)"

definition saturating_add :: "'a::len word \<Rightarrow> 'a word \<Rightarrow> 'a word" where
  "saturating_add a b = (if unat a + unat b < 2 ^ LENGTH('a) then a + b else - 1)"

section \<open>BTreeMap as a strictly sorted association list\<close>

text \<open>
  Lookup is \<^const>\<open>map_of\<close>; iteration is the list itself, in ascending key order; equality
  of maps is equality of lists, as \<open>BTreeMap\<close>'s \<open>PartialEq\<close> compares entries in order.
\<close>

type_synonym ('k, 'v) btree = "('k \<times> 'v) list"

fun bt_insert :: "'k::linorder \<Rightarrow> 'v \<Rightarrow> ('k, 'v) btree \<Rightarrow> ('k, 'v) btree" where
  "bt_insert k v [] = [(k, v)]"
| "bt_insert k v (e # m) =
     (if fst e < k then e # bt_insert k v m
      else if fst e = k then (k, v) # m
      else (k, v) # e # m)"

definition bt_wf :: "('k::linorder, 'v) btree \<Rightarrow> bool" where
  "bt_wf m = sorted_wrt (<) (map fst m)"

definition bt_contains :: "('k, 'v) btree \<Rightarrow> 'k \<Rightarrow> bool" where
  "bt_contains m k = (map_of m k \<noteq> None)"

text \<open>\<open>retain\<close>: keep the entries that satisfy the predicate.\<close>

definition bt_retain :: "('k \<times> 'v \<Rightarrow> bool) \<Rightarrow> ('k, 'v) btree \<Rightarrow> ('k, 'v) btree" where
  "bt_retain p m = filter p m"

text \<open>\<open>collect()\<close> into a map: insert the entries one after the other.\<close>

definition bt_collect :: "('k::linorder \<times> 'v) list \<Rightarrow> ('k, 'v) btree" where
  "bt_collect es = fold (\<lambda>(k, v) m. bt_insert k v m) es []"

section \<open>Lemmas\<close>

subsection \<open>Results\<close>

lemma rbind_simps [simp]: "rbind (Inl e) f = Inl e" "rbind (Inr x) f = f x"
  by (simp_all add: rbind_def)

lemma rbind_eq_Inr: "rbind m f = Inr y \<longleftrightarrow> (\<exists>x. m = Inr x \<and> f x = Inr y)"
  by (cases m) auto

lemma rbind_eq_Inl: "rbind m f = Inl e \<longleftrightarrow> m = Inl e \<or> (\<exists>x. m = Inr x \<and> f x = Inl e)"
  by (cases m) auto

lemma map_err_simps [simp]: "map_err g (Inl e) = Inl (g e)" "map_err g (Inr x) = Inr x"
  by (simp_all add: map_err_def)

lemma map_err_eq_Inr [simp]: "map_err g m = Inr x \<longleftrightarrow> m = Inr x"
  by (cases m) auto

lemma ok_or_simps [simp]: "ok_or e None = Inl e" "ok_or e (Some x) = Inr x"
  by (simp_all add: ok_or_def)

lemma ok_or_eq_Inr [simp]: "ok_or e m = Inr x \<longleftrightarrow> m = Some x"
  by (cases m) auto

lemma ok_or_eq_Inl [simp]: "ok_or e m = Inl e' \<longleftrightarrow> m = None \<and> e' = e"
  by (cases m) auto

lemma is_ok_simps [simp]: "\<not> is_ok (Inl e)" "is_ok (Inr x)"
  by (simp_all add: is_ok_def)

lemma is_ok_iff: "is_ok m \<longleftrightarrow> (\<exists>x. m = Inr x)"
  by (cases m) auto

subsection \<open>Words\<close>

lemma unat_add_no_overflow:
  "unat (a::'a::len word) + unat b < 2 ^ LENGTH('a) \<Longrightarrow> unat (a + b) = unat a + unat b"
  by (simp add: unat_word_ariths)

lemma checked_add_Some: "checked_add a b = Some c \<Longrightarrow> unat c = unat a + unat b"
  by (auto simp: checked_add_def unat_add_no_overflow split: if_splits)

lemma checked_add_None:
  "checked_add (a::'a::len word) b = None \<longleftrightarrow> 2 ^ LENGTH('a) \<le> unat a + unat b"
  by (auto simp: checked_add_def)

lemma unat_saturating_add:
  "unat (saturating_add (a::'a::len word) b) = min (unat a + unat b) (2 ^ LENGTH('a) - 1)"
proof -
  have "unat (- 1 :: 'a word) = 2 ^ LENGTH('a) - 1"
    by (simp add: unsigned_minus_1_eq_mask mask_eq_exp_minus_1)
  then show ?thesis
    by (auto simp: saturating_add_def unat_add_no_overflow)
qed

lemma unat_sub_le: "b \<le> a \<Longrightarrow> unat (a - b) = unat a - unat (b::'a::len word)"
  by (simp add: unat_sub)

subsection \<open>Ordered maps\<close>

lemma map_of_bt_insert [simp, btree_simps]: "map_of (bt_insert k v m) = (map_of m)(k \<mapsto> v)"
  by (induction m) (auto simp: fun_eq_iff split: if_splits)

lemma keys_bt_insert [simp]: "fst ` set (bt_insert k v m) = insert k (fst ` set m)"
  by (induction m) auto

lemma bt_wf_Nil [simp]: "bt_wf []"
  by (simp add: bt_wf_def)

lemma bt_wf_Cons [simp]: "bt_wf (e # m) \<longleftrightarrow> (\<forall>k \<in> fst ` set m. fst e < k) \<and> bt_wf m"
  by (simp add: bt_wf_def)

lemma bt_wf_insert [simp]: "bt_wf m \<Longrightarrow> bt_wf (bt_insert k v m)"
  by (induction m) force+

lemma bt_wf_distinct: "bt_wf m \<Longrightarrow> distinct (map fst m)"
  by (induction m) force+

lemma bt_get_in_set: "bt_wf m \<Longrightarrow> map_of m k = Some v \<longleftrightarrow> (k, v) \<in> set m"
  using bt_wf_distinct map_of_eq_Some_iff by fastforce

lemma bt_get_Cons_lt:
  assumes "bt_wf ((k, v) # m)" and "k' \<le> k"
  shows "map_of m k' = None"
proof -
  from assms have "k' \<notin> fst ` set m" by force
  then show ?thesis by (simp add: map_of_eq_None_iff)
qed

text \<open>Two well-formed maps with the same lookups are the same list.\<close>

lemma bt_as_lookup: "bt_wf m \<Longrightarrow> m = map (\<lambda>k. (k, the (map_of m k))) (map fst m)"
  by (rule nth_equalityI)
    (auto simp: map_of_eq_Some_iff [OF bt_wf_distinct] dest!: bt_wf_distinct
       intro!: prod_eqI map_of_is_SomeI [THEN arg_cong [of _ _ the], THEN sym, simplified])

lemma bt_ext:
  assumes "bt_wf a" and "bt_wf b" and eq: "map_of a = map_of b"
  shows "a = b"
proof -
  have "set (map fst a) = set (map fst b)"
    using arg_cong [OF eq, of dom] by (simp add: dom_map_of_conv_image_fst)
  then have "map fst a = map fst b"
    using assms by (intro strict_sorted_equal) (auto simp: bt_wf_def)
  then show ?thesis
    using bt_as_lookup [OF assms(1)] bt_as_lookup [OF assms(2)] eq by simp
qed

lemma bt_insert_same: "bt_wf m \<Longrightarrow> map_of m k = Some v \<Longrightarrow> bt_insert k v m = m"
  by (rule bt_ext) (auto simp: fun_eq_iff)

lemma bt_insert_commute:
  "bt_wf m \<Longrightarrow> k \<noteq> k' \<Longrightarrow> bt_insert k v (bt_insert k' v' m) = bt_insert k' v' (bt_insert k v m)"
  by (rule bt_ext) (auto simp: fun_eq_iff)

lemma bt_wf_retain [simp]: "bt_wf m \<Longrightarrow> bt_wf (bt_retain p m)"
  unfolding bt_retain_def by (induction m) auto

lemma map_of_bt_retain:
  "bt_wf m \<Longrightarrow> map_of (bt_retain p m) k =
     (case map_of m k of None \<Rightarrow> None | Some v \<Rightarrow> if p (k, v) then Some v else None)"
proof (induction m)
  case Nil
  then show ?case by (simp add: bt_retain_def)
next
  case (Cons e m)
  obtain k' v where e: "e = (k', v)" by force
  have "map_of m k' = None"
    using bt_get_Cons_lt [of k' v m k'] Cons.prems unfolding e by simp
  then show ?case
    using Cons unfolding e by (auto simp: bt_retain_def split: option.splits)
qed

lemma bt_collect_sorted_acc:
  "bt_wf (m @ es) \<Longrightarrow> fold (\<lambda>(k, v) m. bt_insert k v m) es m = m @ es"
proof (induction es arbitrary: m)
  case Nil
  then show ?case by simp
next
  case (Cons e es)
  obtain k v where e: "e = (k, v)" by force
  have lt: "\<forall>x \<in> fst ` set m. x < k"
    using Cons.prems unfolding e bt_wf_def by (force simp: sorted_wrt_append)
  then have "bt_insert k v m = m @ [(k, v)]"
    by (induction m) auto
  then show ?case using Cons.IH [of "m @ [e]"] Cons.prems unfolding e by simp
qed

lemma bt_collect_sorted: "bt_wf es \<Longrightarrow> bt_collect es = es"
  using bt_collect_sorted_acc [of "[]" es] by (simp add: bt_collect_def)

lemma bt_wf_fold_insert: "bt_wf m \<Longrightarrow> bt_wf (fold (\<lambda>(k, v) m. bt_insert k v m) es m)"
  by (induction es arbitrary: m) auto

lemma bt_wf_collect [simp]: "bt_wf (bt_collect es)"
  by (simp add: bt_collect_def bt_wf_fold_insert)

lemma set_bt_insert_fresh:
  "map_of m k = None \<Longrightarrow> set (bt_insert k v m) = insert (k, v) (set m)"
  by (induction m) (auto split: if_splits)

lemma length_bt_insert_fresh: "map_of m k = None \<Longrightarrow> length (bt_insert k v m) = Suc (length m)"
  by (induction m) (auto split: if_splits)

lemma distinct_snd_bt_insert_fresh:
  "map_of m k = None \<Longrightarrow> distinct (map snd (bt_insert k v m)) \<longleftrightarrow> v \<notin> snd ` set m \<and> distinct (map snd m)"
  by (induction m) (auto simp: set_bt_insert_fresh split: if_splits)

text \<open>The sum of a weight over the entries after an insertion.\<close>

lemma bt_sum_insert:
  fixes f :: "'v \<Rightarrow> nat"
  assumes "bt_wf m"
  shows "(\<Sum>(_, w) \<leftarrow> bt_insert k v m. f w) + (case map_of m k of None \<Rightarrow> 0 | Some w \<Rightarrow> f w)
    = (\<Sum>(_, w) \<leftarrow> m. f w) + f v"
  using assms
proof (induction m)
  case Nil
  then show ?case by simp
next
  case (Cons e m)
  obtain k' v' where e: "e = (k', v')" by force
  show ?case
  proof (cases "k' < k")
    case True
    with Cons show ?thesis unfolding e by (auto simp: add_ac)
  next
    case False
    then show ?thesis
      using bt_get_Cons_lt [of k' v' m k] Cons.prems unfolding e by auto
  qed
qed

lemma bt_sum_ge: "map_of m k = Some w \<Longrightarrow> (f w :: nat) \<le> (\<Sum>(_, w) \<leftarrow> m. f w)"
  by (induction m) (auto split: if_splits)

end
