(* ===== verification/Ledger.thy ===== *)
theory Ledger
  imports Prelude "HOL-Library.Multiset"
begin

text \<open>
  The single-owner ledger of \<open>333-transfer/src/lib.rs\<close>: accounts with a balance and a next
  sequence number, the canonical genesis, snapshot restoration, the mutation-free
  \<open>preflight\<close> and the all-or-nothing \<open>apply\<close>. A \<open>BTreeMap\<close> of accounts is a strictly sorted
  association list; an \<open>expect\<close> that would panic is a \<open>None\<close> branch, proved unreachable.
\<close>

section \<open>Data\<close>

type_synonym account_id = string
type_synonym amount = u128

record transfer =
  tr_from :: account_id
  tr_from_seq :: u64
  tr_to :: account_id
  tr_amount :: amount

record account =
  acc_balance :: amount
  acc_next_seq :: u64

definition default_account :: account where
  "default_account = \<lparr>acc_balance = 0, acc_next_seq = 0\<rparr>"

datatype reject =
    UnknownSender
  | StaleSequence u64 u64
  | Insufficient amount amount
  | SequenceExhausted account_id
  | BalanceOverflow account_id amount amount
  | NoCertificate

datatype genesis_error =
    DuplicateAccount account_id
  | TotalSupplyOverflow

record ledger =
  accounts :: "(account_id, account) btree"

definition ledger_new :: ledger where
  "ledger_new = \<lparr>accounts = []\<rparr>"

section \<open>Construction\<close>

fun try_genesis_loop ::
    "(account_id, account) btree \<Rightarrow> amount \<Rightarrow> (account_id \<times> amount) list \<Rightarrow> genesis_error + ledger" where
  "try_genesis_loop accs tot [] = Inr \<lparr>accounts = accs\<rparr>"
| "try_genesis_loop accs tot ((i, bal) # alloc) =
     (if bt_contains accs i then Inl (DuplicateAccount i)
      else case checked_add tot bal of
          None \<Rightarrow> Inl TotalSupplyOverflow
        | Some tot' \<Rightarrow>
            try_genesis_loop (bt_insert i \<lparr>acc_balance = bal, acc_next_seq = 0\<rparr> accs) tot' alloc)"

definition try_genesis :: "(account_id \<times> amount) list \<Rightarrow> genesis_error + ledger" where
  "try_genesis alloc = try_genesis_loop [] 0 alloc"

text \<open>\<open>genesis\<close> panics on an invalid allocation: \<open>None\<close>.\<close>

definition genesis :: "(account_id \<times> amount) list \<Rightarrow> ledger option" where
  "genesis alloc = (case try_genesis alloc of Inl _ \<Rightarrow> None | Inr l \<Rightarrow> Some l)"

fun restore_loop ::
    "(account_id, account) btree \<Rightarrow> amount \<Rightarrow> (account_id \<times> amount \<times> u64) list \<Rightarrow>
      genesis_error + ledger" where
  "restore_loop accs tot [] = Inr \<lparr>accounts = accs\<rparr>"
| "restore_loop accs tot ((i, bal, sq) # es) =
     (case checked_add tot bal of
          None \<Rightarrow> Inl TotalSupplyOverflow
        | Some tot' \<Rightarrow>
            (if bt_contains accs i then Inl (DuplicateAccount i)
             else restore_loop (bt_insert i \<lparr>acc_balance = bal, acc_next_seq = sq\<rparr> accs) tot' es))"

definition restore :: "(account_id \<times> amount \<times> u64) list \<Rightarrow> genesis_error + ledger" where
  "restore es = restore_loop [] 0 es"

section \<open>Queries\<close>

definition ledger_balance :: "ledger \<Rightarrow> account_id \<Rightarrow> amount" where
  "ledger_balance l i = (case map_of (accounts l) i of None \<Rightarrow> 0 | Some a \<Rightarrow> acc_balance a)"

definition contains_account :: "ledger \<Rightarrow> account_id \<Rightarrow> bool" where
  "contains_account l i = bt_contains (accounts l) i"

definition balances :: "ledger \<Rightarrow> (account_id, amount) btree" where
  "balances l = map (\<lambda>(i, a). (i, acc_balance a)) (accounts l)"

definition ledger_next_seq :: "ledger \<Rightarrow> account_id \<Rightarrow> u64" where
  "ledger_next_seq l i = (case map_of (accounts l) i of None \<Rightarrow> 0 | Some a \<Rightarrow> acc_next_seq a)"

text \<open>\<open>total_supply\<close> folds with \<open>checked_add\<close> and panics (\<open>None\<close>) on overflow.\<close>

fun checked_sum :: "amount \<Rightarrow> amount list \<Rightarrow> amount option" where
  "checked_sum tot [] = Some tot"
| "checked_sum tot (b # bs) =
     (case checked_add tot b of None \<Rightarrow> None | Some tot' \<Rightarrow> checked_sum tot' bs)"

definition total_supply :: "ledger \<Rightarrow> amount option" where
  "total_supply l = checked_sum 0 (map (acc_balance \<circ> snd) (accounts l))"

section \<open>Transfers\<close>

definition preflight :: "ledger \<Rightarrow> transfer \<Rightarrow> reject + unit" where
  "preflight l t =
     (case map_of (accounts l) (tr_from t) of
        None \<Rightarrow> Inl UnknownSender
      | Some sender \<Rightarrow>
          if tr_from_seq t \<noteq> acc_next_seq sender
          then Inl (StaleSequence (acc_next_seq sender) (tr_from_seq t))
          else if acc_balance sender < tr_amount t
          then Inl (Insufficient (acc_balance sender) (tr_amount t))
          else if checked_add (acc_next_seq sender) 1 = None
          then Inl (SequenceExhausted (tr_from t))
          else if tr_from t \<noteq> tr_to t \<and>
                  checked_add (ledger_balance l (tr_to t)) (tr_amount t) = None
          then Inl (BalanceOverflow (tr_to t) (ledger_balance l (tr_to t)) (tr_amount t))
          else Inr ())"

text \<open>
  The commit phase of \<open>apply\<close>. Each \<open>expect\<close> of the source is a \<open>None\<close> here;
  \<open>apply_commit_total\<close> below shows that after a successful preflight none is reached.
\<close>

definition apply_commit :: "ledger \<Rightarrow> transfer \<Rightarrow> ledger option" where
  "apply_commit l t =
     (case map_of (accounts l) (tr_from t) of
        None \<Rightarrow> None
      | Some sender \<Rightarrow>
         (case checked_add (acc_next_seq sender) 1 of
            None \<Rightarrow> None
          | Some sq \<Rightarrow>
             (if tr_from t = tr_to t
              then Some (l\<lparr>accounts := bt_insert (tr_from t) (sender\<lparr>acc_next_seq := sq\<rparr>) (accounts l)\<rparr>)
              else
               (case checked_add (ledger_balance l (tr_to t)) (tr_amount t) of
                  None \<Rightarrow> None
                | Some credited \<Rightarrow>
                   (let debited = sender\<lparr>acc_balance := acc_balance sender - tr_amount t,
                                         acc_next_seq := sq\<rparr>;
                        accs = bt_insert (tr_from t) debited (accounts l);
                        rcpt = (case map_of accs (tr_to t) of None \<Rightarrow> default_account | Some a \<Rightarrow> a)
                    in Some (l\<lparr>accounts := bt_insert (tr_to t) (rcpt\<lparr>acc_balance := credited\<rparr>) accs\<rparr>))))))"

definition ledger_apply :: "ledger \<Rightarrow> transfer \<Rightarrow> reject + ledger" where
  "ledger_apply l t =
     (case preflight l t of
        Inl e \<Rightarrow> Inl e
      | Inr _ \<Rightarrow> (case apply_commit l t of Some l' \<Rightarrow> Inr l' | None \<Rightarrow> Inr l))"

text \<open>A sequence of applications; it stops at the first rejection.\<close>

fun apply_all :: "ledger \<Rightarrow> transfer list \<Rightarrow> reject + ledger" where
  "apply_all l [] = Inr l"
| "apply_all l (t # ts) = rbind (ledger_apply l t) (\<lambda>l'. apply_all l' ts)"

section \<open>Invariant and abstract supply\<close>

definition supply_of :: "ledger \<Rightarrow> nat" where
  "supply_of l = (\<Sum>(_, a) \<leftarrow> accounts l. unat (acc_balance a))"

text \<open>Keys strictly sorted, and a supply that fits in a \<open>u128\<close>.\<close>

definition ledger_wf :: "ledger \<Rightarrow> bool" where
  "ledger_wf l \<longleftrightarrow> bt_wf (accounts l) \<and> supply_of l < 2 ^ 128"

section \<open>Lemmas\<close>

subsection \<open>Characterising apply\<close>

lemma apply_commit_total: "preflight l t = Inr () \<Longrightarrow> \<exists>l'. apply_commit l t = Some l'"
  by (auto simp: preflight_def apply_commit_def Let_def split: option.splits if_splits)

lemma ledger_apply_Inl: "ledger_apply l t = Inl e \<longleftrightarrow> preflight l t = Inl e"
  by (auto simp: ledger_apply_def split: sum.splits option.splits)

lemma ledger_apply_Inr:
  "ledger_apply l t = Inr l' \<longleftrightarrow> preflight l t = Inr () \<and> apply_commit l t = Some l'"
  using apply_commit_total [of l t]
  by (auto simp: ledger_apply_def split: sum.splits option.splits)

lemma preflight_ok_iff:
  "preflight l t = Inr () \<longleftrightarrow>
     contains_account l (tr_from t) \<and> tr_from_seq t = ledger_next_seq l (tr_from t) \<and>
     tr_amount t \<le> ledger_balance l (tr_from t) \<and>
     unat (ledger_next_seq l (tr_from t)) + 1 < 2 ^ 64 \<and>
     (tr_from t \<noteq> tr_to t \<longrightarrow>
        unat (ledger_balance l (tr_to t)) + unat (tr_amount t) < 2 ^ 128)"
  by (auto simp: preflight_def contains_account_def bt_contains_def ledger_next_seq_def
      ledger_balance_def checked_add_def not_less split: option.splits)

text \<open>What a successful application does to every account.\<close>

lemma apply_lookup:
  assumes "ledger_apply l t = Inr l'"
  obtains s where "map_of (accounts l) (tr_from t) = Some s"
    and "map_of (accounts l') = (map_of (accounts l))
      (tr_from t \<mapsto> \<lparr>acc_balance = (if tr_from t = tr_to t then acc_balance s else acc_balance s - tr_amount t),
                    acc_next_seq = acc_next_seq s + 1\<rparr>,
       tr_to t \<mapsto> \<lparr>acc_balance = (if tr_from t = tr_to t then acc_balance s
                                  else ledger_balance l (tr_to t) + tr_amount t),
                  acc_next_seq = (if tr_from t = tr_to t then acc_next_seq s + 1
                                  else ledger_next_seq l (tr_to t))\<rparr>)"
proof -
  from assms obtain s where s: "map_of (accounts l) (tr_from t) = Some s"
    by (auto simp: ledger_apply_Inr preflight_def split: option.splits)
  have "map_of (accounts l') = (map_of (accounts l))
      (tr_from t \<mapsto> \<lparr>acc_balance = (if tr_from t = tr_to t then acc_balance s else acc_balance s - tr_amount t),
                    acc_next_seq = acc_next_seq s + 1\<rparr>,
       tr_to t \<mapsto> \<lparr>acc_balance = (if tr_from t = tr_to t then acc_balance s
                                  else ledger_balance l (tr_to t) + tr_amount t),
                  acc_next_seq = (if tr_from t = tr_to t then acc_next_seq s + 1
                                  else ledger_next_seq l (tr_to t))\<rparr>)"
    using assms s
    by (auto simp: ledger_apply_Inr apply_commit_def checked_add_def Let_def fun_eq_iff
        ledger_next_seq_def default_account_def
        split: option.splits if_splits)
  with s show ?thesis by (rule that)
qed

lemma apply_balance:
  assumes "ledger_apply l t = Inr l'"
  shows "ledger_balance l' i =
    (if tr_from t = tr_to t then ledger_balance l i
     else if i = tr_to t then ledger_balance l i + tr_amount t
     else if i = tr_from t then ledger_balance l i - tr_amount t
     else ledger_balance l i)"
  using assms by (rule apply_lookup) (auto simp: ledger_balance_def)

lemma apply_next_seq:
  assumes "ledger_apply l t = Inr l'"
  shows "ledger_next_seq l' i = (if i = tr_from t then ledger_next_seq l i + 1 else ledger_next_seq l i)"
  using assms by (rule apply_lookup) (auto simp: ledger_next_seq_def)

lemma apply_contains:
  assumes "ledger_apply l t = Inr l'"
  shows "contains_account l' i \<longleftrightarrow> contains_account l i \<or> i = tr_to t"
  using assms by (rule apply_lookup) (auto simp: contains_account_def bt_contains_def)

lemma apply_next_seq_nat:
  assumes "ledger_apply l t = Inr l'"
  shows "unat (ledger_next_seq l' i) = unat (ledger_next_seq l i) + (if i = tr_from t then 1 else 0)"
proof (cases "i = tr_from t")
  case True
  have "unat (ledger_next_seq l (tr_from t)) + unat (1::u64) < 2 ^ LENGTH(64)"
    using assms by (simp add: ledger_apply_Inr preflight_ok_iff)
  then show ?thesis
    using True apply_next_seq [OF assms, of i] by (simp add: unat_add_no_overflow)
qed (use apply_next_seq [OF assms, of i] in simp)

lemma apply_balance_nat:
  assumes ap: "ledger_apply l t = Inr l'" and ne: "tr_from t \<noteq> tr_to t"
  shows "unat (ledger_balance l' (tr_from t)) + unat (tr_amount t) = unat (ledger_balance l (tr_from t))"
    and "unat (ledger_balance l' (tr_to t)) = unat (ledger_balance l (tr_to t)) + unat (tr_amount t)"
proof -
  have pf: "tr_amount t \<le> ledger_balance l (tr_from t)"
    "unat (ledger_balance l (tr_to t)) + unat (tr_amount t) < 2 ^ LENGTH(128)"
    using ap ne by (auto simp: ledger_apply_Inr preflight_ok_iff)
  then show "unat (ledger_balance l' (tr_from t)) + unat (tr_amount t) = unat (ledger_balance l (tr_from t))"
    using apply_balance [OF ap, of "tr_from t"] ne by (simp add: unat_sub_le word_le_nat_alt)
  show "unat (ledger_balance l' (tr_to t)) = unat (ledger_balance l (tr_to t)) + unat (tr_amount t)"
    using apply_balance [OF ap, of "tr_to t"] ne pf(2) by (simp add: unat_add_no_overflow)
qed

lemma ledger_ext:
  assumes "bt_wf (accounts l)" and "bt_wf (accounts l')"
    and "\<And>i. contains_account l i = contains_account l' i"
    and "\<And>i. ledger_balance l i = ledger_balance l' i"
    and "\<And>i. ledger_next_seq l i = ledger_next_seq l' i"
  shows "l = l'"
proof -
  have "map_of (accounts l) i = map_of (accounts l') i" for i
    using assms(3-5) [of i]
    by (auto simp: contains_account_def bt_contains_def ledger_balance_def ledger_next_seq_def
        split: option.splits)
  then have "accounts l = accounts l'"
    using assms(1,2) by (intro bt_ext) auto
  then show ?thesis by simp
qed


subsection \<open>Conservation\<close>

lemma apply_bt_wf: "bt_wf (accounts l) \<Longrightarrow> ledger_apply l t = Inr l' \<Longrightarrow> bt_wf (accounts l')"
  by (auto simp: ledger_apply_Inr apply_commit_def Let_def split: option.splits if_splits)

lemma apply_supply:
  assumes wf: "bt_wf (accounts l)" and ap: "ledger_apply l t = Inr l'"
  shows "supply_of l' = supply_of l"
proof -
  let ?f = "\<lambda>a. unat (acc_balance a)"
  from ap obtain s where s: "map_of (accounts l) (tr_from t) = Some s"
    by (auto simp: ledger_apply_Inr preflight_def split: option.splits)
  show ?thesis
  proof (cases "tr_from t = tr_to t")
    case True
    with ap s obtain n where
      "accounts l' = bt_insert (tr_from t) (s\<lparr>acc_next_seq := n\<rparr>) (accounts l)"
      by (auto simp: ledger_apply_Inr apply_commit_def split: option.splits)
    then show ?thesis
      using bt_sum_insert [OF wf, of ?f "tr_from t" "s\<lparr>acc_next_seq := n\<rparr>"] s
      by (simp add: supply_of_def)
  next
    case False
    let ?m = "\<lambda>n. bt_insert (tr_from t) (s\<lparr>acc_balance := acc_balance s - tr_amount t, acc_next_seq := n\<rparr>)
                   (accounts l)"
    from False ap s obtain n r where
      l': "accounts l' = bt_insert (tr_to t) r (?m n)"
      and r: "acc_balance r = ledger_balance l (tr_to t) + tr_amount t"
      by (auto simp: ledger_apply_Inr apply_commit_def Let_def checked_add_def
          split: option.splits if_splits)
    have "unat (acc_balance s - tr_amount t) + unat (tr_amount t) = unat (acc_balance s)"
      using apply_balance_nat(1) [OF ap False] apply_balance [OF ap, of "tr_from t"] s False
      by (simp add: ledger_balance_def)
    moreover have "unat (acc_balance r) = unat (ledger_balance l (tr_to t)) + unat (tr_amount t)"
      using apply_balance_nat(2) [OF ap False] apply_balance [OF ap, of "tr_to t"] False r by simp
    moreover note bt_sum_insert [OF wf, of ?f "tr_from t"
        "s\<lparr>acc_balance := acc_balance s - tr_amount t, acc_next_seq := n\<rparr>"]
      bt_sum_insert [of "?m n" ?f "tr_to t" r]
    ultimately show ?thesis
      using s wf False unfolding supply_of_def l'
      by (auto simp: ledger_balance_def split: option.splits)
  qed
qed

lemma apply_ledger_wf: "ledger_wf l \<Longrightarrow> ledger_apply l t = Inr l' \<Longrightarrow> ledger_wf l'"
  by (auto simp: ledger_wf_def apply_supply dest: apply_bt_wf)

lemma checked_sum_spec:
  "checked_sum tot bs = (if unat tot + (\<Sum>b \<leftarrow> bs. unat b) < 2 ^ 128
     then Some (of_nat (unat tot + (\<Sum>b \<leftarrow> bs. unat b))) else None)"
proof (induction bs arbitrary: tot)
  case Nil
  then show ?case using unsigned_less [where ?'a = nat, of tot] by simp
next
  case (Cons b bs)
  show ?case
  proof (cases "unat tot + unat b < 2 ^ LENGTH(128)")
    case True
    then have "checked_add tot b = Some (tot + b)" "unat (tot + b) = unat tot + unat b"
      by (simp_all add: checked_add_def unat_add_no_overflow)
    then show ?thesis by (simp add: Cons.IH add.assoc)
  next
    case False
    then show ?thesis by (simp add: checked_add_def)
  qed
qed

lemma total_supply_spec:
  "total_supply l = (if supply_of l < 2 ^ 128 then Some (of_nat (supply_of l)) else None)"
  by (simp add: total_supply_def supply_of_def checked_sum_spec comp_def split_def)

lemma ledger_balance_le_supply: "unat (ledger_balance l i) \<le> supply_of l"
  by (auto simp: ledger_balance_def supply_of_def split: option.splits
      intro: bt_sum_ge [where f = "\<lambda>a. unat (acc_balance a)"])

lemma two_balances_le_supply:
  assumes "bt_wf (accounts l)" and "i \<noteq> j"
  shows "unat (ledger_balance l i) + unat (ledger_balance l j) \<le> supply_of l"
proof (cases "map_of (accounts l) i")
  case None
  then show ?thesis using ledger_balance_le_supply [of l j] by (simp add: ledger_balance_def)
next
  case (Some a)
  let ?l = "l\<lparr>accounts := bt_insert i (a\<lparr>acc_balance := 0\<rparr>) (accounts l)\<rparr>"
  have "supply_of ?l + unat (acc_balance a) = supply_of l"
    using bt_sum_insert [OF assms(1), of "\<lambda>a. unat (acc_balance a)" i "a\<lparr>acc_balance := 0\<rparr>"] Some
    by (simp add: supply_of_def)
  moreover have "ledger_balance ?l j = ledger_balance l j"
    using assms(2) by (simp add: ledger_balance_def)
  ultimately show ?thesis
    using ledger_balance_le_supply [of ?l j] Some by (simp add: ledger_balance_def)
qed

subsection \<open>Sequences of transfers\<close>

lemma apply_all_append: "apply_all l (ts @ us) = rbind (apply_all l ts) (\<lambda>l'. apply_all l' us)"
  by (induction ts arbitrary: l) (auto simp: rbind_def split: sum.splits)

lemma apply_all_wf: "ledger_wf l \<Longrightarrow> apply_all l ts = Inr l' \<Longrightarrow> ledger_wf l'"
  by (induction ts arbitrary: l) (auto simp: rbind_eq_Inr dest: apply_ledger_wf)

lemma apply_all_supply:
  "ledger_wf l \<Longrightarrow> apply_all l ts = Inr l' \<Longrightarrow> supply_of l' = supply_of l"
proof (induction ts arbitrary: l)
  case (Cons t ts)
  then obtain m where "ledger_apply l t = Inr m" "apply_all m ts = Inr l'"
    by (auto simp: rbind_eq_Inr)
  then show ?case
    using Cons.IH [of m] Cons.prems(1) apply_supply [of l t m] apply_ledger_wf [of l t m]
    by (simp add: ledger_wf_def)
qed simp

lemma apply_all_next_seq:
  "apply_all l ts = Inr l' \<Longrightarrow>
     unat (ledger_next_seq l' i) = unat (ledger_next_seq l i) + length (filter (\<lambda>t. tr_from t = i) ts)"
  by (induction ts arbitrary: l) (auto simp: rbind_eq_Inr apply_next_seq_nat split: if_splits)

definition credits :: "account_id \<Rightarrow> transfer list \<Rightarrow> nat" where
  "credits i ts = (\<Sum>t \<leftarrow> filter (\<lambda>t. tr_to t = i \<and> tr_from t \<noteq> i) ts. unat (tr_amount t))"

definition debits :: "account_id \<Rightarrow> transfer list \<Rightarrow> nat" where
  "debits i ts = (\<Sum>t \<leftarrow> filter (\<lambda>t. tr_from t = i \<and> tr_to t \<noteq> i) ts. unat (tr_amount t))"

lemma apply_balance_ledger:
  assumes "ledger_apply l t = Inr l'"
  shows "unat (ledger_balance l' i) + debits i [t] = unat (ledger_balance l i) + credits i [t]"
  using apply_balance_nat [OF assms] apply_balance [OF assms, of i]
  by (cases "tr_from t = tr_to t") (auto simp: credits_def debits_def)

lemma apply_all_balance:
  "apply_all l ts = Inr l' \<Longrightarrow>
     unat (ledger_balance l' i) + debits i ts = unat (ledger_balance l i) + credits i ts"
proof (induction ts arbitrary: l)
  case Nil
  then show ?case by (simp add: credits_def debits_def)
next
  case (Cons t ts)
  then obtain m where m: "ledger_apply l t = Inr m" and "apply_all m ts = Inr l'"
    by (auto simp: rbind_eq_Inr)
  then have "unat (ledger_balance l' i) + debits i ts = unat (ledger_balance m i) + credits i ts"
    by (intro Cons.IH)
  with apply_balance_ledger [OF m, of i] show ?case
    by (auto simp: credits_def debits_def)
qed

lemma apply_all_contains:
  "apply_all l ts = Inr l' \<Longrightarrow> contains_account l' i \<longleftrightarrow> contains_account l i \<or> (\<exists>t \<in> set ts. i = tr_to t)"
proof (induction ts arbitrary: l)
  case (Cons t ts)
  then obtain m where "ledger_apply l t = Inr m" and "apply_all m ts = Inr l'"
    by (auto simp: rbind_eq_Inr)
  then show ?case using Cons.IH [of m] apply_contains [of l t m i] by auto
qed simp

lemma apply_all_multiset:
  assumes "bt_wf (accounts l)" and "mset ts = mset us"
    and l1: "apply_all l ts = Inr l1" and l2: "apply_all l us = Inr l2"
  shows "l1 = l2"
proof (rule ledger_ext)
  have wf: "bt_wf (accounts m)" if "apply_all l xs = Inr m" for xs m
    using that assms(1)
    by (induction xs arbitrary: l) (auto simp: rbind_eq_Inr dest: apply_bt_wf)
  show "bt_wf (accounts l1)" "bt_wf (accounts l2)" using wf l1 l2 by auto
  have same: "set ts = set us" using assms(2) by (metis set_mset_mset)
  have sum: "(\<Sum>t \<leftarrow> filter P ts. g t) = (\<Sum>t \<leftarrow> filter P us. g t)" for P and g :: "transfer \<Rightarrow> nat"
    using assms(2) by (metis mset_filter mset_map sum_mset_sum_list)
  show "contains_account l1 i = contains_account l2 i" for i
    using apply_all_contains [OF l1] apply_all_contains [OF l2] same by simp
  show "ledger_balance l1 i = ledger_balance l2 i" for i
    using apply_all_balance [OF l1, of i] apply_all_balance [OF l2, of i] sum
    by (simp add: credits_def debits_def word_unat_eq_iff)
  have "length (filter P ts) = length (filter P us)" for P
    using assms(2) by (metis mset_filter size_mset)
  then show "ledger_next_seq l1 i = ledger_next_seq l2 i" for i
    using apply_all_next_seq [OF l1, of i] apply_all_next_seq [OF l2, of i]
    by (simp add: word_unat_eq_iff)
qed


subsection \<open>Enabledness under the invariant\<close>

lemma no_balance_overflow:
  assumes "ledger_wf l" and "tr_from t \<noteq> tr_to t" and "tr_amount t \<le> ledger_balance l (tr_from t)"
  shows "unat (ledger_balance l (tr_to t)) + unat (tr_amount t) < 2 ^ 128"
  using assms two_balances_le_supply [of l "tr_to t" "tr_from t"]
  by (auto simp: ledger_wf_def word_le_nat_alt)

lemma preflight_ok_wf:
  assumes "ledger_wf l"
  shows "preflight l t = Inr () \<longleftrightarrow>
     contains_account l (tr_from t) \<and> tr_from_seq t = ledger_next_seq l (tr_from t) \<and>
     tr_amount t \<le> ledger_balance l (tr_from t) \<and> unat (ledger_next_seq l (tr_from t)) + 1 < 2 ^ 64"
  using no_balance_overflow [OF assms, of t] by (auto simp: preflight_ok_iff)

lemma apply_balance_other_mono:
  assumes "ledger_apply l t = Inr l'" and "i \<noteq> tr_from t"
  shows "ledger_balance l i \<le> ledger_balance l' i"
  using apply_balance_ledger [OF assms(1), of i] assms(2)
  by (simp add: debits_def word_le_nat_alt split: if_splits)

lemma enabled_after_other:
  assumes "ledger_wf l" and a: "ledger_apply l ta = Inr l1" and b: "preflight l tb = Inr ()"
    and ne: "tr_from ta \<noteq> tr_from tb"
  shows "preflight l1 tb = Inr ()"
  using b apply_contains [OF a, of "tr_from tb"] apply_next_seq [OF a, of "tr_from tb"] ne
    apply_balance_other_mono [OF a, of "tr_from tb"]
  by (auto simp: preflight_ok_wf assms(1) preflight_ok_wf [OF apply_ledger_wf [OF assms(1) a]])

subsection \<open>Genesis and restoration\<close>

lemma supply_insert_fresh:
  "bt_wf m \<Longrightarrow> map_of m i = None \<Longrightarrow>
     supply_of \<lparr>accounts = bt_insert i a m\<rparr> = supply_of \<lparr>accounts = m\<rparr> + unat (acc_balance a)"
  using bt_sum_insert [of m "\<lambda>a. unat (acc_balance a)" i a] by (simp add: supply_of_def)

abbreviation mk_account :: "account_id \<times> amount \<times> u64 \<Rightarrow> account_id \<times> account" where
  "mk_account \<equiv> (\<lambda>(i, b, s). (i, \<lparr>acc_balance = b, acc_next_seq = s\<rparr>))"

abbreviation put_all :: "('k::linorder \<times> 'v) list \<Rightarrow> ('k, 'v) btree \<Rightarrow> ('k, 'v) btree" where
  "put_all \<equiv> fold (\<lambda>(k, v) m. bt_insert k v m)"

text \<open>Restoration succeeds exactly on distinct accounts whose balances fit in a \<open>u128\<close>.\<close>

lemma restore_loop_iff:
  "restore_loop accs tot es = Inr l \<longleftrightarrow>
     distinct (map fst es) \<and> fst ` set es \<inter> fst ` set accs = {} \<and>
     unat tot + (\<Sum>(_, b, _) \<leftarrow> es. unat b) < 2 ^ 128 \<and>
     l = \<lparr>accounts = put_all (map mk_account es) accs\<rparr>"
proof (induction accs tot es rule: restore_loop.induct)
  case (1 accs tot)
  then show ?case using unsigned_less [where ?'a = nat, of tot] by auto
next
  case (2 accs tot i b s es)
  show ?case
  proof (cases "checked_add tot b")
    case None
    then have "2 ^ 128 \<le> unat tot + unat b" by (simp add: checked_add_None)
    with None show ?thesis by simp
  next
    case (Some tot')
    show ?thesis
    proof (cases "i \<in> fst ` set accs")
      case True
      then show ?thesis
        using Some by (auto simp: bt_contains_def map_of_eq_None_iff)
    next
      case False
      then have c: "\<not> bt_contains accs i" by (simp add: bt_contains_def map_of_eq_None_iff)
      show ?thesis
        using "2.IH" [OF Some c] checked_add_Some [OF Some] Some c False
        by (auto simp: add.assoc)
    qed
  qed
qed

lemma try_genesis_loop_restore:
  "try_genesis_loop accs tot alloc = Inr l \<longleftrightarrow>
     restore_loop accs tot (map (\<lambda>(i, b). (i, b, 0)) alloc) = Inr l"
  by (induction accs tot alloc rule: try_genesis_loop.induct) (auto split: option.splits)

lemma supply_put_all:
  "bt_wf accs \<Longrightarrow> distinct (map fst es) \<Longrightarrow> fst ` set es \<inter> fst ` set accs = {} \<Longrightarrow>
     supply_of \<lparr>accounts = put_all (map mk_account es) accs\<rparr>
       = supply_of \<lparr>accounts = accs\<rparr> + (\<Sum>(_, b, _) \<leftarrow> es. unat b)"
proof (induction es arbitrary: accs)
  case (Cons e es)
  obtain i b s where e: "e = (i, b, s)" by (cases e) auto
  have "map_of accs i = None"
    using Cons.prems(3) unfolding e by (auto simp: map_of_eq_None_iff)
  then show ?case
    using Cons.IH [of "bt_insert i \<lparr>acc_balance = b, acc_next_seq = s\<rparr> accs"] Cons.prems
      supply_insert_fresh [of accs i "\<lparr>acc_balance = b, acc_next_seq = s\<rparr>"]
    unfolding e by auto
qed simp

lemma restore_Inr:
  assumes "restore es = Inr l"
  shows "ledger_wf l \<and> supply_of l = (\<Sum>(_, b, _) \<leftarrow> es. unat b) \<and> l = \<lparr>accounts = bt_collect (map mk_account es)\<rparr>"
  using assms supply_put_all [of "[]" es] bt_wf_fold_insert [of "[]" "map mk_account es"]
  by (auto simp: restore_def restore_loop_iff ledger_wf_def bt_collect_def supply_of_def)

lemma map_of_put_all_distinct:
  "distinct (map fst es) \<Longrightarrow> map_of (put_all es m) = map_of m ++ map_of es"
proof (induction es arbitrary: m)
  case (Cons e es)
  obtain k v where e: "e = (k, v)" by force
  have "map_of es k = None" using Cons.prems unfolding e by (auto simp: map_of_eq_None_iff)
  then show ?case
    using Cons unfolding e by (auto simp: fun_eq_iff map_add_def split: option.splits)
qed simp

section \<open>Properties\<close>

text \<open>C1: applying any sequence of transfers conserves the total supply exactly and keeps the
  ledger well formed (keys sorted, supply within \<open>u128\<close>), so \<open>total_supply\<close> never panics.\<close>

theorem ledger_conservation:
  assumes "ledger_wf l" and "apply_all l ts = Inr l'"
  shows "ledger_wf l' \<and> total_supply l' = total_supply l \<and> total_supply l' \<noteq> None"
  using assms apply_all_wf [OF assms] apply_all_supply [OF assms]
  by (simp add: total_supply_spec ledger_wf_def)

theorem ledger_conservation_witness:
  "\<exists>l l'. genesis [(''alice'', 100), (''bob'', 0)] = Some l \<and>
     apply_all l [\<lparr>tr_from = ''alice'', tr_from_seq = 0, tr_to = ''bob'', tr_amount = 30\<rparr>] = Inr l' \<and>
     ledger_balance l' ''bob'' = 30 \<and> total_supply l' = total_supply l"
proof -
  let ?l = "\<lparr>accounts = [(''alice'', \<lparr>acc_balance = 100, acc_next_seq = 0\<rparr>),
                        (''bob'', \<lparr>acc_balance = 0, acc_next_seq = 0\<rparr>)]\<rparr>"
  let ?l' = "\<lparr>accounts = [(''alice'', \<lparr>acc_balance = 70, acc_next_seq = 1\<rparr>),
                         (''bob'', \<lparr>acc_balance = 30, acc_next_seq = 0\<rparr>)]\<rparr>"
  let ?t = "\<lparr>tr_from = ''alice'', tr_from_seq = 0, tr_to = ''bob'', tr_amount = 30\<rparr>"
  have g: "genesis [(''alice'', 100), (''bob'', 0)] = Some ?l"
    by (simp add: genesis_def try_genesis_def checked_add_def bt_contains_def)
  have a: "apply_all ?l [?t] = Inr ?l'"
    by (simp add: ledger_apply_def preflight_def apply_commit_def checked_add_def ledger_balance_def)
  have w: "ledger_wf ?l" by (simp add: ledger_wf_def supply_of_def)
  show ?thesis
    by (intro exI [of _ ?l] exI [of _ ?l'] conjI g a ledger_conservation [OF w a, THEN conjunct2, THEN conjunct1])
      (simp add: ledger_balance_def)
qed

text \<open>Transfers debiting different accounts commute: when each is enabled on its own, each
  is still enabled after the other, and both orders end in the same ledger.\<close>

theorem disjoint_transfers_commute:
  assumes wf: "ledger_wf l" and ne: "tr_from ta \<noteq> tr_from tb"
    and a: "ledger_apply l ta = Inr la" and b: "ledger_apply l tb = Inr lb"
  shows "\<exists>l'. ledger_apply la tb = Inr l' \<and> ledger_apply lb ta = Inr l'"
proof -
  obtain l1 where l1: "ledger_apply la tb = Inr l1"
    using enabled_after_other [OF wf a _ ne] b apply_commit_total by (auto simp: ledger_apply_Inr)
  obtain l2 where l2: "ledger_apply lb ta = Inr l2"
    using enabled_after_other [OF wf b _ ne [symmetric]] a apply_commit_total
    by (auto simp: ledger_apply_Inr)
  have "l1 = l2"
    using wf a b l1 l2 by (intro apply_all_multiset [of l "[ta, tb]" "[tb, ta]"]) (auto simp: ledger_wf_def)
  with l1 l2 show ?thesis by blast
qed

theorem disjoint_transfers_commute_witness:
  "let l = \<lparr>accounts = [(''a'', \<lparr>acc_balance = 50, acc_next_seq = 0\<rparr>),
                        (''b'', \<lparr>acc_balance = 50, acc_next_seq = 0\<rparr>)]\<rparr>;
       ta = \<lparr>tr_from = ''a'', tr_from_seq = 0, tr_to = ''c'', tr_amount = 10\<rparr>;
       tb = \<lparr>tr_from = ''b'', tr_from_seq = 0, tr_to = ''a'', tr_amount = 20\<rparr>
   in \<exists>la lb l'. ledger_apply l ta = Inr la \<and> ledger_apply l tb = Inr lb \<and>
        ledger_apply la tb = Inr l' \<and> ledger_apply lb ta = Inr l'"
proof -
  let ?l = "\<lparr>accounts = [(''a'', \<lparr>acc_balance = 50, acc_next_seq = 0\<rparr>),
                        (''b'', \<lparr>acc_balance = 50, acc_next_seq = 0\<rparr>)]\<rparr> :: ledger"
  let ?ta = "\<lparr>tr_from = ''a'', tr_from_seq = 0, tr_to = ''c'', tr_amount = 10\<rparr> :: transfer"
  let ?tb = "\<lparr>tr_from = ''b'', tr_from_seq = 0, tr_to = ''a'', tr_amount = 20\<rparr> :: transfer"
  have w: "ledger_wf ?l" by (simp add: ledger_wf_def supply_of_def)
  obtain la where a: "ledger_apply ?l ?ta = Inr la"
    by (simp add: ledger_apply_def preflight_def apply_commit_def checked_add_def ledger_balance_def)
  obtain lb where b: "ledger_apply ?l ?tb = Inr lb"
    by (simp add: ledger_apply_def preflight_def apply_commit_def checked_add_def ledger_balance_def)
  show ?thesis
    using disjoint_transfers_commute [OF w _ a b] a b by (auto simp: Let_def)
qed

text \<open>C2: once a transfer is applied its (account, sequence) slot is spent for good: after any
  further accepted transfers, every transfer of that slot is refused as a stale sequence.\<close>

theorem spent_slot_stays_spent:
  assumes "ledger_apply l t = Inr l1" and "apply_all l1 ts = Inr l2"
    and "tr_from t' = tr_from t" and "tr_from_seq t' = tr_from_seq t"
  shows "\<exists>e. ledger_apply l2 t' = Inl (StaleSequence e (tr_from_seq t)) \<and> tr_from_seq t < e"
proof -
  let ?i = "tr_from t"
  have pf: "preflight l t = Inr ()" using assms(1) by (simp add: ledger_apply_Inr)
  have lt: "unat (tr_from_seq t) < unat (ledger_next_seq l2 ?i)"
    using apply_next_seq_nat [OF assms(1), of ?i] apply_all_next_seq [OF assms(2), of ?i] pf
    by (simp add: preflight_ok_iff)
  have c: "contains_account l2 ?i"
    using apply_all_contains [OF assms(2)] apply_contains [OF assms(1)] pf by (simp add: preflight_ok_iff)
  then obtain s where s: "map_of (accounts l2) ?i = Some s"
    by (auto simp: contains_account_def bt_contains_def)
  with lt have "tr_from_seq t < acc_next_seq s"
    by (simp add: ledger_next_seq_def word_less_nat_alt)
  with s show ?thesis
    using assms(3,4) by (auto simp: ledger_apply_def preflight_def)
qed

theorem spent_slot_stays_spent_witness:
  "let l = \<lparr>accounts = [(''a'', \<lparr>acc_balance = 50, acc_next_seq = 0\<rparr>)]\<rparr>;
       t = \<lparr>tr_from = ''a'', tr_from_seq = 0, tr_to = ''b'', tr_amount = 10\<rparr>;
       t' = \<lparr>tr_from = ''a'', tr_from_seq = 0, tr_to = ''c'', tr_amount = 40\<rparr>
   in \<exists>l1 e. ledger_apply l t = Inr l1 \<and> ledger_apply l1 t' = Inl (StaleSequence e 0) \<and> 0 < e"
proof -
  let ?l = "\<lparr>accounts = [(''a'', \<lparr>acc_balance = 50, acc_next_seq = 0\<rparr>)]\<rparr> :: ledger"
  let ?t = "\<lparr>tr_from = ''a'', tr_from_seq = 0, tr_to = ''b'', tr_amount = 10\<rparr> :: transfer"
  let ?t' = "\<lparr>tr_from = ''a'', tr_from_seq = 0, tr_to = ''c'', tr_amount = 40\<rparr> :: transfer"
  obtain l1 where a: "ledger_apply ?l ?t = Inr l1"
    by (simp add: ledger_apply_def preflight_def apply_commit_def checked_add_def ledger_balance_def)
  show ?thesis
    using spent_slot_stays_spent [OF a, of "[]" l1 ?t'] a by (auto simp: Let_def)
qed

text \<open>On a well-formed ledger the outcome of \<open>apply\<close> is decided by four checks in the
  code's order; the recipient can never overflow, and a rejection leaves nothing behind (the
  result carries no ledger).\<close>

theorem apply_outcome:
  assumes "ledger_wf l"
  shows "ledger_apply l t =
    (if \<not> contains_account l (tr_from t) then Inl UnknownSender
     else if tr_from_seq t \<noteq> ledger_next_seq l (tr_from t)
       then Inl (StaleSequence (ledger_next_seq l (tr_from t)) (tr_from_seq t))
     else if ledger_balance l (tr_from t) < tr_amount t
       then Inl (Insufficient (ledger_balance l (tr_from t)) (tr_amount t))
     else if unat (ledger_next_seq l (tr_from t)) = 2 ^ 64 - 1
       then Inl (SequenceExhausted (tr_from t))
     else Inr (the (apply_commit l t)))"
proof -
  have seq: "checked_add n 1 = None \<longleftrightarrow> unat n = 2 ^ 64 - 1" for n :: u64
    using unsigned_less [where ?'a = nat, of n] by (auto simp: checked_add_None)
  have ov: "checked_add a b = None \<longleftrightarrow> \<not> unat a + unat b < 2 ^ 128" for a b :: amount
    by (simp add: checked_add_None not_less)
  have pf: "preflight l t =
    (if \<not> contains_account l (tr_from t) then Inl UnknownSender
     else if tr_from_seq t \<noteq> ledger_next_seq l (tr_from t)
       then Inl (StaleSequence (ledger_next_seq l (tr_from t)) (tr_from_seq t))
     else if ledger_balance l (tr_from t) < tr_amount t
       then Inl (Insufficient (ledger_balance l (tr_from t)) (tr_amount t))
     else if unat (ledger_next_seq l (tr_from t)) = 2 ^ 64 - 1
       then Inl (SequenceExhausted (tr_from t))
     else Inr ())"
    using no_balance_overflow [OF assms, of t]
    by (auto simp: preflight_def contains_account_def bt_contains_def ledger_next_seq_def
        ledger_balance_def seq ov not_less split: option.splits)
  show ?thesis
    using apply_commit_total [of l t] unfolding ledger_apply_def pf by (auto split: option.splits)
qed

theorem apply_outcome_witness:
  "ledger_apply \<lparr>accounts = [(''a'', \<lparr>acc_balance = 5, acc_next_seq = 3\<rparr>)]\<rparr>
     \<lparr>tr_from = ''a'', tr_from_seq = 3, tr_to = ''b'', tr_amount = 6\<rparr> = Inl (Insufficient 5 6)"
proof -
  let ?l = "\<lparr>accounts = [(''a'', \<lparr>acc_balance = 5, acc_next_seq = 3\<rparr>)]\<rparr> :: ledger"
  have w: "ledger_wf ?l" by (simp add: ledger_wf_def supply_of_def)
  show ?thesis
    by (simp add: apply_outcome [OF w] contains_account_def bt_contains_def ledger_next_seq_def
        ledger_balance_def)
qed

text \<open>The canonical genesis is accepted exactly when the accounts are distinct and the
  allocations fit in a \<open>u128\<close>; then the supply is their sum, every sequence starts at 0 and
  every balance is the allocated one.\<close>

theorem genesis_exact:
  "case try_genesis alloc of
     Inl _ \<Rightarrow> \<not> (distinct (map fst alloc) \<and> (\<Sum>(_, b) \<leftarrow> alloc. unat b) < 2 ^ 128)
   | Inr l \<Rightarrow> distinct (map fst alloc) \<and> ledger_wf l \<and> supply_of l = (\<Sum>(_, b) \<leftarrow> alloc. unat b) \<and>
       (\<forall>i. ledger_next_seq l i = 0 \<and>
            ledger_balance l i = (case map_of alloc i of None \<Rightarrow> 0 | Some b \<Rightarrow> b))"
proof -
  let ?es = "map (\<lambda>(i, b). (i, b, 0::u64)) alloc"
  have res: "try_genesis alloc = Inr l \<longleftrightarrow> restore ?es = Inr l" for l
    by (simp add: try_genesis_def restore_def try_genesis_loop_restore)
  have keys: "map fst ?es = map fst alloc" by (simp add: comp_def split_def)
  have sums: "(\<Sum>(_, b, _) \<leftarrow> ?es. unat b) = (\<Sum>(_, b) \<leftarrow> alloc. unat b)"
    by (simp add: comp_def split_def)
  show ?thesis
  proof (cases "try_genesis alloc")
    case (Inl e)
    have "restore ?es \<noteq> Inr l" for l using res [of l] Inl by simp
    then show ?thesis using Inl unfolding restore_def restore_loop_iff keys sums by auto
  next
    case (Inr l)
    then have r: "restore ?es = Inr l" by (simp add: res)
    then have dist: "distinct (map fst alloc)" unfolding restore_def restore_loop_iff keys by simp
    have acc: "map_of (map mk_account ?es) i
        = map_option (\<lambda>b. \<lparr>acc_balance = b, acc_next_seq = 0\<rparr>) (map_of alloc i)" for i
      by (induction alloc) auto
    have look: "map_of (accounts l) i
        = map_option (\<lambda>b. \<lparr>acc_balance = b, acc_next_seq = 0\<rparr>) (map_of alloc i)" for i
      using restore_Inr [OF r] map_of_put_all_distinct [of "map mk_account ?es" "[]"] dist acc [of i]
      by (simp add: bt_collect_def comp_def split_def)
    have q: "ledger_next_seq l i = 0 \<and>
        ledger_balance l i = (case map_of alloc i of None \<Rightarrow> 0 | Some b \<Rightarrow> b)" for i
      by (simp add: ledger_next_seq_def ledger_balance_def look split: option.splits)
    have "ledger_wf l" "supply_of l = (\<Sum>(_, b) \<leftarrow> alloc. unat b)"
      using restore_Inr [OF r] unfolding sums by blast+
    then show ?thesis by (simp add: Inr q dist)
  qed
qed

end
