(* ===== verification/Bytes.thy ===== *)
theory Bytes
  imports Prelude
begin

text \<open>
  Byte-level vocabulary: little- and big-endian integers, strings as byte sequences with
  Rust's UTF-8 validity, length prefixes, and the interface every decoder of the wire format
  satisfies: \<open>codec\<close>, a writer and a reader that consumes exactly what was written.
\<close>

section \<open>Integers\<close>

fun le_bytes :: "nat \<Rightarrow> nat \<Rightarrow> bytes" where
  "le_bytes 0 x = []"
| "le_bytes (Suc n) x = of_nat (x mod 256) # le_bytes n (x div 256)"

fun le_nat :: "bytes \<Rightarrow> nat" where
  "le_nat [] = 0"
| "le_nat (b # bs) = unat b + 256 * le_nat bs"

definition u64_le :: "u64 \<Rightarrow> bytes" where "u64_le w = le_bytes 8 (unat w)"
definition u128_le :: "u128 \<Rightarrow> bytes" where "u128_le w = le_bytes 16 (unat w)"
definition u32_be :: "u32 \<Rightarrow> bytes" where "u32_be w = rev (le_bytes 4 (unat w))"
definition u64_be :: "u64 \<Rightarrow> bytes" where "u64_be w = rev (le_bytes 8 (unat w))"
definition u128_be :: "u128 \<Rightarrow> bytes" where "u128_be w = rev (le_bytes 16 (unat w))"

text \<open>\<open>len as u64\<close>, \<open>len as u32\<close>: a \<open>usize\<close> narrowed to the width, wrapping.\<close>

definition len64 :: "nat \<Rightarrow> bytes" where "len64 n = u64_le (of_nat n)"
definition len32_be :: "nat \<Rightarrow> bytes" where "len32_be n = u32_be (of_nat n)"

section \<open>Strings\<close>

text \<open>A Rust \<open>String\<close> is its UTF-8 bytes; Isabelle's \<^typ>\<open>string\<close> carries one byte per character.\<close>

definition as_bytes :: "string \<Rightarrow> bytes" where
  "as_bytes s = map (\<lambda>c. of_nat (of_char c)) s"

definition of_bytes :: "bytes \<Rightarrow> string" where
  "of_bytes bs = map (\<lambda>b. char_of (unat b)) bs"

text \<open>A digit of \<open>{:x}\<close>.\<close>

definition hex_digit :: "nat \<Rightarrow> char" where
  "hex_digit d = (if d < 10 then char_of (48 + d) else char_of (87 + d))"

text \<open>\<open>{}\<close> of an unsigned integer.\<close>

fun dec_string :: "nat \<Rightarrow> string" where
  "dec_string n = (if n < 10 then [char_of (48 + n)] else dec_string (n div 10) @ [char_of (48 + n mod 10)])"

declare dec_string.simps [simp del]

definition in_range :: "u8 \<Rightarrow> nat \<Rightarrow> nat \<Rightarrow> bool" where
  "in_range b lo hi \<longleftrightarrow> lo \<le> unat b \<and> unat b \<le> hi"

definition utf8_cont :: "u8 \<Rightarrow> bool" where
  "utf8_cont b = in_range b 128 191"

text \<open>\<open>str::from_utf8\<close>: shortest forms only, no surrogates, at most U+10FFFF.\<close>

function utf8_valid :: "bytes \<Rightarrow> bool" where
  "utf8_valid bs =
     (case bs of
        [] \<Rightarrow> True
      | a # r \<Rightarrow>
         if unat a < 128 then utf8_valid r
         else (case r of
             [] \<Rightarrow> False
           | b # r \<Rightarrow>
              if in_range a 194 223 then utf8_cont b \<and> utf8_valid r
              else (case r of
                  [] \<Rightarrow> False
                | c # r \<Rightarrow>
                   if in_range a 224 239
                   then in_range b (if unat a = 224 then 160 else 128) (if unat a = 237 then 159 else 191)
                        \<and> utf8_cont c \<and> utf8_valid r
                   else (case r of
                       [] \<Rightarrow> False
                     | d # r \<Rightarrow>
                        in_range a 240 244
                        \<and> in_range b (if unat a = 240 then 144 else 128) (if unat a = 244 then 143 else 191)
                        \<and> utf8_cont c \<and> utf8_cont d \<and> utf8_valid r))))"
  by pat_completeness auto
termination
  by (relation "measure length") auto

declare utf8_valid.simps [simp del]

text \<open>What Rust's type system guarantees of every \<open>String\<close>.\<close>

definition str_ok :: "string \<Rightarrow> bool" where
  "str_ok s \<longleftrightarrow> utf8_valid (as_bytes s) \<and> length s < 2 ^ 63"

section \<open>Length-prefixed fields\<close>

definition put_bytes :: "bytes \<Rightarrow> bytes" where
  "put_bytes bs = len64 (length bs) @ bs"

definition put_str :: "string \<Rightarrow> bytes" where
  "put_str s = put_bytes (as_bytes s)"

text \<open>A byte-string literal with its terminating zero byte, as in the domain tags.\<close>

definition domain_tag :: "string \<Rightarrow> bytes" where
  "domain_tag s = as_bytes s @ [0]"

section \<open>Lemmas\<close>

lemma length_le_bytes [simp]: "length (le_bytes n x) = n"
  by (induction n arbitrary: x) auto

lemma le_nat_le_bytes: "x < 256 ^ n \<Longrightarrow> le_nat (le_bytes n x) = x"
proof (induction n arbitrary: x)
  case (Suc n)
  have "x div 256 < 256 ^ n"
    using Suc.prems by (simp add: div_less_iff_less_mult mult.commute)
  moreover have "unat (of_nat (x mod 256) :: u8) = x mod 256"
    by (simp add: unat_of_nat)
  ultimately show ?case using Suc.IH by simp
qed simp

lemma le_bytes_le_nat: "le_bytes (length bs) (le_nat bs) = bs"
proof (induction bs)
  case (Cons b bs)
  have b: "unat b < 256" using unsigned_less [where ?'a = nat, of b] by simp
  then have "(unat b + 256 * le_nat bs) mod 256 = unat b" "(unat b + 256 * le_nat bs) div 256 = le_nat bs"
    by auto
  with Cons show ?case by simp
qed simp

lemma le_bytes_inj: "x < 256 ^ n \<Longrightarrow> y < 256 ^ n \<Longrightarrow> le_bytes n x = le_bytes n y \<longleftrightarrow> x = y"
  by (metis le_nat_le_bytes)

lemma u64_bound: "unat (w::u64) < 256 ^ 8"
  using unsigned_less [where ?'a = nat, of w] by simp

lemma u128_bound: "unat (w::u128) < 256 ^ 16"
  using unsigned_less [where ?'a = nat, of w] by simp

lemma u32_bound: "unat (w::u32) < 256 ^ 4"
  using unsigned_less [where ?'a = nat, of w] by simp

lemma length_ints [simp]:
  "length (u64_le w) = 8" "length (u128_le v) = 16" "length (u32_be x) = 4"
  "length (u64_be w) = 8" "length (u128_be v) = 16"
  "length (len64 n) = 8" "length (len32_be n) = 4"
  by (simp_all add: u64_le_def u128_le_def u32_be_def u64_be_def u128_be_def len64_def len32_be_def)

lemma ints_inj [simp]:
  "u64_le a = u64_le b \<longleftrightarrow> a = b" "u128_le c = u128_le d \<longleftrightarrow> c = d"
  "u32_be e = u32_be f \<longleftrightarrow> e = f" "u64_be a = u64_be b \<longleftrightarrow> a = b" "u128_be c = u128_be d \<longleftrightarrow> c = d"
  unfolding u64_le_def u128_le_def u32_be_def u64_be_def u128_be_def rev_is_rev_conv
  by (simp_all only: le_bytes_inj [OF u64_bound u64_bound] le_bytes_inj [OF u128_bound u128_bound]
      le_bytes_inj [OF u32_bound u32_bound] word_unat_eq_iff [symmetric])

lemma le_nat_ints [simp]:
  "of_nat (le_nat (u64_le w)) = w" "of_nat (le_nat (u128_le v)) = v"
  "of_nat (le_nat (rev (u32_be x))) = x" "of_nat (le_nat (rev (u64_be w))) = w"
  "of_nat (le_nat (rev (u128_be v))) = v"
  using u64_bound [of w] u128_bound [of v] u32_bound [of x]
  by (simp_all add: u64_le_def u128_le_def u32_be_def u64_be_def u128_be_def le_nat_le_bytes)

lemma len64_inj: "a < 2 ^ 64 \<Longrightarrow> b < 2 ^ 64 \<Longrightarrow> len64 a = len64 b \<longleftrightarrow> a = b"
  by (auto simp: len64_def word_unat_eq_iff unat_of_nat)

lemma length_as_bytes [simp]: "length (as_bytes s) = length s"
  by (simp add: as_bytes_def)

lemma of_bytes_as_bytes [simp]: "of_bytes (as_bytes s) = s"
proof -
  have "char_of (unat (of_nat (of_char c) :: u8)) = c" for c :: char
    by (simp add: unat_of_nat)
  then show ?thesis by (simp add: of_bytes_def as_bytes_def comp_def)
qed

lemma as_bytes_inj [simp]: "as_bytes a = as_bytes b \<longleftrightarrow> a = b"
  by (metis of_bytes_as_bytes)

lemma append_eq_same_length: "length a = length b \<Longrightarrow> a @ r = b @ s \<longleftrightarrow> a = b \<and> r = s"
  by simp

lemma put_bytes_prefix:
  assumes "length a < 2 ^ 64" and "length b < 2 ^ 64"
  shows "put_bytes a @ r = put_bytes b @ s \<longleftrightarrow> a = b \<and> r = s"
proof
  assume eq: "put_bytes a @ r = put_bytes b @ s"
  then have "len64 (length a) = len64 (length b)" and rest: "a @ r = b @ s"
    by (simp_all add: put_bytes_def)
  then have "length a = length b" using assms by (simp add: len64_inj)
  with rest show "a = b \<and> r = s" by simp
qed simp

lemma put_str_prefix:
  "length a < 2 ^ 64 \<Longrightarrow> length b < 2 ^ 64 \<Longrightarrow> put_str a @ r = put_str b @ s \<longleftrightarrow> a = b \<and> r = s"
  by (simp add: put_str_def put_bytes_prefix)

lemma put_str_ok_prefix [simp]:
  "str_ok a \<Longrightarrow> str_ok b \<Longrightarrow> put_bytes (as_bytes a) @ r = put_bytes (as_bytes b) @ s \<longleftrightarrow> a = b \<and> r = s"
  by (simp add: put_bytes_prefix str_ok_def)

lemma as_bytes_of_bytes [simp]: "as_bytes (of_bytes bs) = bs"
proof -
  have "(of_nat (of_char (char_of (unat b) :: char)) :: u8) = b" for b :: u8
    using unsigned_less [where ?'a = nat, of b] by (simp add: word_unat_eq_iff unat_of_nat)
  then show ?thesis by (simp add: of_bytes_def as_bytes_def comp_def)
qed

lemma utf8_ascii: "\<forall>b \<in> set bs. unat b < 128 \<Longrightarrow> utf8_valid bs"
proof (induction bs)
  case Nil
  then show ?case by (subst utf8_valid.simps) simp
next
  case (Cons b bs)
  then show ?case by (subst utf8_valid.simps) simp
qed

section \<open>The codec interface\<close>

text \<open>Reading \<open>n\<close> items one after the other, stopping at the first error.\<close>

fun take_items :: "(bytes \<Rightarrow> 'e + ('a \<times> bytes)) \<Rightarrow> nat \<Rightarrow> bytes \<Rightarrow> 'e + ('a list \<times> bytes)" where
  "take_items rd 0 inp = Inr ([], inp)"
| "take_items rd (Suc n) inp =
     rbind (rd inp) (\<lambda>(x, inp). rbind (take_items rd n inp) (\<lambda>(xs, inp). Inr (x # xs, inp)))"

text \<open>
  The reader accepts exactly the encodings of acceptable values, each followed by the rest of
  the input: reading inverts writing, and there is no second encoding of a value.
\<close>

locale codec =
  fixes wr :: "'a \<Rightarrow> bytes"
    and rd :: "bytes \<Rightarrow> 'e + ('a \<times> bytes)"
    and ok :: "'a \<Rightarrow> bool"
  assumes rd_iff: "rd inp = Inr (x, rest) \<longleftrightarrow> ok x \<and> inp = wr x @ rest"
begin

lemma rd_wr: "ok x \<Longrightarrow> rd (wr x @ rest) = Inr (x, rest)"
  by (simp add: rd_iff)

lemma rd_wr_exact: "ok x \<Longrightarrow> rd (wr x) = Inr (x, [])"
  using rd_wr [of x "[]"] by simp

text \<open>A writer with a reader is prefix-free, hence injective.\<close>

lemma wr_prefix_free:
  assumes "ok x" and "ok y" and "wr x @ r = wr y @ s"
  shows "x = y \<and> r = s"
proof -
  have "Inr (x, r) = rd (wr x @ r)" by (rule rd_wr [OF assms(1), symmetric])
  also have "\<dots> = rd (wr y @ s)" by (simp only: assms(3))
  also have "\<dots> = Inr (y, s)" by (rule rd_wr [OF assms(2)])
  finally show ?thesis by simp
qed

lemma wr_inj: "ok x \<Longrightarrow> ok y \<Longrightarrow> wr x = wr y \<Longrightarrow> x = y"
  using wr_prefix_free [of x y "[]" "[]"] by simp

lemma take_items_iff:
  "take_items rd n inp = Inr (xs, rest) \<longleftrightarrow>
     length xs = n \<and> (\<forall>x \<in> set xs. ok x) \<and> inp = concat (map wr xs) @ rest"
proof (induction n arbitrary: inp xs)
  case 0
  then show ?case by auto
next
  case (Suc n)
  have "take_items rd (Suc n) inp = Inr (xs, rest) \<longleftrightarrow>
      (\<exists>x ys r. xs = x # ys \<and> rd inp = Inr (x, r) \<and> take_items rd n r = Inr (ys, rest))"
    by (force simp: rbind_eq_Inr)
  also have "\<dots> \<longleftrightarrow> (\<exists>x ys r. xs = x # ys \<and> (ok x \<and> inp = wr x @ r) \<and>
      length ys = n \<and> (\<forall>y \<in> set ys. ok y) \<and> r = concat (map wr ys) @ rest)"
    by (simp only: rd_iff Suc.IH)
  also have "\<dots> \<longleftrightarrow> length xs = Suc n \<and> (\<forall>x \<in> set xs. ok x) \<and> inp = concat (map wr xs) @ rest"
    by (cases xs) auto
  finally show ?case .
qed

end

end
