(* ===== verification/Crypto.thy ===== *)
theory Crypto
  imports Bytes
begin

text \<open>
  The cryptographic libraries the crate links (\<open>sha2\<close>, \<open>ed25519-dalek\<close>) are parameters of the
  model: a record of functions passed to every definition that uses them. \<open>crypto_ok\<close> states
  the documented behaviour the code relies on. Keys, signatures and digests are byte lists.
\<close>

record crypto =
  sha256 :: "bytes \<Rightarrow> bytes"
  ed_public :: "bytes \<Rightarrow> bytes"
  ed_sign :: "bytes \<Rightarrow> bytes \<Rightarrow> bytes"
  ed_verify :: "bytes \<Rightarrow> bytes \<Rightarrow> bytes \<Rightarrow> bool"
  ed_verify_strict :: "bytes \<Rightarrow> bytes \<Rightarrow> bytes \<Rightarrow> bool"
  vk_parses :: "bytes \<Rightarrow> bool"

text \<open>
  Digest, key and signature lengths; a public key parses back; a signature made with a key
  verifies under its public key, strictly or not.
\<close>

definition crypto_ok :: "crypto \<Rightarrow> bool" where
  "crypto_ok cr \<longleftrightarrow>
     (\<forall>b. length (sha256 cr b) = 32) \<and>
     (\<forall>sk. length (ed_public cr sk) = 32 \<and> vk_parses cr (ed_public cr sk)) \<and>
     (\<forall>sk m. length (ed_sign cr sk m) = 64) \<and>
     (\<forall>sk m. ed_verify cr (ed_public cr sk) m (ed_sign cr sk m)) \<and>
     (\<forall>sk m. ed_verify_strict cr (ed_public cr sk) m (ed_sign cr sk m))"

text \<open>
  A concrete instance for the witnesses: it satisfies \<open>crypto_ok\<close> and is evaluated by the
  kernel. A signature is the public key followed by 32 bytes of a checksum of the message.
\<close>

definition pad_to :: "nat \<Rightarrow> bytes \<Rightarrow> bytes" where
  "pad_to n bs = take n (bs @ replicate n 0)"

definition checksum :: "bytes \<Rightarrow> u8" where
  "checksum bs = foldl (\<lambda>h b. 31 * h + b) 7 bs"

definition demo_crypto :: crypto where
  "demo_crypto =
     \<lparr>sha256 = (\<lambda>b. pad_to 32 [checksum b]),
      ed_public = pad_to 32,
      ed_sign = (\<lambda>sk m. pad_to 32 sk @ pad_to 32 [checksum m]),
      ed_verify = (\<lambda>k m s. s = k @ pad_to 32 [checksum m]),
      ed_verify_strict = (\<lambda>k m s. s = k @ pad_to 32 [checksum m]),
      vk_parses = (\<lambda>k. length k = 32)\<rparr>"

lemma length_pad_to [simp]: "length (pad_to n bs) = n"
  by (simp add: pad_to_def)

lemma demo_crypto_ok: "crypto_ok demo_crypto"
  by (simp add: crypto_ok_def demo_crypto_def)

lemma crypto_lengths:
  assumes "crypto_ok cr"
  shows "length (sha256 cr b) = 32" and "length (ed_public cr sk) = 32" and "length (ed_sign cr sk m) = 64"
    and "vk_parses cr (ed_public cr sk)"
  using assms by (simp_all add: crypto_ok_def)

lemma crypto_complete:
  assumes "crypto_ok cr"
  shows "ed_verify cr (ed_public cr sk) m (ed_sign cr sk m)"
    and "ed_verify_strict cr (ed_public cr sk) m (ed_sign cr sk m)"
  using assms by (simp_all add: crypto_ok_def)

end
