(* ===== verification/Owner.thy ===== *)
theory Owner
  imports Ledger Crypto
begin

text \<open>
  The owner-authentication boundary of \<open>333-transfer/src/owner.rs\<close>: network and policy
  identifiers, the owner registry, the transfer policy, owner-signed orders with a re-vote
  round, the canonical bytes an owner signs, and the order digest. The lemmas show that those
  bytes determine every field, so that a signature cannot be moved to another order.
\<close>

section \<open>Identifiers\<close>

definition OWNER_INTENT_DOMAIN :: bytes where
  "OWNER_INTENT_DOMAIN = domain_tag ''transfer333/owner-intent/v2''"
definition POLICY_ID_DOMAIN :: bytes where
  "POLICY_ID_DOMAIN = domain_tag ''transfer333/owner-policy-id/v1''"
definition ORDER_ID_DOMAIN :: bytes where
  "ORDER_ID_DOMAIN = domain_tag ''transfer333/order-id/v2''"

definition MAX_NETWORK_ID_BYTES :: nat where "MAX_NETWORK_ID_BYTES = 128"
definition MAX_ACCOUNT_ID_BYTES :: nat where "MAX_ACCOUNT_ID_BYTES = 256"

datatype policy_id = PolicyId (policy_bytes: bytes)

datatype network_id = NetworkId (network_str: string)

datatype network_id_error = NetworkEmpty | NetworkTooLong nat nat

definition network_id_new :: "string \<Rightarrow> network_id_error + network_id" where
  "network_id_new v =
     (if v = [] then Inl NetworkEmpty
      else if length v > MAX_NETWORK_ID_BYTES then Inl (NetworkTooLong (length v) MAX_NETWORK_ID_BYTES)
      else Inr (NetworkId v))"

section \<open>Owner registry\<close>

record owner_registry =
  or_keys :: "(account_id, bytes) btree"

datatype owner_registry_error =
    RegistryEmpty
  | EmptyAccount
  | AccountTooLong account_id nat nat
  | DuplicateOwner account_id

fun owner_registry_loop ::
    "(account_id, bytes) btree \<Rightarrow> (account_id \<times> bytes) list \<Rightarrow> owner_registry_error + owner_registry" where
  "owner_registry_loop keys [] =
     (if keys = [] then Inl RegistryEmpty else Inr \<lparr>or_keys = keys\<rparr>)"
| "owner_registry_loop keys ((account, key) # bs) =
     (if account = [] then Inl EmptyAccount
      else if length account > MAX_ACCOUNT_ID_BYTES
        then Inl (AccountTooLong account (length account) MAX_ACCOUNT_ID_BYTES)
      else if bt_contains keys account then Inl (DuplicateOwner account)
      else owner_registry_loop (bt_insert account key keys) bs)"

definition owner_registry_new :: "(account_id \<times> bytes) list \<Rightarrow> owner_registry_error + owner_registry" where
  "owner_registry_new bs = owner_registry_loop [] bs"

definition owner_contains :: "owner_registry \<Rightarrow> account_id \<Rightarrow> bool" where
  "owner_contains r a = bt_contains (or_keys r) a"

definition owner_key_of :: "owner_registry \<Rightarrow> account_id \<Rightarrow> bytes option" where
  "owner_key_of r a = map_of (or_keys r) a"

section \<open>Orders\<close>

record signed_transfer =
  st_network_id :: network_id
  st_policy_id :: policy_id
  st_transfer :: transfer
  st_round :: u64
  st_owner_signature :: bytes

datatype owner_auth_error =
    WrongNetwork network_id network_id
  | WrongPolicy policy_id policy_id
  | OwnerUnknownSender account_id
  | UnknownRecipient account_id
  | InvalidOwnerSignature account_id

definition put_network_transfer_body :: "network_id \<Rightarrow> transfer \<Rightarrow> u64 \<Rightarrow> bytes" where
  "put_network_transfer_body n t rnd =
     put_bytes (as_bytes (network_str n)) @ put_bytes (as_bytes (tr_from t)) @ u64_le (tr_from_seq t)
     @ u64_le rnd @ put_bytes (as_bytes (tr_to t)) @ u128_le (tr_amount t)"

definition owner_signing_message :: "policy_id \<Rightarrow> network_id \<Rightarrow> transfer \<Rightarrow> u64 \<Rightarrow> bytes" where
  "owner_signing_message p n t rnd =
     OWNER_INTENT_DOMAIN @ policy_bytes p @ put_network_transfer_body n t rnd"

section \<open>Policy\<close>

record transfer_policy =
  tp_network_id :: network_id
  tp_owners :: owner_registry
  tp_id :: policy_id

definition policy_id_of :: "crypto \<Rightarrow> network_id \<Rightarrow> owner_registry \<Rightarrow> policy_id" where
  "policy_id_of cr n owners =
     PolicyId (sha256 cr (POLICY_ID_DOMAIN @ put_bytes (as_bytes (network_str n))
       @ concat (map (\<lambda>(a, key). put_bytes (as_bytes a) @ key) (or_keys owners))))"

definition transfer_policy_new :: "crypto \<Rightarrow> network_id \<Rightarrow> owner_registry \<Rightarrow> transfer_policy" where
  "transfer_policy_new cr n owners =
     \<lparr>tp_network_id = n, tp_owners = owners, tp_id = policy_id_of cr n owners\<rparr>"

definition policy_validate :: "crypto \<Rightarrow> transfer_policy \<Rightarrow> signed_transfer \<Rightarrow> owner_auth_error + unit" where
  "policy_validate cr p ord =
     (if st_network_id ord \<noteq> tp_network_id p
      then Inl (WrongNetwork (tp_network_id p) (st_network_id ord))
      else if st_policy_id ord \<noteq> tp_id p
      then Inl (WrongPolicy (tp_id p) (st_policy_id ord))
      else (case owner_key_of (tp_owners p) (tr_from (st_transfer ord)) of
          None \<Rightarrow> Inl (OwnerUnknownSender (tr_from (st_transfer ord)))
        | Some key \<Rightarrow>
           if \<not> owner_contains (tp_owners p) (tr_to (st_transfer ord))
           then Inl (UnknownRecipient (tr_to (st_transfer ord)))
           else if ed_verify_strict cr key
                  (owner_signing_message (st_policy_id ord) (st_network_id ord) (st_transfer ord) (st_round ord))
                  (st_owner_signature ord)
           then Inr ()
           else Inl (InvalidOwnerSignature (tr_from (st_transfer ord)))))"

definition order_verify :: "crypto \<Rightarrow> signed_transfer \<Rightarrow> transfer_policy \<Rightarrow> owner_auth_error + unit" where
  "order_verify cr ord p = policy_validate cr p ord"

definition sign_at_round :: "crypto \<Rightarrow> transfer_policy \<Rightarrow> transfer \<Rightarrow> u64 \<Rightarrow> bytes \<Rightarrow> signed_transfer" where
  "sign_at_round cr p t rnd sk =
     \<lparr>st_network_id = tp_network_id p, st_policy_id = tp_id p, st_transfer = t, st_round = rnd,
      st_owner_signature = ed_sign cr sk (owner_signing_message (tp_id p) (tp_network_id p) t rnd)\<rparr>"

definition sign_order :: "crypto \<Rightarrow> transfer_policy \<Rightarrow> transfer \<Rightarrow> bytes \<Rightarrow> signed_transfer" where
  "sign_order cr p t sk = sign_at_round cr p t 0 sk"

definition order_id :: "crypto \<Rightarrow> signed_transfer \<Rightarrow> bytes" where
  "order_id cr ord =
     sha256 cr (ORDER_ID_DOMAIN @ policy_bytes (st_policy_id ord)
       @ put_network_transfer_body (st_network_id ord) (st_transfer ord) (st_round ord)
       @ st_owner_signature ord)"

section \<open>Lemmas\<close>

text \<open>Rust's type invariants: strings are bounded, identifiers are 32 bytes, signatures 64.\<close>

definition transfer_ok :: "transfer \<Rightarrow> bool" where
  "transfer_ok t \<longleftrightarrow> str_ok (tr_from t) \<and> str_ok (tr_to t)"

definition order_ok :: "signed_transfer \<Rightarrow> bool" where
  "order_ok ord \<longleftrightarrow> str_ok (network_str (st_network_id ord)) \<and> length (policy_bytes (st_policy_id ord)) = 32 \<and>
     transfer_ok (st_transfer ord) \<and> length (st_owner_signature ord) = 64"

lemma str_ok_len: "str_ok s \<Longrightarrow> length s < 2 ^ 64"
  by (simp add: str_ok_def)

text \<open>The canonical body determines the network, the transfer and the round, and leaves the rest.\<close>

lemma body_prefix_free:
  assumes "str_ok (network_str n)" "str_ok (network_str n')" "transfer_ok t" "transfer_ok t'"
    and eq: "put_network_transfer_body n t r @ u = put_network_transfer_body n' t' r' @ u'"
  shows "n = n' \<and> t = t' \<and> r = r' \<and> u = u'"
proof -
  from eq assms have "network_str n = network_str n' \<and> tr_from t = tr_from t' \<and> tr_from_seq t = tr_from_seq t'
      \<and> r = r' \<and> tr_to t = tr_to t' \<and> tr_amount t = tr_amount t' \<and> u = u'"
    by (simp add: put_network_transfer_body_def transfer_ok_def)
  then show ?thesis by (auto intro: network_id.expand)
qed

lemma owner_message_inj:
  assumes "length (policy_bytes p) = 32" "length (policy_bytes p') = 32"
    and "str_ok (network_str n)" "str_ok (network_str n')" "transfer_ok t" "transfer_ok t'"
    and "owner_signing_message p n t r = owner_signing_message p' n' t' r'"
  shows "p = p' \<and> n = n' \<and> t = t' \<and> r = r'"
  using assms body_prefix_free [of n n' t t' r "[]" r' "[]"]
  by (auto simp: owner_signing_message_def intro: policy_id.expand)

lemma policy_validate_ok:
  "policy_validate cr p ord = Inr () \<longleftrightarrow>
     st_network_id ord = tp_network_id p \<and> st_policy_id ord = tp_id p \<and>
     owner_contains (tp_owners p) (tr_to (st_transfer ord)) \<and>
     (\<exists>key. owner_key_of (tp_owners p) (tr_from (st_transfer ord)) = Some key \<and>
        ed_verify_strict cr key
          (owner_signing_message (st_policy_id ord) (st_network_id ord) (st_transfer ord) (st_round ord))
          (st_owner_signature ord))"
  by (auto simp: policy_validate_def split: option.splits)

lemma sign_at_round_verifies:
  assumes "crypto_ok cr" and "owner_key_of (tp_owners p) (tr_from t) = Some (ed_public cr sk)"
    and "owner_contains (tp_owners p) (tr_to t)"
  shows "order_verify cr (sign_at_round cr p t rnd sk) p = Inr ()"
  using assms crypto_complete [OF assms(1)]
  by (simp add: order_verify_def policy_validate_ok sign_at_round_def)

lemma owner_registry_loop_ok:
  "owner_registry_loop keys bs = Inr r \<Longrightarrow> bt_wf keys \<Longrightarrow> bt_wf (or_keys r) \<and> or_keys r \<noteq> []"
  by (induction keys bs rule: owner_registry_loop.induct) (auto split: if_splits)

end
