(* ===== verification/Committee.thy ===== *)
theory Committee
  imports Owner
begin

text \<open>
  Committees, votes and certificates of \<open>333-transfer/src/authority.rs\<close>, the certified entry
  points of the ledger in \<open>333-transfer/src/lib.rs\<close>, and the effect certificates of
  \<open>333-transfer/src/effect.rs\<close>. The interface \<open>quorum_system\<close> carries the intersection
  argument once; it is interpreted on the code's \<open>quorum\<close>.
\<close>

section \<open>Quorum\<close>

text \<open>\<open>n == 0\<close> returns 1; otherwise \<open>n - f\<close> with \<open>f = (n - 1) / 3\<close>.\<close>

definition quorum :: "nat \<Rightarrow> nat" where
  "quorum n = (if n = 0 then 1 else let f = (n - 1) div 3 in n - f)"

text \<open>The Byzantine budget the threshold is designed for.\<close>

definition fault_budget :: "nat \<Rightarrow> nat" where
  "fault_budget n = (n - 1) div 3"

section \<open>Committees\<close>

definition AUTHORITY_VOTE_DOMAIN :: bytes where
  "AUTHORITY_VOTE_DOMAIN = domain_tag ''transfer333/authority-vote/v5''"
definition COMMITTEE_ID_DOMAIN :: bytes where
  "COMMITTEE_ID_DOMAIN = domain_tag ''transfer333/committee-id/v1''"
definition MAX_COMMITTEE_MEMBERS :: nat where "MAX_COMMITTEE_MEMBERS = 1024"
definition MAX_AUTHORITY_ID_BYTES :: nat where "MAX_AUTHORITY_ID_BYTES = 256"

type_synonym authority_id = string

datatype committee_id = CommitteeId (committee_bytes: bytes)

record committee =
  cm_members :: "(authority_id, bytes) btree"
  cm_policy :: transfer_policy
  cm_id :: committee_id
  cm_epoch :: u64

definition committee_id_of :: "crypto \<Rightarrow> policy_id \<Rightarrow> (authority_id, bytes) btree \<Rightarrow> committee_id" where
  "committee_id_of cr p members =
     CommitteeId (sha256 cr (COMMITTEE_ID_DOMAIN @ policy_bytes p @ len64 (length members)
       @ concat (map (\<lambda>(a, key). len64 (length a) @ as_bytes a @ key) members)))"

fun with_epoch_loop ::
    "(authority_id, bytes) btree \<Rightarrow> bytes set \<Rightarrow> (authority_id \<times> bytes) list \<Rightarrow> (authority_id, bytes) btree option" where
  "with_epoch_loop roster keys [] = (if roster = [] then None else Some roster)"
| "with_epoch_loop roster keys ((a, key) # ms) =
     (if a = [] \<or> length a > MAX_AUTHORITY_ID_BYTES then None
      else if length roster = MAX_COMMITTEE_MEMBERS then None
      else if key \<in> keys then None
      else if bt_contains roster a then None
      else with_epoch_loop (bt_insert a key roster) (insert key keys) ms)"

definition committee_with_epoch ::
    "crypto \<Rightarrow> (authority_id \<times> bytes) list \<Rightarrow> transfer_policy \<Rightarrow> u64 \<Rightarrow> committee option" where
  "committee_with_epoch cr members p e =
     (case with_epoch_loop [] {} members of
        None \<Rightarrow> None
      | Some roster \<Rightarrow>
          Some \<lparr>cm_members = roster, cm_policy = p, cm_id = committee_id_of cr (tp_id p) roster, cm_epoch = e\<rparr>)"

definition committee_new ::
    "crypto \<Rightarrow> (authority_id \<times> bytes) list \<Rightarrow> transfer_policy \<Rightarrow> committee option" where
  "committee_new cr members p = committee_with_epoch cr members p 0"

definition committee_size :: "committee \<Rightarrow> nat" where
  "committee_size c = length (cm_members c)"

definition committee_quorum :: "committee \<Rightarrow> nat" where
  "committee_quorum c = quorum (committee_size c)"

definition committee_contains :: "committee \<Rightarrow> authority_id \<Rightarrow> bool" where
  "committee_contains c a = bt_contains (cm_members c) a"

definition committee_key_of :: "committee \<Rightarrow> authority_id \<Rightarrow> bytes option" where
  "committee_key_of c a = map_of (cm_members c) a"

section \<open>Votes\<close>

definition authority_signing_message ::
    "authority_id \<Rightarrow> committee_id \<Rightarrow> policy_id \<Rightarrow> network_id \<Rightarrow> transfer \<Rightarrow> u64 \<Rightarrow> bytes" where
  "authority_signing_message a c p n t rnd =
     AUTHORITY_VOTE_DOMAIN @ committee_bytes c @ len64 (length a) @ as_bytes a @ policy_bytes p
     @ put_network_transfer_body n t rnd"

record vote =
  vt_authority :: authority_id
  vt_committee_id :: committee_id
  vt_policy_id :: policy_id
  vt_network_id :: network_id
  vt_transfer :: transfer
  vt_round :: u64
  vt_signature :: bytes

datatype vote_error =
    VoteWrongCommittee committee_id committee_id
  | VoteWrongPolicy policy_id policy_id
  | VoteWrongNetwork network_id network_id
  | WrongTransfer
  | WrongRound u64 u64
  | UnknownAuthority authority_id
  | InvalidAuthoritySignature authority_id

definition vote_message :: "vote \<Rightarrow> bytes" where
  "vote_message v = authority_signing_message (vt_authority v) (vt_committee_id v) (vt_policy_id v)
     (vt_network_id v) (vt_transfer v) (vt_round v)"

definition vote_validate_for :: "crypto \<Rightarrow> vote \<Rightarrow> signed_transfer \<Rightarrow> committee \<Rightarrow> vote_error + unit" where
  "vote_validate_for cr v ord c =
     (if vt_committee_id v \<noteq> cm_id c then Inl (VoteWrongCommittee (cm_id c) (vt_committee_id v))
      else if st_policy_id ord \<noteq> tp_id (cm_policy c)
        then Inl (VoteWrongPolicy (tp_id (cm_policy c)) (st_policy_id ord))
      else if vt_policy_id v \<noteq> st_policy_id ord
        then Inl (VoteWrongPolicy (st_policy_id ord) (vt_policy_id v))
      else if vt_network_id v \<noteq> st_network_id ord
        then Inl (VoteWrongNetwork (st_network_id ord) (vt_network_id v))
      else if vt_transfer v \<noteq> st_transfer ord then Inl WrongTransfer
      else if vt_round v \<noteq> st_round ord then Inl (WrongRound (st_round ord) (vt_round v))
      else (case committee_key_of c (vt_authority v) of
          None \<Rightarrow> Inl (UnknownAuthority (vt_authority v))
        | Some key \<Rightarrow>
           if ed_verify_strict cr key (vote_message v) (vt_signature v) then Inr ()
           else Inl (InvalidAuthoritySignature (vt_authority v))))"

section \<open>Certificates\<close>

record certificate =
  ct_order :: signed_transfer
  ct_votes :: "vote list"

record verified =
  vf_order :: signed_transfer
  vf_committee_id :: committee_id

datatype certificate_error =
    CertOwnerAuth owner_auth_error
  | EmptyVotes
  | InvalidVote authority_id vote_error
  | DuplicateAuthority authority_id
  | InsufficientQuorum nat nat

fun validate_votes ::
    "crypto \<Rightarrow> signed_transfer \<Rightarrow> committee \<Rightarrow> authority_id list \<Rightarrow> vote list \<Rightarrow>
      certificate_error + authority_id list" where
  "validate_votes cr ord c seen [] = Inr seen"
| "validate_votes cr ord c seen (v # vs) =
     (case vote_validate_for cr v ord c of
        Inl e \<Rightarrow> Inl (InvalidVote (vt_authority v) e)
      | Inr _ \<Rightarrow>
         if vt_authority v \<in> set seen then Inl (DuplicateAuthority (vt_authority v))
         else validate_votes cr ord c (vt_authority v # seen) vs)"

definition certificate_validate :: "crypto \<Rightarrow> certificate \<Rightarrow> committee \<Rightarrow> certificate_error + unit" where
  "certificate_validate cr k c =
     rbind (map_err CertOwnerAuth (order_verify cr (ct_order k) (cm_policy c))) (\<lambda>_.
       if ct_votes k = [] then Inl EmptyVotes
       else rbind (validate_votes cr (ct_order k) c [] (ct_votes k)) (\<lambda>seen.
         if length seen < committee_quorum c then Inl (InsufficientQuorum (length seen) (committee_quorum c))
         else Inr ()))"

definition certificate_is_valid :: "crypto \<Rightarrow> certificate \<Rightarrow> committee \<Rightarrow> bool" where
  "certificate_is_valid cr k c = is_ok (certificate_validate cr k c)"

definition certificate_assemble ::
    "crypto \<Rightarrow> signed_transfer \<Rightarrow> vote list \<Rightarrow> committee \<Rightarrow> certificate option" where
  "certificate_assemble cr ord vs c =
     (let k = \<lparr>ct_order = ord, ct_votes = vs\<rparr> in if certificate_is_valid cr k c then Some k else None)"

definition certificate_verify :: "crypto \<Rightarrow> certificate \<Rightarrow> committee \<Rightarrow> verified option" where
  "certificate_verify cr k c =
     (if certificate_is_valid cr k c then Some \<lparr>vf_order = ct_order k, vf_committee_id = cm_id c\<rparr> else None)"

definition vf_transfer :: "verified \<Rightarrow> transfer" where
  "vf_transfer v = st_transfer (vf_order v)"

section \<open>Certified application\<close>

definition apply_certified :: "crypto \<Rightarrow> ledger \<Rightarrow> certificate \<Rightarrow> committee \<Rightarrow> reject + ledger" where
  "apply_certified cr l k c =
     (if \<not> certificate_is_valid cr k c then Inl NoCertificate
      else ledger_apply l (st_transfer (ct_order k)))"

definition apply_verified :: "crypto \<Rightarrow> ledger \<Rightarrow> verified \<Rightarrow> committee \<Rightarrow> reject + ledger" where
  "apply_verified cr l v c =
     (if vf_committee_id v \<noteq> cm_id c \<or> \<not> is_ok (order_verify cr (vf_order v) (cm_policy c))
      then Inl NoCertificate
      else ledger_apply l (vf_transfer v))"

section \<open>Effect certificates\<close>

definition EFFECT_ATTESTATION_DOMAIN :: bytes where
  "EFFECT_ATTESTATION_DOMAIN = domain_tag ''transfer333/effect-attestation/v1''"

definition effect_message :: "committee_id \<Rightarrow> account_id \<Rightarrow> u64 \<Rightarrow> bytes \<Rightarrow> bytes" where
  "effect_message c account sq oid =
     EFFECT_ATTESTATION_DOMAIN @ committee_bytes c @ len64 (length account) @ as_bytes account
     @ u64_le sq @ oid"

record effect_attestation =
  ea_authority :: authority_id
  ea_committee_id :: committee_id
  ea_account :: account_id
  ea_seq :: u64
  ea_order_id :: bytes
  ea_signature :: bytes

definition attestation_is_valid :: "crypto \<Rightarrow> effect_attestation \<Rightarrow> committee \<Rightarrow> bool" where
  "attestation_is_valid cr a c =
     (if ea_committee_id a \<noteq> cm_id c then False
      else (case committee_key_of c (ea_authority a) of
          None \<Rightarrow> False
        | Some key \<Rightarrow>
            ed_verify_strict cr key
              (effect_message (ea_committee_id a) (ea_account a) (ea_seq a) (ea_order_id a))
              (ea_signature a)))"

record effect_cert =
  ec_account :: account_id
  ec_seq :: u64
  ec_order_id :: bytes

fun effect_distinct ::
    "crypto \<Rightarrow> account_id \<Rightarrow> u64 \<Rightarrow> bytes \<Rightarrow> committee \<Rightarrow> authority_id list \<Rightarrow> effect_attestation list \<Rightarrow>
      authority_id list" where
  "effect_distinct cr account sq oid c seen [] = seen"
| "effect_distinct cr account sq oid c seen (a # as) =
     effect_distinct cr account sq oid c
       (if ea_account a = account \<and> ea_seq a = sq \<and> ea_order_id a = oid \<and> attestation_is_valid cr a c
        then List.insert (ea_authority a) seen else seen) as"

definition effect_cert_assemble ::
    "crypto \<Rightarrow> account_id \<Rightarrow> u64 \<Rightarrow> bytes \<Rightarrow> effect_attestation list \<Rightarrow> committee \<Rightarrow> effect_cert option" where
  "effect_cert_assemble cr account sq oid as c =
     (if length (effect_distinct cr account sq oid c [] as) \<ge> committee_quorum c
      then Some \<lparr>ec_account = account, ec_seq = sq, ec_order_id = oid\<rparr> else None)"

definition is_final_effectcert ::
    "crypto \<Rightarrow> account_id \<Rightarrow> u64 \<Rightarrow> bytes \<Rightarrow> effect_attestation list \<Rightarrow> committee \<Rightarrow> bool" where
  "is_final_effectcert cr account sq oid as c \<longleftrightarrow> effect_cert_assemble cr account sq oid as c \<noteq> None"

section \<open>The quorum interface\<close>

text \<open>
  A threshold so large that two sets of that size overlap in more members than the fault
  budget allows to misbehave.
\<close>

locale quorum_system =
  fixes members :: "'a set" and thr :: nat and faults :: nat
  assumes finite_members: "finite members"
    and overlap: "card members + faults < 2 * thr"
begin

lemma intersection_exceeds_faults:
  assumes "Q \<subseteq> members" "Q' \<subseteq> members" "thr \<le> card Q" "thr \<le> card Q'"
  shows "faults < card (Q \<inter> Q')"
proof -
  have fin: "finite Q" "finite Q'" using assms finite_members finite_subset by blast+
  have "card Q + card Q' = card (Q \<union> Q') + card (Q \<inter> Q')"
    using card_Un_Int [OF fin] .
  moreover have "card (Q \<union> Q') \<le> card members"
    using assms finite_members by (intro card_mono) auto
  ultimately show ?thesis using assms overlap by linarith
qed

lemma honest_intersection:
  assumes "Q \<subseteq> members" "Q' \<subseteq> members" "thr \<le> card Q" "thr \<le> card Q'"
    and "finite B" "card B \<le> faults"
  shows "\<exists>h. h \<in> Q \<and> h \<in> Q' \<and> h \<notin> B"
proof (rule ccontr)
  assume "\<not> ?thesis"
  then have "card (Q \<inter> Q') \<le> card B" using assms(5) by (intro card_mono) auto
  with intersection_exceeds_faults [OF assms(1-4)] assms(6) show False by linarith
qed

end

lemma quorum_overlap: "n + fault_budget n < 2 * quorum n"
  by (auto simp: quorum_def fault_budget_def Let_def)

interpretation cq: quorum_system "set (map fst (cm_members c))" "committee_quorum c" "fault_budget (committee_size c)"
  for c
proof unfold_locales
  show "card (set (map fst (cm_members c))) + fault_budget (committee_size c) < 2 * committee_quorum c"
    using quorum_overlap [of "committee_size c"] card_length [of "map fst (cm_members c)"]
    by (simp add: committee_size_def committee_quorum_def)
qed simp

section \<open>Lemmas\<close>

subsection \<open>Messages\<close>

lemma authority_message_inj:
  assumes "length (committee_bytes c) = 32" "length (committee_bytes c') = 32"
    and "str_ok a" "str_ok a'" "length (policy_bytes p) = 32" "length (policy_bytes p') = 32"
    and "str_ok (network_str n)" "str_ok (network_str n')" "transfer_ok t" "transfer_ok t'"
    and eq: "authority_signing_message a c p n t r = authority_signing_message a' c' p' n' t' r'"
  shows "a = a' \<and> c = c' \<and> p = p' \<and> n = n' \<and> t = t' \<and> r = r'"
proof -
  from eq have "committee_bytes c @ put_bytes (as_bytes a) @ policy_bytes p @ put_network_transfer_body n t r
      = committee_bytes c' @ put_bytes (as_bytes a') @ policy_bytes p' @ put_network_transfer_body n' t' r'"
    by (simp add: authority_signing_message_def put_bytes_def)
  then have "committee_bytes c = committee_bytes c'" "a = a'" "policy_bytes p = policy_bytes p'"
    "put_network_transfer_body n t r @ [] = put_network_transfer_body n' t' r' @ []"
    using assms(1-6) by auto
  then show ?thesis
    using body_prefix_free [OF assms(7-10), of r "[]" r' "[]"] by (auto intro: committee_id.expand policy_id.expand)
qed

lemma effect_message_inj:
  assumes "length (committee_bytes c) = 32" "length (committee_bytes c') = 32"
    and "str_ok a" "str_ok a'" "effect_message c a s oid = effect_message c' a' s' oid'"
  shows "c = c' \<and> a = a' \<and> s = s' \<and> oid = oid'"
proof -
  from assms(5) have "committee_bytes c @ put_bytes (as_bytes a) @ u64_le s @ oid
      = committee_bytes c' @ put_bytes (as_bytes a') @ u64_le s' @ oid'"
    by (simp add: effect_message_def put_bytes_def)
  then show ?thesis using assms(1-4) by (auto intro: committee_id.expand)
qed

subsection \<open>Validation\<close>

definition vote_matches :: "crypto \<Rightarrow> vote \<Rightarrow> signed_transfer \<Rightarrow> committee \<Rightarrow> bool" where
  "vote_matches cr v ord c \<longleftrightarrow>
     vt_committee_id v = cm_id c \<and> st_policy_id ord = tp_id (cm_policy c) \<and> vt_policy_id v = st_policy_id ord \<and>
     vt_network_id v = st_network_id ord \<and> vt_transfer v = st_transfer ord \<and> vt_round v = st_round ord \<and>
     (\<exists>key. committee_key_of c (vt_authority v) = Some key \<and>
        ed_verify_strict cr key (vote_message v) (vt_signature v))"

lemma vote_validate_for_ok: "vote_validate_for cr v ord c = Inr () \<longleftrightarrow> vote_matches cr v ord c"
  by (auto simp: vote_validate_for_def vote_matches_def split: option.splits)

lemma validate_votes_ok:
  "validate_votes cr ord c seen vs = Inr seen' \<longleftrightarrow>
     (\<forall>v \<in> set vs. vote_matches cr v ord c) \<and> distinct (map vt_authority vs) \<and>
     vt_authority ` set vs \<inter> set seen = {} \<and> seen' = rev (map vt_authority vs) @ seen"
proof (induction vs arbitrary: seen)
  case (Cons v vs)
  show ?case
  proof (cases "vote_validate_for cr v ord c")
    case (Inl e)
    then have "\<not> vote_matches cr v ord c" by (simp flip: vote_validate_for_ok)
    with Inl show ?thesis by simp
  next
    case (Inr u)
    then have "vote_matches cr v ord c" by (simp flip: vote_validate_for_ok)
    with Inr Cons.IH [of "vt_authority v # seen"] show ?thesis by auto
  qed
qed auto

lemma certificate_valid_iff:
  "certificate_is_valid cr k c \<longleftrightarrow>
     order_verify cr (ct_order k) (cm_policy c) = Inr () \<and> ct_votes k \<noteq> [] \<and>
     (\<forall>v \<in> set (ct_votes k). vote_matches cr v (ct_order k) c) \<and>
     distinct (map vt_authority (ct_votes k)) \<and> committee_quorum c \<le> length (ct_votes k)"
  by (auto simp: certificate_is_valid_def certificate_validate_def is_ok_iff rbind_eq_Inr
      validate_votes_ok split: if_splits)

text \<open>The signers of a valid certificate are a quorum of members.\<close>

definition signers :: "certificate \<Rightarrow> authority_id set" where
  "signers k = vt_authority ` set (ct_votes k)"

lemma valid_signers:
  assumes "certificate_is_valid cr k c"
  shows "signers k \<subseteq> set (map fst (cm_members c))" and "committee_quorum c \<le> card (signers k)"
proof -
  show "signers k \<subseteq> set (map fst (cm_members c))"
    using assms
    by (force simp: certificate_valid_iff signers_def vote_matches_def committee_key_of_def
        dest: map_of_SomeD)
  have "card (signers k) = length (ct_votes k)"
    using assms unfolding certificate_valid_iff signers_def
    by (metis distinct_card length_map list.set_map)
  then show "committee_quorum c \<le> card (signers k)"
    using assms by (simp add: certificate_valid_iff)
qed

lemma signer_vote:
  assumes "certificate_is_valid cr k c" and "a \<in> signers k"
  obtains v key where "v \<in> set (ct_votes k)" "vt_authority v = a" "vote_matches cr v (ct_order k) c"
    "committee_key_of c a = Some key" "ed_verify_strict cr key (vote_message v) (vt_signature v)"
  using assms by (auto simp: certificate_valid_iff signers_def vote_matches_def)

lemma effect_distinct_set:
  "set (effect_distinct cr account sq oid c seen as) = set seen \<union>
     ea_authority ` {a \<in> set as. ea_account a = account \<and> ea_seq a = sq \<and> ea_order_id a = oid \<and> attestation_is_valid cr a c}"
  by (induction as arbitrary: seen) auto

lemma effect_distinct_distinct: "distinct seen \<Longrightarrow> distinct (effect_distinct cr account sq oid c seen as)"
  by (induction as arbitrary: seen) auto

definition attesters ::
    "crypto \<Rightarrow> account_id \<Rightarrow> u64 \<Rightarrow> bytes \<Rightarrow> committee \<Rightarrow> effect_attestation list \<Rightarrow> authority_id set" where
  "attesters cr account sq oid c as =
     ea_authority ` {a \<in> set as. ea_account a = account \<and> ea_seq a = sq \<and> ea_order_id a = oid \<and> attestation_is_valid cr a c}"

lemma final_iff:
  "is_final_effectcert cr account sq oid as c \<longleftrightarrow> committee_quorum c \<le> card (attesters cr account sq oid c as)"
  using distinct_card [OF effect_distinct_distinct [of "[]" cr account sq oid c as]]
    effect_distinct_set [of cr account sq oid c "[]" as]
  by (simp add: is_final_effectcert_def effect_cert_assemble_def attesters_def)

lemma attesters_members: "attesters cr account sq oid c as \<subseteq> set (map fst (cm_members c))"
proof
  fix x assume "x \<in> attesters cr account sq oid c as"
  then obtain a where "x = ea_authority a" and "attestation_is_valid cr a c"
    by (auto simp: attesters_def)
  then have "x \<in> dom (map_of (cm_members c))"
    by (auto simp: attestation_is_valid_def committee_key_of_def split: if_splits option.splits)
  then show "x \<in> set (map fst (cm_members c))" by (simp add: dom_map_of_conv_image_fst)
qed

subsection \<open>Construction\<close>

definition roster_ok :: "(authority_id, bytes) btree \<Rightarrow> bool" where
  "roster_ok r \<longleftrightarrow> bt_wf r \<and> distinct (map snd r) \<and> length r \<le> MAX_COMMITTEE_MEMBERS \<and>
     (\<forall>(a, _) \<in> set r. a \<noteq> [] \<and> length a \<le> MAX_AUTHORITY_ID_BYTES)"

lemma with_epoch_loop_sound:
  "with_epoch_loop roster keys ms = Some r \<Longrightarrow> keys = snd ` set roster \<Longrightarrow> roster_ok roster \<Longrightarrow>
     roster_ok r \<and> r \<noteq> []"
proof (induction roster keys ms rule: with_epoch_loop.induct)
  case (1 roster keys)
  then show ?case by (auto split: if_splits)
next
  case (2 roster keys a key ms)
  from "2.prems"(1) have g: "a \<noteq> []" "length a \<le> MAX_AUTHORITY_ID_BYTES"
      "length roster \<noteq> MAX_COMMITTEE_MEMBERS" "key \<notin> keys" "\<not> bt_contains roster a"
    and rec: "with_epoch_loop (bt_insert a key roster) (insert key keys) ms = Some r"
    by (auto split: if_splits)
  then have fresh: "map_of roster a = None" by (simp add: bt_contains_def)
  then have keys: "insert key keys = snd ` set (bt_insert a key roster)"
    using "2.prems"(2) by (simp add: set_bt_insert_fresh)
  have "roster_ok (bt_insert a key roster)"
    using "2.prems"(2,3) g fresh
    by (auto simp: roster_ok_def set_bt_insert_fresh length_bt_insert_fresh distinct_snd_bt_insert_fresh)
  then show ?case using "2.IH" [OF _ _ _ _ rec keys] g by auto
qed

lemma committee_with_epoch_Some:
  assumes "committee_with_epoch cr ms p e = Some c"
  shows "roster_ok (cm_members c)" "cm_members c \<noteq> []" "cm_policy c = p" "cm_epoch c = e"
    "cm_id c = committee_id_of cr (tp_id p) (cm_members c)"
  using assms with_epoch_loop_sound [of "[]" "{}" ms]
  by (auto simp: committee_with_epoch_def roster_ok_def split: option.splits)

end
