(* ===== verification/Epoch.thy ===== *)
theory Epoch
  imports Committee
begin

text \<open>
  The epoch-change values of \<open>333-transfer/src/epoch.rs\<close>: proposals, votes over a frontier of
  per-account sequence numbers, and certificates, with the canonical frontier digest and the
  signing preimage.
\<close>

definition MAX_FRONTIER_ACCOUNTS :: nat where "MAX_FRONTIER_ACCOUNTS = 4096"

definition FRONTIER_DIGEST_DOMAIN :: bytes where
  "FRONTIER_DIGEST_DOMAIN = domain_tag ''transfer333/epoch-frontier/v1''"
definition EPOCH_VOTE_SIGNING_DOMAIN :: bytes where
  "EPOCH_VOTE_SIGNING_DOMAIN = domain_tag ''transfer333/epoch-vote-signing/v1''"

type_synonym frontier = "(account_id \<times> u64) list"

definition frontier_bytes :: "frontier \<Rightarrow> bytes" where
  "frontier_bytes fr =
     (let sorted = sort fr
      in FRONTIER_DIGEST_DOMAIN @ len64 (length sorted)
         @ concat (map (\<lambda>(a, n). len64 (length a) @ as_bytes a @ u64_le n) sorted))"

definition frontier_digest :: "crypto \<Rightarrow> frontier \<Rightarrow> bytes" where
  "frontier_digest cr fr = sha256 cr (frontier_bytes fr)"

definition epoch_vote_signing_message ::
    "authority_id \<Rightarrow> committee_id \<Rightarrow> u64 \<Rightarrow> committee_id \<Rightarrow> bytes \<Rightarrow> bytes" where
  "epoch_vote_signing_message a c e nc fd =
     EPOCH_VOTE_SIGNING_DOMAIN @ len64 (length a) @ as_bytes a @ committee_bytes c @ u64_le e
     @ committee_bytes nc @ fd"

record epoch_proposal =
  ep_network_id :: network_id
  ep_policy_id :: policy_id
  ep_epoch :: u64
  ep_next_roster :: "(authority_id \<times> bytes) list"

record epoch_vote =
  ev_authority :: authority_id
  ev_committee_id :: committee_id
  ev_epoch :: u64
  ev_next_committee_id :: committee_id
  ev_frontier :: frontier
  ev_frontier_digest :: bytes
  ev_signature :: bytes

datatype epoch_vote_error = EpochBadSignature | FrontierMismatch

definition epoch_vote_sign ::
    "crypto \<Rightarrow> authority_id \<Rightarrow> committee_id \<Rightarrow> u64 \<Rightarrow> committee_id \<Rightarrow> frontier \<Rightarrow> bytes \<Rightarrow> epoch_vote" where
  "epoch_vote_sign cr a c e nc fr sk =
     (let fd = frontier_digest cr fr
      in \<lparr>ev_authority = a, ev_committee_id = c, ev_epoch = e, ev_next_committee_id = nc,
          ev_frontier = fr, ev_frontier_digest = fd,
          ev_signature = ed_sign cr sk (epoch_vote_signing_message a c e nc fd)\<rparr>)"

definition epoch_vote_verify_signature :: "crypto \<Rightarrow> epoch_vote \<Rightarrow> bytes \<Rightarrow> epoch_vote_error + unit" where
  "epoch_vote_verify_signature cr v key =
     (if frontier_digest cr (ev_frontier v) \<noteq> ev_frontier_digest v then Inl FrontierMismatch
      else if ed_verify cr key
        (epoch_vote_signing_message (ev_authority v) (ev_committee_id v) (ev_epoch v)
           (ev_next_committee_id v) (ev_frontier_digest v)) (ev_signature v)
      then Inr () else Inl EpochBadSignature)"

record epoch_cert =
  ek_epoch :: u64
  ek_next_roster :: "(authority_id \<times> bytes) list"
  ek_frontier :: frontier
  ek_votes :: "epoch_vote list"

section \<open>Lemmas\<close>

lemma frontier_digest_order:
  "mset fr = mset fr' \<Longrightarrow> frontier_digest cr fr = frontier_digest cr fr'"
proof -
  assume "mset fr = mset fr'"
  then have "sort fr = sort fr'" by (metis properties_for_sort mset_sort sorted_sort)
  then show ?thesis by (simp add: frontier_digest_def frontier_bytes_def)
qed

lemma epoch_vote_sign_verifies:
  assumes "crypto_ok cr"
  shows "epoch_vote_verify_signature cr (epoch_vote_sign cr a c e nc fr sk) (ed_public cr sk) = Inr ()"
  using crypto_complete [OF assms]
  by (simp add: epoch_vote_sign_def epoch_vote_verify_signature_def Let_def)

lemma epoch_message_inj:
  assumes "str_ok a" "str_ok a'" "length (committee_bytes c) = 32" "length (committee_bytes c') = 32"
    "length (committee_bytes nc) = 32" "length (committee_bytes nc') = 32"
    and "epoch_vote_signing_message a c e nc fd = epoch_vote_signing_message a' c' e' nc' fd'"
  shows "a = a' \<and> c = c' \<and> e = e' \<and> nc = nc' \<and> fd = fd'"
proof -
  from assms(7) have "put_bytes (as_bytes a) @ committee_bytes c @ u64_le e @ committee_bytes nc @ fd
      = put_bytes (as_bytes a') @ committee_bytes c' @ u64_le e' @ committee_bytes nc' @ fd'"
    by (simp add: epoch_vote_signing_message_def put_bytes_def)
  then show ?thesis using assms(1-6) by (auto intro: committee_id.expand)
qed

lemma frontier_item_prefix:
  "str_ok a \<Longrightarrow> str_ok b \<Longrightarrow>
     len64 (length a) @ as_bytes a @ u64_le m @ r = len64 (length b) @ as_bytes b @ u64_le n @ s
       \<longleftrightarrow> a = b \<and> m = n \<and> r = s"
  using put_str_ok_prefix [of a b "u64_le m @ r" "u64_le n @ s"] by (auto simp: put_bytes_def)

lemma frontier_items_inj:
  assumes "\<forall>(a, _) \<in> set xs. str_ok a" "\<forall>(a, _) \<in> set ys. str_ok a" "length xs = length ys"
    and "concat (map (\<lambda>(a, n). len64 (length a) @ as_bytes a @ u64_le n) xs)
       = concat (map (\<lambda>(a, n). len64 (length a) @ as_bytes a @ u64_le n) ys)"
  shows "xs = ys"
  using assms(3,1,2,4)
proof (induction xs ys rule: list_induct2)
  case (Cons x xs y ys)
  obtain a m b n where xy: "x = (a, m)" "y = (b, n)" by force
  let ?c = "\<lambda>xs. concat (map (\<lambda>(a, n). len64 (length a) @ as_bytes a @ u64_le n) xs)"
  have "len64 (length a) @ as_bytes a @ u64_le m @ ?c xs = len64 (length b) @ as_bytes b @ u64_le n @ ?c ys"
    using Cons.prems(3) unfolding xy by simp
  then have "a = b \<and> m = n \<and> ?c xs = ?c ys"
    using Cons.prems(1,2) unfolding xy by (subst (asm) frontier_item_prefix) auto
  then show ?case using Cons.IH Cons.prems(1,2) unfolding xy by simp
qed simp

text \<open>The digest preimage determines the frontier up to order.\<close>

lemma frontier_bytes_inj:
  assumes "\<forall>(a, _) \<in> set fr. str_ok a" "\<forall>(a, _) \<in> set fr'. str_ok a"
    and "length fr < 2 ^ 64" "length fr' < 2 ^ 64" and eq: "frontier_bytes fr = frontier_bytes fr'"
  shows "mset fr = mset fr'"
proof -
  from eq have "len64 (length fr) = len64 (length fr')"
    and items: "concat (map (\<lambda>(a, n). len64 (length a) @ as_bytes a @ u64_le n) (sort fr))
      = concat (map (\<lambda>(a, n). len64 (length a) @ as_bytes a @ u64_le n) (sort fr'))"
    by (auto simp: frontier_bytes_def Let_def)
  then have "length fr = length fr'" using assms(3,4) by (simp add: len64_inj)
  then have "sort fr = sort fr'" using assms(1,2) items by (intro frontier_items_inj) auto
  then show ?thesis by (metis mset_sort)
qed

end
