(* ===== verification/Journal_Port.thy ===== *)
theory Journal_Port
  imports Epoch
begin

text \<open>
  The durability port of \<open>333-transfer/src/journal.rs\<close>: the record and error types, the
  \<open>Journal\<close> trait as a record of functions (a trait object is data plus such a table), the
  two in-memory implementations, and the contract \<open>durable_journal\<close> a durable one satisfies.
\<close>

record snapshot_data =
  sn_accounts :: "(account_id \<times> amount \<times> u64) list"
  sn_locked :: "signed_transfer list"
  sn_confirmed :: "(account_id \<times> u64 \<times> bytes) list"
  sn_epoch :: u64

datatype journal_record =
    Locked signed_transfer
  | Confirmed signed_transfer
  | Snapshot snapshot_data
  | EpochFence epoch_proposal
  | EpochInstalled epoch_cert

datatype journal_error = JournalIo string | JournalCorrupt string

record 'j journal =
  j_bind :: "'j \<Rightarrow> bytes \<Rightarrow> 'j \<times> (journal_error + unit)"
  j_append :: "'j \<Rightarrow> journal_record \<Rightarrow> 'j \<times> (journal_error + unit)"
  j_replay :: "'j \<Rightarrow> journal_error + journal_record list"
  j_compact :: "'j \<Rightarrow> snapshot_data \<Rightarrow> 'j \<times> (journal_error + unit)"

section \<open>NullJournal\<close>

definition null_journal :: "unit journal" where
  "null_journal =
     \<lparr>j_bind = (\<lambda>j _. (j, Inr ())), j_append = (\<lambda>j _. (j, Inr ())),
      j_replay = (\<lambda>_. Inr []), j_compact = (\<lambda>j _. (j, Inr ()))\<rparr>"

section \<open>MemJournal\<close>

record mem_journal =
  mj_records :: "journal_record list"
  mj_identity :: "bytes option"

definition mem_new :: mem_journal where
  "mem_new = \<lparr>mj_records = [], mj_identity = None\<rparr>"

definition foreign_journal :: journal_error where
  "foreign_journal = JournalCorrupt ''journal belongs to a different authority, committee or genesis''"

definition mem_bind :: "mem_journal \<Rightarrow> bytes \<Rightarrow> mem_journal \<times> (journal_error + unit)" where
  "mem_bind j i =
     (case mj_identity j of
        None \<Rightarrow> (j\<lparr>mj_identity := Some i\<rparr>, Inr ())
      | Some existing \<Rightarrow> if existing = i then (j, Inr ()) else (j, Inl foreign_journal))"

definition mem_append :: "mem_journal \<Rightarrow> journal_record \<Rightarrow> mem_journal \<times> (journal_error + unit)" where
  "mem_append j r = (j\<lparr>mj_records := mj_records j @ [r]\<rparr>, Inr ())"

definition mem_replay :: "mem_journal \<Rightarrow> journal_error + journal_record list" where
  "mem_replay j = Inr (mj_records j)"

definition mem_compact :: "mem_journal \<Rightarrow> snapshot_data \<Rightarrow> mem_journal \<times> (journal_error + unit)" where
  "mem_compact j sn = (j\<lparr>mj_records := [Snapshot sn]\<rparr>, Inr ())"

definition mem_ops :: "mem_journal journal" where
  "mem_ops = \<lparr>j_bind = mem_bind, j_append = mem_append, j_replay = mem_replay, j_compact = mem_compact\<rparr>"

section \<open>The contract of a durable journal\<close>

text \<open>
  \<open>recs\<close> is what is on stable storage, \<open>owner\<close> the identity the log is claimed by, \<open>sane\<close> the
  implementation's invariant, \<open>fits\<close> the records and \<open>ident\<close> the identities it can store and \<open>reopen\<close> what a process
  restart does. After a failed operation the log may end in debris: \<open>torn i j rs\<close> says that a restart finds the records \<open>rs\<close>
  under the identity \<open>i\<close>. A successful append has reached storage; a failed one left the record either
  fully on storage or not at all; a compaction, which may start from a torn log, replaces the records or leaves them;
  nothing else changes the log.
\<close>

locale durable_journal =
  fixes jo :: "'j journal"
    and recs :: "'j \<Rightarrow> journal_record list"
    and owner :: "'j \<Rightarrow> bytes option"
    and sane :: "'j \<Rightarrow> bool"
    and fits :: "journal_record \<Rightarrow> bool"
    and ident :: "bytes \<Rightarrow> bool"
    and reopen :: "'j \<Rightarrow> 'j"
    and torn :: "bytes \<Rightarrow> 'j \<Rightarrow> journal_record list \<Rightarrow> bool"
  assumes append_ok:
      "sane j \<Longrightarrow> owner j = Some i \<Longrightarrow> fits r \<Longrightarrow> j_append jo j r = (j', Inr ()) \<Longrightarrow>
         sane j' \<and> owner j' = Some i \<and> recs j' = recs j @ [r]"
    and append_err:
      "sane j \<Longrightarrow> owner j = Some i \<Longrightarrow> fits r \<Longrightarrow> j_append jo j r = (j', Inl e) \<Longrightarrow>
         torn i j' (recs j) \<or> torn i j' (recs j @ [r])"
    and compact_ok:
      "torn i j rs \<Longrightarrow> fits (Snapshot sn) \<Longrightarrow> j_compact jo j sn = (j', Inr ()) \<Longrightarrow>
         sane j' \<and> owner j' = Some i \<and> recs j' = [Snapshot sn]"
    and compact_err:
      "torn i j rs \<Longrightarrow> fits (Snapshot sn) \<Longrightarrow> j_compact jo j sn = (j', Inl e) \<Longrightarrow>
         torn i j' rs \<or> torn i j' [Snapshot sn]"
    and replay_recs: "sane j \<Longrightarrow> j_replay jo j = Inr (recs j)"
    and bind_same: "sane j \<Longrightarrow> owner j = Some i \<Longrightarrow> j_bind jo j i = (j', res) \<Longrightarrow>
         res = Inr () \<and> sane j' \<and> owner j' = Some i \<and> recs j' = recs j"
    and bind_fresh: "ident i \<Longrightarrow> sane j \<Longrightarrow> owner j = None \<Longrightarrow> recs j = [] \<Longrightarrow> j_bind jo j i = (j', Inr ()) \<Longrightarrow>
         sane j' \<and> owner j' = Some i \<and> recs j' = []"
    and bind_other: "sane j \<Longrightarrow> owner j = Some i \<Longrightarrow> i' \<noteq> i \<Longrightarrow> \<exists>e. snd (j_bind jo j i') = Inl e"
    and sane_torn: "sane j \<Longrightarrow> owner j = Some i \<Longrightarrow> torn i j (recs j)"
    and torn_reopen: "torn i j rs \<Longrightarrow> sane (reopen j) \<and> owner (reopen j) = Some i \<and> recs (reopen j) = rs"
begin

lemma reopen_sane:
  assumes "sane j" "owner j = Some i"
  shows "sane (reopen j) \<and> owner (reopen j) = Some i \<and> recs (reopen j) = recs j"
  using torn_reopen [OF sane_torn [OF assms]] .

lemma torn_recs: "torn i j rs \<Longrightarrow> torn i j rs' \<Longrightarrow> rs = rs'"
  using torn_reopen by metis

end

interpretation memj: durable_journal mem_ops mj_records mj_identity "\<lambda>_. True" "\<lambda>_. True" "\<lambda>_. True" "\<lambda>j. j"
    "\<lambda>i j rs. mj_identity j = Some i \<and> mj_records j = rs"
  by unfold_locales
    (auto simp: mem_ops_def mem_append_def mem_compact_def mem_replay_def mem_bind_def foreign_journal_def)

end
