(* ===== verification/Authority.thy ===== *)
theory Authority
  imports Journal_Port
begin

text \<open>
  The authority state machine of \<open>333-transfer/src/authority.rs\<close>: construction, recovery from
  the journal, voting (\<open>handle\<close>), confirmation, the epoch-change transitions, compaction and
  the synchronous \<open>certify\<close> helper. Every operation is a function from the state to the new
  state and a result; the journal is reached through its table of functions. The \<open>HashMap\<close>s
  of locks and confirmations are kept in key order. \<open>epoch + 1\<close> wraps, as in a release build.
  The text of an error message that the code formats from run-time values is abbreviated to
  its fixed part.
\<close>

section \<open>Errors and outcomes\<close>

datatype authority_error =
    OwnerAuth owner_auth_error
  | Equivocation account_id u64
  | AuthUnknownSender account_id
  | ZeroAmount
  | OutOfOrder account_id u64 u64
  | InsufficientBalance account_id amount amount
  | AuthSequenceExhausted account_id
  | AuthBalanceOverflow account_id amount amount
  | JournalFailed string
  | Poisoned
  | EpochFencing u64
  | EpochCatchingUp u64
  | HandlePanic \<comment> \<open>the \<open>unreachable!\<close> of \<open>handle\<close>; never produced\<close>

datatype epoch_error =
    EpochInvalid string
  | EpochJournal string
  | EpochPoisoned
  | NotFencing
  | ConflictingCert

datatype fence_outcome =
    Fenced committee_id
  | AlreadyFenced
  | FenceIgnoredStaleEpoch u64 u64
  | IgnoredConflictingProposal
  | IgnoredInstalling

datatype install_outcome =
    Installed
  | InstallPending
  | AlreadyInstalled
  | InstallIgnoredStaleEpoch u64 u64

datatype confirm_outcome = Applied | AlreadyApplied

datatype confirm_error =
    ConfirmWrongCommittee committee_id committee_id
  | ConfirmWrongPolicy policy_id policy_id
  | ConfirmOwnerAuth owner_auth_error
  | ConfirmState reject
  | ConfirmJournal string
  | ConfirmPoisoned

datatype epoch_state =
    Active
  | Fencing epoch_proposal
  | Installing epoch_cert committee bytes

section \<open>State\<close>

type_synonym slot = "account_id \<times> u64 \<times> u64"

record 'j authority =
  au_id :: authority_id
  au_signing :: bytes
  au_policy :: transfer_policy
  au_committee_id :: committee_id
  au_ledger :: ledger
  au_locked :: "(slot, signed_transfer) btree"
  au_confirmed :: "(account_id \<times> u64, bytes) btree"
  au_journal :: 'j
  au_epoch :: u64
  au_epoch_state :: epoch_state
  au_last_epoch_cert :: "epoch_cert option"
  au_poisoned :: bool

definition slot_of :: "signed_transfer \<Rightarrow> slot" where
  "slot_of ord = (tr_from (st_transfer ord), tr_from_seq (st_transfer ord), st_round ord)"

definition journal_identity :: "crypto \<Rightarrow> authority_id \<Rightarrow> committee_id \<Rightarrow> ledger \<Rightarrow> bytes" where
  "journal_identity cr i c l =
     sha256 cr (domain_tag ''transfer333/journal-identity/v1'' @ len32_be (length i) @ as_bytes i
       @ committee_bytes c
       @ concat (map (\<lambda>(a, bal). len32_be (length a) @ as_bytes a @ u128_be bal @ u64_be (ledger_next_seq l a))
           (balances l)))"

definition journal_error_str :: "journal_error \<Rightarrow> string" where
  "journal_error_str e = (case e of JournalIo m \<Rightarrow> ''journal io: '' @ m | JournalCorrupt m \<Rightarrow> ''journal corrupt: '' @ m)"

section \<open>Construction\<close>

definition with_journal ::
    "crypto \<Rightarrow> 'j journal \<Rightarrow> authority_id \<Rightarrow> bytes \<Rightarrow> transfer_policy \<Rightarrow> committee_id \<Rightarrow> ledger \<Rightarrow> 'j \<Rightarrow> 'j authority" where
  "with_journal cr jo i sk p c l j =
     (case j_bind jo j (journal_identity cr i c l) of (j', r) \<Rightarrow>
        \<lparr>au_id = i, au_signing = sk, au_policy = p, au_committee_id = c, au_ledger = l,
         au_locked = [], au_confirmed = [], au_journal = j', au_epoch = 0, au_epoch_state = Active,
         au_last_epoch_cert = None, au_poisoned = \<not> is_ok r\<rparr>)"

definition authority_new ::
    "crypto \<Rightarrow> authority_id \<Rightarrow> bytes \<Rightarrow> transfer_policy \<Rightarrow> committee_id \<Rightarrow> ledger \<Rightarrow> unit authority" where
  "authority_new cr i sk p c l = with_journal cr null_journal i sk p c l ()"

section \<open>Epoch installation\<close>

definition install_covered :: "'j authority \<Rightarrow> bool" where
  "install_covered a =
     (case au_epoch_state a of
        Installing cert _ _ \<Rightarrow> list_all (\<lambda>(acct, sq). ledger_next_seq (au_ledger a) acct \<ge> sq) (ek_frontier cert)
      | _ \<Rightarrow> False)"

definition complete_install :: "'j authority \<Rightarrow> 'j authority" where
  "complete_install a =
     (case au_epoch_state a of
        Installing cert next _ \<Rightarrow>
          a\<lparr>au_epoch_state := Active, au_committee_id := cm_id next, au_epoch := ek_epoch cert\<rparr>
      | _ \<Rightarrow> a\<lparr>au_epoch_state := Active\<rparr>)"

section \<open>Recovery\<close>

definition unlock_slot :: "account_id \<Rightarrow> u64 \<Rightarrow> (slot, signed_transfer) btree \<Rightarrow> (slot, signed_transfer) btree" where
  "unlock_slot acct sq locked = bt_retain (\<lambda>((a, s, _), _). \<not> (a = acct \<and> s = sq)) locked"

definition replay_record :: "crypto \<Rightarrow> 'j authority \<Rightarrow> journal_record \<Rightarrow> journal_error + 'j authority" where
  "replay_record cr me r =
     (case r of
        Snapshot sn \<Rightarrow>
          (case restore (sn_accounts sn) of
             Inl _ \<Rightarrow> Inl (JournalCorrupt ''snapshot ledger invalid'')
           | Inr l \<Rightarrow>
               Inr (me\<lparr>au_ledger := l,
                      au_locked := bt_collect (map (\<lambda>ord. (slot_of ord, ord)) (sn_locked sn)),
                      au_confirmed := bt_collect (map (\<lambda>(a, s, oid). ((a, s), oid)) (sn_confirmed sn)),
                      au_epoch := sn_epoch sn, au_epoch_state := Active\<rparr>))
      | Locked ord \<Rightarrow> Inr (me\<lparr>au_locked := bt_insert (slot_of ord) ord (au_locked me)\<rparr>)
      | Confirmed ord \<Rightarrow>
          (let acct = tr_from (st_transfer ord); sq = tr_from_seq (st_transfer ord) in
           case ledger_apply (au_ledger me) (st_transfer ord) of
             Inl _ \<Rightarrow> Inl (JournalCorrupt ''replay: confirmed record does not apply'')
           | Inr l \<Rightarrow>
               Inr (me\<lparr>au_ledger := l,
                      au_confirmed := bt_insert (acct, sq) (order_id cr ord) (au_confirmed me),
                      au_locked := unlock_slot acct sq (au_locked me)\<rparr>))
      | EpochFence p \<Rightarrow> Inr (me\<lparr>au_epoch_state := Fencing p\<rparr>)
      | EpochInstalled cert \<Rightarrow>
          (case committee_with_epoch cr (ek_next_roster cert) (au_policy me) (ek_epoch cert) of
             None \<Rightarrow> Inl (JournalCorrupt ''epoch-installed roster invalid'')
           | Some next \<Rightarrow>
               (let me' = me\<lparr>au_locked := [], au_last_epoch_cert := Some cert,
                            au_epoch_state := Installing cert next (frontier_digest cr (ek_frontier cert))\<rparr>
                in Inr (if install_covered me' then complete_install me' else me'))))"

fun replay_all :: "crypto \<Rightarrow> 'j authority \<Rightarrow> journal_record list \<Rightarrow> journal_error + 'j authority" where
  "replay_all cr me [] = Inr me"
| "replay_all cr me (r # rs) = rbind (replay_record cr me r) (\<lambda>me'. replay_all cr me' rs)"

definition recover ::
    "crypto \<Rightarrow> 'j journal \<Rightarrow> authority_id \<Rightarrow> bytes \<Rightarrow> transfer_policy \<Rightarrow> committee_id \<Rightarrow> ledger \<Rightarrow> 'j \<Rightarrow>
      journal_error + 'j authority" where
  "recover cr jo i sk p c genesis_ledger j =
     (case j_bind jo j (journal_identity cr i c genesis_ledger) of
        (j', Inl e) \<Rightarrow> Inl e
      | (j', Inr _) \<Rightarrow>
          rbind (j_replay jo j') (\<lambda>records.
            replay_all cr (with_journal cr jo i sk p c genesis_ledger j') records))"

section \<open>Snapshots and compaction\<close>

definition snapshot_data_of :: "'j authority \<Rightarrow> snapshot_data" where
  "snapshot_data_of a =
     \<lparr>sn_accounts = map (\<lambda>(i, bal). (i, bal, ledger_next_seq (au_ledger a) i)) (balances (au_ledger a)),
      sn_locked = map snd (au_locked a),
      sn_confirmed = map (\<lambda>((acct, sq), oid). (acct, sq, oid)) (au_confirmed a),
      sn_epoch = au_epoch a\<rparr>"

definition compact_journal :: "'j journal \<Rightarrow> 'j authority \<Rightarrow> 'j authority \<times> (authority_error + unit)" where
  "compact_journal jo a =
     (if au_epoch_state a \<noteq> Active then (a, Inl (EpochFencing (au_epoch a)))
      else (case j_compact jo (au_journal a) (snapshot_data_of a) of
          (j', Inl e) \<Rightarrow> (a\<lparr>au_journal := j', au_poisoned := True\<rparr>, Inl (JournalFailed (journal_error_str e)))
        | (j', Inr _) \<Rightarrow> (a\<lparr>au_journal := j'\<rparr>, Inr ())))"

definition journal_append :: "'j journal \<Rightarrow> 'j authority \<Rightarrow> journal_record \<Rightarrow> 'j authority \<times> (journal_error + unit)" where
  "journal_append jo a r =
     (case j_append jo (au_journal a) r of
        (j', Inl e) \<Rightarrow> (a\<lparr>au_journal := j', au_poisoned := True\<rparr>, Inl e)
      | (j', Inr _) \<Rightarrow> (a\<lparr>au_journal := j'\<rparr>, Inr ()))"

section \<open>Epoch-change transitions\<close>

definition au_frontier :: "'j authority \<Rightarrow> frontier" where
  "au_frontier a = map (\<lambda>(i, _). (i, ledger_next_seq (au_ledger a) i)) (balances (au_ledger a))"

definition fence :: "crypto \<Rightarrow> 'j journal \<Rightarrow> 'j authority \<Rightarrow> epoch_proposal \<Rightarrow> 'j authority \<times> (epoch_error + fence_outcome)" where
  "fence cr jo a p =
     (if au_poisoned a then (a, Inl EpochPoisoned)
      else case au_epoch_state a of
        Installing _ _ _ \<Rightarrow> (a, Inr IgnoredInstalling)
      | st \<Rightarrow>
         (if ep_epoch p \<noteq> au_epoch a + 1
          then (a, Inr (FenceIgnoredStaleEpoch (au_epoch a + 1) (ep_epoch p)))
          else if ep_policy_id p \<noteq> tp_id (au_policy a)
          then (a, Inl (EpochInvalid ''proposal policy_id does not match this authority's policy''))
          else (case committee_with_epoch cr (ep_next_roster p) (au_policy a) (ep_epoch p) of
              None \<Rightarrow> (a, Inl (EpochInvalid ''proposal roster does not form a valid committee''))
            | Some next \<Rightarrow>
               (case st of
                  Fencing existing \<Rightarrow>
                    (if existing = p then (a, Inr AlreadyFenced) else (a, Inr IgnoredConflictingProposal))
                | _ \<Rightarrow>
                    (case journal_append jo a (EpochFence p) of
                       (a', Inl e) \<Rightarrow> (a', Inl (EpochJournal (journal_error_str e)))
                     | (a', Inr _) \<Rightarrow> (a'\<lparr>au_epoch_state := Fencing p\<rparr>, Inr (Fenced (cm_id next))))))))"

definition sign_epoch_vote :: "crypto \<Rightarrow> 'j authority \<Rightarrow> epoch_error + epoch_vote" where
  "sign_epoch_vote cr a =
     (case au_epoch_state a of
        Fencing p \<Rightarrow>
          (case committee_with_epoch cr (ep_next_roster p) (au_policy a) (ep_epoch p) of
             None \<Rightarrow> Inl (EpochInvalid ''fenced roster no longer builds (state corruption)'')
           | Some next \<Rightarrow>
               Inr (epoch_vote_sign cr (au_id a) (au_committee_id a) (ep_epoch p) (cm_id next)
                      (au_frontier a) (au_signing a)))
      | _ \<Rightarrow> Inl NotFencing)"

fun check_epoch_votes ::
    "crypto \<Rightarrow> epoch_cert \<Rightarrow> committee_id \<Rightarrow> committee_id \<Rightarrow> bytes \<Rightarrow> committee \<Rightarrow> authority_id list \<Rightarrow>
      epoch_vote list \<Rightarrow> epoch_error + authority_id list" where
  "check_epoch_votes cr cert cid nid fd old seen [] = Inr seen"
| "check_epoch_votes cr cert cid nid fd old seen (v # vs) =
     (if ev_epoch v \<noteq> ek_epoch cert \<or> ev_committee_id v \<noteq> cid \<or> ev_next_committee_id v \<noteq> nid \<or>
         ev_frontier_digest v \<noteq> fd
      then Inl (EpochInvalid ''vote fields do not match the certificate'')
      else if ev_authority v \<in> set seen then Inl (EpochInvalid ''duplicate voter'')
      else (case committee_key_of old (ev_authority v) of
          None \<Rightarrow> Inl (EpochInvalid ''voter is not in the old committee'')
        | Some key \<Rightarrow>
           if \<not> is_ok (epoch_vote_verify_signature cr v key) then Inl (EpochInvalid ''bad vote signature'')
           else check_epoch_votes cr cert cid nid fd old (ev_authority v # seen) vs))"

text \<open>The part of \<open>install_epoch_cert\<close> after every check has passed.\<close>

definition install_commit ::
    "crypto \<Rightarrow> 'j journal \<Rightarrow> 'j authority \<Rightarrow> epoch_cert \<Rightarrow> committee \<Rightarrow> bytes \<Rightarrow>
      'j authority \<times> (epoch_error + install_outcome)" where
  "install_commit cr jo a cert next fd =
     (case journal_append jo a (EpochInstalled cert) of
        (a', Inl e) \<Rightarrow> (a', Inl (EpochJournal (journal_error_str e)))
      | (a', Inr _) \<Rightarrow>
         (let b = a'\<lparr>au_locked := [], au_last_epoch_cert := Some cert,
                    au_epoch_state := Installing cert next fd\<rparr>
          in if install_covered b then (complete_install b, Inr Installed) else (b, Inr InstallPending)))"

definition install_epoch_cert ::
    "crypto \<Rightarrow> 'j journal \<Rightarrow> 'j authority \<Rightarrow> epoch_cert \<Rightarrow> committee \<Rightarrow>
      'j authority \<times> (epoch_error + install_outcome)" where
  "install_epoch_cert cr jo a cert old =
     (if au_poisoned a then (a, Inl EpochPoisoned)
      else if cm_id old \<noteq> au_committee_id a
      then (a, Inl (EpochInvalid ''old_committee does not match this authority's trust root''))
      else if ek_epoch cert \<noteq> au_epoch a + 1
      then (a, Inr (InstallIgnoredStaleEpoch (au_epoch a + 1) (ek_epoch cert)))
      else (case committee_with_epoch cr (ek_next_roster cert) (au_policy a) (ek_epoch cert) of
          None \<Rightarrow> (a, Inl (EpochInvalid ''cert roster does not form a valid committee''))
        | Some next \<Rightarrow>
           (let fd = frontier_digest cr (ek_frontier cert) in
            case check_epoch_votes cr cert (au_committee_id a) (cm_id next) fd old [] (ek_votes cert) of
              Inl e \<Rightarrow> (a, Inl e)
            | Inr seen \<Rightarrow>
               (if length seen < committee_quorum old
                then (a, Inl (EpochInvalid ''insufficient quorum in epoch votes''))
                else (case au_epoch_state a of
                    Installing existing existing_next existing_fd \<Rightarrow>
                      (if cm_id existing_next \<noteq> cm_id next \<or> existing_fd \<noteq> fd \<or> ek_epoch existing \<noteq> ek_epoch cert
                       then (a\<lparr>au_poisoned := True\<rparr>, Inl ConflictingCert)
                       else (a, Inr AlreadyInstalled))
                  | _ \<Rightarrow> install_commit cr jo a cert next fd)))))"

section \<open>Attestation and voting\<close>

definition attestation_for :: "crypto \<Rightarrow> 'j authority \<Rightarrow> account_id \<Rightarrow> u64 \<Rightarrow> effect_attestation option" where
  "attestation_for cr a acct sq =
     (case map_of (au_confirmed a) (acct, sq) of
        None \<Rightarrow> None
      | Some oid \<Rightarrow>
          Some \<lparr>ea_authority = au_id a, ea_committee_id = au_committee_id a, ea_account = acct, ea_seq = sq,
                ea_order_id = oid,
                ea_signature = ed_sign cr (au_signing a) (effect_message (au_committee_id a) acct sq oid)\<rparr>)"

definition sign_vote :: "crypto \<Rightarrow> 'j authority \<Rightarrow> signed_transfer \<Rightarrow> vote" where
  "sign_vote cr a ord =
     \<lparr>vt_authority = au_id a, vt_committee_id = au_committee_id a, vt_policy_id = st_policy_id ord,
      vt_network_id = st_network_id ord, vt_transfer = st_transfer ord, vt_round = st_round ord,
      vt_signature = ed_sign cr (au_signing a)
        (authority_signing_message (au_id a) (au_committee_id a) (st_policy_id ord) (st_network_id ord)
           (st_transfer ord) (st_round ord))\<rparr>"

datatype gate = GateOpen | GateCovered | GateReject authority_error

definition epoch_gate :: "'j authority \<Rightarrow> gate" where
  "epoch_gate a =
     (case au_epoch_state a of
        Active \<Rightarrow> GateOpen
      | Fencing _ \<Rightarrow> GateReject (EpochFencing (au_epoch a))
      | Installing _ _ _ \<Rightarrow>
          if install_covered a then GateCovered else GateReject (EpochCatchingUp (au_epoch a)))"

fun preflight_error :: "account_id \<Rightarrow> reject \<Rightarrow> authority_error" where
  "preflight_error acct UnknownSender = AuthUnknownSender acct"
| "preflight_error acct (StaleSequence expected got) = OutOfOrder acct expected got"
| "preflight_error acct (Insufficient have need) = InsufficientBalance acct have need"
| "preflight_error acct (SequenceExhausted account) = AuthSequenceExhausted account"
| "preflight_error acct (BalanceOverflow account have credit) = AuthBalanceOverflow account have credit"
| "preflight_error acct NoCertificate = HandlePanic"

text \<open>The guards after the epoch gate, in the code's order, then the write-ahead and the vote.\<close>

definition handle_order ::
    "crypto \<Rightarrow> 'j journal \<Rightarrow> 'j authority \<Rightarrow> signed_transfer \<Rightarrow> 'j authority \<times> (authority_error + vote)" where
  "handle_order cr jo a ord =
     (let t = st_transfer ord in
      case order_verify cr ord (au_policy a) of
        Inl e \<Rightarrow> (a, Inl (OwnerAuth e))
      | Inr _ \<Rightarrow>
         (case map_of (au_locked a) (slot_of ord) of
            Some previous \<Rightarrow>
              (if previous = ord then (a, Inr (sign_vote cr a ord))
               else (a, Inl (Equivocation (tr_from t) (tr_from_seq t))))
          | None \<Rightarrow>
              (if \<not> contains_account (au_ledger a) (tr_from t) then (a, Inl (AuthUnknownSender (tr_from t)))
               else if tr_amount t = 0 then (a, Inl ZeroAmount)
               else (case preflight (au_ledger a) t of
                   Inl rej \<Rightarrow> (a, Inl (preflight_error (tr_from t) rej))
                 | Inr _ \<Rightarrow>
                    (case journal_append jo a (Locked ord) of
                       (a', Inl e) \<Rightarrow> (a', Inl (JournalFailed (journal_error_str e)))
                     | (a', Inr _) \<Rightarrow>
                         (let b = a'\<lparr>au_locked := bt_insert (slot_of ord) ord (au_locked a')\<rparr>
                          in (b, Inr (sign_vote cr b ord))))))))"

definition handle ::
    "crypto \<Rightarrow> 'j journal \<Rightarrow> 'j authority \<Rightarrow> signed_transfer \<Rightarrow> 'j authority \<times> (authority_error + vote)" where
  "handle cr jo a ord =
     (if au_poisoned a then (a, Inl Poisoned)
      else (case epoch_gate a of
          GateOpen \<Rightarrow> handle_order cr jo a ord
        | GateCovered \<Rightarrow> handle_order cr jo (complete_install a) ord
        | GateReject e \<Rightarrow> (a, Inl e)))"

section \<open>Confirmation\<close>

definition confirm_apply ::
    "crypto \<Rightarrow> 'j journal \<Rightarrow> 'j authority \<Rightarrow> signed_transfer \<Rightarrow> 'j authority \<times> (confirm_error + confirm_outcome)" where
  "confirm_apply cr jo a ord =
     (let t = st_transfer ord; confirmed_slot = (tr_from t, tr_from_seq t); oid = order_id cr ord in
      case map_of (au_confirmed a) confirmed_slot of
        Some previous \<Rightarrow>
          (if previous = oid then (a, Inr AlreadyApplied)
           else (a, Inl (ConfirmState (StaleSequence (ledger_next_seq (au_ledger a) (tr_from t)) (tr_from_seq t)))))
      | None \<Rightarrow>
         (case ledger_apply (au_ledger a) t of
            Inl rej \<Rightarrow> (a, Inl (ConfirmState rej))
          | Inr l \<Rightarrow>
             (case journal_append jo (a\<lparr>au_ledger := l\<rparr>) (Confirmed ord) of
                (a', Inl e) \<Rightarrow> (a', Inl (ConfirmJournal (journal_error_str e)))
              | (a', Inr _) \<Rightarrow>
                  (let b = a'\<lparr>au_confirmed := bt_insert confirmed_slot oid (au_confirmed a'),
                             au_locked := unlock_slot (tr_from t) (tr_from_seq t) (au_locked a')\<rparr>
                   in (if install_covered b then complete_install b else b, Inr Applied)))))"

definition confirm_impl ::
    "crypto \<Rightarrow> 'j journal \<Rightarrow> 'j authority \<Rightarrow> verified \<Rightarrow> committee \<Rightarrow> bool \<Rightarrow>
      'j authority \<times> (confirm_error + confirm_outcome)" where
  "confirm_impl cr jo a v c require_membership =
     (if au_poisoned a then (a, Inl ConfirmPoisoned)
      else if vf_committee_id v \<noteq> au_committee_id a
      then (a, Inl (ConfirmWrongCommittee (au_committee_id a) (vf_committee_id v)))
      else if cm_id c \<noteq> au_committee_id a
      then (a, Inl (ConfirmWrongCommittee (au_committee_id a) (cm_id c)))
      else if tp_id (cm_policy c) \<noteq> tp_id (au_policy a)
      then (a, Inl (ConfirmWrongPolicy (tp_id (au_policy a)) (tp_id (cm_policy c))))
      else if st_policy_id (vf_order v) \<noteq> tp_id (au_policy a)
      then (a, Inl (ConfirmWrongPolicy (tp_id (au_policy a)) (st_policy_id (vf_order v))))
      else (case order_verify cr (vf_order v) (au_policy a) of
          Inl e \<Rightarrow> (a, Inl (ConfirmOwnerAuth e))
        | Inr _ \<Rightarrow>
           (if require_membership \<and> committee_key_of c (au_id a) \<noteq> Some (ed_public cr (au_signing a))
            then (a, Inl (ConfirmWrongCommittee (au_committee_id a) (cm_id c)))
            else confirm_apply cr jo a (vf_order v))))"

definition confirm ::
    "crypto \<Rightarrow> 'j journal \<Rightarrow> 'j authority \<Rightarrow> verified \<Rightarrow> committee \<Rightarrow>
      'j authority \<times> (confirm_error + confirm_outcome)" where
  "confirm cr jo a v c = confirm_impl cr jo a v c True"

definition confirm_as_observer ::
    "crypto \<Rightarrow> 'j journal \<Rightarrow> 'j authority \<Rightarrow> verified \<Rightarrow> committee \<Rightarrow>
      'j authority \<times> (confirm_error + confirm_outcome)" where
  "confirm_as_observer cr jo a v c = confirm_impl cr jo a v c False"

section \<open>Synchronous certification\<close>

datatype certified = CertifiedOk | CertifiedFailed nat nat bool

fun collect_votes ::
    "crypto \<Rightarrow> 'j journal \<Rightarrow> signed_transfer \<Rightarrow> 'j authority list \<Rightarrow> 'j authority list \<times> vote list \<times> nat \<times> bool" where
  "collect_votes cr jo ord [] = ([], [], 0, False)"
| "collect_votes cr jo ord (a # as) =
     (case handle cr jo a ord of (a', r) \<Rightarrow>
      case collect_votes cr jo ord as of (as', votes, refusals, contested) \<Rightarrow>
      case r of
        Inr v \<Rightarrow> (a' # as', v # votes, refusals, contested)
      | Inl (Equivocation _ _) \<Rightarrow> (a' # as', votes, refusals + 1, True)
      | Inl _ \<Rightarrow> (a' # as', votes, refusals + 1, contested))"

definition certify ::
    "crypto \<Rightarrow> 'j journal \<Rightarrow> signed_transfer \<Rightarrow> 'j authority list \<Rightarrow> committee \<Rightarrow>
      'j authority list \<times> verified option \<times> certified" where
  "certify cr jo ord as c =
     (case collect_votes cr jo ord as of (as', votes, refusals, contested) \<Rightarrow>
      case certificate_assemble cr ord votes c of
        Some k \<Rightarrow>
          (case certificate_verify cr k c of
             Some v \<Rightarrow> (map (\<lambda>a. fst (confirm cr jo a v c)) as', Some v, CertifiedOk)
           | None \<Rightarrow> (as', None, CertifiedFailed (length votes) refusals contested))
      | None \<Rightarrow> (as', None, CertifiedFailed (length votes) refusals contested))"

end
