(* ===== verification/Wire.thy ===== *)
theory Wire
  imports Epoch
begin

text \<open>
  The wire format of \<open>333-transfer/src/wire.rs\<close>: length-prefixed fields under domain tags and
  the one-byte frame of the authority messages. A reader takes the remaining input and returns
  the value with the input left, or the error. Each body is an instance of the \<open>codec\<close>
  interface, so the decoders accept exactly the encodings of values within the limits.
  \<open>usize\<close> is 64 bits, so \<open>LengthOverflow\<close> does not arise.
\<close>

section \<open>Constants and errors\<close>

definition DOMAIN_TRANSFER :: bytes where "DOMAIN_TRANSFER = domain_tag ''transfer333/wire-signed-order/v3''"
definition DOMAIN_VOTE :: bytes where "DOMAIN_VOTE = domain_tag ''transfer333/wire-vote/v3''"
definition DOMAIN_CERT :: bytes where "DOMAIN_CERT = domain_tag ''transfer333/wire-cert/v3''"
definition DOMAIN_ATTESTATION :: bytes where
  "DOMAIN_ATTESTATION = domain_tag ''transfer333/wire-effect-attestation/v1''"
definition DOMAIN_EPOCH_PROPOSAL :: bytes where
  "DOMAIN_EPOCH_PROPOSAL = domain_tag ''transfer333/wire-epoch-proposal/v1''"
definition DOMAIN_EPOCH_VOTE :: bytes where "DOMAIN_EPOCH_VOTE = domain_tag ''transfer333/wire-epoch-vote/v1''"
definition DOMAIN_EPOCH_CERT :: bytes where "DOMAIN_EPOCH_CERT = domain_tag ''transfer333/wire-epoch-cert/v1''"
definition MAX_CERTIFICATE_VOTES :: nat where "MAX_CERTIFICATE_VOTES = MAX_COMMITTEE_MEMBERS"

definition TAG_ORDER :: u8 where "TAG_ORDER = 0"
definition TAG_VOTE :: u8 where "TAG_VOTE = 1"
definition TAG_CERT :: u8 where "TAG_CERT = 2"
definition TAG_ATTESTATION :: u8 where "TAG_ATTESTATION = 3"
definition TAG_EPOCH_PROPOSAL :: u8 where "TAG_EPOCH_PROPOSAL = 4"
definition TAG_EPOCH_VOTE :: u8 where "TAG_EPOCH_VOTE = 5"
definition TAG_EPOCH_CERT :: u8 where "TAG_EPOCH_CERT = 6"

datatype authority_msg =
    MsgOrder signed_transfer
  | MsgVote vote
  | MsgCert certificate
  | MsgAttestation effect_attestation
  | MsgEpochProposal epoch_proposal
  | MsgEpochVote epoch_vote
  | MsgEpochCert epoch_cert

datatype wire_error =
    Truncated
  | BadDomain
  | BadUtf8
  | BadNetworkId
  | BadSignature
  | LengthOverflow string u64
  | FieldTooLong string u64 nat
  | TooManyVotes u64 nat
  | UnknownTag u8

section \<open>Primitive readers\<close>

definition wire_take :: "nat \<Rightarrow> bytes \<Rightarrow> wire_error + (bytes \<times> bytes)" where
  "wire_take n inp = (if length inp < n then Inl Truncated else Inr (take n inp, drop n inp))"

definition take_u64 :: "bytes \<Rightarrow> wire_error + (u64 \<times> bytes)" where
  "take_u64 inp = rbind (wire_take 8 inp) (\<lambda>(b, inp). Inr (of_nat (le_nat b), inp))"

definition take_u128 :: "bytes \<Rightarrow> wire_error + (u128 \<times> bytes)" where
  "take_u128 inp = rbind (wire_take 16 inp) (\<lambda>(b, inp). Inr (of_nat (le_nat b), inp))"

definition take_len_bytes :: "string \<Rightarrow> nat \<Rightarrow> bytes \<Rightarrow> wire_error + (bytes \<times> bytes)" where
  "take_len_bytes field mx inp =
     rbind (take_u64 inp) (\<lambda>(len, inp).
       if unat len > mx then Inl (FieldTooLong field len mx) else wire_take (unat len) inp)"

definition take_str :: "string \<Rightarrow> nat \<Rightarrow> bytes \<Rightarrow> wire_error + (string \<times> bytes)" where
  "take_str field mx inp =
     rbind (take_len_bytes field mx inp) (\<lambda>(b, inp).
       if utf8_valid b then Inr (of_bytes b, inp) else Inl BadUtf8)"

definition take_network_id :: "bytes \<Rightarrow> wire_error + (network_id \<times> bytes)" where
  "take_network_id inp =
     rbind (take_str ''network_id'' MAX_NETWORK_ID_BYTES inp) (\<lambda>(s, inp).
       rbind (map_err (\<lambda>_. BadNetworkId) (network_id_new s)) (\<lambda>n. Inr (n, inp)))"

definition take_policy_id :: "bytes \<Rightarrow> wire_error + (policy_id \<times> bytes)" where
  "take_policy_id inp = rbind (wire_take 32 inp) (\<lambda>(b, inp). Inr (PolicyId b, inp))"

definition take_committee_id :: "bytes \<Rightarrow> wire_error + (committee_id \<times> bytes)" where
  "take_committee_id inp = rbind (wire_take 32 inp) (\<lambda>(b, inp). Inr (CommitteeId b, inp))"

definition take_signature :: "bytes \<Rightarrow> wire_error + (bytes \<times> bytes)" where
  "take_signature inp = wire_take 64 inp"

definition expect_domain :: "bytes \<Rightarrow> bytes \<Rightarrow> wire_error + bytes" where
  "expect_domain domain inp =
     rbind (wire_take (length domain) inp) (\<lambda>(got, inp). if got \<noteq> domain then Inl BadDomain else Inr inp)"

section \<open>Orders and votes\<close>

definition put_transfer_body :: "transfer \<Rightarrow> u64 \<Rightarrow> bytes" where
  "put_transfer_body t rnd =
     put_str (tr_from t) @ u64_le (tr_from_seq t) @ u64_le rnd @ put_str (tr_to t) @ u128_le (tr_amount t)"

definition take_transfer_body :: "bytes \<Rightarrow> wire_error + ((transfer \<times> u64) \<times> bytes)" where
  "take_transfer_body inp =
     rbind (take_str ''transfer.from'' MAX_ACCOUNT_ID_BYTES inp) (\<lambda>(from, inp).
     rbind (take_u64 inp) (\<lambda>(sq, inp).
     rbind (take_u64 inp) (\<lambda>(rnd, inp).
     rbind (take_str ''transfer.to'' MAX_ACCOUNT_ID_BYTES inp) (\<lambda>(to, inp).
     rbind (take_u128 inp) (\<lambda>(amt, inp).
       Inr ((\<lparr>tr_from = from, tr_from_seq = sq, tr_to = to, tr_amount = amt\<rparr>, rnd), inp))))))"

definition put_signed_transfer_body :: "signed_transfer \<Rightarrow> bytes" where
  "put_signed_transfer_body ord =
     policy_bytes (st_policy_id ord) @ put_str (network_str (st_network_id ord))
     @ put_transfer_body (st_transfer ord) (st_round ord) @ st_owner_signature ord"

definition take_signed_transfer_body :: "bytes \<Rightarrow> wire_error + (signed_transfer \<times> bytes)" where
  "take_signed_transfer_body inp =
     rbind (take_policy_id inp) (\<lambda>(p, inp).
     rbind (take_network_id inp) (\<lambda>(n, inp).
     rbind (take_transfer_body inp) (\<lambda>((t, rnd), inp).
     rbind (take_signature inp) (\<lambda>(sg, inp).
       Inr (\<lparr>st_network_id = n, st_policy_id = p, st_transfer = t, st_round = rnd, st_owner_signature = sg\<rparr>, inp)))))"

definition put_vote_body :: "vote \<Rightarrow> bytes" where
  "put_vote_body v =
     put_str (vt_authority v) @ committee_bytes (vt_committee_id v) @ policy_bytes (vt_policy_id v)
     @ put_str (network_str (vt_network_id v)) @ put_transfer_body (vt_transfer v) (vt_round v) @ vt_signature v"

definition take_vote_body :: "bytes \<Rightarrow> wire_error + (vote \<times> bytes)" where
  "take_vote_body inp =
     rbind (take_str ''vote.authority'' MAX_AUTHORITY_ID_BYTES inp) (\<lambda>(a, inp).
     rbind (take_committee_id inp) (\<lambda>(c, inp).
     rbind (take_policy_id inp) (\<lambda>(p, inp).
     rbind (take_network_id inp) (\<lambda>(n, inp).
     rbind (take_transfer_body inp) (\<lambda>((t, rnd), inp).
     rbind (take_signature inp) (\<lambda>(sg, inp).
       Inr (\<lparr>vt_authority = a, vt_committee_id = c, vt_policy_id = p, vt_network_id = n, vt_transfer = t,
             vt_round = rnd, vt_signature = sg\<rparr>, inp)))))))"

text \<open>The trailing check every decoder ends with.\<close>

definition wire_finish :: "'a \<times> bytes \<Rightarrow> wire_error + 'a" where
  "wire_finish r = (case r of (x, inp) \<Rightarrow> if inp \<noteq> [] then Inl Truncated else Inr x)"

definition encode_transfer :: "signed_transfer \<Rightarrow> bytes" where
  "encode_transfer ord = DOMAIN_TRANSFER @ put_signed_transfer_body ord"

definition decode_transfer :: "bytes \<Rightarrow> wire_error + signed_transfer" where
  "decode_transfer bs =
     rbind (expect_domain DOMAIN_TRANSFER bs) (\<lambda>inp. rbind (take_signed_transfer_body inp) wire_finish)"

definition encode_vote :: "vote \<Rightarrow> bytes" where
  "encode_vote v = DOMAIN_VOTE @ put_vote_body v"

definition decode_vote :: "bytes \<Rightarrow> wire_error + vote" where
  "decode_vote bs = rbind (expect_domain DOMAIN_VOTE bs) (\<lambda>inp. rbind (take_vote_body inp) wire_finish)"

definition encode_certificate :: "certificate \<Rightarrow> bytes" where
  "encode_certificate k =
     DOMAIN_CERT @ put_signed_transfer_body (ct_order k) @ len64 (length (ct_votes k))
     @ concat (map put_vote_body (ct_votes k))"

definition decode_certificate :: "bytes \<Rightarrow> wire_error + certificate" where
  "decode_certificate bs =
     rbind (expect_domain DOMAIN_CERT bs) (\<lambda>inp.
     rbind (take_signed_transfer_body inp) (\<lambda>(ord, inp).
     rbind (take_u64 inp) (\<lambda>(count, inp).
       if unat count > MAX_CERTIFICATE_VOTES then Inl (TooManyVotes count MAX_CERTIFICATE_VOTES)
       else rbind (take_items take_vote_body (unat count) inp) (\<lambda>(vs, inp).
         wire_finish (\<lparr>ct_order = ord, ct_votes = vs\<rparr>, inp)))))"

section \<open>Attestations\<close>

definition put_attestation_body :: "effect_attestation \<Rightarrow> bytes" where
  "put_attestation_body a =
     put_str (ea_authority a) @ committee_bytes (ea_committee_id a) @ put_str (ea_account a)
     @ u64_le (ea_seq a) @ ea_order_id a @ ea_signature a"

definition take_attestation_body :: "bytes \<Rightarrow> wire_error + (effect_attestation \<times> bytes)" where
  "take_attestation_body inp =
     rbind (take_str ''attestation.authority'' MAX_AUTHORITY_ID_BYTES inp) (\<lambda>(a, inp).
     rbind (take_committee_id inp) (\<lambda>(c, inp).
     rbind (take_str ''attestation.account'' MAX_ACCOUNT_ID_BYTES inp) (\<lambda>(acct, inp).
     rbind (take_u64 inp) (\<lambda>(sq, inp).
     rbind (wire_take 32 inp) (\<lambda>(oid, inp).
     rbind (take_signature inp) (\<lambda>(sg, inp).
       Inr (\<lparr>ea_authority = a, ea_committee_id = c, ea_account = acct, ea_seq = sq, ea_order_id = oid,
             ea_signature = sg\<rparr>, inp)))))))"

definition encode_attestation :: "effect_attestation \<Rightarrow> bytes" where
  "encode_attestation a = DOMAIN_ATTESTATION @ put_attestation_body a"

definition decode_attestation :: "bytes \<Rightarrow> wire_error + effect_attestation" where
  "decode_attestation bs =
     rbind (expect_domain DOMAIN_ATTESTATION bs) (\<lambda>inp. rbind (take_attestation_body inp) wire_finish)"

section \<open>Epoch messages\<close>

definition put_roster_item :: "authority_id \<times> bytes \<Rightarrow> bytes" where
  "put_roster_item m = (case m of (a, key) \<Rightarrow> put_str a @ key)"

definition put_roster :: "(authority_id \<times> bytes) list \<Rightarrow> bytes" where
  "put_roster ms = len64 (length ms) @ concat (map put_roster_item ms)"

definition take_roster_item :: "crypto \<Rightarrow> bytes \<Rightarrow> wire_error + ((authority_id \<times> bytes) \<times> bytes)" where
  "take_roster_item cr inp =
     rbind (take_str ''epoch.authority'' MAX_AUTHORITY_ID_BYTES inp) (\<lambda>(a, inp).
     rbind (wire_take 32 inp) (\<lambda>(key, inp).
       if vk_parses cr key then Inr ((a, key), inp) else Inl BadSignature))"

definition take_roster :: "crypto \<Rightarrow> bytes \<Rightarrow> wire_error + ((authority_id \<times> bytes) list \<times> bytes)" where
  "take_roster cr inp =
     rbind (take_u64 inp) (\<lambda>(count, inp).
       if unat count > MAX_COMMITTEE_MEMBERS then Inl (TooManyVotes count MAX_COMMITTEE_MEMBERS)
       else take_items (take_roster_item cr) (unat count) inp)"

definition put_frontier_item :: "account_id \<times> u64 \<Rightarrow> bytes" where
  "put_frontier_item m = (case m of (a, sq) \<Rightarrow> put_str a @ u64_le sq)"

definition put_frontier :: "frontier \<Rightarrow> bytes" where
  "put_frontier fr = len64 (length fr) @ concat (map put_frontier_item fr)"

definition take_frontier_item :: "bytes \<Rightarrow> wire_error + ((account_id \<times> u64) \<times> bytes)" where
  "take_frontier_item inp =
     rbind (take_str ''epoch.frontier.account'' MAX_ACCOUNT_ID_BYTES inp) (\<lambda>(a, inp).
     rbind (take_u64 inp) (\<lambda>(sq, inp). Inr ((a, sq), inp)))"

definition take_frontier :: "bytes \<Rightarrow> wire_error + (frontier \<times> bytes)" where
  "take_frontier inp =
     rbind (take_u64 inp) (\<lambda>(count, inp).
       if unat count > MAX_FRONTIER_ACCOUNTS
       then Inl (FieldTooLong ''epoch.frontier'' count MAX_FRONTIER_ACCOUNTS)
       else take_items take_frontier_item (unat count) inp)"

definition put_epoch_proposal_body :: "epoch_proposal \<Rightarrow> bytes" where
  "put_epoch_proposal_body p =
     policy_bytes (ep_policy_id p) @ put_str (network_str (ep_network_id p)) @ u64_le (ep_epoch p)
     @ put_roster (ep_next_roster p)"

definition take_epoch_proposal_body :: "crypto \<Rightarrow> bytes \<Rightarrow> wire_error + (epoch_proposal \<times> bytes)" where
  "take_epoch_proposal_body cr inp =
     rbind (take_policy_id inp) (\<lambda>(p, inp).
     rbind (take_network_id inp) (\<lambda>(n, inp).
     rbind (take_u64 inp) (\<lambda>(e, inp).
     rbind (take_roster cr inp) (\<lambda>(ms, inp).
       Inr (\<lparr>ep_network_id = n, ep_policy_id = p, ep_epoch = e, ep_next_roster = ms\<rparr>, inp)))))"

definition put_epoch_vote_body :: "epoch_vote \<Rightarrow> bytes" where
  "put_epoch_vote_body v =
     put_str (ev_authority v) @ committee_bytes (ev_committee_id v) @ u64_le (ev_epoch v)
     @ committee_bytes (ev_next_committee_id v) @ put_frontier (ev_frontier v) @ ev_frontier_digest v
     @ ev_signature v"

definition take_epoch_vote_body :: "bytes \<Rightarrow> wire_error + (epoch_vote \<times> bytes)" where
  "take_epoch_vote_body inp =
     rbind (take_str ''epoch_vote.authority'' MAX_AUTHORITY_ID_BYTES inp) (\<lambda>(a, inp).
     rbind (take_committee_id inp) (\<lambda>(c, inp).
     rbind (take_u64 inp) (\<lambda>(e, inp).
     rbind (take_committee_id inp) (\<lambda>(nc, inp).
     rbind (take_frontier inp) (\<lambda>(fr, inp).
     rbind (wire_take 32 inp) (\<lambda>(fd, inp).
     rbind (take_signature inp) (\<lambda>(sg, inp).
       Inr (\<lparr>ev_authority = a, ev_committee_id = c, ev_epoch = e, ev_next_committee_id = nc, ev_frontier = fr,
             ev_frontier_digest = fd, ev_signature = sg\<rparr>, inp))))))))"

definition encode_epoch_proposal :: "epoch_proposal \<Rightarrow> bytes" where
  "encode_epoch_proposal p = DOMAIN_EPOCH_PROPOSAL @ put_epoch_proposal_body p"

definition decode_epoch_proposal :: "crypto \<Rightarrow> bytes \<Rightarrow> wire_error + epoch_proposal" where
  "decode_epoch_proposal cr bs =
     rbind (expect_domain DOMAIN_EPOCH_PROPOSAL bs) (\<lambda>inp. rbind (take_epoch_proposal_body cr inp) wire_finish)"

definition encode_epoch_vote :: "epoch_vote \<Rightarrow> bytes" where
  "encode_epoch_vote v = DOMAIN_EPOCH_VOTE @ put_epoch_vote_body v"

definition decode_epoch_vote :: "bytes \<Rightarrow> wire_error + epoch_vote" where
  "decode_epoch_vote bs =
     rbind (expect_domain DOMAIN_EPOCH_VOTE bs) (\<lambda>inp. rbind (take_epoch_vote_body inp) wire_finish)"

definition encode_epoch_cert :: "epoch_cert \<Rightarrow> bytes" where
  "encode_epoch_cert k =
     DOMAIN_EPOCH_CERT @ u64_le (ek_epoch k) @ put_roster (ek_next_roster k) @ put_frontier (ek_frontier k)
     @ len64 (length (ek_votes k)) @ concat (map put_epoch_vote_body (ek_votes k))"

definition decode_epoch_cert :: "crypto \<Rightarrow> bytes \<Rightarrow> wire_error + epoch_cert" where
  "decode_epoch_cert cr bs =
     rbind (expect_domain DOMAIN_EPOCH_CERT bs) (\<lambda>inp.
     rbind (take_u64 inp) (\<lambda>(e, inp).
     rbind (take_roster cr inp) (\<lambda>(ms, inp).
     rbind (take_frontier inp) (\<lambda>(fr, inp).
     rbind (take_u64 inp) (\<lambda>(count, inp).
       if unat count > MAX_COMMITTEE_MEMBERS then Inl (TooManyVotes count MAX_COMMITTEE_MEMBERS)
       else rbind (take_items take_epoch_vote_body (unat count) inp) (\<lambda>(vs, inp).
         wire_finish (\<lparr>ek_epoch = e, ek_next_roster = ms, ek_frontier = fr, ek_votes = vs\<rparr>, inp)))))))"

section \<open>Authority messages\<close>

fun encode_authority_msg :: "authority_msg \<Rightarrow> bytes" where
  "encode_authority_msg (MsgOrder t) = TAG_ORDER # encode_transfer t"
| "encode_authority_msg (MsgVote v) = TAG_VOTE # encode_vote v"
| "encode_authority_msg (MsgCert c) = TAG_CERT # encode_certificate c"
| "encode_authority_msg (MsgAttestation a) = TAG_ATTESTATION # encode_attestation a"
| "encode_authority_msg (MsgEpochProposal p) = TAG_EPOCH_PROPOSAL # encode_epoch_proposal p"
| "encode_authority_msg (MsgEpochVote v) = TAG_EPOCH_VOTE # encode_epoch_vote v"
| "encode_authority_msg (MsgEpochCert c) = TAG_EPOCH_CERT # encode_epoch_cert c"

definition decode_authority_msg :: "crypto \<Rightarrow> bytes \<Rightarrow> wire_error + authority_msg" where
  "decode_authority_msg cr bs =
     (case bs of
        [] \<Rightarrow> Inl Truncated
      | tag # body \<Rightarrow>
         if tag = TAG_ORDER then rbind (decode_transfer body) (Inr \<circ> MsgOrder)
         else if tag = TAG_VOTE then rbind (decode_vote body) (Inr \<circ> MsgVote)
         else if tag = TAG_CERT then rbind (decode_certificate body) (Inr \<circ> MsgCert)
         else if tag = TAG_ATTESTATION then rbind (decode_attestation body) (Inr \<circ> MsgAttestation)
         else if tag = TAG_EPOCH_PROPOSAL then rbind (decode_epoch_proposal cr body) (Inr \<circ> MsgEpochProposal)
         else if tag = TAG_EPOCH_VOTE then rbind (decode_epoch_vote body) (Inr \<circ> MsgEpochVote)
         else if tag = TAG_EPOCH_CERT then rbind (decode_epoch_cert cr body) (Inr \<circ> MsgEpochCert)
         else Inl (UnknownTag tag))"

section \<open>Primitive readers, characterised\<close>

lemma rbind_pair_iff: "rbind m (\<lambda>(x, y). f x y) = Inr z \<longleftrightarrow> (\<exists>x y. m = Inr (x, y) \<and> f x y = Inr z)"
  by (cases m) auto

lemma rbind_if_iff: "(if n < x then Inl e else m) = Inr z \<longleftrightarrow> x \<le> n \<and> m = Inr z" for x n :: nat
  by auto

lemma wire_take_iff [wire_simps]: "wire_take n inp = Inr (b, r) \<longleftrightarrow> length b = n \<and> inp = b @ r"
  by (auto simp: wire_take_def)

lemma le_nat_bound: "le_nat b < 256 ^ length b"
proof (induction b)
  case (Cons x xs)
  have "unat x < 256" using unsigned_less [where ?'a = nat, of x] by simp
  with Cons show ?case by simp
qed simp

lemma u64_le_of_bytes: "length b = 8 \<Longrightarrow> u64_le (of_nat (le_nat b)) = b"
  using le_nat_bound [of b] le_bytes_le_nat [of b] by (simp add: u64_le_def unat_of_nat)

lemma u128_le_of_bytes: "length b = 16 \<Longrightarrow> u128_le (of_nat (le_nat b)) = b"
  using le_nat_bound [of b] le_bytes_le_nat [of b] by (simp add: u128_le_def unat_of_nat)

lemma take_u64_iff [wire_simps]: "take_u64 inp = Inr (w, r) \<longleftrightarrow> inp = u64_le w @ r"
  by (force simp: take_u64_def rbind_eq_Inr wire_take_iff u64_le_of_bytes)

lemma take_u128_iff [wire_simps]: "take_u128 inp = Inr (w, r) \<longleftrightarrow> inp = u128_le w @ r"
  by (force simp: take_u128_def rbind_eq_Inr wire_take_iff u128_le_of_bytes)

lemma len64_unat: "len64 (unat (w::u64)) = u64_le w"
  by (simp add: len64_def)

lemma unat_len: "n < 2 ^ 64 \<Longrightarrow> unat (of_nat n :: u64) = n"
  by (simp add: unat_of_nat)

text \<open>A count prefix, read back.\<close>

lemma take_count_iff:
  assumes "mx < 2 ^ 64"
  shows "(\<exists>w r'. take_u64 inp = Inr (w, r') \<and> unat w \<le> mx \<and> P (unat w) r') \<longleftrightarrow>
    (\<exists>n r'. n \<le> mx \<and> inp = len64 n @ r' \<and> P n r')"
proof
  assume "\<exists>w r'. take_u64 inp = Inr (w, r') \<and> unat w \<le> mx \<and> P (unat w) r'"
  then show "\<exists>n r'. n \<le> mx \<and> inp = len64 n @ r' \<and> P n r'"
    by (metis take_u64_iff len64_unat)
next
  assume "\<exists>n r'. n \<le> mx \<and> inp = len64 n @ r' \<and> P n r'"
  then obtain n r' where n: "n \<le> mx" "inp = len64 n @ r'" "P n r'" by blast
  then have "take_u64 inp = Inr (of_nat n, r')" "unat (of_nat n :: u64) = n"
    using assms by (simp_all add: take_u64_iff len64_def unat_len)
  with n show "\<exists>w r'. take_u64 inp = Inr (w, r') \<and> unat w \<le> mx \<and> P (unat w) r'" by metis
qed

lemma take_len_bytes_iff:
  assumes "mx < 2 ^ 64"
  shows "take_len_bytes f mx inp = Inr (b, r) \<longleftrightarrow> length b \<le> mx \<and> inp = put_bytes b @ r"
proof -
  have "take_len_bytes f mx inp = Inr (b, r) \<longleftrightarrow>
      (\<exists>w r'. take_u64 inp = Inr (w, r') \<and> unat w \<le> mx \<and> wire_take (unat w) r' = Inr (b, r))"
    by (auto simp: take_len_bytes_def rbind_eq_Inr not_less)
  also have "\<dots> \<longleftrightarrow> (\<exists>n r'. n \<le> mx \<and> inp = len64 n @ r' \<and> wire_take n r' = Inr (b, r))"
    by (rule take_count_iff [OF assms])
  also have "\<dots> \<longleftrightarrow> length b \<le> mx \<and> inp = put_bytes b @ r"
    by (auto simp: wire_take_iff put_bytes_def)
  finally show ?thesis .
qed

definition text_ok :: "nat \<Rightarrow> string \<Rightarrow> bool" where
  "text_ok mx s \<longleftrightarrow> utf8_valid (as_bytes s) \<and> length s \<le> mx"

lemma take_str_iff:
  assumes "mx < 2 ^ 64"
  shows "take_str f mx inp = Inr (s, r) \<longleftrightarrow> text_ok mx s \<and> inp = put_str s @ r"
proof -
  have "take_str f mx inp = Inr (s, r) \<longleftrightarrow>
      (\<exists>b. take_len_bytes f mx inp = Inr (b, r) \<and> utf8_valid b \<and> s = of_bytes b)"
    by (auto simp: take_str_def rbind_eq_Inr)
  also have "\<dots> \<longleftrightarrow> text_ok mx s \<and> inp = put_str s @ r"
    unfolding take_len_bytes_iff [OF assms] text_ok_def put_str_def
    by (metis as_bytes_of_bytes of_bytes_as_bytes length_as_bytes)
  finally show ?thesis .
qed

lemma max_bounds:
  "MAX_ACCOUNT_ID_BYTES < 2 ^ 64" "MAX_AUTHORITY_ID_BYTES < 2 ^ 64" "MAX_NETWORK_ID_BYTES < 2 ^ 64"
  "MAX_COMMITTEE_MEMBERS < 2 ^ 64" "MAX_FRONTIER_ACCOUNTS < 2 ^ 64"
  by (simp_all add: MAX_ACCOUNT_ID_BYTES_def MAX_AUTHORITY_ID_BYTES_def MAX_NETWORK_ID_BYTES_def
      MAX_COMMITTEE_MEMBERS_def MAX_FRONTIER_ACCOUNTS_def)

lemmas take_str_iffs [wire_simps] =
  take_str_iff [OF max_bounds(1)] take_str_iff [OF max_bounds(2)] take_str_iff [OF max_bounds(3)]

definition network_ok :: "network_id \<Rightarrow> bool" where
  "network_ok n \<longleftrightarrow> text_ok MAX_NETWORK_ID_BYTES (network_str n) \<and> network_str n \<noteq> []"

lemma network_id_new_iff [wire_simps]:
  "network_id_new s = Inr n \<longleftrightarrow> n = NetworkId s \<and> s \<noteq> [] \<and> length s \<le> MAX_NETWORK_ID_BYTES"
  by (auto simp: network_id_new_def)

lemma take_network_id_iff [wire_simps]:
  "take_network_id inp = Inr (n, r) \<longleftrightarrow> network_ok n \<and> inp = put_str (network_str n) @ r"
  by (cases n) (auto simp: take_network_id_def rbind_eq_Inr wire_simps network_ok_def text_ok_def)

lemma take_policy_id_iff [wire_simps]:
  "take_policy_id inp = Inr (p, r) \<longleftrightarrow> length (policy_bytes p) = 32 \<and> inp = policy_bytes p @ r"
  by (cases p) (auto simp: take_policy_id_def rbind_eq_Inr wire_simps)

lemma take_committee_id_iff [wire_simps]:
  "take_committee_id inp = Inr (c, r) \<longleftrightarrow> length (committee_bytes c) = 32 \<and> inp = committee_bytes c @ r"
  by (cases c) (auto simp: take_committee_id_def rbind_eq_Inr wire_simps)

lemma take_signature_iff [wire_simps]: "take_signature inp = Inr (b, r) \<longleftrightarrow> length b = 64 \<and> inp = b @ r"
  by (simp add: take_signature_def wire_take_iff)

lemma expect_domain_iff [wire_simps]: "expect_domain d inp = Inr r \<longleftrightarrow> inp = d @ r"
  by (auto simp: expect_domain_def rbind_eq_Inr wire_simps)

lemma wire_finish_iff [wire_simps]: "wire_finish p = Inr x \<longleftrightarrow> p = (x, [])"
  by (auto simp: wire_finish_def split: prod.splits)

section \<open>Bodies\<close>

definition wire_transfer_ok :: "transfer \<Rightarrow> bool" where
  "wire_transfer_ok t \<longleftrightarrow> text_ok MAX_ACCOUNT_ID_BYTES (tr_from t) \<and> text_ok MAX_ACCOUNT_ID_BYTES (tr_to t)"

lemma take_transfer_body_iff [wire_simps]:
  "take_transfer_body inp = Inr ((t, rnd), r) \<longleftrightarrow> wire_transfer_ok t \<and> inp = put_transfer_body t rnd @ r"
  by (cases t)
    (auto simp: take_transfer_body_def rbind_eq_Inr wire_simps wire_transfer_ok_def put_transfer_body_def)

definition wire_order_ok :: "signed_transfer \<Rightarrow> bool" where
  "wire_order_ok ord \<longleftrightarrow> length (policy_bytes (st_policy_id ord)) = 32 \<and> network_ok (st_network_id ord) \<and>
     wire_transfer_ok (st_transfer ord) \<and> length (st_owner_signature ord) = 64"

interpretation order_codec: codec put_signed_transfer_body take_signed_transfer_body wire_order_ok
proof
  fix inp ord r
  show "take_signed_transfer_body inp = Inr (ord, r) \<longleftrightarrow> wire_order_ok ord \<and> inp = put_signed_transfer_body ord @ r"
    by (cases ord)
      (auto simp: take_signed_transfer_body_def rbind_eq_Inr wire_simps wire_order_ok_def put_signed_transfer_body_def)
qed

definition wire_vote_ok :: "vote \<Rightarrow> bool" where
  "wire_vote_ok v \<longleftrightarrow> text_ok MAX_AUTHORITY_ID_BYTES (vt_authority v) \<and> length (committee_bytes (vt_committee_id v)) = 32 \<and>
     length (policy_bytes (vt_policy_id v)) = 32 \<and> network_ok (vt_network_id v) \<and>
     wire_transfer_ok (vt_transfer v) \<and> length (vt_signature v) = 64"

interpretation vote_codec: codec put_vote_body take_vote_body wire_vote_ok
proof
  fix inp v r
  show "take_vote_body inp = Inr (v, r) \<longleftrightarrow> wire_vote_ok v \<and> inp = put_vote_body v @ r"
    by (cases v) (auto simp: take_vote_body_def rbind_eq_Inr wire_simps wire_vote_ok_def put_vote_body_def)
qed

definition wire_attestation_ok :: "effect_attestation \<Rightarrow> bool" where
  "wire_attestation_ok a \<longleftrightarrow> text_ok MAX_AUTHORITY_ID_BYTES (ea_authority a) \<and>
     length (committee_bytes (ea_committee_id a)) = 32 \<and> text_ok MAX_ACCOUNT_ID_BYTES (ea_account a) \<and>
     length (ea_order_id a) = 32 \<and> length (ea_signature a) = 64"

interpretation attestation_codec: codec put_attestation_body take_attestation_body wire_attestation_ok
proof
  fix inp a r
  show "take_attestation_body inp = Inr (a, r) \<longleftrightarrow> wire_attestation_ok a \<and> inp = put_attestation_body a @ r"
    by (cases a)
      (auto simp: take_attestation_body_def rbind_eq_Inr wire_simps wire_attestation_ok_def put_attestation_body_def)
qed

definition roster_item_ok :: "crypto \<Rightarrow> authority_id \<times> bytes \<Rightarrow> bool" where
  "roster_item_ok cr m = (case m of (a, key) \<Rightarrow>
     text_ok MAX_AUTHORITY_ID_BYTES a \<and> length key = 32 \<and> vk_parses cr key)"

interpretation roster_item_codec: codec put_roster_item "take_roster_item cr" "roster_item_ok cr" for cr
proof
  fix inp m r
  show "take_roster_item cr inp = Inr (m, r) \<longleftrightarrow> roster_item_ok cr m \<and> inp = put_roster_item m @ r"
    by (cases m) (auto simp: take_roster_item_def rbind_eq_Inr wire_simps roster_item_ok_def put_roster_item_def)
qed

definition frontier_item_ok :: "account_id \<times> u64 \<Rightarrow> bool" where
  "frontier_item_ok m = text_ok MAX_ACCOUNT_ID_BYTES (fst m)"

interpretation frontier_item_codec: codec put_frontier_item take_frontier_item frontier_item_ok
proof
  fix inp m r
  show "take_frontier_item inp = Inr (m, r) \<longleftrightarrow> frontier_item_ok m \<and> inp = put_frontier_item m @ r"
    by (cases m) (auto simp: take_frontier_item_def rbind_eq_Inr wire_simps frontier_item_ok_def put_frontier_item_def)
qed

text \<open>A list with its count in front, limited to \<open>mx\<close> items.\<close>

context codec
begin

lemma counted_iff:
  assumes "mx < 2 ^ 64"
  shows "(\<exists>w r'. take_u64 inp = Inr (w, r') \<and> unat w \<le> mx \<and> take_items rd (unat w) r' = Inr (xs, r)) \<longleftrightarrow>
    length xs \<le> mx \<and> (\<forall>x \<in> set xs. ok x) \<and> inp = len64 (length xs) @ concat (map wr xs) @ r"
proof -
  have "(\<exists>w r'. take_u64 inp = Inr (w, r') \<and> unat w \<le> mx \<and> take_items rd (unat w) r' = Inr (xs, r)) \<longleftrightarrow>
      (\<exists>n r'. n \<le> mx \<and> inp = len64 n @ r' \<and> take_items rd n r' = Inr (xs, r))"
    by (rule take_count_iff [OF assms])
  then show ?thesis unfolding take_items_iff by auto
qed

end

definition wire_roster_ok :: "crypto \<Rightarrow> (authority_id \<times> bytes) list \<Rightarrow> bool" where
  "wire_roster_ok cr ms \<longleftrightarrow> length ms \<le> MAX_COMMITTEE_MEMBERS \<and> (\<forall>m \<in> set ms. roster_item_ok cr m)"

lemma take_roster_iff [wire_simps]:
  "take_roster cr inp = Inr (ms, r) \<longleftrightarrow> wire_roster_ok cr ms \<and> inp = put_roster ms @ r"
proof -
  have "take_roster cr inp = Inr (ms, r) \<longleftrightarrow> (\<exists>w r'. take_u64 inp = Inr (w, r') \<and>
      unat w \<le> MAX_COMMITTEE_MEMBERS \<and> take_items (take_roster_item cr) (unat w) r' = Inr (ms, r))"
    by (auto simp: take_roster_def rbind_eq_Inr not_less)
  then show ?thesis
    by (simp add: roster_item_codec.counted_iff [OF max_bounds(4)] wire_roster_ok_def put_roster_def)
qed

definition wire_frontier_ok :: "frontier \<Rightarrow> bool" where
  "wire_frontier_ok fr \<longleftrightarrow> length fr \<le> MAX_FRONTIER_ACCOUNTS \<and> (\<forall>m \<in> set fr. frontier_item_ok m)"

lemma take_frontier_iff [wire_simps]:
  "take_frontier inp = Inr (fr, r) \<longleftrightarrow> wire_frontier_ok fr \<and> inp = put_frontier fr @ r"
proof -
  have "take_frontier inp = Inr (fr, r) \<longleftrightarrow> (\<exists>w r'. take_u64 inp = Inr (w, r') \<and>
      unat w \<le> MAX_FRONTIER_ACCOUNTS \<and> take_items take_frontier_item (unat w) r' = Inr (fr, r))"
    by (auto simp: take_frontier_def rbind_eq_Inr not_less)
  then show ?thesis
    by (simp add: frontier_item_codec.counted_iff [OF max_bounds(5)] wire_frontier_ok_def put_frontier_def)
qed

definition wire_proposal_ok :: "crypto \<Rightarrow> epoch_proposal \<Rightarrow> bool" where
  "wire_proposal_ok cr p \<longleftrightarrow> length (policy_bytes (ep_policy_id p)) = 32 \<and> network_ok (ep_network_id p) \<and>
     wire_roster_ok cr (ep_next_roster p)"

interpretation proposal_codec: codec put_epoch_proposal_body "take_epoch_proposal_body cr" "wire_proposal_ok cr" for cr
proof
  fix inp p r
  show "take_epoch_proposal_body cr inp = Inr (p, r) \<longleftrightarrow> wire_proposal_ok cr p \<and> inp = put_epoch_proposal_body p @ r"
    by (cases p)
      (auto simp: take_epoch_proposal_body_def rbind_eq_Inr wire_simps wire_proposal_ok_def put_epoch_proposal_body_def)
qed

definition wire_epoch_vote_ok :: "epoch_vote \<Rightarrow> bool" where
  "wire_epoch_vote_ok v \<longleftrightarrow> text_ok MAX_AUTHORITY_ID_BYTES (ev_authority v) \<and>
     length (committee_bytes (ev_committee_id v)) = 32 \<and> length (committee_bytes (ev_next_committee_id v)) = 32 \<and>
     wire_frontier_ok (ev_frontier v) \<and> length (ev_frontier_digest v) = 32 \<and> length (ev_signature v) = 64"

interpretation epoch_vote_codec: codec put_epoch_vote_body take_epoch_vote_body wire_epoch_vote_ok
proof
  fix inp v r
  show "take_epoch_vote_body inp = Inr (v, r) \<longleftrightarrow> wire_epoch_vote_ok v \<and> inp = put_epoch_vote_body v @ r"
    by (cases v)
      (auto simp: take_epoch_vote_body_def rbind_eq_Inr wire_simps wire_epoch_vote_ok_def put_epoch_vote_body_def)
qed

lemmas body_iffs = order_codec.rd_iff vote_codec.rd_iff attestation_codec.rd_iff proposal_codec.rd_iff
  epoch_vote_codec.rd_iff

section \<open>Messages\<close>

definition wire_certificate_ok :: "certificate \<Rightarrow> bool" where
  "wire_certificate_ok k \<longleftrightarrow> wire_order_ok (ct_order k) \<and> length (ct_votes k) \<le> MAX_CERTIFICATE_VOTES \<and>
     (\<forall>v \<in> set (ct_votes k). wire_vote_ok v)"

definition wire_epoch_cert_ok :: "crypto \<Rightarrow> epoch_cert \<Rightarrow> bool" where
  "wire_epoch_cert_ok cr k \<longleftrightarrow> wire_roster_ok cr (ek_next_roster k) \<and> wire_frontier_ok (ek_frontier k) \<and>
     length (ek_votes k) \<le> MAX_COMMITTEE_MEMBERS \<and> (\<forall>v \<in> set (ek_votes k). wire_epoch_vote_ok v)"

lemma decode_iffs:
  "decode_transfer bs = Inr ord \<longleftrightarrow> wire_order_ok ord \<and> bs = encode_transfer ord"
  "decode_vote bs = Inr v \<longleftrightarrow> wire_vote_ok v \<and> bs = encode_vote v"
  "decode_attestation bs = Inr a \<longleftrightarrow> wire_attestation_ok a \<and> bs = encode_attestation a"
  "decode_epoch_proposal cr bs = Inr p \<longleftrightarrow> wire_proposal_ok cr p \<and> bs = encode_epoch_proposal p"
  "decode_epoch_vote bs = Inr ev \<longleftrightarrow> wire_epoch_vote_ok ev \<and> bs = encode_epoch_vote ev"
  by (auto simp: decode_transfer_def encode_transfer_def decode_vote_def encode_vote_def decode_attestation_def
      encode_attestation_def decode_epoch_proposal_def encode_epoch_proposal_def decode_epoch_vote_def
      encode_epoch_vote_def rbind_eq_Inr wire_simps body_iffs)

lemma decode_certificate_iff:
  "decode_certificate bs = Inr k \<longleftrightarrow> wire_certificate_ok k \<and> bs = encode_certificate k"
proof -
  have "decode_certificate bs = Inr k \<longleftrightarrow> (\<exists>inp r. bs = DOMAIN_CERT @ inp \<and>
      take_signed_transfer_body inp = Inr (ct_order k, r) \<and>
      (\<exists>w r'. take_u64 r = Inr (w, r') \<and> unat w \<le> MAX_COMMITTEE_MEMBERS \<and>
         take_items take_vote_body (unat w) r' = Inr (ct_votes k, [])))"
    by (cases k) (simp add: decode_certificate_def rbind_pair_iff rbind_if_iff rbind_eq_Inr [of "expect_domain _ _"]
        expect_domain_iff wire_finish_iff MAX_CERTIFICATE_VOTES_def, blast)
  also have "\<dots> \<longleftrightarrow> wire_certificate_ok k \<and> bs = encode_certificate k"
    unfolding vote_codec.counted_iff [OF max_bounds(4)] order_codec.rd_iff
    by (auto simp: wire_certificate_ok_def encode_certificate_def MAX_CERTIFICATE_VOTES_def)
  finally show ?thesis .
qed

lemma decode_epoch_cert_iff:
  "decode_epoch_cert cr bs = Inr k \<longleftrightarrow> wire_epoch_cert_ok cr k \<and> bs = encode_epoch_cert k"
proof -
  have "decode_epoch_cert cr bs = Inr k \<longleftrightarrow> (\<exists>i1 i2 i3 i4. bs = DOMAIN_EPOCH_CERT @ i1 \<and>
      take_u64 i1 = Inr (ek_epoch k, i2) \<and> take_roster cr i2 = Inr (ek_next_roster k, i3) \<and>
      take_frontier i3 = Inr (ek_frontier k, i4) \<and>
      (\<exists>w r'. take_u64 i4 = Inr (w, r') \<and> unat w \<le> MAX_COMMITTEE_MEMBERS \<and>
         take_items take_epoch_vote_body (unat w) r' = Inr (ek_votes k, [])))"
    by (cases k) (simp add: decode_epoch_cert_def rbind_pair_iff rbind_if_iff rbind_eq_Inr [of "expect_domain _ _"]
        expect_domain_iff wire_finish_iff,
        intro iffI; elim exE conjE; hypsubst; (intro exI conjI; (assumption | rule refl)))
  also have "\<dots> \<longleftrightarrow> wire_epoch_cert_ok cr k \<and> bs = encode_epoch_cert k"
    unfolding epoch_vote_codec.counted_iff [OF max_bounds(4)]
    by (auto simp: wire_epoch_cert_ok_def encode_epoch_cert_def take_roster_iff take_frontier_iff take_u64_iff)
  finally show ?thesis .
qed

fun wire_msg_ok :: "crypto \<Rightarrow> authority_msg \<Rightarrow> bool" where
  "wire_msg_ok cr (MsgOrder t) = wire_order_ok t"
| "wire_msg_ok cr (MsgVote v) = wire_vote_ok v"
| "wire_msg_ok cr (MsgCert k) = wire_certificate_ok k"
| "wire_msg_ok cr (MsgAttestation a) = wire_attestation_ok a"
| "wire_msg_ok cr (MsgEpochProposal p) = wire_proposal_ok cr p"
| "wire_msg_ok cr (MsgEpochVote v) = wire_epoch_vote_ok v"
| "wire_msg_ok cr (MsgEpochCert k) = wire_epoch_cert_ok cr k"

lemmas tags = TAG_ORDER_def TAG_VOTE_def TAG_CERT_def TAG_ATTESTATION_def TAG_EPOCH_PROPOSAL_def TAG_EPOCH_VOTE_def
  TAG_EPOCH_CERT_def

lemma decode_authority_msg_iff:
  "decode_authority_msg cr bs = Inr m \<longleftrightarrow> wire_msg_ok cr m \<and> bs = encode_authority_msg m"
proof (cases bs)
  case Nil
  then show ?thesis by (cases m) (simp_all add: decode_authority_msg_def)
next
  case (Cons tag body)
  show ?thesis
    unfolding Cons
    by (cases m)
      (auto simp: decode_authority_msg_def rbind_eq_Inr decode_iffs decode_certificate_iff decode_epoch_cert_iff tags)
qed

text \<open>C14: the decoder of authority messages accepts exactly the encodings of messages within the
  field limits: decoding inverts encoding, no other byte string decodes to a message, and every
  decoded message respects the limits on strings, rosters, frontiers and vote counts.\<close>

theorem wire_decode_iff:
  "decode_authority_msg cr bs = Inr m \<longleftrightarrow> wire_msg_ok cr m \<and> bs = encode_authority_msg m"
  by (rule decode_authority_msg_iff)

end
