(* ===== verification/Journal_File.thy ===== *)
theory Journal_File
  imports Journal_Port Wire
begin

text \<open>
  The on-disk journal of \<open>333-transfer/src/journal.rs\<close>: the frame and snapshot formats, the one
  parser of the log, and \<open>FileJournal\<close> over an explicit file content. What the operating system
  does to an operation (a write that stops part-way, a length extended by zeros, a failed rename,
  a rename that is not durable) is a script of faults carried in the state. The journal is an
  instance of the contract \<open>durable_journal\<close>. The advisory lock between processes is not
  modelled: one process holds the file.
\<close>

section \<open>Frames\<close>

definition JOURNAL_MAGIC :: bytes where "JOURNAL_MAGIC = domain_tag ''transfer333/journal/v4''"
definition IDENTITY_LEN :: nat where "IDENTITY_LEN = 32"
definition TAG_TORN :: u8 where "TAG_TORN = 0"
definition TAG_LOCKED :: u8 where "TAG_LOCKED = 1"
definition TAG_CONFIRMED :: u8 where "TAG_CONFIRMED = 2"
definition TAG_SNAPSHOT :: u8 where "TAG_SNAPSHOT = 3"
definition TAG_EPOCH_FENCE :: u8 where "TAG_EPOCH_FENCE = 4"
definition TAG_EPOCH_INSTALLED :: u8 where "TAG_EPOCH_INSTALLED = 5"
definition HEADER_LEN :: nat where "HEADER_LEN = 9"
definition MAX_RECORD_BYTES :: nat where "MAX_RECORD_BYTES = 16 * 1024 * 1024"

definition frame_crc :: "crypto \<Rightarrow> u8 \<Rightarrow> bytes \<Rightarrow> bytes" where
  "frame_crc cr tag body = take 4 (sha256 cr (JOURNAL_MAGIC @ [tag] @ len32_be (length body) @ body))"

definition from_wire :: "wire_error \<Rightarrow> journal_error" where
  "from_wire e = JournalCorrupt ''record body''"

section \<open>Snapshot bodies\<close>

definition put_u32 :: "nat \<Rightarrow> bytes" where
  "put_u32 n = len32_be n"

definition take_u32 :: "bytes \<Rightarrow> journal_error + (nat \<times> bytes)" where
  "take_u32 inp =
     (if length inp < 4 then Inl (JournalCorrupt ''snapshot: truncated u32'')
      else Inr (le_nat (rev (take 4 inp)), drop 4 inp))"

definition take_slice :: "nat \<Rightarrow> bytes \<Rightarrow> journal_error + (bytes \<times> bytes)" where
  "take_slice n inp =
     (if length inp < n then Inl (JournalCorrupt ''snapshot: truncated field'')
      else Inr (take n inp, drop n inp))"

definition from_utf8 :: "string \<Rightarrow> bytes \<Rightarrow> journal_error + string" where
  "from_utf8 msg b = (if utf8_valid b then Inr (of_bytes b) else Inl (JournalCorrupt msg))"

definition take_u64_be :: "bytes \<Rightarrow> journal_error + (u64 \<times> bytes)" where
  "take_u64_be inp = rbind (take_slice 8 inp) (\<lambda>(b, inp). Inr (of_nat (le_nat (rev b)), inp))"

definition take_u128_be :: "bytes \<Rightarrow> journal_error + (u128 \<times> bytes)" where
  "take_u128_be inp = rbind (take_slice 16 inp) (\<lambda>(b, inp). Inr (of_nat (le_nat (rev b)), inp))"

definition put_snapshot_account :: "account_id \<times> amount \<times> u64 \<Rightarrow> bytes" where
  "put_snapshot_account e = (case e of (i, bal, sq) \<Rightarrow> put_u32 (length i) @ as_bytes i @ u128_be bal @ u64_be sq)"

definition take_snapshot_account :: "bytes \<Rightarrow> journal_error + ((account_id \<times> amount \<times> u64) \<times> bytes)" where
  "take_snapshot_account inp =
     rbind (take_u32 inp) (\<lambda>(len, inp).
     rbind (take_slice len inp) (\<lambda>(b, inp).
     rbind (from_utf8 ''snapshot: account id not utf-8'' b) (\<lambda>i.
     rbind (take_u128_be inp) (\<lambda>(bal, inp).
     rbind (take_u64_be inp) (\<lambda>(sq, inp). Inr ((i, bal, sq), inp))))))"

definition put_snapshot_lock :: "signed_transfer \<Rightarrow> bytes" where
  "put_snapshot_lock ord = (let b = encode_transfer ord in put_u32 (length b) @ b)"

definition take_snapshot_lock :: "bytes \<Rightarrow> journal_error + (signed_transfer \<times> bytes)" where
  "take_snapshot_lock inp =
     rbind (take_u32 inp) (\<lambda>(len, inp).
     rbind (take_slice len inp) (\<lambda>(b, inp).
     rbind (map_err from_wire (decode_transfer b)) (\<lambda>ord. Inr (ord, inp))))"

definition put_snapshot_confirmed :: "account_id \<times> u64 \<times> bytes \<Rightarrow> bytes" where
  "put_snapshot_confirmed e = (case e of (i, sq, oid) \<Rightarrow> put_u32 (length i) @ as_bytes i @ u64_be sq @ oid)"

definition take_snapshot_confirmed :: "bytes \<Rightarrow> journal_error + ((account_id \<times> u64 \<times> bytes) \<times> bytes)" where
  "take_snapshot_confirmed inp =
     rbind (take_u32 inp) (\<lambda>(len, inp).
     rbind (take_slice len inp) (\<lambda>(b, inp).
     rbind (from_utf8 ''snapshot: confirmed account not utf-8'' b) (\<lambda>i.
     rbind (take_u64_be inp) (\<lambda>(sq, inp).
     rbind (take_slice 32 inp) (\<lambda>(oid, inp). Inr ((i, sq, oid), inp))))))"

definition encode_snapshot :: "snapshot_data \<Rightarrow> bytes" where
  "encode_snapshot sn =
     put_u32 (length (sn_accounts sn)) @ concat (map put_snapshot_account (sn_accounts sn))
     @ put_u32 (length (sn_locked sn)) @ concat (map put_snapshot_lock (sn_locked sn))
     @ put_u32 (length (sn_confirmed sn)) @ concat (map put_snapshot_confirmed (sn_confirmed sn))
     @ u64_be (sn_epoch sn)"

definition decode_snapshot :: "bytes \<Rightarrow> journal_error + snapshot_data" where
  "decode_snapshot inp =
     rbind (take_u32 inp) (\<lambda>(n, inp).
     rbind (take_items take_snapshot_account n inp) (\<lambda>(accts, inp).
     rbind (take_u32 inp) (\<lambda>(n, inp).
     rbind (take_items take_snapshot_lock n inp) (\<lambda>(lks, inp).
     rbind (take_u32 inp) (\<lambda>(n, inp).
     rbind (take_items take_snapshot_confirmed n inp) (\<lambda>(cfs, inp).
     rbind (take_u64_be inp) (\<lambda>(e, inp).
       if inp \<noteq> [] then Inl (JournalCorrupt ''snapshot: trailing bytes'')
       else Inr \<lparr>sn_accounts = accts, sn_locked = lks, sn_confirmed = cfs, sn_epoch = e\<rparr>)))))))"

section \<open>Records\<close>

fun record_tag :: "journal_record \<Rightarrow> u8" where
  "record_tag (Locked _) = TAG_LOCKED"
| "record_tag (Confirmed _) = TAG_CONFIRMED"
| "record_tag (Snapshot _) = TAG_SNAPSHOT"
| "record_tag (EpochFence _) = TAG_EPOCH_FENCE"
| "record_tag (EpochInstalled _) = TAG_EPOCH_INSTALLED"

fun record_body :: "journal_record \<Rightarrow> bytes" where
  "record_body (Locked ord) = encode_transfer ord"
| "record_body (Confirmed ord) = encode_transfer ord"
| "record_body (Snapshot sn) = encode_snapshot sn"
| "record_body (EpochFence p) = encode_epoch_proposal p"
| "record_body (EpochInstalled c) = encode_epoch_cert c"

definition encode_record :: "crypto \<Rightarrow> journal_record \<Rightarrow> bytes" where
  "encode_record cr r =
     (let tag = record_tag r; body = record_body r
      in [tag] @ len32_be (length body) @ frame_crc cr tag body @ body)"

definition decode_body :: "crypto \<Rightarrow> u8 \<Rightarrow> bytes \<Rightarrow> journal_error + journal_record" where
  "decode_body cr tag body =
     (if tag = TAG_LOCKED then rbind (map_err from_wire (decode_transfer body)) (Inr \<circ> Locked)
      else if tag = TAG_CONFIRMED then rbind (map_err from_wire (decode_transfer body)) (Inr \<circ> Confirmed)
      else if tag = TAG_SNAPSHOT then rbind (decode_snapshot body) (Inr \<circ> Snapshot)
      else if tag = TAG_EPOCH_FENCE then rbind (map_err from_wire (decode_epoch_proposal cr body)) (Inr \<circ> EpochFence)
      else if tag = TAG_EPOCH_INSTALLED then rbind (map_err from_wire (decode_epoch_cert cr body)) (Inr \<circ> EpochInstalled)
      else Inl (JournalCorrupt ''unknown tag''))"

definition frame_len :: "bytes \<Rightarrow> nat" where
  "frame_len rest = le_nat (rev (take 4 (drop 1 rest)))"

text \<open>The loop of \<open>scan\<close>; each turn consumes at least a header.\<close>

function scan :: "crypto \<Rightarrow> bytes \<Rightarrow> journal_error + (journal_record list \<times> nat)" where
  "scan cr rest =
     (if rest = [] then Inr ([], 0)
      else if length rest < HEADER_LEN then Inr ([], 0)
      else
        let tag = hd rest; len = frame_len rest; crc = take 4 (drop 5 rest) in
        if tag = TAG_TORN then Inr ([], 0)
        else if len > MAX_RECORD_BYTES then Inl (JournalCorrupt ''record too large'')
        else if length rest < HEADER_LEN + len then Inr ([], 0)
        else
          let body = take len (drop HEADER_LEN rest) in
          if frame_crc cr tag body \<noteq> crc
          then Inl (JournalCorrupt ''frame checksum mismatch: complete frame with bad data'')
          else rbind (decode_body cr tag body) (\<lambda>r.
            rbind (scan cr (drop (HEADER_LEN + len) rest)) (\<lambda>(rs, good).
              Inr (r # rs, HEADER_LEN + len + good))))"
  by pat_completeness auto
termination
  by (relation "measure (length \<circ> snd)") (auto simp: HEADER_LEN_def)

declare scan.simps [simp del]

definition decode_records :: "crypto \<Rightarrow> bytes \<Rightarrow> journal_error + journal_record list" where
  "decode_records cr bs = rbind (scan cr bs) (\<lambda>(rs, _). Inr rs)"

definition good_prefix_len :: "crypto \<Rightarrow> bytes \<Rightarrow> journal_error + nat" where
  "good_prefix_len cr bs = rbind (scan cr bs) (\<lambda>(_, good). Inr good)"

section \<open>FileJournal\<close>

text \<open>
  What the system does to the next operation that touches the disk: the write stops after some
  bytes (or its barrier fails), the length grows but after some bytes only zeros arrive, a compaction fails before
  or after its rename, or the rename is performed but its directory entry is not durable.
\<close>

datatype io_fault = IoOk | TornWrite nat | ZeroFill nat nat | FailBeforeRename | FailAfterRename | RenameNotDurable

text \<open>What a faulty write leaves of the bytes it was given.\<close>

fun torn_bytes :: "io_fault \<Rightarrow> bytes \<Rightarrow> bytes option" where
  "torn_bytes (TornWrite n) bs = Some (take n bs)"
| "torn_bytes (ZeroFill k n) bs = Some (take k bs @ replicate n 0)"
| "torn_bytes _ bs = None"

text \<open>
  The faults the log format is made for. It does not survive a rename that is undone by a power cut (see
  \<open>lost_rename_forgets_votes\<close>), nor zeros behind the first
  bytes of a frame, which may read as a whole frame with a bad checksum: \<open>scan\<close> then refuses the log.
\<close>

fun survivable :: "io_fault \<Rightarrow> bool" where
  "survivable RenameNotDurable = False"
| "survivable (ZeroFill k n) = (k = 0)"
| "survivable _ = True"

text \<open>
  \<open>fj_bytes\<close> is the file the handle writes and the path names; \<open>fj_durable\<close> is the file the path
  would still name after a power cut, when that is another one.
\<close>

record file_journal =
  fj_bytes :: bytes
  fj_durable :: "bytes option"
  fj_identity :: "bytes option"
  fj_faults :: "io_fault list"

definition next_fault :: "file_journal \<Rightarrow> io_fault \<times> file_journal" where
  "next_fault j = (case fj_faults j of [] \<Rightarrow> (IoOk, j) | f # fs \<Rightarrow> (f, j\<lparr>fj_faults := fs\<rparr>))"

definition file_read_body :: "bytes \<Rightarrow> journal_error + bytes" where
  "file_read_body bs =
     (if length bs < length JOURNAL_MAGIC \<or> take (length JOURNAL_MAGIC) bs \<noteq> JOURNAL_MAGIC
      then Inl (JournalCorrupt ''bad magic'')
      else if length bs < length JOURNAL_MAGIC + IDENTITY_LEN then Inr []
      else Inr (drop (length JOURNAL_MAGIC + IDENTITY_LEN) bs))"

definition read_identity :: "bytes \<Rightarrow> journal_error + bytes option" where
  "read_identity bs =
     (let start = length JOURNAL_MAGIC in
      if length bs = start then Inr None
      else if length bs \<ge> start + IDENTITY_LEN then Inr (Some (take IDENTITY_LEN (drop start bs)))
      else Inl (JournalCorrupt ''torn identity block''))"

definition check_magic :: "bytes \<Rightarrow> journal_error + unit" where
  "check_magic bs =
     (if length bs < length JOURNAL_MAGIC then Inl (JournalCorrupt ''missing magic'')
      else if take (length JOURNAL_MAGIC) bs \<noteq> JOURNAL_MAGIC then Inl (JournalCorrupt ''bad magic'')
      else Inr ())"

definition truncate_torn_tail :: "crypto \<Rightarrow> bytes \<Rightarrow> journal_error + bytes" where
  "truncate_torn_tail cr bs =
     rbind (file_read_body bs) (\<lambda>body.
       case good_prefix_len cr body of
         Inl _ \<Rightarrow> Inr bs
       | Inr good \<Rightarrow>
           if good = length body then Inr bs
           else Inr (take (length JOURNAL_MAGIC + IDENTITY_LEN + good) bs))"

text \<open>\<open>open\<close>: \<open>None\<close> is a path that does not exist.\<close>

definition file_open :: "crypto \<Rightarrow> bytes option \<Rightarrow> io_fault list \<Rightarrow> journal_error + file_journal" where
  "file_open cr content faults =
     (case content of
        None \<Rightarrow> Inr \<lparr>fj_bytes = JOURNAL_MAGIC, fj_durable = None, fj_identity = None, fj_faults = faults\<rparr>
      | Some bs \<Rightarrow>
          rbind (check_magic bs) (\<lambda>_.
          rbind (truncate_torn_tail cr bs) (\<lambda>bs'.
            Inr \<lparr>fj_bytes = bs', fj_durable = None, fj_identity = None, fj_faults = faults\<rparr>)))"

definition file_bind :: "file_journal \<Rightarrow> bytes \<Rightarrow> file_journal \<times> (journal_error + unit)" where
  "file_bind j i =
     (case read_identity (fj_bytes j) of
        Inl e \<Rightarrow> (j, Inl e)
      | Inr (Some existing) \<Rightarrow>
          if existing = i then (j\<lparr>fj_identity := Some i\<rparr>, Inr ()) else (j, Inl foreign_journal)
      | Inr None \<Rightarrow>
          (let (f, j) = next_fault j in
           case torn_bytes f i of
             Some bs \<Rightarrow> (j\<lparr>fj_bytes := fj_bytes j @ bs\<rparr>, Inl (JournalIo ''write identity''))
           | None \<Rightarrow> (j\<lparr>fj_bytes := fj_bytes j @ i, fj_identity := Some i\<rparr>, Inr ())))"

definition file_append :: "crypto \<Rightarrow> file_journal \<Rightarrow> journal_record \<Rightarrow> file_journal \<times> (journal_error + unit)" where
  "file_append cr j r =
     (let frame = encode_record cr r; (f, j) = next_fault j in
      case torn_bytes f frame of
        Some bs \<Rightarrow> (j\<lparr>fj_bytes := fj_bytes j @ bs\<rparr>, Inl (JournalIo ''append''))
      | None \<Rightarrow> (j\<lparr>fj_bytes := fj_bytes j @ frame\<rparr>, Inr ()))"

definition file_replay :: "crypto \<Rightarrow> file_journal \<Rightarrow> journal_error + journal_record list" where
  "file_replay cr j = rbind (file_read_body (fj_bytes j)) (decode_records cr)"

definition file_compact :: "crypto \<Rightarrow> file_journal \<Rightarrow> snapshot_data \<Rightarrow> file_journal \<times> (journal_error + unit)" where
  "file_compact cr j sn =
     (case fj_identity j of
        None \<Rightarrow> (j, Inl (JournalCorrupt ''compact before bind''))
      | Some i \<Rightarrow>
         (let new = JOURNAL_MAGIC @ i @ encode_record cr (Snapshot sn) in
          case next_fault j of
            (FailBeforeRename, j) \<Rightarrow> (j, Inl (JournalIo ''rename compacted journal''))
          | (FailAfterRename, j) \<Rightarrow> (j\<lparr>fj_bytes := new, fj_durable := None\<rparr>, Inl (JournalIo ''reopen after compact''))
          | (RenameNotDurable, j) \<Rightarrow> 
              (j\<lparr>fj_bytes := new, fj_durable := Some (case fj_durable j of Some old \<Rightarrow> old | None \<Rightarrow> fj_bytes j)\<rparr>, Inr ())
          | (_, j) \<Rightarrow> (j\<lparr>fj_bytes := new, fj_durable := None\<rparr>, Inr ())))"

definition file_ops :: "crypto \<Rightarrow> file_journal journal" where
  "file_ops cr = \<lparr>j_bind = file_bind, j_append = file_append cr, j_replay = file_replay cr, j_compact = file_compact cr\<rparr>"

text \<open>A restart: the process opens what the path durably names.\<close>

definition file_reopen :: "crypto \<Rightarrow> file_journal \<Rightarrow> file_journal" where
  "file_reopen cr j =
     (case file_open cr (Some (case fj_durable j of Some old \<Rightarrow> old | None \<Rightarrow> fj_bytes j)) (fj_faults j) of
        Inl _ \<Rightarrow> j
      | Inr j' \<Rightarrow> j')"

section \<open>Snapshot codec\<close>

lemma take_slice_iff [wire_simps]: "take_slice n inp = Inr (b, r) \<longleftrightarrow> length b = n \<and> inp = b @ r"
  by (auto simp: take_slice_def)

lemma be_of_bytes:
  "length b = 4 \<Longrightarrow> len32_be (le_nat (rev b)) = b" "length b = 8 \<Longrightarrow> u64_be (of_nat (le_nat (rev b))) = b"
  "length b = 16 \<Longrightarrow> u128_be (of_nat (le_nat (rev b))) = b"
  using le_nat_bound [of "rev b"] le_bytes_le_nat [of "rev b"]
  by (simp_all add: len32_be_def u32_be_def u64_be_def u128_be_def unat_of_nat)

lemma le_nat_len32: "n < 2 ^ 32 \<Longrightarrow> le_nat (rev (len32_be n)) = n"
  by (simp add: len32_be_def u32_be_def le_nat_le_bytes unat_of_nat)

lemma take_u32_iff [wire_simps]: "take_u32 inp = Inr (n, r) \<longleftrightarrow> n < 2 ^ 32 \<and> inp = put_u32 n @ r"
proof
  assume "take_u32 inp = Inr (n, r)"
  then have l: "4 \<le> length inp" "n = le_nat (rev (take 4 inp))" "r = drop 4 inp"
    by (auto simp: take_u32_def split: if_splits)
  then show "n < 2 ^ 32 \<and> inp = put_u32 n @ r"
    using le_nat_bound [of "rev (take 4 inp)"] be_of_bytes(1) [of "take 4 inp"] by (simp add: put_u32_def)
next
  assume "n < 2 ^ 32 \<and> inp = put_u32 n @ r"
  then show "take_u32 inp = Inr (n, r)" by (simp add: take_u32_def put_u32_def le_nat_len32)
qed

lemma take_u64_be_iff [wire_simps]: "take_u64_be inp = Inr (w, r) \<longleftrightarrow> inp = u64_be w @ r"
  by (force simp: take_u64_be_def rbind_eq_Inr take_slice_iff be_of_bytes)

lemma take_u128_be_iff [wire_simps]: "take_u128_be inp = Inr (w, r) \<longleftrightarrow> inp = u128_be w @ r"
  by (force simp: take_u128_be_def rbind_eq_Inr take_slice_iff be_of_bytes)

lemma from_utf8_iff [wire_simps]: "from_utf8 m b = Inr s \<longleftrightarrow> utf8_valid (as_bytes s) \<and> b = as_bytes s"
  by (auto simp: from_utf8_def)

definition snapshot_str_ok :: "string \<Rightarrow> bool" where
  "snapshot_str_ok s \<longleftrightarrow> utf8_valid (as_bytes s) \<and> length s < 2 ^ 32"

interpretation snapshot_account_codec:
  codec put_snapshot_account take_snapshot_account "\<lambda>(i, _, _). snapshot_str_ok i"
proof
  fix inp e r
  show "take_snapshot_account inp = Inr (e, r) \<longleftrightarrow>
      (case e of (i, _, _) \<Rightarrow> snapshot_str_ok i) \<and> inp = put_snapshot_account e @ r"
    by (cases e)
      (auto simp: take_snapshot_account_def rbind_eq_Inr wire_simps put_snapshot_account_def snapshot_str_ok_def)
qed

interpretation snapshot_confirmed_codec:
  codec put_snapshot_confirmed take_snapshot_confirmed "\<lambda>(i, _, oid). snapshot_str_ok i \<and> length oid = 32"
proof
  fix inp e r
  show "take_snapshot_confirmed inp = Inr (e, r) \<longleftrightarrow>
      (case e of (i, _, oid) \<Rightarrow> snapshot_str_ok i \<and> length oid = 32) \<and> inp = put_snapshot_confirmed e @ r"
    by (cases e)
      (auto simp: take_snapshot_confirmed_def rbind_eq_Inr wire_simps put_snapshot_confirmed_def snapshot_str_ok_def)
qed

interpretation snapshot_lock_codec:
  codec put_snapshot_lock take_snapshot_lock "\<lambda>ord. wire_order_ok ord \<and> length (encode_transfer ord) < 2 ^ 32"
proof
  fix inp ord r
  show "take_snapshot_lock inp = Inr (ord, r) \<longleftrightarrow>
      (wire_order_ok ord \<and> length (encode_transfer ord) < 2 ^ 32) \<and> inp = put_snapshot_lock ord @ r"
    by (auto simp: take_snapshot_lock_def rbind_eq_Inr wire_simps put_snapshot_lock_def decode_iffs Let_def)
qed

definition snapshot_ok :: "snapshot_data \<Rightarrow> bool" where
  "snapshot_ok sn \<longleftrightarrow>
     length (sn_accounts sn) < 2 ^ 32 \<and> (\<forall>(i, _, _) \<in> set (sn_accounts sn). snapshot_str_ok i) \<and>
     length (sn_locked sn) < 2 ^ 32 \<and>
     (\<forall>ord \<in> set (sn_locked sn). wire_order_ok ord \<and> length (encode_transfer ord) < 2 ^ 32) \<and>
     length (sn_confirmed sn) < 2 ^ 32 \<and>
     (\<forall>(i, _, oid) \<in> set (sn_confirmed sn). snapshot_str_ok i \<and> length oid = 32)"

lemma decode_snapshot_ok: "snapshot_ok sn \<Longrightarrow> decode_snapshot (encode_snapshot sn) = Inr sn"
  by (cases sn)
    (auto simp: decode_snapshot_def encode_snapshot_def rbind_eq_Inr wire_simps snapshot_ok_def
      snapshot_account_codec.take_items_iff snapshot_lock_codec.take_items_iff
      snapshot_confirmed_codec.take_items_iff)

section \<open>The log parser\<close>

fun record_ok :: "crypto \<Rightarrow> journal_record \<Rightarrow> bool" where
  "record_ok cr (Locked ord) = wire_order_ok ord"
| "record_ok cr (Confirmed ord) = wire_order_ok ord"
| "record_ok cr (Snapshot sn) = snapshot_ok sn"
| "record_ok cr (EpochFence p) = wire_proposal_ok cr p"
| "record_ok cr (EpochInstalled c) = wire_epoch_cert_ok cr c"

text \<open>The records the format can hold: fields within the wire limits and a body within the cap.\<close>

definition record_fits :: "crypto \<Rightarrow> journal_record \<Rightarrow> bool" where
  "record_fits cr r \<longleftrightarrow> record_ok cr r \<and> length (record_body r) \<le> MAX_RECORD_BYTES"

definition log_bytes :: "crypto \<Rightarrow> journal_record list \<Rightarrow> bytes" where
  "log_bytes cr rs = concat (map (encode_record cr) rs)"

lemmas record_tags = TAG_TORN_def TAG_LOCKED_def TAG_CONFIRMED_def TAG_SNAPSHOT_def TAG_EPOCH_FENCE_def
  TAG_EPOCH_INSTALLED_def

lemma decode_body_record: "record_ok cr r \<Longrightarrow> decode_body cr (record_tag r) (record_body r) = Inr r"
  by (cases r) (simp_all add: decode_body_def record_tags rbind_eq_Inr decode_iffs decode_snapshot_ok
      decode_epoch_cert_iff)

lemma record_tag_not_torn: "record_tag r \<noteq> TAG_TORN"
  by (cases r) (simp_all add: record_tags)

lemma length_frame_crc: "crypto_ok cr \<Longrightarrow> length (frame_crc cr tag body) = 4"
  by (simp add: frame_crc_def crypto_lengths)

lemma length_encode_record: "crypto_ok cr \<Longrightarrow> length (encode_record cr r) = HEADER_LEN + length (record_body r)"
  by (simp add: encode_record_def Let_def length_frame_crc HEADER_LEN_def)

text \<open>The fields of a frame, also when only its first \<open>n\<close> bytes are there.\<close>

lemma frame_fields:
  assumes "crypto_ok cr" "length (record_body r) < 2 ^ 32"
    and rest: "take HEADER_LEN rest = take HEADER_LEN (encode_record cr r)" "HEADER_LEN \<le> length rest"
  shows "hd rest = record_tag r" "frame_len rest = length (record_body r)"
    "take 4 (drop 5 rest) = frame_crc cr (record_tag r) (record_body r)"
proof -
  have eq: "take HEADER_LEN rest = [record_tag r] @ len32_be (length (record_body r)) @
      frame_crc cr (record_tag r) (record_body r)"
    using rest(1) length_frame_crc [OF assms(1)] by (simp add: encode_record_def Let_def HEADER_LEN_def)
  have "hd (take HEADER_LEN rest) = hd rest" using rest(2) by (cases rest) (simp_all add: HEADER_LEN_def)
  then show "hd rest = record_tag r" using eq by simp
  have "take 4 (drop 1 rest) = take 4 (drop 1 (take HEADER_LEN rest))" by (simp add: HEADER_LEN_def drop_take)
  then have "take 4 (drop 1 rest) = len32_be (length (record_body r))" by (simp add: eq)
  then show "frame_len rest = length (record_body r)" by (simp add: frame_len_def le_nat_len32 [OF assms(2)])
  have "take 4 (drop 5 rest) = drop 5 (take HEADER_LEN rest)" by (simp add: HEADER_LEN_def drop_take)
  then show "take 4 (drop 5 rest) = frame_crc cr (record_tag r) (record_body r)"
    by (simp add: eq eval_nat_numeral length_frame_crc [OF assms(1)])
qed

lemma fits_bound: "record_fits cr r \<Longrightarrow> length (record_body r) < 2 ^ 32"
  by (simp add: record_fits_def MAX_RECORD_BYTES_def)

lemma scan_record:
  assumes "crypto_ok cr" "record_fits cr r"
  shows "scan cr (encode_record cr r @ rest) =
    rbind (scan cr rest) (\<lambda>(rs, good). Inr (r # rs, length (encode_record cr r) + good))"
proof -
  let ?f = "encode_record cr r @ rest"
  have l: "length (encode_record cr r) = HEADER_LEN + length (record_body r)"
    by (rule length_encode_record [OF assms(1)])
  have p: "take HEADER_LEN ?f = take HEADER_LEN (encode_record cr r)" "HEADER_LEN \<le> length ?f" using l by simp_all
  note fields = frame_fields [OF assms(1) fits_bound [OF assms(2)] p]
  have body: "take (length (record_body r)) (drop HEADER_LEN ?f) = record_body r"
    using length_frame_crc [OF assms(1)] by (simp add: encode_record_def Let_def HEADER_LEN_def eval_nat_numeral)
  have tail: "drop (HEADER_LEN + length (record_body r)) ?f = rest" by (simp flip: l)
  have ok: "record_ok cr r" "length (record_body r) \<le> MAX_RECORD_BYTES" using assms(2) by (simp_all add: record_fits_def)
  have ne: "?f \<noteq> []" using l by (auto simp: HEADER_LEN_def)
  show ?thesis
    using ne p(2) l ok
    by (subst scan.simps)
      (simp only: Let_def fields body tail record_tag_not_torn decode_body_record [OF ok(1)] if_False rbind_simps
        length_append not_less simp_thms, simp)
qed

text \<open>What a torn tail parses to: nothing.\<close>

lemma scan_torn_frame:
  assumes "crypto_ok cr" "record_fits cr r" "n < length (encode_record cr r)"
  shows "scan cr (take n (encode_record cr r)) = Inr ([], 0)"
proof (cases "n < HEADER_LEN")
  case True
  then have "length (take n (encode_record cr r)) < HEADER_LEN" by simp
  then show ?thesis by (subst scan.simps) simp
next
  case False
  let ?t = "take n (encode_record cr r)"
  have l: "length ?t = n" using assms(3) by simp
  have p: "take HEADER_LEN ?t = take HEADER_LEN (encode_record cr r)" "HEADER_LEN \<le> length ?t"
    using False l by (simp_all add: min_def)
  note fields = frame_fields [OF assms(1) fits_bound [OF assms(2)] p]
  have "length ?t < HEADER_LEN + length (record_body r)"
    using l assms(3) length_encode_record [OF assms(1)] by simp
  moreover have "length (record_body r) \<le> MAX_RECORD_BYTES" using assms(2) by (simp add: record_fits_def)
  ultimately show ?thesis
    by (subst scan.simps) (simp only: Let_def fields record_tag_not_torn if_False if_True not_less if_cancel simp_thms, simp)
qed

lemma scan_zeros: "scan cr (replicate n 0) = Inr ([], 0)"
  by (subst scan.simps) (cases n, simp_all add: TAG_TORN_def Let_def)

lemma scan_log:
  assumes "crypto_ok cr" "\<forall>r \<in> set rs. record_fits cr r" "scan cr torn = Inr ([], 0)"
  shows "scan cr (log_bytes cr rs @ torn) = Inr (rs, length (log_bytes cr rs))"
  using assms(2)
proof (induction rs)
  case Nil
  then show ?case using assms(3) by (simp add: log_bytes_def)
next
  case (Cons r rs)
  then show ?case using scan_record [OF assms(1), of r] by (simp add: log_bytes_def)
qed

section \<open>FileJournal is durable\<close>

definition file_recs :: "crypto \<Rightarrow> file_journal \<Rightarrow> journal_record list" where
  "file_recs cr j = (case file_replay cr j of Inr rs \<Rightarrow> rs | Inl _ \<Rightarrow> [])"

definition file_owner :: "file_journal \<Rightarrow> bytes option" where
  "file_owner j = (case read_identity (fj_bytes j) of Inr i \<Rightarrow> i | Inl _ \<Rightarrow> None)"

text \<open>The file is the header alone, or the header, an identity and whole frames.\<close>

definition file_image :: "crypto \<Rightarrow> bytes \<Rightarrow> journal_record list \<Rightarrow> bytes" where
  "file_image cr i rs = JOURNAL_MAGIC @ i @ log_bytes cr rs"

definition file_sane :: "crypto \<Rightarrow> file_journal \<Rightarrow> bool" where
  "file_sane cr j \<longleftrightarrow> crypto_ok cr \<and> fj_durable j = None \<and> (\<forall>f \<in> set (fj_faults j). survivable f) \<and>
     (fj_bytes j = JOURNAL_MAGIC \<and> fj_identity j = None \<or>
      (\<exists>i rs. length i = IDENTITY_LEN \<and> (\<forall>r \<in> set rs. record_fits cr r) \<and> fj_bytes j = file_image cr i rs \<and>
         (fj_identity j = None \<or> fj_identity j = Some i)))"

lemma file_image_owner:
  assumes "length i = IDENTITY_LEN" "fj_bytes j = file_image cr i rs @ torn"
  shows "file_owner j = Some i"
  using assms by (simp add: file_owner_def read_identity_def file_image_def IDENTITY_LEN_def)

lemma file_image_recs:
  assumes "crypto_ok cr" "length i = IDENTITY_LEN" "\<forall>r \<in> set rs. record_fits cr r" "fj_bytes j = file_image cr i rs"
  shows "file_replay cr j = Inr rs" "file_recs cr j = rs"
proof -
  have "scan cr (log_bytes cr rs) = Inr (rs, length (log_bytes cr rs))"
    using scan_log [OF assms(1,3), of "[]"] scan_zeros [of cr 0] by simp
  then show "file_replay cr j = Inr rs"
    using assms(2,4)
    by (simp add: file_replay_def file_read_body_def file_image_def decode_records_def IDENTITY_LEN_def)
  then show "file_recs cr j = rs" by (simp add: file_recs_def)
qed

lemma file_owned:
  assumes "file_sane cr j" "file_owner j = Some i"
  obtains rs where "crypto_ok cr" "length i = IDENTITY_LEN" "\<forall>r \<in> set rs. record_fits cr r"
    "fj_bytes j = file_image cr i rs" "file_recs cr j = rs" "fj_identity j = None \<or> fj_identity j = Some i"
    "fj_durable j = None" "(\<forall>f \<in> set (fj_faults j). survivable f)"
proof -
  have "fj_bytes j \<noteq> JOURNAL_MAGIC" using assms(2) by (auto simp: file_owner_def read_identity_def)
  then obtain i' rs where p: "crypto_ok cr" "length i' = IDENTITY_LEN" "\<forall>r \<in> set rs. record_fits cr r"
    "fj_bytes j = file_image cr i' rs" "fj_identity j = None \<or> fj_identity j = Some i'"
    "fj_durable j = None" "(\<forall>f \<in> set (fj_faults j). survivable f)"
    using assms(1) by (auto simp: file_sane_def)
  moreover have "i' = i" using assms(2) file_image_owner [OF p(2), of j cr rs "[]"] p(4) by simp
  ultimately show ?thesis using that file_image_recs(2) [OF p(1-4)] by blast
qed

lemma file_sane_image:
  assumes "crypto_ok cr" "length i = IDENTITY_LEN" "\<forall>r \<in> set rs. record_fits cr r" "fj_bytes j = file_image cr i rs"
    "fj_identity j = None \<or> fj_identity j = Some i" "fj_durable j = None" "(\<forall>f \<in> set (fj_faults j). survivable f)"
  shows "file_sane cr j \<and> file_owner j = Some i \<and> file_recs cr j = rs"
  using assms file_image_owner [OF assms(2), of j cr rs "[]"] file_image_recs(2) [OF assms(1-4)]
  by (auto simp: file_sane_def)

text \<open>Opening cuts a torn tail off and nothing else.\<close>

lemma file_open_torn:
  assumes "crypto_ok cr" "length i = IDENTITY_LEN" "\<forall>r \<in> set rs. record_fits cr r" "scan cr torn = Inr ([], 0)"
  shows "file_open cr (Some (file_image cr i rs @ torn)) fs =
    Inr \<lparr>fj_bytes = file_image cr i rs, fj_durable = None, fj_identity = None, fj_faults = fs\<rparr>"
proof -
  have "good_prefix_len cr (log_bytes cr rs @ torn) = Inr (length (log_bytes cr rs))"
    using scan_log [OF assms(1,3,4)] by (simp add: good_prefix_len_def)
  then have "truncate_torn_tail cr (file_image cr i rs @ torn) = Inr (file_image cr i rs)"
    using assms(2)
    by (simp add: truncate_torn_tail_def file_read_body_def file_image_def IDENTITY_LEN_def)
  then show ?thesis by (simp add: file_open_def check_magic_def file_image_def)
qed

text \<open>The log of \<open>i\<close> holds \<open>rs\<close>, with debris behind it that the next open cuts off.\<close>

definition file_torn :: "crypto \<Rightarrow> bytes \<Rightarrow> file_journal \<Rightarrow> journal_record list \<Rightarrow> bool" where
  "file_torn cr i j rs \<longleftrightarrow> crypto_ok cr \<and> length i = IDENTITY_LEN \<and> (\<forall>r \<in> set rs. record_fits cr r) \<and>
     (\<exists>tail. scan cr tail = Inr ([], 0) \<and> fj_bytes j = file_image cr i rs @ tail) \<and>
     (fj_identity j = None \<or> fj_identity j = Some i) \<and> fj_durable j = None \<and> (\<forall>f \<in> set (fj_faults j). survivable f)"

lemma file_tornI:
  assumes "crypto_ok cr" "length i = IDENTITY_LEN" "\<forall>r \<in> set rs. record_fits cr r" "scan cr tail = Inr ([], 0)"
    "fj_bytes j = file_image cr i rs @ tail" "fj_identity j = None \<or> fj_identity j = Some i" "fj_durable j = None"
    "\<forall>f \<in> set (fj_faults j). survivable f"
  shows "file_torn cr i j rs"
  using assms unfolding file_torn_def by blast

lemma file_torn_reopen:
  assumes "file_torn cr i j rs"
  shows "file_sane cr (file_reopen cr j) \<and> file_owner (file_reopen cr j) = Some i \<and> file_recs cr (file_reopen cr j) = rs"
proof -
  from assms obtain tail where t: "crypto_ok cr" "length i = IDENTITY_LEN" "\<forall>r \<in> set rs. record_fits cr r" "scan cr tail = Inr ([], 0)"
    "fj_bytes j = file_image cr i rs @ tail" "fj_durable j = None" "\<forall>f \<in> set (fj_faults j). survivable f"
    unfolding file_torn_def by blast
  have "file_reopen cr j = \<lparr>fj_bytes = file_image cr i rs, fj_durable = None, fj_identity = None, fj_faults = fj_faults j\<rparr>"
    using file_open_torn [OF t(1-4)] t(5,6) by (simp add: file_reopen_def)
  then show ?thesis using file_sane_image [OF t(1-3), of "file_reopen cr j"] t(7) by simp
qed

lemma file_sane_torn:
  assumes "file_sane cr j" "file_owner j = Some i"
  shows "file_torn cr i j (file_recs cr j)"
proof -
  from assms obtain rs where o: "crypto_ok cr" "length i = IDENTITY_LEN" "\<forall>r \<in> set rs. record_fits cr r"
    "fj_bytes j = file_image cr i rs" "file_recs cr j = rs" "fj_identity j = None \<or> fj_identity j = Some i"
    "fj_durable j = None" "\<forall>f \<in> set (fj_faults j). survivable f" by (rule file_owned)
  then show ?thesis using scan_zeros [of cr 0] by (intro file_tornI [where tail = "[]"]) simp_all
qed

lemma image_snoc: "file_image cr i rs @ encode_record cr r = file_image cr i (rs @ [r])"
  by (simp add: file_image_def log_bytes_def)

lemma next_fault_cases:
  assumes "next_fault j = (f, j')"
  shows "fj_bytes j' = fj_bytes j" "fj_durable j' = fj_durable j" "fj_identity j' = fj_identity j"
    "set (fj_faults j') \<subseteq> set (fj_faults j)" "f \<noteq> IoOk \<longrightarrow> f \<in> set (fj_faults j)"
  using assms by (auto simp: next_fault_def split: list.splits)

lemma file_append_ok:
  assumes "file_sane cr j" "file_owner j = Some i" "record_fits cr r" "file_append cr j r = (j', Inr ())"
  shows "file_sane cr j' \<and> file_owner j' = Some i \<and> file_recs cr j' = file_recs cr j @ [r]"
proof -
  obtain f j1 where nf: "next_fault j = (f, j1)" by force
  note c = next_fault_cases [OF nf]
  from assms(1,2) obtain rs where o: "crypto_ok cr" "length i = IDENTITY_LEN" "\<forall>r \<in> set rs. record_fits cr r"
    "fj_bytes j = file_image cr i rs" "file_recs cr j = rs" "fj_identity j = None \<or> fj_identity j = Some i"
    "fj_durable j = None" "(\<forall>f \<in> set (fj_faults j). survivable f)" by (rule file_owned)
  have "j' = j1\<lparr>fj_bytes := file_image cr i (rs @ [r])\<rparr>"
    using assms(4) nf c(1) o(4) image_snoc by (auto simp: file_append_def Let_def split: option.splits)
  then show ?thesis
    using file_sane_image [OF o(1,2), of "rs @ [r]" j'] o c assms(3) by auto
qed

lemma file_append_err:
  assumes "file_sane cr j" "file_owner j = Some i" "record_fits cr r" "file_append cr j r = (j', Inl e)"
  shows "file_torn cr i j' (file_recs cr j) \<or> file_torn cr i j' (file_recs cr j @ [r])"
proof -
  obtain f j1 where nf: "next_fault j = (f, j1)" by force
  note c = next_fault_cases [OF nf]
  from assms(1,2) obtain rs where o: "crypto_ok cr" "length i = IDENTITY_LEN" "\<forall>r \<in> set rs. record_fits cr r"
    "fj_bytes j = file_image cr i rs" "file_recs cr j = rs" "fj_identity j = None \<or> fj_identity j = Some i"
    "fj_durable j = None" "(\<forall>f \<in> set (fj_faults j). survivable f)" by (rule file_owned)
  have s: "survivable f" using c(5) o(8) by (cases "f = IoOk") auto
  from assms(4) nf obtain bs where b: "torn_bytes f (encode_record cr r) = Some bs" "j' = j1\<lparr>fj_bytes := fj_bytes j1 @ bs\<rparr>"
    by (auto simp: file_append_def Let_def split: option.splits)
  have cut: "file_torn cr i j' rs'" if "\<forall>r \<in> set rs'. record_fits cr r" "scan cr tail = Inr ([], 0)"
      "file_image cr i rs @ bs = file_image cr i rs' @ tail" for rs' tail
    by (rule file_tornI [OF o(1,2) that(1,2)]) (use b(2) c o that(3) in auto)
  show ?thesis
  proof (cases "bs = encode_record cr r")
    case True
    then show ?thesis using cut [of "rs @ [r]" "[]"] scan_zeros [of cr 0] o(3,5) assms(3) image_snoc by simp
  next
    case False
    then have "scan cr bs = Inr ([], 0)"
      using s b(1) scan_zeros [of cr] scan_torn_frame [OF o(1) assms(3)]
      by (cases f) (auto simp: not_less split: if_splits)
    then show ?thesis using cut [of rs bs] o(3,5) by simp
  qed
qed

lemma file_compact_cases:
  assumes "file_torn cr i j rs" "record_fits cr (Snapshot sn)" "file_compact cr j sn = (j', res)"
  shows "(res = Inr () \<longrightarrow> file_sane cr j' \<and> file_owner j' = Some i \<and> file_recs cr j' = [Snapshot sn]) \<and>
    (file_torn cr i j' rs \<or> file_torn cr i j' [Snapshot sn])"
proof -
  obtain f j1 where nf: "next_fault j = (f, j1)" by force
  note c = next_fault_cases [OF nf]
  from assms(1) have o: "crypto_ok cr" "length i = IDENTITY_LEN" "fj_identity j = None \<or> fj_identity j = Some i"
    "fj_durable j = None" "\<forall>f \<in> set (fj_faults j). survivable f" by (auto simp: file_torn_def)
  have old: "file_torn cr i j1 rs" using assms(1) c by (auto simp: file_torn_def)
  let ?new = "file_image cr i [Snapshot sn]"
  have new: "file_sane cr x \<and> file_owner x = Some i \<and> file_recs cr x = [Snapshot sn]"
    if "x = j1\<lparr>fj_bytes := ?new, fj_durable := None\<rparr>" for x
    using that c o assms(2) file_sane_image [OF o(1,2), of "[Snapshot sn]" x] by auto
  show ?thesis
  proof (cases "fj_identity j")
    case None
    then show ?thesis using assms(1,3) by (auto simp: file_compact_def)
  next
    case (Some i')
    then have i: "fj_identity j = Some i" using o(3) by auto
    have img: "JOURNAL_MAGIC @ i @ encode_record cr (Snapshot sn) = ?new" by (simp add: file_image_def log_bytes_def)
    have "f \<noteq> RenameNotDurable" using c(5) o(5) by auto
    then consider "j' = j1" "res \<noteq> Inr ()" | "j' = j1\<lparr>fj_bytes := ?new, fj_durable := None\<rparr>"
      using assms(3) i nf img by (auto simp: file_compact_def Let_def split: io_fault.splits)
    then show ?thesis using old new [of j'] file_sane_torn [of cr j' i] by cases auto
  qed
qed

lemma file_replay_magic:
  "fj_bytes j = JOURNAL_MAGIC \<Longrightarrow> file_replay cr j = Inr []" "fj_bytes j = JOURNAL_MAGIC \<Longrightarrow> file_recs cr j = []"
  using scan_zeros [of cr 0]
  by (simp_all add: file_recs_def file_replay_def file_read_body_def IDENTITY_LEN_def decode_records_def)

lemma file_bind_same:
  assumes "file_sane cr j" "file_owner j = Some i" "file_bind j i = (j', res)"
  shows "res = Inr () \<and> file_sane cr j' \<and> file_owner j' = Some i \<and> file_recs cr j' = file_recs cr j"
proof -
  from assms(1,2) obtain rs where o: "crypto_ok cr" "length i = IDENTITY_LEN" "\<forall>r \<in> set rs. record_fits cr r"
    "fj_bytes j = file_image cr i rs" "file_recs cr j = rs" "fj_identity j = None \<or> fj_identity j = Some i"
    "fj_durable j = None" "(\<forall>f \<in> set (fj_faults j). survivable f)" by (rule file_owned)
  have "read_identity (fj_bytes j) = Inr (Some i)"
    using o(2,4) by (simp add: read_identity_def file_image_def IDENTITY_LEN_def)
  then have "j' = j\<lparr>fj_identity := Some i\<rparr>" "res = Inr ()" using assms(3) by (auto simp: file_bind_def)
  then show ?thesis using file_sane_image [OF o(1-3), of j'] o by simp
qed

lemma file_bind_fresh:
  assumes "length i = IDENTITY_LEN" "file_sane cr j" "file_owner j = None" "file_bind j i = (j', Inr ())"
  shows "file_sane cr j' \<and> file_owner j' = Some i \<and> file_recs cr j' = []"
proof -
  have m: "crypto_ok cr" "fj_bytes j = JOURNAL_MAGIC" "fj_durable j = None" "(\<forall>f \<in> set (fj_faults j). survivable f)"
    using assms(2,3) file_image_owner [of _ j cr _ "[]"] by (auto simp: file_sane_def)
  obtain f j1 where nf: "next_fault j = (f, j1)" by force
  note c = next_fault_cases [OF nf]
  have "read_identity (fj_bytes j) = Inr None" using m(2) by (simp add: read_identity_def)
  then have "j' = j1\<lparr>fj_bytes := file_image cr i [], fj_identity := Some i\<rparr>"
    using assms(4) nf c(1) m(2) by (auto simp: file_bind_def file_image_def log_bytes_def split: option.splits)
  then show ?thesis using file_sane_image [OF m(1) assms(1), of "[]" j'] c m by auto
qed

interpretation filej: durable_journal "file_ops cr" "file_recs cr" file_owner "file_sane cr" "record_fits cr"
    "\<lambda>i. length i = IDENTITY_LEN" "file_reopen cr" "file_torn cr" for cr
proof unfold_locales
  fix j i i' r j' e sn res rs
  { assume "file_sane cr j" "file_owner j = Some i" "record_fits cr r" "j_append (file_ops cr) j r = (j', Inr ())"
    then show "file_sane cr j' \<and> file_owner j' = Some i \<and> file_recs cr j' = file_recs cr j @ [r]"
      using file_append_ok [of cr j i r j'] by (simp add: file_ops_def) }
  { assume "file_sane cr j" "file_owner j = Some i" "record_fits cr r" "j_append (file_ops cr) j r = (j', Inl e)"
    then show "file_torn cr i j' (file_recs cr j) \<or> file_torn cr i j' (file_recs cr j @ [r])"
      using file_append_err [of cr j i r j' e] by (simp add: file_ops_def) }
  { assume "file_torn cr i j rs" "record_fits cr (Snapshot sn)" "j_compact (file_ops cr) j sn = (j', Inr ())"
    then show "file_sane cr j' \<and> file_owner j' = Some i \<and> file_recs cr j' = [Snapshot sn]"
      using file_compact_cases [of cr i j rs sn j' "Inr ()"] by (simp add: file_ops_def) }
  { assume "file_torn cr i j rs" "record_fits cr (Snapshot sn)" "j_compact (file_ops cr) j sn = (j', Inl e)"
    then show "file_torn cr i j' rs \<or> file_torn cr i j' [Snapshot sn]"
      using file_compact_cases [of cr i j rs sn j' "Inl e"] by (simp add: file_ops_def) }
  { assume "file_sane cr j"
    then show "j_replay (file_ops cr) j = Inr (file_recs cr j)"
      using file_image_recs by (auto simp: file_sane_def file_ops_def file_replay_magic) }
  { assume "file_sane cr j" "file_owner j = Some i" "j_bind (file_ops cr) j i = (j', res)"
    then show "res = Inr () \<and> file_sane cr j' \<and> file_owner j' = Some i \<and> file_recs cr j' = file_recs cr j"
      using file_bind_same [of cr j i j' res] by (simp add: file_ops_def) }
  { assume "length i = IDENTITY_LEN" "file_sane cr j" "file_owner j = None" "file_recs cr j = []"
      "j_bind (file_ops cr) j i = (j', Inr ())"
    then show "file_sane cr j' \<and> file_owner j' = Some i \<and> file_recs cr j' = []"
      using file_bind_fresh [of i cr j j'] by (simp add: file_ops_def) }
  { assume "file_sane cr j" "file_owner j = Some i" "i' \<noteq> i"
    then show "\<exists>e. snd (j_bind (file_ops cr) j i') = Inl e"
      by (auto simp: file_ops_def file_bind_def file_owner_def split: sum.splits option.splits) }
  { assume "file_sane cr j" "file_owner j = Some i"
    then show "file_torn cr i j (file_recs cr j)" by (rule file_sane_torn) }
  { assume "file_torn cr i j rs"
    then show "file_sane cr (file_reopen cr j) \<and> file_owner (file_reopen cr j) = Some i \<and> file_recs cr (file_reopen cr j) = rs"
      by (rule file_torn_reopen) }
qed

section \<open>Properties\<close>

definition empty_snapshot :: snapshot_data where
  "empty_snapshot = \<lparr>sn_accounts = [], sn_locked = [], sn_confirmed = [], sn_epoch = 0\<rparr>"

lemma empty_snapshot_fits: "record_fits cr (Snapshot empty_snapshot)"
  by (simp add: record_fits_def snapshot_ok_def empty_snapshot_def encode_snapshot_def put_u32_def MAX_RECORD_BYTES_def)

text \<open>A log of whole frames followed by a torn tail (a frame cut anywhere before its end, or a
  run of zeros) opens to exactly the whole records: the tail is cut off, nothing before it is
  lost and nothing is invented, and the next append starts at the cut.\<close>

theorem torn_tail_recovery:
  assumes "crypto_ok cr" "length i = IDENTITY_LEN" "\<forall>r \<in> set rs. record_fits cr r"
    and "(\<exists>r n. record_fits cr r \<and> n < length (encode_record cr r) \<and> torn = take n (encode_record cr r)) \<or>
      (\<exists>n. torn = replicate n 0)"
  shows "\<exists>j. file_open cr (Some (JOURNAL_MAGIC @ i @ log_bytes cr rs @ torn)) fs = Inr j \<and>
    fj_bytes j = JOURNAL_MAGIC @ i @ log_bytes cr rs \<and> file_replay cr j = Inr rs"
proof -
  have "scan cr torn = Inr ([], 0)" using assms(4) scan_torn_frame [OF assms(1)] scan_zeros by auto
  from file_open_torn [OF assms(1-3) this, of fs] show ?thesis
    using file_image_recs(1) [OF assms(1-3)] by (simp add: file_image_def)
qed

theorem torn_tail_recovery_witness:
  "\<exists>j. file_open demo_crypto (Some (JOURNAL_MAGIC @ replicate 32 1 @ log_bytes demo_crypto [Snapshot empty_snapshot] @
      take 12 (encode_record demo_crypto (Snapshot empty_snapshot)))) [] = Inr j \<and>
    file_replay demo_crypto j = Inr [Snapshot empty_snapshot]"
proof -
  have l: "12 < length (encode_record demo_crypto (Snapshot empty_snapshot))"
    by (simp add: length_encode_record [OF demo_crypto_ok] HEADER_LEN_def encode_snapshot_def empty_snapshot_def put_u32_def)
  have "\<exists>r n. record_fits demo_crypto r \<and> n < length (encode_record demo_crypto r) \<and>
      take 12 (encode_record demo_crypto (Snapshot empty_snapshot)) = take n (encode_record demo_crypto r)"
    using l empty_snapshot_fits [of demo_crypto] by blast
  then show ?thesis
    using torn_tail_recovery [OF demo_crypto_ok, of "replicate 32 1" "[Snapshot empty_snapshot]"
        "take 12 (encode_record demo_crypto (Snapshot empty_snapshot))" "[]"] empty_snapshot_fits [of demo_crypto]
    by (auto simp: IDENTITY_LEN_def)
qed

text \<open>C15: the writer has no size check to match the reader's. A record whose body exceeds
  \<open>MAX_RECORD_BYTES\<close>, such as the snapshot of a long-lived authority, is appended successfully and
  makes the whole log unreadable.\<close>

theorem oversized_record_bricks_log:
  assumes "file_sane cr j" "file_owner j = Some i" "fj_faults j = []"
    and "MAX_RECORD_BYTES < length (record_body r)" "length (record_body r) < 2 ^ 32"
  shows "\<exists>j'. file_append cr j r = (j', Inr ()) \<and> file_replay cr j' = Inl (JournalCorrupt ''record too large'')"
proof -
  from assms(1,2) obtain rs where o: "crypto_ok cr" "length i = IDENTITY_LEN" "\<forall>r \<in> set rs. record_fits cr r"
    "fj_bytes j = file_image cr i rs" by (rule file_owned)
  let ?f = "encode_record cr r"
  have l: "length ?f = HEADER_LEN + length (record_body r)" by (rule length_encode_record [OF o(1)])
  note fields = frame_fields [OF o(1) assms(5) refl]
  have "scan cr ?f = Inl (JournalCorrupt ''record too large'')"
    using l assms(4) fields record_tag_not_torn [of r]
    by (subst scan.simps) (auto simp: Let_def HEADER_LEN_def)
  then have "scan cr (log_bytes cr rs @ ?f) = Inl (JournalCorrupt ''record too large'')"
    using o(3)
  proof (induction rs)
    case (Cons x xs)
    then show ?case using scan_record [OF o(1), of x] by (simp add: log_bytes_def)
  qed (simp add: log_bytes_def)
  then have "file_replay cr (j\<lparr>fj_bytes := fj_bytes j @ ?f\<rparr>) = Inl (JournalCorrupt ''record too large'')"
    using o(2,4)
    by (simp add: file_replay_def file_read_body_def file_image_def decode_records_def IDENTITY_LEN_def)
  moreover have "file_append cr j r = (j\<lparr>fj_bytes := fj_bytes j @ ?f\<rparr>, Inr ())"
    using assms(3) by (simp add: file_append_def next_fault_def Let_def)
  ultimately show ?thesis by blast
qed

definition large_snapshot :: snapshot_data where
  "large_snapshot = empty_snapshot\<lparr>sn_confirmed := replicate 400000 ([], 0, replicate 32 0)\<rparr>"

definition fresh_journal :: file_journal where
  "fresh_journal = \<lparr>fj_bytes = file_image demo_crypto (replicate 32 1) [], fj_durable = None, fj_identity = None, fj_faults = []\<rparr>"

lemma fresh_journal_sane: "file_sane demo_crypto fresh_journal \<and> file_owner fresh_journal = Some (replicate 32 1)"
  using file_sane_image [OF demo_crypto_ok, of "replicate 32 1" "[]" fresh_journal]
  by (simp add: fresh_journal_def IDENTITY_LEN_def)

theorem oversized_record_bricks_log_witness:
  "\<exists>j'. file_append demo_crypto fresh_journal (Snapshot large_snapshot) = (j', Inr ()) \<and>
     file_replay demo_crypto j' = Inl (JournalCorrupt ''record too large'')"
proof -
  have "length (record_body (Snapshot large_snapshot)) = 17600020"
    by (simp add: large_snapshot_def empty_snapshot_def encode_snapshot_def put_u32_def length_concat
        put_snapshot_confirmed_def sum_list_replicate)
  then show ?thesis
    using oversized_record_bricks_log [OF fresh_journal_sane [THEN conjunct1] fresh_journal_sane [THEN conjunct2],
        of "Snapshot large_snapshot"]
    by (simp add: fresh_journal_def MAX_RECORD_BYTES_def)
qed

text \<open>Compaction ignores a failed directory barrier. When the rename is not durable, the
  compaction and every later append succeed, and after a power cut the path names the old file
  again: the records appended since, votes included, are gone.\<close>

theorem lost_rename_forgets_votes:
  assumes "file_sane cr j" "file_owner j = Some i" "fj_identity j = Some i"
  shows "\<exists>j1 j2. file_compact cr (j\<lparr>fj_faults := [RenameNotDurable]\<rparr>) sn = (j1, Inr ()) \<and>
    file_append cr j1 (Locked ord) = (j2, Inr ()) \<and> file_recs cr (file_reopen cr j2) = file_recs cr j"
proof -
  let ?new = "JOURNAL_MAGIC @ i @ encode_record cr (Snapshot sn)"
  let ?j1 = "j\<lparr>fj_bytes := ?new, fj_durable := Some (fj_bytes j), fj_faults := []\<rparr>"
  let ?j2 = "?j1\<lparr>fj_bytes := ?new @ encode_record cr (Locked ord)\<rparr>"
  have d: "fj_durable j = None" using assms(1) by (simp add: file_sane_def)
  have "file_compact cr (j\<lparr>fj_faults := [RenameNotDurable]\<rparr>) sn = (?j1, Inr ())"
    using assms(3) d by (simp add: file_compact_def next_fault_def Let_def)
  moreover have "file_append cr ?j1 (Locked ord) = (?j2, Inr ())"
    by (simp add: file_append_def next_fault_def Let_def)
  moreover have "file_recs cr (file_reopen cr ?j2) = file_recs cr j"
  proof -
    from assms(1,2) obtain rs where o: "crypto_ok cr" "length i = IDENTITY_LEN" "\<forall>r \<in> set rs. record_fits cr r"
      "fj_bytes j = file_image cr i rs" "file_recs cr j = rs" by (rule file_owned)
    have "file_reopen cr ?j2 = \<lparr>fj_bytes = file_image cr i rs, fj_durable = None, fj_identity = None, fj_faults = []\<rparr>"
      using file_open_torn [OF o(1-3), of "[]" "[]"] scan_zeros [of cr 0] o(4) by (simp add: file_reopen_def)
    then show ?thesis using file_image_recs(2) [OF o(1-3)] o(5) by simp
  qed
  ultimately show ?thesis by blast
qed

theorem lost_rename_forgets_votes_witness:
  "\<exists>j1 j2. file_compact demo_crypto
      (fresh_journal\<lparr>fj_identity := Some (replicate 32 1), fj_faults := [RenameNotDurable]\<rparr>) empty_snapshot = (j1, Inr ()) \<and>
    file_append demo_crypto j1 (Locked \<lparr>st_network_id = NetworkId ''n'', st_policy_id = PolicyId (replicate 32 0),
      st_transfer = \<lparr>tr_from = ''a'', tr_from_seq = 0, tr_to = ''b'', tr_amount = 1\<rparr>, st_round = 0,
      st_owner_signature = replicate 64 0\<rparr>) = (j2, Inr ()) \<and>
    file_recs demo_crypto (file_reopen demo_crypto j2) = []"
proof -
  let ?j = "fresh_journal\<lparr>fj_identity := Some (replicate 32 1)\<rparr>"
  have "file_sane demo_crypto ?j \<and> file_owner ?j = Some (replicate 32 1) \<and> file_recs demo_crypto ?j = []"
    using file_sane_image [OF demo_crypto_ok, of "replicate 32 1" "[]" ?j]
    by (simp add: fresh_journal_def IDENTITY_LEN_def)
  then show ?thesis using lost_rename_forgets_votes [of demo_crypto ?j "replicate 32 1"] by simp
qed

end
