(* ===== verification/Authority_Safety.thy ===== *)
theory Authority_Safety
  imports Authority Journal_File
begin

text \<open>
  Safety of one authority over its whole life: any interleaving of votes, confirmations,
  fences, epoch installations, compactions and restarts from the journal. The step relation
  \<open>auth_step\<close> keeps, beside the authority, a ghost log of every order it signed, tagged with
  the number of epoch installations before it and the committee id in the vote. The client lemmas are proved once against the
  contract \<open>durable_journal\<close> and reach a concrete journal through its interpretation.
\<close>

section \<open>The life of an authority\<close>

record config =
  cf_id :: authority_id
  cf_signing :: bytes
  cf_policy :: transfer_policy
  cf_committee :: committee_id
  cf_genesis :: ledger

record 'j node =
  nd_auth :: "'j authority"
  nd_signed :: "(nat \<times> committee_id \<times> signed_transfer) list"
  nd_gen :: nat

definition start_authority :: "crypto \<Rightarrow> 'j journal \<Rightarrow> config \<Rightarrow> 'j \<Rightarrow> 'j authority" where
  "start_authority cr jo cf j =
     with_journal cr jo (cf_id cf) (cf_signing cf) (cf_policy cf) (cf_committee cf) (cf_genesis cf) j"

definition restart_authority :: "crypto \<Rightarrow> 'j journal \<Rightarrow> config \<Rightarrow> 'j \<Rightarrow> journal_error + 'j authority" where
  "restart_authority cr jo cf j =
     recover cr jo (cf_id cf) (cf_signing cf) (cf_policy cf) (cf_committee cf) (cf_genesis cf) j"

definition start_node :: "crypto \<Rightarrow> 'j journal \<Rightarrow> config \<Rightarrow> 'j \<Rightarrow> 'j node" where
  "start_node cr jo cf j = \<lparr>nd_auth = start_authority cr jo cf j, nd_signed = [], nd_gen = 0\<rparr>"

definition moves_generation :: "epoch_error + install_outcome \<Rightarrow> bool" where
  "moves_generation r =
     (case r of Inr Installed \<Rightarrow> True | Inr InstallPending \<Rightarrow> True | Inl (EpochJournal _) \<Rightarrow> True | _ \<Rightarrow> False)"

text \<open>
  One step. \<open>keeps\<close> says which records the journal can store, \<open>reopen\<close> what a process restart
  does to it. A vote that is signed but never sent is a step that logs more than was sent; a
  crash inside an operation is that operation followed by \<open>restart\<close>.
\<close>

inductive auth_step ::
    "crypto \<Rightarrow> 'j journal \<Rightarrow> (journal_record \<Rightarrow> bool) \<Rightarrow> ('j \<Rightarrow> 'j) \<Rightarrow> config \<Rightarrow> 'j node \<Rightarrow> 'j node \<Rightarrow> bool"
  for cr jo keeps reopen cf where
  vote: "keeps (Locked ord) \<Longrightarrow> handle cr jo (nd_auth n) ord = (a, Inr v) \<Longrightarrow>
    auth_step cr jo keeps reopen cf n (n\<lparr>nd_auth := a, nd_signed := (nd_gen n, vt_committee_id v, ord) # nd_signed n\<rparr>)"
| refuse: "keeps (Locked ord) \<Longrightarrow> handle cr jo (nd_auth n) ord = (a, Inl e) \<Longrightarrow>
    auth_step cr jo keeps reopen cf n (n\<lparr>nd_auth := a\<rparr>)"
| confirmation: "keeps (Confirmed (vf_order v)) \<Longrightarrow> confirm_impl cr jo (nd_auth n) v c m = (a, r) \<Longrightarrow>
    auth_step cr jo keeps reopen cf n (n\<lparr>nd_auth := a\<rparr>)"
| fencing: "keeps (EpochFence p) \<Longrightarrow> fence cr jo (nd_auth n) p = (a, r) \<Longrightarrow>
    auth_step cr jo keeps reopen cf n (n\<lparr>nd_auth := a\<rparr>)"
| install: "keeps (EpochInstalled k) \<Longrightarrow> install_epoch_cert cr jo (nd_auth n) k c = (a, r) \<Longrightarrow>
    auth_step cr jo keeps reopen cf n
      (n\<lparr>nd_auth := a, nd_gen := (if moves_generation r then Suc (nd_gen n) else nd_gen n)\<rparr>)"
| compact: "keeps (Snapshot (snapshot_data_of (nd_auth n))) \<Longrightarrow>
    compact_journal jo (nd_auth n) = (a, r) \<Longrightarrow>
    auth_step cr jo keeps reopen cf n (n\<lparr>nd_auth := a\<rparr>)"
| restart: "restart_authority cr jo cf (reopen (au_journal (nd_auth n))) = Inr a \<Longrightarrow>
    auth_step cr jo keeps reopen cf n (n\<lparr>nd_auth := a\<rparr>)"

definition auth_reach ::
    "crypto \<Rightarrow> 'j journal \<Rightarrow> (journal_record \<Rightarrow> bool) \<Rightarrow> ('j \<Rightarrow> 'j) \<Rightarrow> config \<Rightarrow> 'j node \<Rightarrow> 'j node \<Rightarrow> bool" where
  "auth_reach cr jo keeps reopen cf = (auth_step cr jo keeps reopen cf)\<^sup>*\<^sup>*"

section \<open>The durable core\<close>

text \<open>
  What recovery has to bring back: the ledger, the locks and the confirmations. A lock is
  stored under its order's slot; a confirmed sequence number is spent.
\<close>

type_synonym core = "ledger \<times> (slot, signed_transfer) btree \<times> (account_id \<times> u64, bytes) btree"

definition au_core :: "'j authority \<Rightarrow> core" where
  "au_core a = (au_ledger a, au_locked a, au_confirmed a)"

definition core_wf :: "core \<Rightarrow> bool" where
  "core_wf k = (case k of (l, lk, cf) \<Rightarrow>
     ledger_wf l \<and> bt_wf lk \<and> bt_wf cf \<and> 
     (\<forall>(s, ord) \<in> set lk. s = slot_of ord) \<and>
     (\<forall>((acct, sq), _) \<in> set cf. unat sq < unat (ledger_next_seq l acct)))"

text \<open>An order is guarded when its slot is locked on it, or free with its sequence number spent.\<close>

definition guarded :: "core \<Rightarrow> signed_transfer \<Rightarrow> bool" where
  "guarded k ord = (case k of (l, lk, cf) \<Rightarrow>
     map_of lk (slot_of ord) = Some ord \<or> map_of lk (slot_of ord) = None \<and>
     unat (tr_from_seq (st_transfer ord)) < unat (ledger_next_seq l (tr_from (st_transfer ord))))"

text \<open>The effect of a journal record on the core alone.\<close>

definition core_replay :: "crypto \<Rightarrow> transfer_policy \<Rightarrow> core \<Rightarrow> journal_record \<Rightarrow> core option" where
  "core_replay cr p k r = (case k of (l, lk, cf) \<Rightarrow>
     case r of
       Snapshot sn \<Rightarrow>
         (case restore (sn_accounts sn) of Inl _ \<Rightarrow> None
          | Inr l' \<Rightarrow> Some (l', bt_collect (map (\<lambda>ord. (slot_of ord, ord)) (sn_locked sn)),
               bt_collect (map (\<lambda>(a, s, oid). ((a, s), oid)) (sn_confirmed sn))))
     | Locked ord \<Rightarrow> Some (l, bt_insert (slot_of ord) ord lk, cf)
     | Confirmed ord \<Rightarrow>
         (case ledger_apply l (st_transfer ord) of Inl _ \<Rightarrow> None
          | Inr l' \<Rightarrow> Some (l', unlock_slot (tr_from (st_transfer ord)) (tr_from_seq (st_transfer ord)) lk,
               bt_insert (tr_from (st_transfer ord), tr_from_seq (st_transfer ord)) (order_id cr ord) cf))
     | EpochFence _ \<Rightarrow> Some k
     | EpochInstalled c \<Rightarrow>
         (if committee_with_epoch cr (ek_next_roster c) p (ek_epoch c) = None then None else Some (l, [], cf)))"

fun core_replay_all :: "crypto \<Rightarrow> transfer_policy \<Rightarrow> core \<Rightarrow> journal_record list \<Rightarrow> core option" where
  "core_replay_all cr p k [] = Some k"
| "core_replay_all cr p k (r # rs) = Option.bind (core_replay cr p k r) (\<lambda>k'. core_replay_all cr p k' rs)"

lemma core_confirmed: "au_core a = k \<Longrightarrow> au_confirmed a = snd (snd k)"
  by (auto simp: au_core_def)

lemma complete_install_core [simp]:
  "au_ledger (complete_install a) = au_ledger a" "au_locked (complete_install a) = au_locked a"
  "au_confirmed (complete_install a) = au_confirmed a" "au_policy (complete_install a) = au_policy a"
  "au_journal (complete_install a) = au_journal a" "au_poisoned (complete_install a) = au_poisoned a"
  "au_id (complete_install a) = au_id a" "au_signing (complete_install a) = au_signing a"
  by (simp_all add: complete_install_def split: epoch_state.splits)

lemma au_core_complete_install [simp]: "au_core (complete_install a) = au_core a"
  by (simp add: au_core_def)

text \<open>Replay of one record is a refinement of \<open>core_replay\<close>.\<close>

lemma replay_record_refines:
  "case replay_record cr me r of
     Inl e \<Rightarrow> core_replay cr (au_policy me) (au_core me) r = None
   | Inr me' \<Rightarrow> core_replay cr (au_policy me) (au_core me) r = Some (au_core me') \<and>
       au_policy me' = au_policy me \<and> au_journal me' = au_journal me \<and> au_poisoned me' = au_poisoned me \<and>
       au_id me' = au_id me \<and> au_signing me' = au_signing me"
  by (cases r)
    (auto simp: replay_record_def core_replay_def au_core_def Let_def split: sum.splits option.splits)

lemma replay_all_refines:
  "case replay_all cr me rs of
     Inl e \<Rightarrow> core_replay_all cr (au_policy me) (au_core me) rs = None
   | Inr me' \<Rightarrow> core_replay_all cr (au_policy me) (au_core me) rs = Some (au_core me') \<and>
       au_policy me' = au_policy me \<and> au_journal me' = au_journal me \<and> au_poisoned me' = au_poisoned me \<and>
       au_id me' = au_id me \<and> au_signing me' = au_signing me"
proof (induction rs arbitrary: me)
  case (Cons r rs)
  show ?case
  proof (cases "replay_record cr me r")
    case (Inl e)
    then show ?thesis using replay_record_refines [of cr me r] by simp
  next
    case (Inr me1)
    then show ?thesis
      using replay_record_refines [of cr me r] Cons.IH [of me1] by (simp split: sum.splits)
  qed
qed simp

lemma core_replay_all_append:
  "core_replay_all cr p k (rs @ ss) = Option.bind (core_replay_all cr p k rs) (\<lambda>k'. core_replay_all cr p k' ss)"
  by (induction rs arbitrary: k) (auto split: bind_split)

section \<open>Keeping the core well formed and the guards\<close>

lemma set_bt_insert_subset: "set (bt_insert k v m) \<subseteq> insert (k, v) (set m)"
  by (induction m) auto

lemma core_wf_lock:
  assumes w: "core_wf (l, lk, cf)"
  shows "core_wf (l, bt_insert (slot_of ord) ord lk, cf)"
  using assms set_bt_insert_subset [of "slot_of ord" ord lk] by (fastforce simp: core_wf_def)

lemma confirmed_spent_on:
  assumes "core_wf (l, lk, cf)" "ledger_apply l t = Inr l'" "((acct, s), x) \<in> set cf"
  shows "unat s < unat (ledger_next_seq l' acct)"
proof -
  have "unat s < unat (ledger_next_seq l acct)" using assms(1,3) by (auto simp: core_wf_def)
  then show ?thesis using apply_next_seq_nat [OF assms(2), of acct] by simp
qed

lemma core_wf_apply:
  assumes "core_wf (l, lk, cf)" "ledger_apply l t = Inr l'"
  shows "core_wf (l', lk, cf)"
  using assms apply_ledger_wf [OF _ assms(2)] confirmed_spent_on [OF assms] by (auto simp: core_wf_def)

lemma core_wf_confirm:
  assumes w: "core_wf (l, lk, cf)" and ap: "ledger_apply l t = Inr l'"
  shows "core_wf (l', unlock_slot (tr_from t) (tr_from_seq t) lk, bt_insert (tr_from t, tr_from_seq t) oid cf)"
proof -
  have sq: "tr_from_seq t = ledger_next_seq l (tr_from t)"
    using ap by (simp add: ledger_apply_Inr preflight_ok_iff)
  have lk: "s = slot_of ord" if "(s, ord) \<in> set (unlock_slot (tr_from t) (tr_from_seq t) lk)" for s ord
    using that w by (auto simp: unlock_slot_def bt_retain_def core_wf_def)
  have cf: "unat s < unat (ledger_next_seq l' acct)"
    if "((acct, s), x) \<in> set (bt_insert (tr_from t, tr_from_seq t) oid cf)" for acct s x
  proof (cases "acct = tr_from t \<and> s = tr_from_seq t")
    case True
    then show ?thesis using sq apply_next_seq_nat [OF ap] by simp
  next
    case False
    then have "((acct, s), x) \<in> set cf" using that set_bt_insert_subset by fastforce
    then show ?thesis by (rule confirmed_spent_on [OF w ap])
  qed
  show ?thesis
    using w apply_ledger_wf [OF _ ap] lk cf by (auto simp: core_wf_def unlock_slot_def)
qed

lemma guarded_lock:
  assumes "guarded (l, lk, cf) ord'" "map_of lk (slot_of ord) = None" "preflight l (st_transfer ord) = Inr ()"
  shows "guarded (l, bt_insert (slot_of ord) ord lk, cf) ord'"
  using assms by (auto simp: guarded_def preflight_ok_iff slot_of_def)

lemma guarded_apply:
  assumes "guarded (l, lk, cf) ord'" "ledger_apply l t = Inr l'"
  shows "guarded (l', lk, cf') ord'"
  using assms(1) apply_next_seq_nat [OF assms(2), of "tr_from (st_transfer ord')"] by (auto simp: guarded_def split: if_splits)

lemma guarded_confirm:
  assumes g: "guarded (l, lk, cf) ord'" and w: "core_wf (l, lk, cf)" and ap: "ledger_apply l t = Inr l'"
  shows "guarded (l', unlock_slot (tr_from t) (tr_from_seq t) lk, cf') ord'"
proof -
  have sq: "tr_from_seq t = ledger_next_seq l (tr_from t)"
    using ap by (simp add: ledger_apply_Inr preflight_ok_iff)
  note ns = apply_next_seq_nat [OF ap, of "tr_from (st_transfer ord')"]
  let ?this = "tr_from (st_transfer ord') = tr_from t \<and> tr_from_seq (st_transfer ord') = tr_from_seq t"
  have "map_of (unlock_slot (tr_from t) (tr_from_seq t) lk) (slot_of ord') =
      (if ?this then None else map_of lk (slot_of ord'))"
    using w by (auto simp: unlock_slot_def map_of_bt_retain core_wf_def slot_of_def split: option.splits)
  then show ?thesis using g ns sq by (auto simp: guarded_def split: if_splits)
qed

lemma snapshot_core:
  assumes w: "core_wf (au_core a)"
  shows "core_replay cr p k (Snapshot (snapshot_data_of a)) = Some (au_core a)"
proof -
  let ?es = "sn_accounts (snapshot_data_of a)"
  have acc: "map mk_account ?es = accounts (au_ledger a)"
  proof -
    have "bt_wf (accounts (au_ledger a))" using w by (simp add: core_wf_def au_core_def ledger_wf_def)
    then have "map_of (accounts (au_ledger a)) i = Some acc" if "(i, acc) \<in> set (accounts (au_ledger a))" for i acc
      using that by (simp add: bt_get_in_set)
    then show ?thesis
      by (auto simp: snapshot_data_of_def balances_def ledger_next_seq_def intro!: map_idI)
  qed
  have wfl: "bt_wf (accounts (au_ledger a))" "supply_of (au_ledger a) < 2 ^ 128"
    using w by (auto simp: core_wf_def au_core_def ledger_wf_def)
  have fsts: "map fst ?es = map fst (accounts (au_ledger a))"
    by (simp add: snapshot_data_of_def balances_def case_prod_beta comp_def)
  have "(\<Sum>(_, b, _) \<leftarrow> ?es. unat b) = supply_of (au_ledger a)"
    by (auto simp: snapshot_data_of_def balances_def supply_of_def intro!: arg_cong [of _ _ sum_list])
  then have "restore ?es = Inr \<lparr>accounts = bt_collect (map mk_account ?es)\<rparr>"
    using wfl bt_wf_distinct [OF wfl(1)] fsts
    by (simp add: restore_def restore_loop_iff bt_collect_def)
  then have led: "restore ?es = Inr (au_ledger a)"
    using acc bt_collect_sorted [OF wfl(1)] by simp
  have "map (\<lambda>ord. (slot_of ord, ord)) (map snd (au_locked a)) = au_locked a"
    using w by (force simp: core_wf_def au_core_def intro!: map_idI)
  then have lk: "bt_collect (map (\<lambda>ord. (slot_of ord, ord)) (sn_locked (snapshot_data_of a))) = au_locked a"
    using w by (simp add: snapshot_data_of_def core_wf_def au_core_def bt_collect_sorted)
  have "map (\<lambda>(a, s, oid). ((a, s), oid)) (sn_confirmed (snapshot_data_of a)) = au_confirmed a"
    by (auto simp: snapshot_data_of_def case_prod_beta comp_def)
  then have cf: "bt_collect (map (\<lambda>(a, s, oid). ((a, s), oid)) (sn_confirmed (snapshot_data_of a))) = au_confirmed a"
    using w by (simp add: core_wf_def au_core_def bt_collect_sorted)
  show ?thesis by (simp add: core_replay_def led lk cf au_core_def split: prod.splits)
qed

lemma map_le_bt_insert_fresh: "map_of m x = None \<Longrightarrow> map_of m \<subseteq>\<^sub>m map_of (bt_insert x y m)"
  by (auto simp: map_le_def)

section \<open>What each operation does to the core and the journal\<close>

abbreviation same_config :: "'j authority \<Rightarrow> 'j authority \<Rightarrow> bool" where
  "same_config a a' \<equiv> au_policy a' = au_policy a \<and> au_id a' = au_id a \<and> au_signing a' = au_signing a"

text \<open>An operation either leaves core and journal alone or appends one record.\<close>

definition quiet :: "'j authority \<Rightarrow> 'j authority \<Rightarrow> bool" where
  "quiet a a' \<longleftrightarrow> same_config a a' \<and> au_core a' = au_core a \<and> au_journal a' = au_journal a \<and>
     (au_poisoned a \<longrightarrow> au_poisoned a')"

text \<open>
  A failed append leaves locks and confirmations as they were; a confirmation has by then applied its transfer to the
  ledger in memory.
\<close>

definition ahead :: "'j authority \<Rightarrow> 'j authority \<Rightarrow> bool" where
  "ahead a a' \<longleftrightarrow> au_locked a' = au_locked a \<and> au_confirmed a' = au_confirmed a \<and>
     (au_ledger a' = au_ledger a \<or> (\<exists>t. ledger_apply (au_ledger a) t = Inr (au_ledger a')))"

lemma ahead_core_wf: "ahead a a' \<Longrightarrow> core_wf (au_core a) \<Longrightarrow> core_wf (au_core a')"
  using core_wf_apply [of "au_ledger a"] by (auto simp: ahead_def au_core_def)

lemma ahead_guarded: "ahead a a' \<Longrightarrow> guarded (au_core a) ord \<Longrightarrow> guarded (au_core a') ord"
  using guarded_apply [of "au_ledger a"] by (auto simp: ahead_def au_core_def)

definition wrote :: "'j journal \<Rightarrow> 'j authority \<Rightarrow> journal_record \<Rightarrow> core \<Rightarrow> 'j authority \<Rightarrow> bool" where
  "wrote jo a r k a' \<longleftrightarrow> same_config a a' \<and> \<not> au_poisoned a \<and>
     (j_append jo (au_journal a) r = (au_journal a', Inr ()) \<and> \<not> au_poisoned a' \<and> au_core a' = k \<or>
      (\<exists>e. j_append jo (au_journal a) r = (au_journal a', Inl e)) \<and> au_poisoned a' \<and> ahead a a')"

lemma handle_order_effect:
  assumes "handle_order cr jo a ord = (a', r)" "\<not> au_poisoned a"
  shows "quiet a a' \<and> (is_ok r \<longrightarrow> map_of (au_locked a) (slot_of ord) = Some ord \<and> \<not> au_poisoned a') \<or>
    wrote jo a (Locked ord) (au_ledger a, bt_insert (slot_of ord) ord (au_locked a), au_confirmed a) a' \<and>
    map_of (au_locked a) (slot_of ord) = None \<and> preflight (au_ledger a) (st_transfer ord) = Inr () \<and>
    (is_ok r \<longrightarrow> \<not> au_poisoned a')"
  using assms
  by (auto simp: handle_order_def journal_append_def Let_def quiet_def wrote_def ahead_def au_core_def
      split: sum.splits option.splits if_splits prod.splits)

lemma wrote_complete_install: "wrote jo (complete_install a) r k a' \<longleftrightarrow> wrote jo a r k a'"
  by (simp add: wrote_def ahead_def)

lemma quiet_complete_install: "quiet (complete_install a) a' \<longleftrightarrow> quiet a a'"
  by (simp add: quiet_def)

lemma handle_effect:
  assumes "handle cr jo a ord = (a', r)"
  shows "quiet a a' \<and> (is_ok r \<longrightarrow> map_of (au_locked a) (slot_of ord) = Some ord \<and> \<not> au_poisoned a') \<or>
    wrote jo a (Locked ord) (au_ledger a, bt_insert (slot_of ord) ord (au_locked a), au_confirmed a) a' \<and>
    map_of (au_locked a) (slot_of ord) = None \<and> preflight (au_ledger a) (st_transfer ord) = Inr () \<and>
    (is_ok r \<longrightarrow> \<not> au_poisoned a')"
proof (cases "au_poisoned a")
  case True
  then show ?thesis using assms by (auto simp: handle_def quiet_def)
next
  case False
  then show ?thesis
  proof (cases "epoch_gate a")
    case GateOpen
    then show ?thesis using assms False handle_order_effect [of cr jo a ord a' r] by (simp add: handle_def)
  next
    case GateCovered
    then show ?thesis
      using assms False handle_order_effect [of cr jo "complete_install a" ord a' r]
      by (simp add: handle_def wrote_complete_install quiet_complete_install)
  next
    case (GateReject e)
    then show ?thesis using assms False by (auto simp: handle_def quiet_def)
  qed
qed

lemma confirm_apply_effect:
  assumes "confirm_apply cr jo a ord = (a', r)" "\<not> au_poisoned a"
  shows "quiet a a' \<or> (\<exists>l'. ledger_apply (au_ledger a) (st_transfer ord) = Inr l' \<and>
    map_of (au_confirmed a) (tr_from (st_transfer ord), tr_from_seq (st_transfer ord)) = None \<and>
    wrote jo a (Confirmed ord)
      (l', unlock_slot (tr_from (st_transfer ord)) (tr_from_seq (st_transfer ord)) (au_locked a),
       bt_insert (tr_from (st_transfer ord), tr_from_seq (st_transfer ord)) (order_id cr ord) (au_confirmed a)) a')"
  using assms
  by (auto simp: confirm_apply_def journal_append_def Let_def quiet_def wrote_def ahead_def au_core_def
      split: sum.splits option.splits if_splits prod.splits)

lemma confirm_effect:
  assumes "confirm_impl cr jo a v c m = (a', r)"
  shows "quiet a a' \<or> (\<exists>l'. ledger_apply (au_ledger a) (vf_transfer v) = Inr l' \<and>
    map_of (au_confirmed a) (tr_from (vf_transfer v), tr_from_seq (vf_transfer v)) = None \<and>
    wrote jo a (Confirmed (vf_order v))
      (l', unlock_slot (tr_from (vf_transfer v)) (tr_from_seq (vf_transfer v)) (au_locked a),
       bt_insert (tr_from (vf_transfer v), tr_from_seq (vf_transfer v)) (order_id cr (vf_order v)) (au_confirmed a)) a')"
proof (cases "confirm_impl cr jo a v c m = confirm_apply cr jo a (vf_order v) \<and> \<not> au_poisoned a")
  case True
  then show ?thesis using assms confirm_apply_effect [of cr jo a "vf_order v" a' r] by (simp add: vf_transfer_def)
next
  case False
  then have "a' = a" using assms by (auto simp: confirm_impl_def split: if_splits sum.splits)
  then show ?thesis by (simp add: quiet_def)
qed

lemma fence_effect:
  assumes "fence cr jo a p = (a', r)"
  shows "quiet a a' \<or> wrote jo a (EpochFence p) (au_core a) a'"
  using assms
  by (auto simp: fence_def journal_append_def quiet_def wrote_def ahead_def au_core_def
      split: sum.splits option.splits if_splits prod.splits epoch_state.splits)

lemma install_commit_effect:
  assumes "install_commit cr jo a k next fd = (a', r)" "\<not> au_poisoned a"
  shows "wrote jo a (EpochInstalled k) (au_ledger a, [], au_confirmed a) a' \<and> moves_generation r"
  using assms
  by (auto simp: install_commit_def journal_append_def Let_def wrote_def ahead_def au_core_def moves_generation_def
      split: sum.splits if_splits prod.splits)

lemma install_effect:
  assumes "install_epoch_cert cr jo a k c = (a', r)"
  shows "quiet a a' \<or>
    wrote jo a (EpochInstalled k) (au_ledger a, [], au_confirmed a) a' \<and> moves_generation r \<and>
    committee_with_epoch cr (ek_next_roster k) (au_policy a) (ek_epoch k) \<noteq> None"
proof (cases "\<exists>next fd. install_epoch_cert cr jo a k c = install_commit cr jo a k next fd \<and> \<not> au_poisoned a \<and>
    committee_with_epoch cr (ek_next_roster k) (au_policy a) (ek_epoch k) \<noteq> None")
  case True
  then show ?thesis using assms install_commit_effect by fastforce
next
  case False
  then have "a' = a \<or> a' = a\<lparr>au_poisoned := True\<rparr>"
    using assms
    by (auto simp: install_epoch_cert_def Let_def eq_commute [of "(a', r)"]
        split: if_splits sum.splits option.splits epoch_state.splits)
  then show ?thesis by (auto simp: quiet_def au_core_def)
qed

section \<open>The invariant\<close>

definition unique_votes :: "(nat \<times> committee_id \<times> signed_transfer) list \<Rightarrow> bool" where
  "unique_votes log \<longleftrightarrow> (\<forall>(g, _, o1) \<in> set log. \<forall>(g', _, o2) \<in> set log.
     g = g' \<and> slot_of o1 = slot_of o2 \<longrightarrow> o1 = o2)"

lemma unique_votesD:
  assumes "unique_votes log" "(g, c1, o1) \<in> set log" "(g, c2, o2) \<in> set log" "slot_of o1 = slot_of o2"
  shows "o1 = o2"
  using bspec [OF bspec [OF assms(1) [unfolded unique_votes_def] assms(2), simplified] assms(3)] assms(4) by simp

definition config_identity :: "crypto \<Rightarrow> config \<Rightarrow> bytes" where
  "config_identity cr cf = journal_identity cr (cf_id cf) (cf_committee cf) (cf_genesis cf)"

definition log_bounded :: "'j node \<Rightarrow> bool" where
  "log_bounded n \<longleftrightarrow> unique_votes (nd_signed n) \<and> (\<forall>(g, _) \<in> set (nd_signed n). g \<le> nd_gen n)"

definition log_guarded :: "'j node \<Rightarrow> core \<Rightarrow> bool" where
  "log_guarded n k \<longleftrightarrow> (\<forall>(g, _, ord) \<in> set (nd_signed n). g = nd_gen n \<longrightarrow> guarded k ord)"

lemma log_auth_update [simp]:
  "log_bounded (n\<lparr>nd_auth := a\<rparr>) = log_bounded n" "log_guarded (n\<lparr>nd_auth := a\<rparr>) k = log_guarded n k"
  by (simp_all add: log_bounded_def log_guarded_def)

lemma log_next_generation:
  assumes "log_bounded n"
  shows "log_bounded (n\<lparr>nd_auth := a, nd_gen := Suc (nd_gen n)\<rparr>)"
    and "log_guarded (n\<lparr>nd_auth := a, nd_gen := Suc (nd_gen n)\<rparr>) k"
  using assms by (fastforce simp: log_bounded_def log_guarded_def)+

lemma log_guarded_mono: "log_guarded n k \<Longrightarrow> (\<And>ord. guarded k ord \<Longrightarrow> guarded k' ord) \<Longrightarrow> log_guarded n k'"
  by (fastforce simp: log_guarded_def)

text \<open>A vote may be logged when every guarded order of its slot is that very order.\<close>

lemma log_vote:
  assumes "log_bounded n" "log_guarded n k" "guarded k ord"
    and "\<And>ord'. guarded k ord' \<Longrightarrow> slot_of ord' = slot_of ord \<Longrightarrow> ord' = ord"
  shows "log_bounded (n\<lparr>nd_auth := a, nd_signed := (nd_gen n, cid, ord) # nd_signed n\<rparr>)"
    and "log_guarded (n\<lparr>nd_auth := a, nd_signed := (nd_gen n, cid, ord) # nd_signed n\<rparr>) k"
proof -
  have "o2 = ord" if "(nd_gen n, cid2, o2) \<in> set (nd_signed n)" "slot_of o2 = slot_of ord" for cid2 o2
    using that assms(2,4) by (fastforce simp: log_guarded_def)
  then show "log_bounded (n\<lparr>nd_auth := a, nd_signed := (nd_gen n, cid, ord) # nd_signed n\<rparr>)"
    using assms(1) unfolding log_bounded_def unique_votes_def by (auto; metis)
  show "log_guarded (n\<lparr>nd_auth := a, nd_signed := (nd_gen n, cid, ord) # nd_signed n\<rparr>) k"
    using assms(2,3) by (auto simp: log_guarded_def)
qed

context durable_journal
begin

text \<open>The log on storage, torn or not, belongs to this authority and replays to the core \<open>k\<close>.\<close>

definition stored :: "crypto \<Rightarrow> config \<Rightarrow> 'j \<Rightarrow> core \<Rightarrow> bool" where
  "stored cr cf j k \<longleftrightarrow> (\<exists>rs. torn (config_identity cr cf) j rs \<and>
     core_replay_all cr (cf_policy cf) (cf_genesis cf, [], []) rs = Some k)"

text \<open>
  A running authority has a whole log that replays to its core. One that a failed write has stopped keeps the core it had; the log
  may hold one record more.
\<close>

definition auth_inv :: "crypto \<Rightarrow> config \<Rightarrow> 'j authority \<Rightarrow> core \<Rightarrow> bool" where
  "auth_inv cr cf a k \<longleftrightarrow> au_policy a = cf_policy cf \<and> au_id a = cf_id cf \<and> au_signing a = cf_signing cf \<and>
     stored cr cf (au_journal a) k \<and> core_wf k \<and> core_wf (au_core a) \<and>
     (\<not> au_poisoned a \<longrightarrow> au_core a = k \<and> sane (au_journal a) \<and> owner (au_journal a) = Some (config_identity cr cf)) \<and>
     map_of (au_confirmed a) \<subseteq>\<^sub>m map_of (snd (snd k))"

definition node_inv :: "crypto \<Rightarrow> config \<Rightarrow> 'j node \<Rightarrow> bool" where
  "node_inv cr cf n \<longleftrightarrow> log_bounded n \<and>
     (\<exists>k. auth_inv cr cf (nd_auth n) k \<and> log_guarded n k \<and> log_guarded n (au_core (nd_auth n)))"

lemma node_invI:
  "log_bounded n \<Longrightarrow> auth_inv cr cf (nd_auth n) k \<Longrightarrow> log_guarded n k \<Longrightarrow> log_guarded n (au_core (nd_auth n)) \<Longrightarrow>
   node_inv cr cf n"
  unfolding node_inv_def by blast

lemma node_invE:
  assumes "node_inv cr cf n"
  obtains k where "log_bounded n" "auth_inv cr cf (nd_auth n) k" "log_guarded n k" "log_guarded n (au_core (nd_auth n))"
    "au_poisoned (nd_auth n) \<or> k = au_core (nd_auth n)"
  using assms unfolding node_inv_def auth_inv_def by blast

lemma node_inv_core_wf: "node_inv cr cf n \<Longrightarrow> core_wf (au_core (nd_auth n))"
  by (auto simp: node_inv_def auth_inv_def)

lemma stored_sane:
  assumes "sane j" "owner j = Some (config_identity cr cf)"
  shows "stored cr cf j k \<longleftrightarrow> core_replay_all cr (cf_policy cf) (cf_genesis cf, [], []) (recs j) = Some k"
  using sane_torn [OF assms] torn_recs unfolding stored_def by blast

lemma stored_reopen:
  assumes "stored cr cf j k"
  shows "stored cr cf (reopen j) k \<and> sane (reopen j) \<and> owner (reopen j) = Some (config_identity cr cf)"
proof -
  from assms obtain rs where rs: "torn (config_identity cr cf) j rs"
    "core_replay_all cr (cf_policy cf) (cf_genesis cf, [], []) rs = Some k" unfolding stored_def by blast
  note t = torn_reopen [OF rs(1)]
  then show ?thesis using sane_torn [of "reopen j" "config_identity cr cf"] rs(2) unfolding stored_def by auto
qed

lemma auth_inv_quiet:
  assumes "auth_inv cr cf a k" "quiet a a'"
  shows "auth_inv cr cf a' k"
proof -
  have "au_confirmed a' = au_confirmed a" using assms(2) by (simp add: quiet_def au_core_def)
  then show ?thesis using assms by (auto simp: auth_inv_def quiet_def)
qed

lemma stored_append:
  assumes "sane j" "owner j = Some (config_identity cr cf)" "stored cr cf j k"
    and "core_replay cr (cf_policy cf) k r = Some k'" "fits r"
  shows "j_append jo j r = (j', Inr ()) \<Longrightarrow> stored cr cf j' k' \<and> sane j' \<and> owner j' = Some (config_identity cr cf)"
    and "j_append jo j r = (j', Inl e) \<Longrightarrow> stored cr cf j' k \<or> stored cr cf j' k'"
proof -
  have k: "core_replay_all cr (cf_policy cf) (cf_genesis cf, [], []) (recs j) = Some k"
    "core_replay_all cr (cf_policy cf) (cf_genesis cf, [], []) (recs j @ [r]) = Some k'"
    using assms(3,4) by (simp_all add: stored_sane [OF assms(1,2)] core_replay_all_append)
  show "stored cr cf j' k' \<and> sane j' \<and> owner j' = Some (config_identity cr cf)" if "j_append jo j r = (j', Inr ())"
    using append_ok [OF assms(1,2,5) that] k(2) by (simp add: stored_sane)
  show "stored cr cf j' k \<or> stored cr cf j' k'" if "j_append jo j r = (j', Inl e)"
    using append_err [OF assms(1,2,5) that] k unfolding stored_def by blast
qed

lemma auth_inv_wrote:
  assumes "auth_inv cr cf a k" "wrote jo a r k' a'" "fits r"
    and "core_replay cr (cf_policy cf) k r = Some k'" "core_wf k'"
    and "map_of (au_confirmed a) \<subseteq>\<^sub>m map_of (snd (snd k'))"
  shows "auth_inv cr cf a' k' \<and> (au_core a' = k' \<or> ahead a a') \<or> auth_inv cr cf a' k \<and> ahead a a'"
proof -
  have j: "sane (au_journal a)" "owner (au_journal a) = Some (config_identity cr cf)" "stored cr cf (au_journal a) k"
    using assms(1,2) by (auto simp: auth_inv_def wrote_def)
  from assms(2) consider (ok) "j_append jo (au_journal a) r = (au_journal a', Inr ())" "\<not> au_poisoned a'" "au_core a' = k'"
    | (err) e where "j_append jo (au_journal a) r = (au_journal a', Inl e)" "au_poisoned a'" "ahead a a'"
    by (auto simp: wrote_def)
  then show ?thesis
  proof cases
    case ok
    then have "stored cr cf (au_journal a') k' \<and> sane (au_journal a') \<and> owner (au_journal a') = Some (config_identity cr cf)"
      using stored_append(1) [OF j assms(4,3)] by blast
    then have "auth_inv cr cf a' k'" using ok(3) assms(1,2,5) core_confirmed [OF ok(3)] by (auto simp: auth_inv_def wrote_def)
    then show ?thesis using ok(3) by blast
  next
    case err
    have "stored cr cf (au_journal a') k \<or> stored cr cf (au_journal a') k'"
      using stored_append(2) [OF j assms(4,3) err(1)] .
    moreover have "core_wf (au_core a')" "au_confirmed a' = au_confirmed a"
      using ahead_core_wf [OF err(3)] err(3) assms(1) by (auto simp: auth_inv_def ahead_def)
    ultimately have "auth_inv cr cf a' k \<or> auth_inv cr cf a' k'"
      using err(2) assms(1,2,5,6) by (auto simp: auth_inv_def wrote_def)
    then show ?thesis using err(3) by blast
  qed
qed

text \<open>Guards survive a write when they hold before and after it.\<close>

lemma node_inv_wrote:
  assumes n: "node_inv cr cf n" and w: "wrote jo (nd_auth n) r k' a'" and "fits r"
    and k': "core_replay cr (cf_policy cf) (au_core (nd_auth n)) r = Some k'" "core_wf k'"
    and c: "map_of (au_confirmed (nd_auth n)) \<subseteq>\<^sub>m map_of (snd (snd k'))"
    and g: "\<And>ord. guarded (au_core (nd_auth n)) ord \<Longrightarrow> guarded k' ord"
  shows "node_inv cr cf (n\<lparr>nd_auth := a'\<rparr>)"
proof -
  have np: "\<not> au_poisoned (nd_auth n)" using w by (simp add: wrote_def)
  from n obtain k where k: "log_bounded n" "auth_inv cr cf (nd_auth n) k" "log_guarded n k"
    "log_guarded n (au_core (nd_auth n))" "au_poisoned (nd_auth n) \<or> k = au_core (nd_auth n)" by (rule node_invE)
  then have kc: "k = au_core (nd_auth n)" using np by simp
  have gk: "log_guarded n k'" using log_guarded_mono [OF k(3), of k'] g kc by simp
  have ga: "log_guarded n (au_core a')" if "ahead (nd_auth n) a'"
    using log_guarded_mono [OF k(4)] ahead_guarded [OF that] by blast
  from auth_inv_wrote [OF k(2) w assms(3)] k' kc c
  consider "auth_inv cr cf a' k'" "au_core a' = k' \<or> ahead (nd_auth n) a'" | "auth_inv cr cf a' k" "ahead (nd_auth n) a'" by blast
  then show ?thesis
  proof cases
    case 1
    then show ?thesis using k(1) gk ga by (intro node_invI [of _ cr cf k']) auto
  next
    case 2
    then show ?thesis using k(1,3) ga by (intro node_invI [of _ cr cf k]) auto
  qed
qed

lemma node_inv_quiet: "node_inv cr cf n \<Longrightarrow> quiet (nd_auth n) a' \<Longrightarrow> node_inv cr cf (n\<lparr>nd_auth := a'\<rparr>)"
proof (elim node_invE)
  fix k
  assume "quiet (nd_auth n) a'" "log_bounded n" "auth_inv cr cf (nd_auth n) k" "log_guarded n k"
    "log_guarded n (au_core (nd_auth n))"
  then show ?thesis using auth_inv_quiet by (intro node_invI [of _ cr cf k]) (auto simp: quiet_def)
qed

lemma handle_keeps:
  assumes n: "node_inv cr cf n" and "fits (Locked ord)" and h: "handle cr jo (nd_auth n) ord = (a', r)"
  shows "node_inv cr cf (n\<lparr>nd_auth := a'\<rparr>)"
proof (cases "quiet (nd_auth n) a'")
  case True
  then show ?thesis using n by (rule node_inv_quiet [rotated])
next
  case False
  let ?a = "nd_auth n"
  have w: "wrote jo ?a (Locked ord) (au_ledger ?a, bt_insert (slot_of ord) ord (au_locked ?a), au_confirmed ?a) a'"
    and fresh: "map_of (au_locked ?a) (slot_of ord) = None"
    and pf: "preflight (au_ledger ?a) (st_transfer ord) = Inr ()"
    using handle_effect [OF h] False by auto
  have "core_wf (au_core ?a)" using node_inv_core_wf [OF n] .
  then show ?thesis
    using node_inv_wrote [OF n w assms(2)] core_wf_lock guarded_lock [OF _ fresh pf]
    by (auto simp: core_replay_def au_core_def)
qed

lemma confirm_keeps:
  assumes n: "node_inv cr cf n" and "fits (Confirmed (vf_order v))"
    and h: "confirm_impl cr jo (nd_auth n) v c m = (a', r)"
  shows "node_inv cr cf (n\<lparr>nd_auth := a'\<rparr>)"
proof (cases "quiet (nd_auth n) a'")
  case True
  then show ?thesis using n by (rule node_inv_quiet [rotated])
next
  case False
  then obtain l' where ap: "ledger_apply (au_ledger (nd_auth n)) (vf_transfer v) = Inr l'"
    and fr: "map_of (au_confirmed (nd_auth n)) (tr_from (vf_transfer v), tr_from_seq (vf_transfer v)) = None"
    and w: "wrote jo (nd_auth n) (Confirmed (vf_order v))
      (l', unlock_slot (tr_from (vf_transfer v)) (tr_from_seq (vf_transfer v)) (au_locked (nd_auth n)),
       bt_insert (tr_from (vf_transfer v), tr_from_seq (vf_transfer v)) (order_id cr (vf_order v))
         (au_confirmed (nd_auth n))) a'"
    using confirm_effect [OF h] by auto
  have "core_wf (au_core (nd_auth n))" using node_inv_core_wf [OF n] .
  then show ?thesis
    using node_inv_wrote [OF n w assms(2)] core_wf_confirm [OF _ ap] guarded_confirm [OF _ _ ap] ap
      map_le_bt_insert_fresh [OF fr]
    by (simp add: core_replay_def au_core_def vf_transfer_def)
qed

lemma fence_keeps:
  assumes n: "node_inv cr cf n" and "fits (EpochFence p)" and h: "fence cr jo (nd_auth n) p = (a', r)"
  shows "node_inv cr cf (n\<lparr>nd_auth := a'\<rparr>)"
proof (cases "quiet (nd_auth n) a'")
  case True
  then show ?thesis using n by (rule node_inv_quiet [rotated])
next
  case False
  then have w: "wrote jo (nd_auth n) (EpochFence p) (au_core (nd_auth n)) a'" using fence_effect [OF h] by simp
  then have "core_wf (au_core (nd_auth n))" using node_inv_core_wf [OF n] by simp
  then show ?thesis
    using node_inv_wrote [OF n w assms(2)] by (simp add: core_replay_def au_core_def split: prod.splits)
qed

lemma node_inv_next:
  assumes "log_bounded n" "auth_inv cr cf a k"
  shows "node_inv cr cf (n\<lparr>nd_auth := a, nd_gen := Suc (nd_gen n)\<rparr>)"
  using assms(2) by (intro node_invI [of _ cr cf k] log_next_generation [OF assms(1)]) simp

lemma install_keeps:
  assumes n: "node_inv cr cf n" and f: "fits (EpochInstalled k)"
    and h: "install_epoch_cert cr jo (nd_auth n) k c = (a', r)"
  shows "node_inv cr cf (n\<lparr>nd_auth := a', nd_gen := (if moves_generation r then Suc (nd_gen n) else nd_gen n)\<rparr>)"
proof -
  let ?a = "nd_auth n"
  from n obtain k0 where k0: "log_bounded n" "auth_inv cr cf ?a k0" "log_guarded n k0"
    "au_poisoned ?a \<or> k0 = au_core ?a" by (rule node_invE)
  show ?thesis
  proof (cases "quiet ?a a'")
    case True
    note q = auth_inv_quiet [OF k0(2) True]
    show ?thesis
    proof (cases "moves_generation r")
      case True
      then show ?thesis using node_inv_next [OF k0(1) q] by simp
    next
      case False
      then show ?thesis using node_inv_quiet [OF n \<open>quiet ?a a'\<close>] by simp
    qed
  next
    case False
    then have w: "wrote jo ?a (EpochInstalled k) (au_ledger ?a, [], au_confirmed ?a) a'" "moves_generation r"
      and r: "committee_with_epoch cr (ek_next_roster k) (cf_policy cf) (ek_epoch k) \<noteq> None"
      using install_effect [OF h] k0(2) by (auto simp: auth_inv_def)
    have c: "k0 = (au_ledger ?a, au_locked ?a, au_confirmed ?a)"
      using w(1) k0(4) by (simp add: wrote_def au_core_def)
    then have "core_wf (au_ledger ?a, [], au_confirmed ?a)"
      using k0(2) by (simp add: auth_inv_def core_wf_def)
    then have "\<exists>k'. auth_inv cr cf a' k'"
      using auth_inv_wrote [OF k0(2) w(1) f] r c by (auto simp: core_replay_def)
    then show ?thesis using w(2) node_inv_next [OF k0(1)] by auto
  qed
qed

text \<open>A stopped authority may still compact: the snapshot is the core it had, which guards every vote it signed.\<close>

lemma compact_auth_inv:
  assumes "auth_inv cr cf a k" "fits (Snapshot (snapshot_data_of a))" "compact_journal jo a = (a', r)"
  shows "(auth_inv cr cf a' k \<and> r \<noteq> Inr () \<or> auth_inv cr cf a' (au_core a)) \<and> au_core a' = au_core a"
proof (cases "au_epoch_state a = Active")
  case False
  then show ?thesis using assms(1,3) by (auto simp: compact_journal_def)
next
  case True
  obtain j' res where c: "j_compact jo (au_journal a) (snapshot_data_of a) = (j', res)" by force
  from assms(1) obtain rs where rs: "torn (config_identity cr cf) (au_journal a) rs"
    "core_replay_all cr (cf_policy cf) (cf_genesis cf, [], []) rs = Some k" and wf: "core_wf (au_core a)"
    by (auto simp: auth_inv_def stored_def)
  have sn: "core_replay_all cr (cf_policy cf) (cf_genesis cf, [], []) [Snapshot (snapshot_data_of a)] = Some (au_core a)"
    using snapshot_core [OF wf] by simp
  show ?thesis
  proof (cases res)
    case (Inl e)
    then have a': "a' = a\<lparr>au_journal := j', au_poisoned := True\<rparr>" "r \<noteq> Inr ()"
      using c assms(3) True by (auto simp: compact_journal_def)
    have "stored cr cf j' k \<or> stored cr cf j' (au_core a)"
      using compact_err [OF rs(1) assms(2)] c Inl rs(2) sn unfolding stored_def by blast
    then show ?thesis using a' assms(1) by (auto simp: auth_inv_def au_core_def)
  next
    case (Inr u)
    then have a': "a' = a\<lparr>au_journal := j'\<rparr>" using c assms(3) True by (auto simp: compact_journal_def)
    have j: "sane j'" "owner j' = Some (config_identity cr cf)" "recs j' = [Snapshot (snapshot_data_of a)]"
      using compact_ok [OF rs(1) assms(2)] c Inr by simp_all
    have "stored cr cf j' (au_core a)" using sn stored_sane [OF j(1,2)] j(3) by simp
    then show ?thesis using a' j assms(1) by (auto simp: auth_inv_def au_core_def)
  qed
qed

lemma compact_keeps:
  assumes n: "node_inv cr cf n" and f: "fits (Snapshot (snapshot_data_of (nd_auth n)))"
    and h: "compact_journal jo (nd_auth n) = (a', r)"
  shows "node_inv cr cf (n\<lparr>nd_auth := a'\<rparr>)"
proof -
  from n obtain k where k: "log_bounded n" "auth_inv cr cf (nd_auth n) k" "log_guarded n k"
    "log_guarded n (au_core (nd_auth n))" by (rule node_invE)
  have "auth_inv cr cf a' k \<or> auth_inv cr cf a' (au_core (nd_auth n))" "au_core a' = au_core (nd_auth n)"
    using compact_auth_inv [OF k(2) f h] by auto
  then obtain k' where "auth_inv cr cf a' k'" "log_guarded n k'" "log_guarded n (au_core a')" using k(3,4) by metis
  then show ?thesis using k(1) by (intro node_invI [of _ cr cf k']) simp_all
qed

text \<open>Recovery succeeds on a stored log and restores its core.\<close>

lemma restart_ok:
  assumes "stored cr cf j k" "sane j" "owner j = Some (config_identity cr cf)" "core_wf k"
  shows "\<exists>a. restart_authority cr jo cf j = Inr a \<and> auth_inv cr cf a k \<and> \<not> au_poisoned a"
proof -
  let ?i = "config_identity cr cf"
  obtain j1 r1 where b1: "j_bind jo j ?i = (j1, r1)" by force
  have s1: "r1 = Inr ()" "sane j1" "owner j1 = Some ?i" "recs j1 = recs j"
    using bind_same [OF assms(2,3) b1] by auto
  obtain j2 r2 where b2: "j_bind jo j1 ?i = (j2, r2)" by force
  have s2: "r2 = Inr ()" "sane j2" "owner j2 = Some ?i" "recs j2 = recs j"
    using bind_same [OF s1(2,3) b2] s1(4) by auto
  let ?m = "start_authority cr jo cf j1"
  have m: "au_core ?m = (cf_genesis cf, [], [])" "au_policy ?m = cf_policy cf" "au_journal ?m = j2"
    "\<not> au_poisoned ?m" "au_id ?m = cf_id cf" "au_signing ?m = cf_signing cf"
    using b2 s2(1) by (simp_all add: start_authority_def with_journal_def au_core_def config_identity_def)
  have rp: "core_replay_all cr (cf_policy cf) (cf_genesis cf, [], []) (recs j) = Some k"
    using assms(1) by (simp add: stored_sane [OF assms(2,3)])
  then obtain a where a: "replay_all cr ?m (recs j) = Inr a" "au_core a = k" "au_policy a = cf_policy cf"
    "au_journal a = j2" "\<not> au_poisoned a" "au_id a = cf_id cf" "au_signing a = cf_signing cf"
    using replay_all_refines [of cr ?m "recs j"] m by (auto split: sum.splits)
  have "restart_authority cr jo cf j = Inr a"
    using b1 s1(1) a(1) replay_recs [OF s1(2)] s1(4)
    by (simp add: restart_authority_def recover_def config_identity_def start_authority_def)
  moreover have "auth_inv cr cf a k"
    using a s2 assms(4) rp core_confirmed [OF a(2)] by (simp add: auth_inv_def stored_sane [OF s2(2,3)])
  ultimately show ?thesis using a(5) by blast
qed

lemma restart_inv:
  assumes "auth_inv cr cf a k"
  shows "\<exists>a'. restart_authority cr jo cf (reopen (au_journal a)) = Inr a' \<and> auth_inv cr cf a' k \<and> \<not> au_poisoned a'"
  using restart_ok [of cr cf "reopen (au_journal a)" k] stored_reopen [of cr cf "au_journal a" k] assms by (simp add: auth_inv_def)

lemma node_inv_step: "auth_step cr jo fits reopen cf n n' \<Longrightarrow> node_inv cr cf n \<Longrightarrow> node_inv cr cf n'"
proof (induction rule: auth_step.induct)
  case (vote ord n a v)
  let ?a = "nd_auth n"
  have inv: "node_inv cr cf (n\<lparr>nd_auth := a\<rparr>)" using handle_keeps vote by blast
  have np: "\<not> au_poisoned a" and lk: "map_of (au_locked a) (slot_of ord) = Some ord"
    and old: "map_of (au_locked ?a) (slot_of ord) = Some ord \<and> quiet ?a a \<or>
      map_of (au_locked ?a) (slot_of ord) = None \<and> preflight (au_ledger ?a) (st_transfer ord) = Inr () \<and>
      wrote jo ?a (Locked ord) (au_ledger ?a, bt_insert (slot_of ord) ord (au_locked ?a), au_confirmed ?a) a"
    using handle_effect [OF vote.hyps(2)] by (auto simp: quiet_def wrote_def au_core_def)
  from inv obtain k where "log_bounded (n\<lparr>nd_auth := a\<rparr>)" "auth_inv cr cf (nd_auth (n\<lparr>nd_auth := a\<rparr>)) k"
    "log_guarded (n\<lparr>nd_auth := a\<rparr>) k" "log_guarded (n\<lparr>nd_auth := a\<rparr>) (au_core (nd_auth (n\<lparr>nd_auth := a\<rparr>)))"
    "au_poisoned (nd_auth (n\<lparr>nd_auth := a\<rparr>)) \<or> k = au_core (nd_auth (n\<lparr>nd_auth := a\<rparr>))"
    by (rule node_invE)
  then have k: "log_bounded n" "auth_inv cr cf a k" "log_guarded n k" "k = au_core a" using np by auto
  have uniq: "ord' = ord" if "guarded k ord'" "slot_of ord' = slot_of ord" for ord'
    using that lk k(4) by (auto simp: guarded_def au_core_def)
  have g: "guarded k ord" using lk k(4) by (simp add: guarded_def au_core_def)
  show ?case
    by (rule node_invI [OF log_vote(1) [OF k(1,3) g uniq] _ log_vote(2) [OF k(1,3) g uniq]])
      (use k(2,4) log_vote(2) [OF k(1,3) g uniq] in simp_all)
next
  case (restart n a)
  from restart.prems obtain k where k: "log_bounded n" "auth_inv cr cf (nd_auth n) k" "log_guarded n k"
    by (rule node_invE)
  then have "auth_inv cr cf a k" "\<not> au_poisoned a" using restart_inv [OF k(2)] restart.hyps by simp_all
  then have "auth_inv cr cf a k" "au_core a = k" by (simp_all add: auth_inv_def)
  then show ?case using k(1,3) by (intro node_invI [of _ cr cf k]) auto
qed (rule handle_keeps confirm_keeps fence_keeps install_keeps compact_keeps; assumption)+

lemma node_inv_reach: "auth_reach cr jo fits reopen cf n n' \<Longrightarrow> node_inv cr cf n \<Longrightarrow> node_inv cr cf n'"
  unfolding auth_reach_def by (induction rule: rtranclp_induct) (blast intro: node_inv_step)+

lemma node_inv_start:
  assumes "sane j" "owner j = None" "recs j = []" "\<not> au_poisoned (start_authority cr jo cf j)"
    "ledger_wf (cf_genesis cf)" "ident (config_identity cr cf)"
  shows "node_inv cr cf (start_node cr jo cf j)"
proof -
  obtain j' r where b: "j_bind jo j (config_identity cr cf) = (j', r)" by force
  then have "r = Inr ()" using assms(4)
    by (cases r) (simp_all add: start_authority_def with_journal_def config_identity_def)
  then have "sane j'" "owner j' = Some (config_identity cr cf)" "recs j' = []"
    using bind_fresh [OF assms(6,1-3)] b by auto
  then have "auth_inv cr cf (start_authority cr jo cf j) (cf_genesis cf, [], [])"
    using assms(4,5) b
    by (simp add: auth_inv_def stored_sane start_authority_def with_journal_def config_identity_def
        au_core_def core_wf_def)
  then show ?thesis
    by (intro node_invI [of _ cr cf "(cf_genesis cf, [], [])"])
      (simp_all add: start_node_def log_bounded_def unique_votes_def log_guarded_def)
qed

lemmas life_inv = node_inv_reach [OF _ node_inv_start]

text \<open>A confirmation, once made, is never lost or replaced.\<close>

lemma confirmed_step:
  assumes "auth_step cr jo fits reopen cf n n'" "node_inv cr cf n"
  shows "map_of (au_confirmed (nd_auth n)) \<subseteq>\<^sub>m map_of (au_confirmed (nd_auth n'))"
  using assms
proof (induction rule: auth_step.induct)
  case (vote ord n a v)
  then show ?case using handle_effect [OF vote.hyps(2)] by (auto simp: quiet_def wrote_def ahead_def au_core_def)
next
  case (refuse ord n a e)
  then show ?case using handle_effect [OF refuse.hyps(2)] by (auto simp: quiet_def wrote_def ahead_def au_core_def)
next
  case (confirmation v n c m a r)
  have "au_confirmed a = au_confirmed (nd_auth n) \<or>
      (\<exists>x y. map_of (au_confirmed (nd_auth n)) x = None \<and> au_confirmed a = bt_insert x y (au_confirmed (nd_auth n)))"
    using confirm_effect [OF confirmation.hyps(2)] by (auto simp: quiet_def wrote_def ahead_def au_core_def)
  then have "map_of (au_confirmed (nd_auth n)) \<subseteq>\<^sub>m map_of (au_confirmed a)"
    by (metis map_le_bt_insert_fresh map_le_refl)
  then show ?case by simp
next
  case (fencing p n a r)
  then show ?case using fence_effect [OF fencing.hyps(2)] by (auto simp: quiet_def wrote_def ahead_def au_core_def)
next
  case (install k n c a r)
  then show ?case using install_effect [OF install.hyps(2)] by (auto simp: quiet_def wrote_def ahead_def au_core_def)
next
  case (compact n a r)
  then show ?case by (auto simp: compact_journal_def split: if_splits prod.splits sum.splits)
next
  case (restart n a)
  from restart.prems obtain k where k: "auth_inv cr cf (nd_auth n) k" by (rule node_invE)
  then have wf: "core_wf k" "map_of (au_confirmed (nd_auth n)) \<subseteq>\<^sub>m map_of (snd (snd k))"
    by (simp_all add: auth_inv_def)
  have "auth_inv cr cf a k" "\<not> au_poisoned a"
    using restart_inv [OF k] restart.hyps by auto
  then have "au_core a = k" by (simp add: auth_inv_def)
  then show ?case using wf(2) by (auto simp: au_core_def)
qed

lemma confirmed_reach:
  assumes "auth_reach cr jo fits reopen cf n n'" "node_inv cr cf n"
  shows "map_of (au_confirmed (nd_auth n)) \<subseteq>\<^sub>m map_of (au_confirmed (nd_auth n'))"
  using assms unfolding auth_reach_def
proof (induction rule: rtranclp_induct)
  case (step y z)
  then have "node_inv cr cf y" using node_inv_reach by (auto simp: auth_reach_def)
  then show ?case using step confirmed_step map_le_trans by blast
qed simp

lemma confirmed_spent:
  assumes "node_inv cr cf n" "map_of (au_confirmed (nd_auth n)) (acct, sq) = Some oid"
  shows "unat sq < unat (ledger_next_seq (au_ledger (nd_auth n)) acct)"
  using node_inv_core_wf [OF assms(1)] map_of_SomeD [OF assms(2)] by (fastforce simp: core_wf_def au_core_def)

text \<open>After a compaction that succeeded, also one by a stopped authority, a restart brings back the core in memory.\<close>

lemma restart_after_compaction:
  assumes "node_inv cr cf n" "fits (Snapshot (snapshot_data_of (nd_auth n)))" "compact_journal jo (nd_auth n) = (a, Inr ())"
  shows "\<exists>b. restart_authority cr jo cf (reopen (au_journal a)) = Inr b \<and> au_core b = au_core (nd_auth n) \<and> \<not> au_poisoned b"
proof -
  from assms(1) obtain k where "auth_inv cr cf (nd_auth n) k" by (rule node_invE)
  then have "auth_inv cr cf a (au_core (nd_auth n))" using compact_auth_inv [OF _ assms(2,3)] by auto
  from restart_inv [OF this] show ?thesis by (auto simp: auth_inv_def)
qed

lemma vote_once:
  assumes "node_inv cr cf n" "(g, c1, o1) \<in> set (nd_signed n)" "(g, c2, o2) \<in> set (nd_signed n)" "slot_of o1 = slot_of o2"
  shows "o1 = o2"
proof -
  have "unique_votes (nd_signed n)" using assms(1) by (simp add: node_inv_def log_bounded_def)
  then show ?thesis using assms(2-4) by (rule unique_votesD)
qed

lemma restart_restores:
  assumes "node_inv cr cf n"
  shows "\<exists>a. restart_authority cr jo cf (reopen (au_journal (nd_auth n))) = Inr a \<and> \<not> au_poisoned a \<and>
    (\<not> au_poisoned (nd_auth n) \<longrightarrow> au_ledger a = au_ledger (nd_auth n) \<and>
       au_locked a = au_locked (nd_auth n) \<and> au_confirmed a = au_confirmed (nd_auth n))"
proof -
  from assms obtain k where k: "auth_inv cr cf (nd_auth n) k" "au_poisoned (nd_auth n) \<or> k = au_core (nd_auth n)"
    by (rule node_invE)
  then show ?thesis
    using restart_inv [OF k(1)] by (auto simp: auth_inv_def au_core_def)
qed

end

section \<open>Accepting an order\<close>

lemma preflight_contains: "preflight l t = Inr () \<Longrightarrow> contains_account l (tr_from t)"
  by (simp add: preflight_ok_iff)

lemma handle_fresh:
  assumes "\<not> au_poisoned a" "au_epoch_state a = Active" "order_verify cr ord (au_policy a) = Inr ()"
    and "map_of (au_locked a) (slot_of ord) = None" "tr_amount (st_transfer ord) \<noteq> 0"
    and "preflight (au_ledger a) (st_transfer ord) = Inr ()"
    and "j_append jo (au_journal a) (Locked ord) = (j', Inr ())"
  shows "handle cr jo a ord =
    (a\<lparr>au_journal := j', au_locked := bt_insert (slot_of ord) ord (au_locked a)\<rparr>,
     Inr (sign_vote cr a ord))"
proof -
  have "contains_account (au_ledger a) (tr_from (st_transfer ord))"
    using assms(6) by (rule preflight_contains)
  then show ?thesis
    using assms by (simp add: handle_def epoch_gate_def handle_order_def Let_def journal_append_def sign_vote_def)
qed

section \<open>Properties\<close>

text \<open>A concrete deployment for the witnesses.\<close>

definition demo_policy :: transfer_policy where
  "demo_policy = transfer_policy_new demo_crypto (NetworkId ''n'')
     \<lparr>or_keys = [(''a'', ed_public demo_crypto [1]), (''b'', ed_public demo_crypto [2])]\<rparr>"

definition demo_genesis :: ledger where
  "demo_genesis = \<lparr>accounts = [(''a'', \<lparr>acc_balance = 10, acc_next_seq = 0\<rparr>), (''b'', \<lparr>acc_balance = 5, acc_next_seq = 0\<rparr>)]\<rparr>"

definition demo_transfer :: transfer where
  "demo_transfer = \<lparr>tr_from = ''a'', tr_from_seq = 0, tr_to = ''b'', tr_amount = 3\<rparr>"

definition demo_order :: signed_transfer where
  "demo_order = sign_order demo_crypto demo_policy demo_transfer [1]"

definition demo_committee :: committee where
  "demo_committee = the (committee_new demo_crypto
     [(''u'', ed_public demo_crypto [6]), (''v'', ed_public demo_crypto [7]),
      (''w'', ed_public demo_crypto [8]), (''x'', ed_public demo_crypto [9])] demo_policy)"

definition demo_config :: "authority_id \<Rightarrow> bytes \<Rightarrow> config" where
  "demo_config i sk = \<lparr>cf_id = i, cf_signing = sk, cf_policy = demo_policy, cf_committee = cm_id demo_committee,
     cf_genesis = demo_genesis\<rparr>"

definition file_new :: "io_fault list \<Rightarrow> file_journal" where
  "file_new fs = \<lparr>fj_bytes = JOURNAL_MAGIC, fj_durable = None, fj_identity = None, fj_faults = fs\<rparr>"

lemma file_new_open: "file_open cr None fs = Inr (file_new fs)"
  by (simp add: file_open_def file_new_def)

definition demo_start :: "authority_id \<Rightarrow> bytes \<Rightarrow> file_journal node" where
  "demo_start i sk = start_node demo_crypto (file_ops demo_crypto) (demo_config i sk) (file_new [])"

definition demo_voted :: "authority_id \<Rightarrow> bytes \<Rightarrow> file_journal node" where
  "demo_voted i sk = (demo_start i sk)
     \<lparr>nd_auth := fst (handle demo_crypto (file_ops demo_crypto) (nd_auth (demo_start i sk)) demo_order), nd_signed := [(0, cm_id demo_committee, demo_order)]\<rparr>"

lemma demo_genesis_wf: "ledger_wf demo_genesis"
  by (simp add: ledger_wf_def demo_genesis_def supply_of_def)

lemma demo_order_verifies: "order_verify demo_crypto demo_order demo_policy = Inr ()"
  unfolding demo_order_def sign_order_def
  by (rule sign_at_round_verifies [OF demo_crypto_ok])
    (simp_all add: demo_policy_def transfer_policy_new_def owner_key_of_def demo_transfer_def owner_contains_def
      bt_contains_def)

lemma demo_preflight: "preflight demo_genesis demo_transfer = Inr ()"
  by (simp add: preflight_def demo_genesis_def demo_transfer_def checked_add_def ledger_balance_def)

lemma demo_order_transfer [simp]: "st_transfer demo_order = demo_transfer"
  by (simp add: demo_order_def sign_order_def sign_at_round_def)

lemma demo_start_fields:
  "\<not> au_poisoned (nd_auth (demo_start i sk))" "au_epoch_state (nd_auth (demo_start i sk)) = Active"
  "au_policy (nd_auth (demo_start i sk)) = demo_policy" "au_locked (nd_auth (demo_start i sk)) = []"
  "au_ledger (nd_auth (demo_start i sk)) = demo_genesis" "nd_signed (demo_start i sk) = []" "nd_gen (demo_start i sk) = 0"
  "au_committee_id (nd_auth (demo_start i sk)) = cm_id demo_committee"
  "au_id (nd_auth (demo_start i sk)) = i" "au_signing (nd_auth (demo_start i sk)) = sk" "au_confirmed (nd_auth (demo_start i sk)) = []"
  "fj_faults (au_journal (nd_auth (demo_start i sk))) = []"
  by (simp_all add: demo_start_def start_node_def start_authority_def with_journal_def file_ops_def file_bind_def
      file_new_def read_identity_def next_fault_def demo_config_def)

lemma demo_handle:
  "handle demo_crypto (file_ops demo_crypto) (nd_auth (demo_start i sk)) demo_order =
    (nd_auth (demo_voted i sk), Inr (sign_vote demo_crypto (nd_auth (demo_start i sk)) demo_order))"
proof -
  have "\<exists>a. handle demo_crypto (file_ops demo_crypto) (nd_auth (demo_start i sk)) demo_order =
      (a, Inr (sign_vote demo_crypto (nd_auth (demo_start i sk)) demo_order))"
    by (rule exI, rule handle_fresh)
      (simp_all add: demo_start_fields demo_order_verifies demo_preflight file_ops_def file_append_def Let_def next_fault_def
        demo_transfer_def [THEN arg_cong [of _ _ tr_amount]])
  then show ?thesis by (auto simp: demo_voted_def)
qed


lemma demo_order_fits: "record_fits demo_crypto (Locked demo_order)" "record_fits demo_crypto (Confirmed demo_order)"
proof -
  have w: "wire_order_ok demo_order"
    by (simp add: wire_order_ok_def demo_order_def sign_order_def sign_at_round_def demo_policy_def transfer_policy_new_def
        policy_id_of_def crypto_lengths [OF demo_crypto_ok] network_ok_def text_ok_def wire_transfer_ok_def
        demo_transfer_def utf8_ascii as_bytes_def MAX_NETWORK_ID_BYTES_def MAX_ACCOUNT_ID_BYTES_def)
  then have "length (encode_transfer demo_order) \<le> MAX_RECORD_BYTES"
    by (simp add: wire_order_ok_def encode_transfer_def put_signed_transfer_body_def put_transfer_body_def put_str_def
        put_bytes_def DOMAIN_TRANSFER_def domain_tag_def MAX_RECORD_BYTES_def demo_transfer_def)
      (simp add: demo_order_def sign_order_def sign_at_round_def demo_policy_def transfer_policy_new_def)
  with w show "record_fits demo_crypto (Locked demo_order)" "record_fits demo_crypto (Confirmed demo_order)"
    by (simp_all add: record_fits_def)
qed

lemma demo_reach: "auth_reach demo_crypto (file_ops demo_crypto) (record_fits demo_crypto) (file_reopen demo_crypto) (demo_config i sk) (demo_start i sk) (demo_voted i sk)"
proof -
  have "auth_step demo_crypto (file_ops demo_crypto) (record_fits demo_crypto) (file_reopen demo_crypto) (demo_config i sk) (demo_start i sk)
      ((demo_start i sk)\<lparr>nd_auth := nd_auth (demo_voted i sk), nd_signed := (nd_gen (demo_start i sk), vt_committee_id (sign_vote demo_crypto (nd_auth (demo_start i sk)) demo_order), demo_order) # nd_signed (demo_start i sk)\<rparr>)"
    by (rule auth_step.vote [OF _ demo_handle]) (rule demo_order_fits)
  then show ?thesis by (simp add: auth_reach_def demo_voted_def demo_start_fields sign_vote_def r_into_rtranclp)
qed

text \<open>
  A deployment on a \<open>FileJournal\<close> with an arbitrary script of survivable disk faults, whose first claim of the
  file succeeded.
\<close>

definition deployed :: "crypto \<Rightarrow> config \<Rightarrow> io_fault list \<Rightarrow> bool" where
  "deployed cr cf fs \<longleftrightarrow> crypto_ok cr \<and> ledger_wf (cf_genesis cf) \<and> (\<forall>f \<in> set fs. survivable f) \<and>
     \<not> au_poisoned (start_authority cr (file_ops cr) cf (file_new fs))"

definition file_reach :: "crypto \<Rightarrow> config \<Rightarrow> io_fault list \<Rightarrow> file_journal node \<Rightarrow> bool" where
  "file_reach cr cf fs n =
     auth_reach cr (file_ops cr) (record_fits cr) (file_reopen cr) cf (start_node cr (file_ops cr) cf (file_new fs)) n"

lemma file_new_fresh:
  assumes "crypto_ok cr" "\<forall>f \<in> set fs. survivable f"
  shows "file_sane cr (file_new fs)" "file_owner (file_new fs) = None" "file_recs cr (file_new fs) = []"
  using assms
  by (simp_all add: file_sane_def file_new_def file_owner_def read_identity_def file_replay_magic)

lemma file_life:
  assumes "file_reach cr cf fs n" "deployed cr cf fs"
  shows "filej.node_inv cr cr cf n"
proof -
  have "length (config_identity cr cf) = IDENTITY_LEN"
    using assms(2) by (simp add: config_identity_def journal_identity_def crypto_lengths deployed_def IDENTITY_LEN_def)
  then show ?thesis
    using filej.life_inv [of cr cr cf "file_new fs" n] assms file_new_fresh [of cr fs]
    by (simp add: deployed_def file_reach_def)
qed

lemma demo_config_fields [simp]:
  "cf_genesis (demo_config i sk) = demo_genesis" "cf_id (demo_config i sk) = i"
  by (simp_all add: demo_config_def)

lemma demo_deployed: "deployed demo_crypto (demo_config i sk) []"
  using demo_start_fields(1) [of i sk] demo_genesis_wf
  by (simp add: deployed_def demo_crypto_ok demo_start_def start_node_def)

lemma demo_file_reach: "file_reach demo_crypto (demo_config i sk) [] (demo_voted i sk)"
  using demo_reach [of i sk] by (simp add: demo_start_def file_reach_def)

text \<open>C4: between two epoch installations an authority never signs two different orders for
  the same (account, sequence, round), through any interleaving of votes, refusals, confirmations, fences, epoch installations,
  compactions (also by an authority that a failed write has stopped), journal failures and restarts. It runs on a
  \<open>FileJournal\<close> whose disk faults are survivable (torn and zero-filled writes, failed renames; not a rename undone by a power cut, nor
  zeros behind part of a frame), and every record handed to the journal is within the limits of the format.\<close>

theorem authority_never_equivocates:
  assumes "file_reach cr cf fs n" and "deployed cr cf fs"
    and "(g, c1, o1) \<in> set (nd_signed n)" "(g, c2, o2) \<in> set (nd_signed n)" "slot_of o1 = slot_of o2"
  shows "o1 = o2"
  using filej.vote_once [OF file_life [OF assms(1,2)] assms(3-5)] .

theorem authority_never_equivocates_witness:
  "file_reach demo_crypto (demo_config ''v'' [7]) [] (demo_voted ''v'' [7]) \<and>
   (0, cm_id demo_committee, demo_order) \<in> set (nd_signed (demo_voted ''v'' [7])) \<and>
   (0, cm_id demo_committee, demo_order\<lparr>st_owner_signature := []\<rparr>) \<notin> set (nd_signed (demo_voted ''v'' [7]))"
proof -
  have "length (st_owner_signature demo_order) = 64"
    by (simp add: demo_order_def sign_order_def sign_at_round_def crypto_lengths [OF demo_crypto_ok])
  then have "demo_order \<noteq> demo_order\<lparr>st_owner_signature := []\<rparr>"
    by (metis list.size(3) signed_transfer.select_convs(5) signed_transfer.surjective signed_transfer.update_convs(5)
        zero_neq_numeral)
  moreover have "(0, cm_id demo_committee, demo_order) \<in> set (nd_signed (demo_voted ''v'' [7]))"
    by (simp add: demo_voted_def)
  ultimately show ?thesis
    using authority_never_equivocates [OF demo_file_reach [of "''v''" "[7]"] demo_deployed, of 0 "cm_id demo_committee" demo_order
        "cm_id demo_committee" "demo_order\<lparr>st_owner_signature := []\<rparr>"] demo_file_reach
    by (auto simp: slot_of_def)
qed



text \<open>\<open>handle\<close> returns a vote exactly when the authority is not poisoned, its epoch gate
  lets votes through, the owner proof verifies, and either the slot is already locked on this
  very order, or it is free, the amount is positive, the ledger would accept the transfer and
  the lock reaches the journal.\<close>

theorem handle_votes_iff:
  "is_ok (snd (handle cr jo a ord)) \<longleftrightarrow>
     \<not> au_poisoned a \<and> (epoch_gate a = GateOpen \<or> epoch_gate a = GateCovered) \<and>
     order_verify cr ord (au_policy a) = Inr () \<and>
     (map_of (au_locked a) (slot_of ord) = Some ord \<or>
      map_of (au_locked a) (slot_of ord) = None \<and> tr_amount (st_transfer ord) \<noteq> 0 \<and>
      preflight (au_ledger a) (st_transfer ord) = Inr () \<and>
      is_ok (snd (j_append jo (au_journal a) (Locked ord))))"
proof -
  have "is_ok (snd (handle_order cr jo b ord)) \<longleftrightarrow> order_verify cr ord (au_policy b) = Inr () \<and>
     (map_of (au_locked b) (slot_of ord) = Some ord \<or>
      map_of (au_locked b) (slot_of ord) = None \<and> tr_amount (st_transfer ord) \<noteq> 0 \<and>
      preflight (au_ledger b) (st_transfer ord) = Inr () \<and>
      is_ok (snd (j_append jo (au_journal b) (Locked ord))))" for b
    using preflight_contains [of "au_ledger b" "st_transfer ord"]
    by (cases "j_append jo (au_journal b) (Locked ord)")
      (auto simp: handle_order_def Let_def journal_append_def split: sum.splits option.splits)
  then show ?thesis by (auto simp: handle_def split: gate.splits)
qed

text \<open>A refused order leaves ledger, locks and confirmations untouched; unless the journal
  itself failed, the whole authority is unchanged but for an epoch installation whose coverage
  had arrived; and the \<open>unreachable!\<close> arm of the preflight mapping is never taken.\<close>

theorem refusal_mutation_free:
  assumes "handle cr jo a ord = (a', Inl e)"
  shows "au_ledger a' = au_ledger a \<and> au_locked a' = au_locked a \<and> au_confirmed a' = au_confirmed a \<and>
    e \<noteq> HandlePanic \<and> ((\<exists>m. e = JournalFailed m) \<or> a' = a \<or> epoch_gate a = GateCovered \<and> a' = complete_install a)"
proof -
  have "au_ledger b' = au_ledger b \<and> au_locked b' = au_locked b \<and> au_confirmed b' = au_confirmed b \<and>
    e \<noteq> HandlePanic \<and> ((\<exists>m. e = JournalFailed m) \<or> b' = b)"
    if "handle_order cr jo b ord = (b', Inl e)" for b b'
  proof -
    have "preflight_error x rej \<noteq> HandlePanic" if "preflight l t = Inl rej" for x l t rej
      using that by (auto simp: preflight_def split: option.splits if_splits)
    then show ?thesis
      using that
      by (auto simp: handle_order_def Let_def journal_append_def split: sum.splits option.splits if_splits prod.splits)
  qed
  moreover have "g \<noteq> HandlePanic" if "epoch_gate a = GateReject g" for g
    using that by (auto simp: epoch_gate_def split: epoch_state.splits if_splits)
  ultimately show ?thesis
    using assms by (fastforce simp: handle_def split: gate.splits if_splits)
qed

theorem refusal_mutation_free_witness:
  "handle demo_crypto (file_ops demo_crypto) ((nd_auth (demo_start ''v'' [7]))\<lparr>au_poisoned := True\<rparr>) demo_order =
     ((nd_auth (demo_start ''v'' [7]))\<lparr>au_poisoned := True\<rparr>, Inl Poisoned) \<and>
   au_ledger ((nd_auth (demo_start ''v'' [7]))\<lparr>au_poisoned := True\<rparr>) = demo_genesis"
proof -
  have "handle demo_crypto (file_ops demo_crypto) ((nd_auth (demo_start ''v'' [7]))\<lparr>au_poisoned := True\<rparr>) demo_order =
     ((nd_auth (demo_start ''v'' [7]))\<lparr>au_poisoned := True\<rparr>, Inl Poisoned)" by (simp add: handle_def)
  then show ?thesis
    using refusal_mutation_free [of demo_crypto "file_ops demo_crypto" "(nd_auth (demo_start ''v'' [7]))\<lparr>au_poisoned := True\<rparr>" demo_order
        "(nd_auth (demo_start ''v'' [7]))\<lparr>au_poisoned := True\<rparr>" Poisoned] by (simp add: demo_start_fields)
qed

end
