(* ===== verification/Quorum_Safety.thy ===== *)
theory Quorum_Safety
  imports Authority_Safety
begin

text \<open>
  Agreement across authorities. An honest member is one whose state is a reachable state of
  \<open>auth_step\<close> and whose verified signatures are over messages it signed (the unforgeability
  of Ed25519, stated for the votes at hand). With at most \<open>fault_budget\<close> other members, two
  certificates for one (account, sequence, round) name the same transfer, as long as no honest member has voted
  under the committee's identifier in two epochs, and two final effect
  certificates for one (account, sequence) name the same order. Certificates of different
  rounds carry no such guarantee; the last section shows how.
\<close>

section \<open>Honest members\<close>

text \<open>Sizes that Rust's types guarantee: 32-byte identifiers, strings within the address space.\<close>

definition log_typed :: "'j node \<Rightarrow> bool" where
  "log_typed n \<longleftrightarrow> (\<forall>(_, cid, ord) \<in> set (nd_signed n). length (committee_bytes cid) = 32 \<and> order_ok ord)"

text \<open>Every vote of \<open>vs\<close> in the name of \<open>h\<close> carries a message that \<open>h\<close> signed.\<close>

definition votes_unforged :: "authority_id \<Rightarrow> 'j node \<Rightarrow> vote list \<Rightarrow> bool" where
  "votes_unforged h n vs \<longleftrightarrow> (\<forall>v \<in> set vs. vt_authority v = h \<longrightarrow>
     (\<exists>(_, cid, ord) \<in> set (nd_signed n). vote_message v =
        authority_signing_message h cid (st_policy_id ord) (st_network_id ord) (st_transfer ord) (st_round ord)))"

text \<open>
  The votes under a committee identifier were all signed between the same two epoch installations. This is a condition on the run,
  not on the member: an honest member breaks it when an epoch change keeps or brings back its roster.
\<close>

definition one_epoch :: "committee_id \<Rightarrow> 'j node \<Rightarrow> bool" where
  "one_epoch cid n \<longleftrightarrow> (\<forall>(g, c1, _) \<in> set (nd_signed n). \<forall>(g', c2, _) \<in> set (nd_signed n).
     c1 = cid \<and> c2 = cid \<longrightarrow> g = g')"

definition honest_voter ::
    "crypto \<Rightarrow> config \<Rightarrow> file_journal node \<Rightarrow> vote list \<Rightarrow> authority_id \<Rightarrow> bool" where
  "honest_voter cr cf n vs h \<longleftrightarrow> cf_id cf = h \<and> str_ok h \<and> (\<exists>fs. deployed cr cf fs \<and> file_reach cr cf fs n) \<and>
     log_typed n \<and> votes_unforged h n vs"

definition members :: "committee \<Rightarrow> authority_id set" where
  "members c = set (map fst (cm_members c))"

text \<open>A vote of an honest member that counts for a certificate comes from a logged order.\<close>

lemma honest_vote_logged:
  assumes "honest_voter cr cf n vs h" "v \<in> set vs" "vt_authority v = h"
    and "vote_matches cr v ord c" "order_ok ord" "length (committee_bytes (cm_id c)) = 32"
  obtains g ord' where "(g, cm_id c, ord') \<in> set (nd_signed n)" "st_transfer ord' = st_transfer ord"
    "st_round ord' = st_round ord"
proof -
  from assms(1-3) obtain g cid ord' where e: "(g, cid, ord') \<in> set (nd_signed n)"
    and m: "vote_message v = authority_signing_message h cid (st_policy_id ord') (st_network_id ord')
        (st_transfer ord') (st_round ord')"
    unfolding honest_voter_def votes_unforged_def by fastforce
  have t: "length (committee_bytes cid) = 32" "order_ok ord'" "str_ok h"
    using assms(1) e by (auto simp: honest_voter_def log_typed_def)
  have "vote_message v = authority_signing_message h (cm_id c) (st_policy_id ord) (st_network_id ord)
      (st_transfer ord) (st_round ord)"
    using assms(3,4) by (simp add: vote_message_def vote_matches_def)
  then have "cid = cm_id c \<and> st_transfer ord' = st_transfer ord \<and> st_round ord' = st_round ord"
    using authority_message_inj [OF t(1) assms(6) t(3) t(3)] m t(2) assms(5) unfolding order_ok_def by metis
  with e show ?thesis using that [of g ord'] by blast
qed

section \<open>Honest attesters\<close>

text \<open>
  Every attestation of \<open>as\<close> in the name of \<open>h\<close> carries a message that \<open>h\<close> produced with
  \<open>attestation_for\<close> in some earlier state \<open>n'\<close> of its life.
\<close>

definition attestations_unforged ::
    "crypto \<Rightarrow> config \<Rightarrow> file_journal node \<Rightarrow> effect_attestation list \<Rightarrow> authority_id \<Rightarrow> bool" where
  "attestations_unforged cr cf n as h \<longleftrightarrow> (\<forall>a \<in> set as. ea_authority a = h \<longrightarrow>
     (\<exists>fs n' acct sq att. deployed cr cf fs \<and> file_reach cr cf fs n' \<and>
        auth_reach cr (file_ops cr) (record_fits cr) (file_reopen cr) cf n' n \<and> str_ok acct \<and>
        attestation_for cr (nd_auth n') acct sq = Some att \<and> length (committee_bytes (ea_committee_id att)) = 32 \<and>
        effect_message (ea_committee_id a) (ea_account a) (ea_seq a) (ea_order_id a) =
          effect_message (ea_committee_id att) acct sq (ea_order_id att)))"

definition honest_attester ::
    "crypto \<Rightarrow> config \<Rightarrow> file_journal node \<Rightarrow> effect_attestation list \<Rightarrow> authority_id \<Rightarrow> bool" where
  "honest_attester cr cf n as h \<longleftrightarrow> cf_id cf = h \<and> attestations_unforged cr cf n as h"

text \<open>What an honest member attested is in its confirmations for ever after.\<close>

lemma honest_attestation_confirmed:
  assumes h: "honest_attester cr cf n as h" and "h \<in> attesters cr acct sq oid c as"
    and "str_ok acct" "length (committee_bytes (cm_id c)) = 32"
  shows "map_of (au_confirmed (nd_auth n)) (acct, sq) = Some oid"
proof -
  from assms(2) obtain a where a: "a \<in> set as" "ea_authority a = h" "ea_account a = acct" "ea_seq a = sq"
    "ea_order_id a = oid" "attestation_is_valid cr a c" by (auto simp: attesters_def)
  from h a(1,2) obtain fs n' acct' sq' att where
    n': "file_reach cr cf fs n'" "auth_reach cr (file_ops cr) (record_fits cr) (file_reopen cr) cf n' n" "str_ok acct'"
      "deployed cr cf fs"
    and att: "attestation_for cr (nd_auth n') acct' sq' = Some att" "length (committee_bytes (ea_committee_id att)) = 32"
    and m: "effect_message (ea_committee_id a) (ea_account a) (ea_seq a) (ea_order_id a) =
          effect_message (ea_committee_id att) acct' sq' (ea_order_id att)"
    unfolding honest_attester_def attestations_unforged_def by blast
  have "ea_committee_id a = cm_id c" using a(6) by (simp add: attestation_is_valid_def split: if_splits)
  then have "acct = acct' \<and> sq = sq' \<and> oid = ea_order_id att"
    using effect_message_inj [OF _ att(2) assms(3) n'(3)] m a(3-5) assms(4) by auto
  then have "map_of (au_confirmed (nd_auth n')) (acct, sq) = Some oid"
    using att(1) by (auto simp: attestation_for_def split: option.splits)
  moreover have "filej.node_inv cr cr cf n'" using n'(1,4) by (rule file_life)
  then have "map_of (au_confirmed (nd_auth n')) \<subseteq>\<^sub>m map_of (au_confirmed (nd_auth n))"
    using filej.confirmed_reach n'(2) by blast
  ultimately show ?thesis by (metis domI map_le_def)
qed

section \<open>Collecting votes\<close>

text \<open>An authority that will apply the order's certificate, and one that will also vote for it.\<close>

definition settles :: "crypto \<Rightarrow> committee \<Rightarrow> signed_transfer \<Rightarrow> 'j authority \<Rightarrow> bool" where
  "settles cr c ord a \<longleftrightarrow> \<not> au_poisoned a \<and> au_epoch_state a = Active \<and> au_committee_id a = cm_id c \<and>
     au_policy a = cm_policy c \<and> committee_key_of c (au_id a) = Some (ed_public cr (au_signing a)) \<and>
     map_of (au_confirmed a) (tr_from (st_transfer ord), tr_from_seq (st_transfer ord)) = None \<and>
     preflight (au_ledger a) (st_transfer ord) = Inr ()"

definition ready :: "crypto \<Rightarrow> committee \<Rightarrow> signed_transfer \<Rightarrow> 'j authority \<Rightarrow> bool" where
  "ready cr c ord a \<longleftrightarrow> settles cr c ord a \<and> map_of (au_locked a) (slot_of ord) = None"

definition locked_on :: "signed_transfer \<Rightarrow> mem_journal authority \<Rightarrow> mem_journal authority" where
  "locked_on ord a = a\<lparr>au_journal := fst (mem_append (au_journal a) (Locked ord)),
     au_locked := bt_insert (slot_of ord) ord (au_locked a)\<rparr>"

lemma ready_votes:
  assumes "ready cr c ord a" "order_verify cr ord (cm_policy c) = Inr ()" "tr_amount (st_transfer ord) \<noteq> 0"
  shows "handle cr mem_ops a ord = (locked_on ord a, Inr (sign_vote cr a ord))"
  using assms handle_fresh [of a cr ord mem_ops "fst (mem_append (au_journal a) (Locked ord))"]
  by (simp add: ready_def settles_def locked_on_def mem_ops_def mem_append_def)

lemma collect_ready:
  assumes "\<forall>a \<in> set as. ready cr c ord a" "order_verify cr ord (cm_policy c) = Inr ()"
    "tr_amount (st_transfer ord) \<noteq> 0"
  shows "collect_votes cr mem_ops ord as = (map (locked_on ord) as, map (\<lambda>a. sign_vote cr a ord) as, 0, False)"
  using assms ready_votes [OF _ assms(2,3)] by (induction as) auto

lemma sign_vote_matches:
  assumes "crypto_ok cr" "ready cr c ord a" "st_policy_id ord = tp_id (cm_policy c)"
  shows "vote_matches cr (sign_vote cr a ord) ord c"
  using assms crypto_complete(2) [OF assms(1)]
  by (simp add: ready_def settles_def vote_matches_def sign_vote_def vote_message_def)

lemma quorum_pos: "0 < committee_quorum c"
  using quorum_overlap [of "committee_size c"] by (simp add: committee_quorum_def)

text \<open>The votes of a quorum of ready authorities assemble.\<close>

lemma ready_certificate:
  assumes "crypto_ok cr" "\<forall>a \<in> set as. ready cr c ord a" "order_verify cr ord (cm_policy c) = Inr ()"
    and "distinct (map au_id as)" "committee_quorum c \<le> length as"
  shows "certificate_assemble cr ord (map (\<lambda>a. sign_vote cr a ord) as) c =
    Some \<lparr>ct_order = ord, ct_votes = map (\<lambda>a. sign_vote cr a ord) as\<rparr>"
proof -
  have "st_policy_id ord = tp_id (cm_policy c)"
    using assms(3) by (simp add: order_verify_def policy_validate_ok)
  moreover have "as \<noteq> []" using assms(5) quorum_pos [of c] by auto
  moreover have "map vt_authority (map (\<lambda>a. sign_vote cr a ord) as) = map au_id as" by (simp add: sign_vote_def)
  moreover have "\<forall>v \<in> set (map (\<lambda>a. sign_vote cr a ord) as). vote_matches cr v ord c"
    using assms(1,2) calculation(1) by (auto intro: sign_vote_matches)
  ultimately show ?thesis
    using assms(3-5) unfolding certificate_assemble_def certificate_valid_iff Let_def
    by (simp del: map_map)
qed

lemma settles_confirms:
  assumes "settles cr c ord a" "order_verify cr ord (cm_policy c) = Inr ()"
    and "j_append jo (au_journal a) (Confirmed ord) = (j', Inr ())"
  shows "\<exists>b. confirm cr jo a \<lparr>vf_order = ord, vf_committee_id = cm_id c\<rparr> c = (b, Inr Applied) \<and>
    ledger_apply (au_ledger a) (st_transfer ord) = Inr (au_ledger b) \<and>
    map_of (au_confirmed b) (tr_from (st_transfer ord), tr_from_seq (st_transfer ord)) = Some (order_id cr ord) \<and>
    au_id b = au_id a \<and> au_committee_id b = au_committee_id a"
proof -
  obtain l where l: "ledger_apply (au_ledger a) (st_transfer ord) = Inr l"
    using assms(1) apply_commit_total [of "au_ledger a" "st_transfer ord"] by (auto simp: settles_def ledger_apply_Inr)
  have "st_policy_id ord = tp_id (cm_policy c)"
    using assms(2) by (simp add: order_verify_def policy_validate_ok)
  then show ?thesis
    using assms l
    by (simp add: confirm_def confirm_impl_def confirm_apply_def settles_def Let_def journal_append_def
        install_covered_def)
qed

lemma mem_append_ok: "j_append mem_ops j r = (j\<lparr>mj_records := mj_records j @ [r]\<rparr>, Inr ())"
  by (simp add: mem_ops_def mem_append_def)

lemma locked_on_fields [simp]: "au_ledger (locked_on ord a) = au_ledger a" "au_id (locked_on ord a) = au_id a"
  by (simp_all add: locked_on_def)

lemma settles_locked_on [simp]: "settles cr c ord (locked_on ord' a) \<longleftrightarrow> settles cr c ord a"
  by (simp add: settles_def locked_on_def)

lemma ready_locked_on:
  "slot_of ord \<noteq> slot_of ord' \<Longrightarrow> ready cr c ord (locked_on ord' a) \<longleftrightarrow> ready cr c ord a"
  by (simp add: ready_def) (simp add: locked_on_def)

section \<open>The demonstration committee\<close>

definition demo_keys :: "(authority_id \<times> bytes) list" where
  "demo_keys = [(''u'', [6]), (''v'', [7]), (''w'', [8]), (''x'', [9])]"

definition demo_authorities :: "mem_journal authority list" where
  "demo_authorities = map (\<lambda>(i, sk). start_authority demo_crypto mem_ops (demo_config i sk) mem_new) demo_keys"

lemma demo_mem_fields:
  "\<not> au_poisoned (start_authority demo_crypto mem_ops (demo_config i sk) mem_new)"
  "au_epoch_state (start_authority demo_crypto mem_ops (demo_config i sk) mem_new) = Active"
  "au_policy (start_authority demo_crypto mem_ops (demo_config i sk) mem_new) = demo_policy"
  "au_locked (start_authority demo_crypto mem_ops (demo_config i sk) mem_new) = []"
  "au_ledger (start_authority demo_crypto mem_ops (demo_config i sk) mem_new) = demo_genesis"
  "au_committee_id (start_authority demo_crypto mem_ops (demo_config i sk) mem_new) = cm_id demo_committee"
  "au_id (start_authority demo_crypto mem_ops (demo_config i sk) mem_new) = i"
  "au_signing (start_authority demo_crypto mem_ops (demo_config i sk) mem_new) = sk"
  "au_confirmed (start_authority demo_crypto mem_ops (demo_config i sk) mem_new) = []"
  by (simp_all add: start_authority_def with_journal_def mem_ops_def mem_bind_def mem_new_def demo_config_def)

lemma demo_public: "ed_public demo_crypto [b] = b # replicate 31 0"
  by (simp add: demo_crypto_def pad_to_def eval_nat_numeral)

lemma demo_committee_fields:
  "cm_members demo_committee = map (\<lambda>(i, sk). (i, ed_public demo_crypto sk)) demo_keys"
  "cm_policy demo_committee = demo_policy"
  "cm_id demo_committee = committee_id_of demo_crypto (tp_id demo_policy) (cm_members demo_committee)"
proof -
  have "with_epoch_loop [] {} (map (\<lambda>(i, sk). (i, ed_public demo_crypto sk)) demo_keys) =
      Some (map (\<lambda>(i, sk). (i, ed_public demo_crypto sk)) demo_keys)"
    by (simp add: demo_keys_def demo_public MAX_AUTHORITY_ID_BYTES_def MAX_COMMITTEE_MEMBERS_def bt_contains_def)
  then have "committee_new demo_crypto [(''u'', ed_public demo_crypto [6]), (''v'', ed_public demo_crypto [7]),
      (''w'', ed_public demo_crypto [8]), (''x'', ed_public demo_crypto [9])] demo_policy = Some
      \<lparr>cm_members = map (\<lambda>(i, sk). (i, ed_public demo_crypto sk)) demo_keys, cm_policy = demo_policy,
        cm_id = committee_id_of demo_crypto (tp_id demo_policy)
          (map (\<lambda>(i, sk). (i, ed_public demo_crypto sk)) demo_keys), cm_epoch = 0\<rparr>"
    by (simp add: committee_new_def committee_with_epoch_def demo_keys_def)
  then show "cm_members demo_committee = map (\<lambda>(i, sk). (i, ed_public demo_crypto sk)) demo_keys"
    "cm_policy demo_committee = demo_policy"
    "cm_id demo_committee = committee_id_of demo_crypto (tp_id demo_policy) (cm_members demo_committee)"
    by (simp_all add: demo_committee_def)
qed

lemma demo_sizes:
  "committee_size demo_committee = 4" "committee_quorum demo_committee = 3"
  "length (committee_bytes (cm_id demo_committee)) = 32" "members demo_committee = {''u'', ''v'', ''w'', ''x''}"
  by (simp_all add: committee_size_def committee_quorum_def quorum_def demo_committee_fields demo_keys_def
      committee_id_of_def crypto_lengths [OF demo_crypto_ok] members_def)

definition demo_order_at :: "u64 \<Rightarrow> amount \<Rightarrow> signed_transfer" where
  "demo_order_at r x = sign_at_round demo_crypto demo_policy
     \<lparr>tr_from = ''a'', tr_from_seq = 0, tr_to = ''b'', tr_amount = x\<rparr> r [1]"

lemma demo_order_at_fields [simp]:
  "st_transfer (demo_order_at r x) = \<lparr>tr_from = ''a'', tr_from_seq = 0, tr_to = ''b'', tr_amount = x\<rparr>"
  "st_round (demo_order_at r x) = r"
  by (simp_all add: demo_order_at_def sign_at_round_def)

lemma demo_order_is: "demo_order = demo_order_at 0 3"
  by (simp add: demo_order_def demo_order_at_def sign_order_def demo_transfer_def)

lemma demo_order_at_verifies: "order_verify demo_crypto (demo_order_at r x) (cm_policy demo_committee) = Inr ()"
  unfolding demo_order_at_def demo_committee_fields
  by (rule sign_at_round_verifies [OF demo_crypto_ok])
    (simp_all add: demo_policy_def transfer_policy_new_def owner_key_of_def owner_contains_def bt_contains_def)

lemma demo_ready:
  assumes "a \<in> set demo_authorities" "x \<le> 10"
  shows "ready demo_crypto demo_committee (demo_order_at r x) a"
proof -
  have "unat x \<le> 10" using assms(2) by (simp add: word_le_nat_alt)
  then have "preflight demo_genesis \<lparr>tr_from = ''a'', tr_from_seq = 0, tr_to = ''b'', tr_amount = x\<rparr> = Inr ()"
    using assms(2) by (simp add: preflight_ok_iff demo_genesis_def contains_account_def bt_contains_def
        ledger_next_seq_def ledger_balance_def)
  then show ?thesis
    using assms(1)
    by (auto simp: ready_def settles_def demo_authorities_def demo_keys_def demo_mem_fields committee_key_of_def
        demo_committee_fields)
qed

lemma demo_roster: "distinct (map au_id demo_authorities)" "length demo_authorities = 4"
  by (simp_all add: demo_authorities_def demo_keys_def demo_mem_fields)

definition demo_certificate :: certificate where
  "demo_certificate = \<lparr>ct_order = demo_order, ct_votes = map (\<lambda>a. sign_vote demo_crypto a demo_order) demo_authorities\<rparr>"

lemma demo_certificate_valid: "certificate_is_valid demo_crypto demo_certificate demo_committee"
proof -
  have "certificate_assemble demo_crypto demo_order (map (\<lambda>a. sign_vote demo_crypto a demo_order) demo_authorities)
      demo_committee = Some demo_certificate"
    unfolding demo_certificate_def
    by (rule ready_certificate [OF demo_crypto_ok])
      (use demo_roster demo_order_at_verifies [of 0 3] demo_ready [of _ 3 0] in \<open>simp_all add: demo_sizes demo_order_is\<close>)
  then show ?thesis by (auto simp: certificate_assemble_def Let_def split: if_splits)
qed

lemma demo_order_ok: "order_ok demo_order"
  by (simp add: order_ok_def demo_order_def sign_order_def sign_at_round_def demo_policy_def transfer_policy_new_def
      policy_id_of_def crypto_lengths [OF demo_crypto_ok] transfer_ok_def demo_transfer_def str_ok_def
      utf8_ascii as_bytes_def)

lemma demo_honest:
  assumes "(h, sk) \<in> set demo_keys"
  shows "honest_voter demo_crypto (demo_config h sk) (demo_voted h sk) (ct_votes demo_certificate) h"
proof -
  have "str_ok h" using assms by (auto simp: demo_keys_def str_ok_def utf8_ascii as_bytes_def)
  moreover have "votes_unforged h (demo_voted h sk) (ct_votes demo_certificate)"
    by (auto simp: votes_unforged_def demo_certificate_def vote_message_def demo_voted_def demo_authorities_def
        sign_vote_def demo_mem_fields)
  moreover have "\<exists>fs. deployed demo_crypto (demo_config h sk) fs \<and> file_reach demo_crypto (demo_config h sk) fs (demo_voted h sk)"
    using demo_deployed demo_file_reach by blast
  ultimately show ?thesis
    using demo_order_ok
    by (simp add: honest_voter_def log_typed_def demo_voted_def demo_sizes)
qed

definition demo_verified :: verified where
  "demo_verified = \<lparr>vf_order = demo_order, vf_committee_id = cm_id demo_committee\<rparr>"

definition demo_confirmed :: "authority_id \<Rightarrow> bytes \<Rightarrow> file_journal node" where
  "demo_confirmed i sk = (demo_voted i sk)
     \<lparr>nd_auth := fst (confirm demo_crypto (file_ops demo_crypto) (nd_auth (demo_voted i sk)) demo_verified demo_committee)\<rparr>"

definition demo_attestations :: "effect_attestation list" where
  "demo_attestations = map (\<lambda>(i, sk).
     \<lparr>ea_authority = i, ea_committee_id = cm_id demo_committee, ea_account = ''a'', ea_seq = 0,
      ea_order_id = order_id demo_crypto demo_order,
      ea_signature = ed_sign demo_crypto sk
        (effect_message (cm_id demo_committee) ''a'' 0 (order_id demo_crypto demo_order))\<rparr>) demo_keys"

lemma demo_order_committee: "order_verify demo_crypto demo_order (cm_policy demo_committee) = Inr ()"
  using demo_order_at_verifies [of 0 3] by (simp add: demo_order_is)

lemma demo_voted_is:
  "\<exists>j. nd_auth (demo_voted i sk) = (nd_auth (demo_start i sk))
      \<lparr>au_journal := j, au_locked := bt_insert (slot_of demo_order) demo_order []\<rparr> \<and> fj_faults j = []"
proof -
  have "handle demo_crypto (file_ops demo_crypto) (nd_auth (demo_start i sk)) demo_order =
      ((nd_auth (demo_start i sk))\<lparr>au_journal := fst (file_append demo_crypto (au_journal (nd_auth (demo_start i sk))) (Locked demo_order)),
        au_locked := bt_insert (slot_of demo_order) demo_order (au_locked (nd_auth (demo_start i sk)))\<rparr>,
       Inr (sign_vote demo_crypto (nd_auth (demo_start i sk)) demo_order))"
    by (rule handle_fresh)
      (simp_all add: demo_start_fields demo_order_verifies demo_preflight file_ops_def file_append_def Let_def
        next_fault_def demo_transfer_def [THEN arg_cong [of _ _ tr_amount]])
  then show ?thesis
    using demo_handle [of i sk] by (auto simp: demo_start_fields file_append_def Let_def next_fault_def)
qed

lemma demo_settles:
  assumes "(i, sk) \<in> set demo_keys"
  shows "settles demo_crypto demo_committee demo_order (nd_auth (demo_voted i sk))"
    "fj_faults (au_journal (nd_auth (demo_voted i sk))) = []" "au_id (nd_auth (demo_voted i sk)) = i"
    "au_committee_id (nd_auth (demo_voted i sk)) = cm_id demo_committee"
proof -
  have "committee_key_of demo_committee i = Some (ed_public demo_crypto sk)"
    using assms by (auto simp: committee_key_of_def demo_committee_fields demo_keys_def)
  then show "settles demo_crypto demo_committee demo_order (nd_auth (demo_voted i sk))"
    "fj_faults (au_journal (nd_auth (demo_voted i sk))) = []" "au_id (nd_auth (demo_voted i sk)) = i"
    "au_committee_id (nd_auth (demo_voted i sk)) = cm_id demo_committee"
    using demo_voted_is [of i sk]
    by (auto simp: settles_def demo_start_fields demo_preflight demo_committee_fields)
qed

lemma demo_confirm:
  assumes "(i, sk) \<in> set demo_keys"
  shows "confirm demo_crypto (file_ops demo_crypto) (nd_auth (demo_voted i sk)) demo_verified demo_committee =
      (nd_auth (demo_confirmed i sk), Inr Applied)"
    and "map_of (au_confirmed (nd_auth (demo_confirmed i sk))) (''a'', 0) = Some (order_id demo_crypto demo_order)"
    and "au_id (nd_auth (demo_confirmed i sk)) = i"
    and "au_committee_id (nd_auth (demo_confirmed i sk)) = cm_id demo_committee"
proof -
  note st = demo_settles [OF assms]
  have "\<exists>j'. j_append (file_ops demo_crypto) (au_journal (nd_auth (demo_voted i sk))) (Confirmed demo_order) = (j', Inr ())"
    using st(2) by (simp add: file_ops_def file_append_def Let_def next_fault_def)
  then obtain b where b: "confirm demo_crypto (file_ops demo_crypto) (nd_auth (demo_voted i sk)) demo_verified demo_committee
      = (b, Inr Applied)" "map_of (au_confirmed b) (''a'', 0) = Some (order_id demo_crypto demo_order)"
      "au_id b = i" "au_committee_id b = cm_id demo_committee"
    using settles_confirms [OF st(1) demo_order_committee] st(3,4)
    by (auto simp: demo_verified_def demo_transfer_def)
  then have "nd_auth (demo_confirmed i sk) = b" by (simp add: demo_confirmed_def)
  with b show "confirm demo_crypto (file_ops demo_crypto) (nd_auth (demo_voted i sk)) demo_verified demo_committee =
      (nd_auth (demo_confirmed i sk), Inr Applied)"
    "map_of (au_confirmed (nd_auth (demo_confirmed i sk))) (''a'', 0) = Some (order_id demo_crypto demo_order)"
    "au_id (nd_auth (demo_confirmed i sk)) = i"
    "au_committee_id (nd_auth (demo_confirmed i sk)) = cm_id demo_committee" by simp_all
qed

lemma demo_confirmed_reach:
  assumes "(i, sk) \<in> set demo_keys"
  shows "file_reach demo_crypto (demo_config i sk) [] (demo_confirmed i sk)"
proof -
  have "record_fits demo_crypto (Confirmed (vf_order demo_verified))"
    by (simp add: demo_verified_def demo_order_fits)
  then have "auth_step demo_crypto (file_ops demo_crypto) (record_fits demo_crypto) (file_reopen demo_crypto)
      (demo_config i sk) (demo_voted i sk) ((demo_voted i sk)\<lparr>nd_auth := nd_auth (demo_confirmed i sk)\<rparr>)"
    using demo_confirm(1) [OF assms] unfolding confirm_def by (intro auth_step.confirmation)
  then show ?thesis
    using demo_file_reach [of i sk] by (simp add: file_reach_def auth_reach_def demo_confirmed_def)
qed

lemma demo_attester:
  assumes "(h, sk) \<in> set demo_keys"
  shows "honest_attester demo_crypto (demo_config h sk) (demo_confirmed h sk) demo_attestations h"
proof -
  have "\<exists>att. attestation_for demo_crypto (nd_auth (demo_confirmed h sk)) ''a'' 0 = Some att \<and>
      ea_committee_id att = cm_id demo_committee \<and> ea_order_id att = order_id demo_crypto demo_order"
    using demo_confirm(2-4) [OF assms] by (simp add: attestation_for_def)
  moreover have "auth_reach demo_crypto (file_ops demo_crypto) (record_fits demo_crypto) (file_reopen demo_crypto)
      (demo_config h sk) (demo_confirmed h sk) (demo_confirmed h sk)"
    by (simp add: auth_reach_def)
  moreover have "str_ok ''a''" by (simp add: str_ok_def utf8_ascii as_bytes_def)
  moreover have "ea_committee_id a = cm_id demo_committee \<and> ea_account a = ''a'' \<and> ea_seq a = 0 \<and>
      ea_order_id a = order_id demo_crypto demo_order" if "a \<in> set demo_attestations" for a
    using that by (auto simp: demo_attestations_def)
  ultimately have "attestations_unforged demo_crypto (demo_config h sk) (demo_confirmed h sk) demo_attestations h"
    using demo_confirmed_reach [OF assms] demo_deployed demo_sizes(3) unfolding attestations_unforged_def by metis
  then show ?thesis by (simp add: honest_attester_def)
qed

lemma demo_final: "is_final_effectcert demo_crypto ''a'' 0 (order_id demo_crypto demo_order) demo_attestations demo_committee"
proof -
  have key: "committee_key_of demo_committee i = Some (ed_public demo_crypto sk)" if "(i, sk) \<in> set demo_keys" for i sk
    using that by (auto simp: committee_key_of_def demo_committee_fields demo_keys_def)
  have "{a \<in> set demo_attestations. ea_account a = ''a'' \<and> ea_seq a = 0 \<and>
      ea_order_id a = order_id demo_crypto demo_order \<and> attestation_is_valid demo_crypto a demo_committee}
      = set demo_attestations"
    using crypto_complete(2) [OF demo_crypto_ok] key by (auto simp: demo_attestations_def attestation_is_valid_def)
  then have "attesters demo_crypto ''a'' 0 (order_id demo_crypto demo_order) demo_committee demo_attestations
      = {''u'', ''v'', ''w'', ''x''}"
    by (simp add: attesters_def) (auto simp: demo_attestations_def demo_keys_def)
  then show ?thesis by (simp add: final_iff demo_sizes)
qed

section \<open>Properties\<close>


lemma certificates_agree:
  assumes "certificate_is_valid cr k1 c" "certificate_is_valid cr k2 c"
    and "slot_of (ct_order k1) = slot_of (ct_order k2)"
    and "finite B" "card B \<le> fault_budget (committee_size c)"
    and "\<forall>h \<in> members c - B. honest_voter cr (cfg h) (nd h) (ct_votes k1 @ ct_votes k2) h"
    and "\<forall>h \<in> members c - B. one_epoch (cm_id c) (nd h)"
    and "order_ok (ct_order k1)" "order_ok (ct_order k2)" "length (committee_bytes (cm_id c)) = 32"
  shows "st_transfer (ct_order k1) = st_transfer (ct_order k2)"
proof -
  obtain h where h: "h \<in> signers k1" "h \<in> signers k2" "h \<notin> B"
    using cq.honest_intersection [OF valid_signers(1) valid_signers(1) valid_signers(2) valid_signers(2)] assms
    by blast
  have hm: "h \<in> members c - B" using valid_signers(1) [OF assms(1)] h by (auto simp: members_def)
  then have hv: "honest_voter cr (cfg h) (nd h) (ct_votes k1 @ ct_votes k2) h" using assms(6) by blast
  from signer_vote [OF assms(1) h(1)] obtain v1 where v1: "v1 \<in> set (ct_votes k1)" "vt_authority v1 = h"
    "vote_matches cr v1 (ct_order k1) c" .
  from signer_vote [OF assms(2) h(2)] obtain v2 where v2: "v2 \<in> set (ct_votes k2)" "vt_authority v2 = h"
    "vote_matches cr v2 (ct_order k2) c" .
  from honest_vote_logged [OF hv _ v1(2,3) assms(8,10)] v1(1) obtain g1 o1 where
    o1: "(g1, cm_id c, o1) \<in> set (nd_signed (nd h))" "st_transfer o1 = st_transfer (ct_order k1)"
      "st_round o1 = st_round (ct_order k1)" by auto
  from honest_vote_logged [OF hv _ v2(2,3) assms(9,10)] v2(1) obtain g2 o2 where
    o2: "(g2, cm_id c, o2) \<in> set (nd_signed (nd h))" "st_transfer o2 = st_transfer (ct_order k2)"
      "st_round o2 = st_round (ct_order k2)" by auto
  have "g1 = g2" using assms(7) hm o1(1) o2(1) unfolding one_epoch_def by blast
  moreover have "slot_of o1 = slot_of o2" using o1 o2 assms(3) by (simp add: slot_of_def)
  moreover have "filej.node_inv cr cr (cfg h) (nd h)" using hv file_life by (auto simp: honest_voter_def)
  ultimately have "o1 = o2" using filej.vote_once o1(1) o2(1) by blast
  then show ?thesis using o1(2) o2(2) by simp
qed

text \<open>C3: with at most \<open>(n - 1) / 3\<close> members that are not honest, two valid certificates of one
  committee for the same (account, sequence, round) certify the same transfer, provided that no honest member has voted under the
  committee's identifier in two epochs (which an epoch change with an unchanged roster makes it do). Honest members run on a
  \<open>FileJournal\<close> with survivable faults and records the format can hold, and their votes are not forged.\<close>

theorem certificate_agreement:
  assumes "certificate_is_valid cr k1 c" "certificate_is_valid cr k2 c"
    and "slot_of (ct_order k1) = slot_of (ct_order k2)"
    and "finite B" "card B \<le> fault_budget (committee_size c)"
    and "\<forall>h \<in> members c - B. honest_voter cr (cfg h) (nd h) (ct_votes k1 @ ct_votes k2) h"
    and "\<forall>h \<in> members c - B. one_epoch (cm_id c) (nd h)"
    and "order_ok (ct_order k1)" "order_ok (ct_order k2)" "length (committee_bytes (cm_id c)) = 32"
  shows "st_transfer (ct_order k1) = st_transfer (ct_order k2)"
  using certificates_agree [OF assms] .

theorem certificate_agreement_witness:
  "certificate_is_valid demo_crypto demo_certificate demo_committee \<and>
   card {''x''} \<le> fault_budget (committee_size demo_committee) \<and>
   \<not> (\<exists>t. t \<noteq> demo_transfer \<and>
        certificate_is_valid demo_crypto (demo_certificate\<lparr>ct_order := demo_order\<lparr>st_transfer := t\<rparr>\<rparr>) demo_committee \<and>
        transfer_ok t \<and> tr_from t = ''a'' \<and> tr_from_seq t = 0)"
proof -
  let ?sk = "\<lambda>h. the (map_of demo_keys h)"
  have hon: "\<forall>h \<in> members demo_committee - {''x''}.
      honest_voter demo_crypto (demo_config h (?sk h)) (demo_voted h (?sk h))
        (ct_votes demo_certificate @ ct_votes demo_certificate) h"
    using demo_honest by (auto simp: demo_sizes demo_keys_def honest_voter_def votes_unforged_def)
  have one: "one_epoch (cm_id demo_committee) (demo_voted h sk)" for h sk
    by (simp add: one_epoch_def demo_voted_def)
  have "t = demo_transfer"
    if "certificate_is_valid demo_crypto (demo_certificate\<lparr>ct_order := demo_order\<lparr>st_transfer := t\<rparr>\<rparr>) demo_committee"
      "transfer_ok t" "tr_from t = ''a''" "tr_from_seq t = 0" for t
    using certificate_agreement [OF demo_certificate_valid that(1), of "{''x''}" "\<lambda>h. demo_config h (?sk h)"
        "\<lambda>h. demo_voted h (?sk h)"] hon one that demo_order_ok
    by (simp add: demo_certificate_def slot_of_def demo_sizes fault_budget_def order_ok_def demo_transfer_def)
  then show ?thesis using demo_certificate_valid by (auto simp: demo_sizes fault_budget_def)
qed

text \<open>\<open>certify\<close> over a quorum of ready authorities succeeds: the votes assemble into a valid
  certificate and every one of them applies the transfer and records the confirmation.\<close>

theorem certify_succeeds:
  assumes "crypto_ok cr" "\<forall>a \<in> set as. ready cr c ord a" "order_verify cr ord (cm_policy c) = Inr ()"
    and "tr_amount (st_transfer ord) \<noteq> 0" "distinct (map au_id as)" "committee_quorum c \<le> length as"
  shows "\<exists>as'. certify cr mem_ops ord as c = (as', Some \<lparr>vf_order = ord, vf_committee_id = cm_id c\<rparr>, CertifiedOk) \<and>
    list_all2 (\<lambda>a b. ledger_apply (au_ledger a) (st_transfer ord) = Inr (au_ledger b) \<and>
      map_of (au_confirmed b) (tr_from (st_transfer ord), tr_from_seq (st_transfer ord)) = Some (order_id cr ord)) as as'"
proof -
  let ?k = "\<lparr>ct_order = ord, ct_votes = map (\<lambda>a. sign_vote cr a ord) as\<rparr>"
  let ?v = "\<lparr>vf_order = ord, vf_committee_id = cm_id c\<rparr>"
  note k = ready_certificate [OF assms(1-3,5,6)]
  then have "certificate_is_valid cr ?k c" by (auto simp: certificate_assemble_def Let_def split: if_splits)
  then have "certify cr mem_ops ord as c =
      (map (\<lambda>a. fst (confirm cr mem_ops a ?v c)) (map (locked_on ord) as), Some ?v, CertifiedOk)"
    using k collect_ready [OF assms(2-4)] by (simp add: certify_def certificate_verify_def)
  moreover have "list_all2 (\<lambda>a b. ledger_apply (au_ledger a) (st_transfer ord) = Inr (au_ledger b) \<and>
      map_of (au_confirmed b) (tr_from (st_transfer ord), tr_from_seq (st_transfer ord)) = Some (order_id cr ord))
      as (map (\<lambda>a. fst (confirm cr mem_ops a ?v c)) (map (locked_on ord) as))"
    unfolding list_all2_map2 list_all2_same
  proof
    fix a assume "a \<in> set as"
    then have "settles cr c ord (locked_on ord a)" using assms(2) by (simp add: ready_def)
    from settles_confirms [OF this assms(3) mem_append_ok]
    show "ledger_apply (au_ledger a) (st_transfer ord) =
        Inr (au_ledger (fst (confirm cr mem_ops (locked_on ord a) ?v c))) \<and>
      map_of (au_confirmed (fst (confirm cr mem_ops (locked_on ord a) ?v c)))
        (tr_from (st_transfer ord), tr_from_seq (st_transfer ord)) = Some (order_id cr ord)" by auto
  qed
  ultimately show ?thesis by blast
qed

theorem certify_succeeds_witness:
  "\<exists>as'. certify demo_crypto mem_ops demo_order demo_authorities demo_committee =
      (as', Some \<lparr>vf_order = demo_order, vf_committee_id = cm_id demo_committee\<rparr>, CertifiedOk) \<and> length as' = 4"
proof -
  have "\<forall>a \<in> set demo_authorities. ready demo_crypto demo_committee demo_order a"
    using demo_ready [of _ 3 0] by (simp add: demo_order_is)
  moreover have "order_verify demo_crypto demo_order (cm_policy demo_committee) = Inr ()"
    using demo_order_at_verifies [of 0 3] by (simp add: demo_order_is)
  ultimately show ?thesis
    using certify_succeeds [OF demo_crypto_ok, of demo_authorities demo_committee demo_order] demo_roster
    by (auto simp: demo_sizes demo_transfer_def dest!: list_all2_lengthD)
qed

text \<open>C7: the agreement of certificates does not extend across rounds. When the owner signs two orders for
  one (account, sequence) at different rounds, a quorum of authorities, all honest, votes for
  both, both certificates are valid, and each authority will apply whichever reaches it first:
  two authorities can end with different orders confirmed for the same sequence number.\<close>

theorem rounds_certify_conflicting:
  assumes "crypto_ok cr" "\<forall>a \<in> set as. ready cr c o1 a \<and> ready cr c o2 a" "distinct (map au_id as)"
    and "committee_quorum c \<le> length as" "st_round o1 \<noteq> st_round o2"
    and "order_verify cr o1 (cm_policy c) = Inr ()" "order_verify cr o2 (cm_policy c) = Inr ()"
    and "tr_amount (st_transfer o1) \<noteq> 0" "tr_amount (st_transfer o2) \<noteq> 0"
  shows "\<exists>as1 vs1 as2 vs2.
    collect_votes cr mem_ops o1 as = (as1, vs1, 0, False) \<and>
    collect_votes cr mem_ops o2 as1 = (as2, vs2, 0, False) \<and>
    certificate_verify cr \<lparr>ct_order = o1, ct_votes = vs1\<rparr> c = Some \<lparr>vf_order = o1, vf_committee_id = cm_id c\<rparr> \<and>
    certificate_verify cr \<lparr>ct_order = o2, ct_votes = vs2\<rparr> c = Some \<lparr>vf_order = o2, vf_committee_id = cm_id c\<rparr> \<and>
    (\<forall>a \<in> set as2. \<forall>ord \<in> {o1, o2}. \<exists>b.
      confirm cr mem_ops a \<lparr>vf_order = ord, vf_committee_id = cm_id c\<rparr> c = (b, Inr Applied) \<and>
      map_of (au_confirmed b) (tr_from (st_transfer ord), tr_from_seq (st_transfer ord)) = Some (order_id cr ord))"
proof -
  have ne: "slot_of o2 \<noteq> slot_of o1" using assms(5) by (auto simp: slot_of_def)
  let ?as1 = "map (locked_on o1) as" and ?as2 = "map (locked_on o2) (map (locked_on o1) as)"
  let ?vs1 = "map (\<lambda>a. sign_vote cr a o1) as" and ?vs2 = "map (\<lambda>a. sign_vote cr a o2) ?as1"
  have r1: "\<forall>a \<in> set as. ready cr c o1 a" and r2: "\<forall>a \<in> set ?as1. ready cr c o2 a"
    using assms(2) by (auto simp: ready_locked_on [OF ne])
  have d: "distinct (map au_id ?as1)" "committee_quorum c \<le> length ?as1"
    using assms(3,4) by (simp_all add: locked_on_def comp_def)
  have "collect_votes cr mem_ops o1 as = (?as1, ?vs1, 0, False)"
    by (rule collect_ready [OF r1 assms(6,8)])
  moreover have "collect_votes cr mem_ops o2 ?as1 = (?as2, ?vs2, 0, False)"
    by (rule collect_ready [OF r2 assms(7,9)])
  moreover have "certificate_verify cr \<lparr>ct_order = o1, ct_votes = ?vs1\<rparr> c = Some \<lparr>vf_order = o1, vf_committee_id = cm_id c\<rparr>"
    using ready_certificate [OF assms(1) r1 assms(6,3,4)]
    by (simp add: certificate_assemble_def certificate_verify_def Let_def split: if_splits)
  moreover have "certificate_verify cr \<lparr>ct_order = o2, ct_votes = ?vs2\<rparr> c = Some \<lparr>vf_order = o2, vf_committee_id = cm_id c\<rparr>"
    using ready_certificate [OF assms(1) r2 assms(7) d]
    by (simp add: certificate_assemble_def certificate_verify_def Let_def split: if_splits)
  moreover have "\<forall>a \<in> set ?as2. \<forall>ord \<in> {o1, o2}. \<exists>b.
      confirm cr mem_ops a \<lparr>vf_order = ord, vf_committee_id = cm_id c\<rparr> c = (b, Inr Applied) \<and>
      map_of (au_confirmed b) (tr_from (st_transfer ord), tr_from_seq (st_transfer ord)) = Some (order_id cr ord)"
  proof (intro ballI)
    fix a ord assume a: "a \<in> set ?as2" and "ord \<in> {o1, o2}"
    then have "settles cr c ord a" "order_verify cr ord (cm_policy c) = Inr ()"
      using assms(2,6,7) by (auto simp: ready_def)
    from settles_confirms [OF this mem_append_ok]
    show "\<exists>b. confirm cr mem_ops a \<lparr>vf_order = ord, vf_committee_id = cm_id c\<rparr> c = (b, Inr Applied) \<and>
      map_of (au_confirmed b) (tr_from (st_transfer ord), tr_from_seq (st_transfer ord)) = Some (order_id cr ord)"
      by blast
  qed
  ultimately show ?thesis by blast
qed

theorem rounds_certify_conflicting_witness:
  "\<exists>as1 vs1 as2 vs2.
    collect_votes demo_crypto mem_ops (demo_order_at 0 3) demo_authorities = (as1, vs1, 0, False) \<and>
    collect_votes demo_crypto mem_ops (demo_order_at 1 7) as1 = (as2, vs2, 0, False) \<and>
    certificate_is_valid demo_crypto \<lparr>ct_order = demo_order_at 0 3, ct_votes = vs1\<rparr> demo_committee \<and>
    certificate_is_valid demo_crypto \<lparr>ct_order = demo_order_at 1 7, ct_votes = vs2\<rparr> demo_committee"
  using rounds_certify_conflicting [OF demo_crypto_ok, of demo_authorities demo_committee "demo_order_at 0 3"
      "demo_order_at 1 7"] demo_ready demo_roster demo_order_at_verifies
  by (auto simp: demo_sizes certificate_verify_def split: if_splits)

text \<open>C6: effect certificates restore agreement, rounds and epochs notwithstanding: with at most
  \<open>(n - 1) / 3\<close> members that are not honest, two final effect certificates of one committee for the
  same (account, sequence) name the same order. Honest members run on a \<open>FileJournal\<close> with survivable faults and records the format
  can hold, and their attestations are not forged.\<close>

theorem effect_finality_agreement:
  assumes "is_final_effectcert cr acct sq oid1 as1 c" "is_final_effectcert cr acct sq oid2 as2 c"
    and "finite B" "card B \<le> fault_budget (committee_size c)"
    and "\<forall>h \<in> members c - B. honest_attester cr (cfg h) (nd h) (as1 @ as2) h"
    and "str_ok acct" "length (committee_bytes (cm_id c)) = 32"
  shows "oid1 = oid2"
proof -
  obtain h where h: "h \<in> attesters cr acct sq oid1 c as1" "h \<in> attesters cr acct sq oid2 c as2" "h \<notin> B"
    using cq.honest_intersection [OF attesters_members attesters_members] assms(1-4) unfolding final_iff by blast
  then have "h \<in> members c - B" using attesters_members [of cr acct sq oid1 c as1] by (auto simp: members_def)
  then have a: "honest_attester cr (cfg h) (nd h) (as1 @ as2) h" using assms(5) by blast
  have "h \<in> attesters cr acct sq oid1 c (as1 @ as2)" "h \<in> attesters cr acct sq oid2 c (as1 @ as2)"
    using h by (auto simp: attesters_def)
  then show ?thesis using honest_attestation_confirmed [OF a _ assms(6,7)] by (metis option.inject)
qed

theorem effect_finality_agreement_witness:
  "is_final_effectcert demo_crypto ''a'' 0 (order_id demo_crypto demo_order) demo_attestations demo_committee \<and>
   \<not> (\<exists>oid. oid \<noteq> order_id demo_crypto demo_order \<and>
        is_final_effectcert demo_crypto ''a'' 0 oid demo_attestations demo_committee)"
proof -
  let ?sk = "\<lambda>h. the (map_of demo_keys h)"
  have "oid = order_id demo_crypto demo_order"
    if "is_final_effectcert demo_crypto ''a'' 0 oid demo_attestations demo_committee" for oid
  proof (rule effect_finality_agreement [OF that demo_final, of "{''x''}" "\<lambda>h. demo_config h (?sk h)"
        "\<lambda>h. demo_confirmed h (?sk h)"])
    show "\<forall>h \<in> members demo_committee - {''x''}. honest_attester demo_crypto (demo_config h (?sk h))
        (demo_confirmed h (?sk h)) (demo_attestations @ demo_attestations) h"
      using demo_attester by (auto simp: demo_sizes demo_keys_def honest_attester_def attestations_unforged_def)
  qed (simp_all add: demo_sizes fault_budget_def str_ok_def utf8_ascii as_bytes_def)
  then show ?thesis using demo_final by blast
qed

text \<open>Finality means applied. Behind a final effect certificate, all but at most the dishonest
  members of a quorum hold the order confirmed, and those still running have spent its sequence
  number in their ledger.\<close>

theorem effect_finality_applied:
  assumes "is_final_effectcert cr acct sq oid as c" "finite B"
    and "\<forall>h \<in> members c - B. honest_attester cr (cfg h) (nd h) as h \<and>
      (\<exists>fs. deployed cr (cfg h) fs \<and> file_reach cr (cfg h) fs (nd h))"
    and "str_ok acct" "length (committee_bytes (cm_id c)) = 32"
  shows "committee_quorum c \<le> card B + card {h \<in> members c.
    map_of (au_confirmed (nd_auth (nd h))) (acct, sq) = Some oid \<and>
    (au_poisoned (nd_auth (nd h)) \<or> unat sq < unat (ledger_next_seq (au_ledger (nd_auth (nd h))) acct))}"
proof -
  let ?A = "attesters cr acct sq oid c as"
  let ?H = "{h \<in> members c. map_of (au_confirmed (nd_auth (nd h))) (acct, sq) = Some oid \<and>
    (au_poisoned (nd_auth (nd h)) \<or> unat sq < unat (ledger_next_seq (au_ledger (nd_auth (nd h))) acct))}"
  have "h \<in> ?H" if "h \<in> ?A" "h \<notin> B" for h
  proof -
    have hm: "h \<in> members c - B" using that attesters_members [of cr acct sq oid c as] by (auto simp: members_def)
    then have c: "map_of (au_confirmed (nd_auth (nd h))) (acct, sq) = Some oid"
      using honest_attestation_confirmed [OF _ that(1) assms(4,5)] assms(3) by blast
    have "filej.node_inv cr cr (cfg h) (nd h)" using hm assms(3) file_life by blast
    then show ?thesis using c hm filej.confirmed_spent by fastforce
  qed
  then have "?A \<subseteq> B \<union> ?H" by blast
  moreover have "finite (B \<union> ?H)" using assms(2) by (simp add: members_def)
  ultimately have "card ?A \<le> card (B \<union> ?H)" by (rule card_mono [rotated])
  also have "\<dots> \<le> card B + card ?H" by (rule card_Un_le)
  finally show ?thesis using assms(1) by (simp add: final_iff)
qed

theorem effect_finality_applied_witness:
  "is_final_effectcert demo_crypto ''a'' 0 (order_id demo_crypto demo_order) demo_attestations demo_committee \<and>
   3 \<le> 1 + card {h \<in> members demo_committee.
     map_of (au_confirmed (nd_auth (demo_confirmed h (the (map_of demo_keys h))))) (''a'', 0) =
       Some (order_id demo_crypto demo_order) \<and>
     (au_poisoned (nd_auth (demo_confirmed h (the (map_of demo_keys h)))) \<or>
      unat (0::u64) < unat (ledger_next_seq (au_ledger (nd_auth (demo_confirmed h (the (map_of demo_keys h))))) ''a''))}"
proof -
  let ?sk = "\<lambda>h. the (map_of demo_keys h)"
  have "\<forall>h \<in> members demo_committee - {''x''}.
      honest_attester demo_crypto (demo_config h (?sk h)) (demo_confirmed h (?sk h)) demo_attestations h \<and>
      (\<exists>fs. deployed demo_crypto (demo_config h (?sk h)) fs \<and>
        file_reach demo_crypto (demo_config h (?sk h)) fs (demo_confirmed h (?sk h)))"
    proof
    fix h assume "h \<in> members demo_committee - {''x''}"
    then have "(h, ?sk h) \<in> set demo_keys" by (auto simp: demo_sizes demo_keys_def)
    then show "honest_attester demo_crypto (demo_config h (?sk h)) (demo_confirmed h (?sk h)) demo_attestations h \<and>
      (\<exists>fs. deployed demo_crypto (demo_config h (?sk h)) fs \<and>
        file_reach demo_crypto (demo_config h (?sk h)) fs (demo_confirmed h (?sk h)))"
      using demo_attester demo_confirmed_reach demo_deployed by blast
  qed
  from effect_finality_applied [OF demo_final _ this]
  show ?thesis using demo_final by (simp add: demo_sizes str_ok_def utf8_ascii as_bytes_def)
qed

section \<open>Compaction by a stopped authority\<close>

text \<open>
  \<open>compact_journal\<close> does not ask whether the authority has been stopped. A confirmation applies its transfer before it is journaled;
  when that write fails, the ledger in memory is ahead of the log, and a compaction makes that state durable, without the confirmation.
\<close>

lemma confirm_journal_failure:
  assumes "confirm_impl cr jo a v c m = (a', Inl (ConfirmJournal e))"
  shows "ledger_apply (au_ledger a) (vf_transfer v) = Inr (au_ledger a')"
    "map_of (au_confirmed a') (tr_from (vf_transfer v), tr_from_seq (vf_transfer v)) = None"
proof -
  have "confirm_impl cr jo a v c m = confirm_apply cr jo a (vf_order v)"
    using assms by (auto simp: confirm_impl_def split: if_splits sum.splits)
  then show "ledger_apply (au_ledger a) (vf_transfer v) = Inr (au_ledger a')"
    "map_of (au_confirmed a') (tr_from (vf_transfer v), tr_from_seq (vf_transfer v)) = None"
    using assms
    by (auto simp: confirm_apply_def Let_def journal_append_def vf_transfer_def
        split: option.splits sum.splits prod.splits if_splits)
qed

lemma spent_not_confirmed:
  assumes "map_of (au_confirmed a) (tr_from (vf_transfer v), tr_from_seq (vf_transfer v)) = None"
    and "tr_from_seq (vf_transfer v) \<noteq> ledger_next_seq (au_ledger a) (tr_from (vf_transfer v))"
  shows "\<not> is_ok (snd (confirm_impl cr jo a v c m))"
proof -
  have "\<exists>e. ledger_apply (au_ledger a) (vf_transfer v) = Inl e"
    using assms(2) by (cases "ledger_apply (au_ledger a) (vf_transfer v)") (auto simp: ledger_apply_Inr preflight_ok_iff)
  then show ?thesis
    using assms(1)
    by (auto simp: confirm_impl_def confirm_apply_def Let_def vf_transfer_def is_ok_def split: if_splits sum.splits)
qed

text \<open>After that and a restart, the order is spent but not confirmed: no certificate for its sequence number is accepted any more and
  the authority never attests to it.\<close>

theorem stopped_compaction_loses_confirmation:
  assumes "file_reach cr cf fs n" "deployed cr cf fs" "record_fits cr (Confirmed (vf_order v))"
    and "confirm_impl cr (file_ops cr) (nd_auth n) v c m = (a1, Inl (ConfirmJournal e))"
    and "record_fits cr (Snapshot (snapshot_data_of a1))" "compact_journal (file_ops cr) a1 = (a2, Inr ())"
  shows "\<exists>b. restart_authority cr (file_ops cr) cf (file_reopen cr (au_journal a2)) = Inr b \<and> \<not> au_poisoned b \<and>
    attestation_for cr b (tr_from (vf_transfer v)) (tr_from_seq (vf_transfer v)) = None \<and>
    (\<forall>v' c' m'. tr_from (vf_transfer v') = tr_from (vf_transfer v) \<and> tr_from_seq (vf_transfer v') = tr_from_seq (vf_transfer v) \<longrightarrow>
       \<not> is_ok (snd (confirm_impl cr (file_ops cr) b v' c' m')))"
proof -
  let ?t = "vf_transfer v"
  have "auth_step cr (file_ops cr) (record_fits cr) (file_reopen cr) cf n (n\<lparr>nd_auth := a1\<rparr>)"
    by (rule auth_step.confirmation) (rule assms)+
  then have "file_reach cr cf fs (n\<lparr>nd_auth := a1\<rparr>)"
    using assms(1) unfolding file_reach_def auth_reach_def by (rule rtranclp.rtrancl_into_rtrancl [rotated])
  then have "filej.node_inv cr cr cf (n\<lparr>nd_auth := a1\<rparr>)" by (rule file_life [OF _ assms(2)])
  then obtain b where b: "restart_authority cr (file_ops cr) cf (file_reopen cr (au_journal a2)) = Inr b" "au_core b = au_core a1" "\<not> au_poisoned b"
    using filej.restart_after_compaction [of cr cr cf "n\<lparr>nd_auth := a1\<rparr>" a2] assms(5,6) by auto
  note f = confirm_journal_failure [OF assms(4)]
  have fields: "au_ledger b = au_ledger a1" "au_confirmed b = au_confirmed a1" using b(2) by (simp_all add: au_core_def)
  have sq: "tr_from_seq ?t \<noteq> ledger_next_seq (au_ledger b) (tr_from ?t)"
    using apply_next_seq_nat [OF f(1), of "tr_from ?t"] f(1) fields by (auto simp: ledger_apply_Inr preflight_ok_iff)
  have "\<not> is_ok (snd (confirm_impl cr (file_ops cr) b v' c' m'))"
    if "tr_from (vf_transfer v') = tr_from ?t" "tr_from_seq (vf_transfer v') = tr_from_seq ?t" for v' c' m'
    by (rule spent_not_confirmed) (use that f(2) fields sq in simp_all)
  moreover have "attestation_for cr b (tr_from ?t) (tr_from_seq ?t) = None" using f(2) fields by (simp add: attestation_for_def)
  ultimately show ?thesis using b(1,3) by blast
qed

lemma settles_journal_fails:
  assumes "settles cr c ord a" "order_verify cr ord (cm_policy c) = Inr ()"
    and "j_append jo (au_journal a) (Confirmed ord) = (j', Inl e)"
  shows "\<exists>l. confirm cr jo a \<lparr>vf_order = ord, vf_committee_id = cm_id c\<rparr> c =
    (a\<lparr>au_ledger := l, au_journal := j', au_poisoned := True\<rparr>, Inl (ConfirmJournal (journal_error_str e)))"
proof -
  obtain l where "ledger_apply (au_ledger a) (st_transfer ord) = Inr l"
    using assms(1) apply_commit_total [of "au_ledger a" "st_transfer ord"] by (auto simp: settles_def ledger_apply_Inr)
  moreover have "st_policy_id ord = tp_id (cm_policy c)"
    using assms(2) by (simp add: order_verify_def policy_validate_ok)
  ultimately show ?thesis
    using assms by (intro exI [of _ l]) (simp add: confirm_def confirm_impl_def confirm_apply_def settles_def Let_def journal_append_def)
qed

definition demo_faulty :: "file_journal node" where
  "demo_faulty = start_node demo_crypto (file_ops demo_crypto) (demo_config ''u'' [6]) (file_new [IoOk, TornWrite 0])"

lemma demo_faulty_fields:
  "\<not> au_poisoned (nd_auth demo_faulty)" "au_epoch_state (nd_auth demo_faulty) = Active" "au_policy (nd_auth demo_faulty) = demo_policy"
  "au_locked (nd_auth demo_faulty) = []" "au_ledger (nd_auth demo_faulty) = demo_genesis" "au_confirmed (nd_auth demo_faulty) = []"
  "au_committee_id (nd_auth demo_faulty) = cm_id demo_committee" "au_id (nd_auth demo_faulty) = ''u''" "au_signing (nd_auth demo_faulty) = [6]"
  "au_epoch (nd_auth demo_faulty) = 0"
  "fj_faults (au_journal (nd_auth demo_faulty)) = [TornWrite 0]" "\<exists>i. fj_identity (au_journal (nd_auth demo_faulty)) = Some i"
  by (simp_all add: demo_faulty_def start_node_def start_authority_def with_journal_def file_ops_def file_bind_def
      file_new_def read_identity_def next_fault_def demo_config_def)

theorem stopped_compaction_loses_confirmation_witness:
  "\<exists>a1 a2 e b. confirm demo_crypto (file_ops demo_crypto) (nd_auth demo_faulty) demo_verified demo_committee = (a1, Inl (ConfirmJournal e)) \<and>
    compact_journal (file_ops demo_crypto) a1 = (a2, Inr ()) \<and>
    restart_authority demo_crypto (file_ops demo_crypto) (demo_config ''u'' [6]) (file_reopen demo_crypto (au_journal a2)) = Inr b \<and>
    \<not> is_ok (snd (confirm demo_crypto (file_ops demo_crypto) b demo_verified demo_committee))"
proof -
  let ?a = "nd_auth demo_faulty"
  have u: "(''u'', [6]) \<in> set demo_keys" by (simp add: demo_keys_def)
  then have "committee_key_of demo_committee ''u'' = Some (ed_public demo_crypto [6])"
    by (auto simp: committee_key_of_def demo_committee_fields demo_keys_def)
  then have st: "settles demo_crypto demo_committee demo_order ?a"
    by (simp add: settles_def demo_faulty_fields demo_preflight demo_committee_fields)
  obtain j' e where j: "j_append (file_ops demo_crypto) (au_journal ?a) (Confirmed demo_order) = (j', Inl e)"
    "fj_faults j' = []" "fj_identity j' = fj_identity (au_journal ?a)"
    using demo_faulty_fields(11) by (simp add: file_ops_def file_append_def Let_def next_fault_def)
  obtain l where c: "confirm demo_crypto (file_ops demo_crypto) ?a demo_verified demo_committee =
      (?a\<lparr>au_ledger := l, au_journal := j', au_poisoned := True\<rparr>, Inl (ConfirmJournal (journal_error_str e)))"
    using settles_journal_fails [OF st demo_order_committee j(1)] by (auto simp: demo_verified_def)
  let ?a1 = "?a\<lparr>au_ledger := l, au_journal := j', au_poisoned := True\<rparr>"
  obtain a2 where k: "compact_journal (file_ops demo_crypto) ?a1 = (a2, Inr ())"
    using j(2,3) demo_faulty_fields(2,12) by (auto simp: compact_journal_def file_ops_def file_compact_def next_fault_def Let_def)
  have "ledger_apply demo_genesis demo_transfer = Inr l"
    using confirm_journal_failure(1) [OF c [unfolded confirm_def]] by (simp add: demo_faulty_fields demo_verified_def vf_transfer_def)
  then have l: "accounts l = [(''a'', \<lparr>acc_balance = 7, acc_next_seq = 1\<rparr>), (''b'', \<lparr>acc_balance = 8, acc_next_seq = 0\<rparr>)]"
    by (auto simp: ledger_apply_Inr apply_commit_def demo_genesis_def demo_transfer_def Let_def checked_add_def ledger_balance_def
        split: if_splits option.splits)
  have "record_fits demo_crypto (Snapshot (snapshot_data_of ?a1))"
    using l by (simp add: record_fits_def snapshot_ok_def snapshot_data_of_def demo_faulty_fields balances_def snapshot_str_ok_def
        utf8_ascii as_bytes_def encode_snapshot_def put_u32_def put_snapshot_account_def MAX_RECORD_BYTES_def)
  moreover have "file_reach demo_crypto (demo_config ''u'' [6]) [IoOk, TornWrite 0] demo_faulty"
    by (simp add: file_reach_def auth_reach_def demo_faulty_def)
  moreover have "deployed demo_crypto (demo_config ''u'' [6]) [IoOk, TornWrite 0]"
    using demo_faulty_fields(1) demo_genesis_wf by (simp add: deployed_def demo_crypto_ok demo_faulty_def start_node_def)
  moreover have "record_fits demo_crypto (Confirmed (vf_order demo_verified))" by (simp add: demo_verified_def demo_order_fits)
  ultimately obtain b where "restart_authority demo_crypto (file_ops demo_crypto) (demo_config ''u'' [6]) (file_reopen demo_crypto (au_journal a2)) = Inr b"
    "\<not> is_ok (snd (confirm demo_crypto (file_ops demo_crypto) b demo_verified demo_committee))"
    using stopped_compaction_loses_confirmation [OF _ _ _ c [unfolded confirm_def] _ k] unfolding confirm_def by blast
  then show ?thesis using c k by blast
qed

end
