(* ===== verification/Epoch_Change.thy ===== *)
theory Epoch_Change
  imports Quorum_Safety
begin

text \<open>
  Committee reconfiguration across authorities: fencing, epoch votes and installation
  (\<open>fence\<close>, \<open>sign_epoch_vote\<close>, \<open>install_epoch_cert\<close> of \<open>333-transfer/src/authority.rs\<close>). The fence
  is durable: a fenced authority signs no user vote until it installs, whatever crashes and
  restarts intervene, so a quorum of fences stops new certificates of the old committee. A
  quorum of fenced authorities with equal frontiers installs. The last sections show three
  ways in which the epoch dimension is lost: snapshots, replay, and an unchanged roster.
\<close>

section \<open>The fence is durable\<close>

fun fencing_of :: "epoch_state \<Rightarrow> epoch_proposal option" where
  "fencing_of (Fencing p) = Some p"
| "fencing_of _ = None"

fun fence_record :: "epoch_proposal option \<Rightarrow> journal_record \<Rightarrow> epoch_proposal option" where
  "fence_record s (EpochFence p) = Some p"
| "fence_record s (Snapshot _) = None"
| "fence_record s (EpochInstalled _) = None"
| "fence_record s _ = s"

definition fenced_by :: "journal_record list \<Rightarrow> epoch_proposal option" where
  "fenced_by rs = foldl fence_record None rs"

lemma fenced_by_simps [simp]: "fenced_by [] = None" "fenced_by (rs @ [r]) = fence_record (fenced_by rs) r"
  by (simp_all add: fenced_by_def)

lemma fencing_of_Some: "fencing_of s = Some p \<longleftrightarrow> s = Fencing p"
  by (cases s) auto

lemma complete_install_fencing [simp]: "fencing_of (au_epoch_state (complete_install a)) = None"
  by (simp add: complete_install_def split: epoch_state.splits)

lemma install_covered_fencing: "install_covered a \<Longrightarrow> fencing_of (au_epoch_state a) = None"
  by (simp add: install_covered_def split: epoch_state.splits)

lemma replay_record_fencing:
  "replay_record cr me r = Inr a \<Longrightarrow> fencing_of (au_epoch_state a) = fence_record (fencing_of (au_epoch_state me)) r"
  by (auto simp: replay_record_def Let_def split: journal_record.splits sum.splits option.splits if_splits)

lemma replay_all_fencing:
  "replay_all cr me rs = Inr a \<Longrightarrow> fencing_of (au_epoch_state a) = foldl fence_record (fencing_of (au_epoch_state me)) rs"
proof (induction cr me rs rule: replay_all.induct)
  case (2 cr me r rs)
  then show ?case by (cases "replay_record cr me r") (auto simp: rbind_def replay_record_fencing)
qed simp

text \<open>What each operation does to the fence and to the log.\<close>

lemma handle_fencing:
  assumes "handle cr jo a ord = (a', r)"
  shows "a' = a \<or> fencing_of (au_epoch_state a) = None \<and> fencing_of (au_epoch_state a') = None"
  using assms complete_install_fencing [of a]
  by (auto simp: handle_def epoch_gate_def handle_order_def Let_def journal_append_def
      split: if_splits sum.splits option.splits prod.splits epoch_state.splits)

lemma handle_fenced: "au_epoch_state a = Fencing p \<Longrightarrow> handle cr jo a ord = (a', r) \<Longrightarrow> a' = a \<and> \<not> is_ok r"
  by (auto simp: handle_def epoch_gate_def split: if_splits)

lemma confirm_fencing:
  assumes "confirm_impl cr jo a v c m = (a', r)"
  shows "fencing_of (au_epoch_state a') = fencing_of (au_epoch_state a)"
proof -
  have "fencing_of (au_epoch_state a') = fencing_of (au_epoch_state a)" if "confirm_apply cr jo a ord = (a', r)" for ord
    using that
    by (auto simp: confirm_apply_def Let_def journal_append_def install_covered_def
        split: if_splits sum.splits option.splits prod.splits epoch_state.splits)
  then show ?thesis using assms by (auto simp: confirm_impl_def split: if_splits sum.splits)
qed

lemma fence_fencing:
  assumes "fence cr jo a p = (a', r)"
  shows "a' = a \<or> au_epoch_state a = Active \<and>
    (au_poisoned a' \<and> au_epoch_state a' = Active \<or>
     j_append jo (au_journal a) (EpochFence p) = (au_journal a', Inr ()) \<and> \<not> au_poisoned a' \<and> au_epoch_state a' = Fencing p)"
  using assms
  by (auto simp: fence_def journal_append_def split: sum.splits option.splits if_splits prod.splits epoch_state.splits)

lemma install_fencing:
  assumes "install_epoch_cert cr jo a k c = (a', r)"
  shows "a' = a \<and> \<not> moves_generation r \<or> a' = a\<lparr>au_poisoned := True\<rparr> \<and> fencing_of (au_epoch_state a) = None \<or>
    moves_generation r \<and>
    (au_poisoned a' \<or> j_append jo (au_journal a) (EpochInstalled k) = (au_journal a', Inr ()) \<and>
       fencing_of (au_epoch_state a') = None)"
proof -
  have v: "check_epoch_votes cr k cid nid fd old seen vs = Inl e \<Longrightarrow> \<exists>s. e = EpochInvalid s" for cid nid fd old seen vs e
    by (induction cr k cid nid fd old seen vs rule: check_epoch_votes.induct) (auto split: if_splits option.splits)
  have "moves_generation r \<and>
    (au_poisoned a' \<or> j_append jo (au_journal a) (EpochInstalled k) = (au_journal a', Inr ()) \<and>
       fencing_of (au_epoch_state a') = None)" if "install_commit cr jo a k nx fd = (a', r)" for nx fd
    using that
    by (auto simp: install_commit_def journal_append_def Let_def moves_generation_def
        split: sum.splits if_splits prod.splits)
  then show ?thesis
    using assms
    by (auto simp: install_epoch_cert_def Let_def moves_generation_def dest!: v
        split: if_splits sum.splits option.splits epoch_state.splits) blast+
qed

context durable_journal
begin

definition phase_inv :: "'j node \<Rightarrow> bool" where
  "phase_inv n \<longleftrightarrow> (\<not> au_poisoned (nd_auth n) \<longrightarrow>
     fencing_of (au_epoch_state (nd_auth n)) = fenced_by (recs (au_journal (nd_auth n))))"

text \<open>The records a restart would find.\<close>

definition live :: "'j authority \<Rightarrow> journal_record list" where
  "live a = recs (reopen (au_journal a))"

definition fenced_inv :: "nat \<Rightarrow> epoch_proposal \<Rightarrow> (nat \<times> committee_id \<times> signed_transfer) list \<Rightarrow> 'j node \<Rightarrow> bool" where
  "fenced_inv g p log n \<longleftrightarrow> g \<le> nd_gen n \<and> (nd_gen n = g \<longrightarrow>
     au_epoch_state (nd_auth n) = Fencing p \<and> fenced_by (live (nd_auth n)) = Some p \<and> nd_signed n = log)"

lemma node_journal:
  assumes "node_inv cr cf n"
  shows "\<not> au_poisoned (nd_auth n) \<Longrightarrow> sane (au_journal (nd_auth n)) \<and>
      owner (au_journal (nd_auth n)) = Some (config_identity cr cf) \<and> live (nd_auth n) = recs (au_journal (nd_auth n))"
    and "torn (config_identity cr cf) (au_journal (nd_auth n)) (live (nd_auth n))"
proof -
  from assms obtain k where k: "auth_inv cr cf (nd_auth n) k" by (rule node_invE)
  then obtain rs where "torn (config_identity cr cf) (au_journal (nd_auth n)) rs" unfolding auth_inv_def stored_def by blast
  then show t: "torn (config_identity cr cf) (au_journal (nd_auth n)) (live (nd_auth n))"
    using torn_reopen by (simp add: live_def)
  show "sane (au_journal (nd_auth n)) \<and> owner (au_journal (nd_auth n)) = Some (config_identity cr cf) \<and>
      live (nd_auth n) = recs (au_journal (nd_auth n))" if "\<not> au_poisoned (nd_auth n)"
    using k that reopen_sane by (auto simp: auth_inv_def live_def)
qed

lemma restart_fencing:
  assumes "sane j" "owner j = Some (config_identity cr cf)" "restart_authority cr jo cf j = Inr a"
  shows "fencing_of (au_epoch_state a) = fenced_by (recs j)" "recs (au_journal a) = recs j" "\<not> au_poisoned a"
proof -
  let ?i = "config_identity cr cf"
  obtain j1 r1 where b1: "j_bind jo j ?i = (j1, r1)" by force
  have s1: "r1 = Inr ()" "sane j1" "owner j1 = Some ?i" "recs j1 = recs j"
    using bind_same [OF assms(1,2) b1] by auto
  obtain j2 r2 where b2: "j_bind jo j1 ?i = (j2, r2)" by force
  have s2: "r2 = Inr ()" "recs j2 = recs j" using bind_same [OF s1(2,3) b2] s1(4) by auto
  let ?m = "start_authority cr jo cf j1"
  have m: "au_journal ?m = j2" "au_epoch_state ?m = Active" "\<not> au_poisoned ?m"
    using b2 s2 by (simp_all add: start_authority_def with_journal_def config_identity_def)
  have rp: "replay_all cr ?m (recs j) = Inr a"
    using assms(3) b1 s1 replay_recs [OF s1(2)]
    by (simp add: restart_authority_def recover_def config_identity_def start_authority_def rbind_def)
  then show "fencing_of (au_epoch_state a) = fenced_by (recs j)"
    using replay_all_fencing [OF rp] m by (simp add: fenced_by_def)
  have "au_journal a = j2" "au_poisoned a = au_poisoned ?m"
    using replay_all_refines [of cr ?m "recs j"] rp m by auto
  then show "recs (au_journal a) = recs j" "\<not> au_poisoned a" using s2 m by auto
qed

lemma reopen_live:
  assumes "node_inv cr cf n"
  shows "sane (reopen (au_journal (nd_auth n)))" "owner (reopen (au_journal (nd_auth n))) = Some (config_identity cr cf)"
    "recs (reopen (au_journal (nd_auth n))) = live (nd_auth n)"
  using torn_reopen [OF node_journal(2) [OF assms]] by simp_all

lemma append_fence:
  assumes "node_inv cr cf n" "\<not> au_poisoned (nd_auth n)" "fits r" "j_append jo (au_journal (nd_auth n)) r = (j', Inr ())"
  shows "fenced_by (recs j') = fence_record (fenced_by (recs (au_journal (nd_auth n)))) r"
  using append_ok [OF _ _ assms(3,4)] node_journal(1) [OF assms(1,2)] by auto

lemma live_quiet: "quiet (nd_auth n) a \<Longrightarrow> live a = live (nd_auth n)"
  by (simp add: quiet_def live_def)

lemma live_wrote:
  assumes "node_inv cr cf n" "wrote jo (nd_auth n) r k a" "fits r"
  shows "live a = live (nd_auth n) \<or> live a = live (nd_auth n) @ [r]"
proof -
  have np: "\<not> au_poisoned (nd_auth n)" using assms(2) by (simp add: wrote_def)
  have j: "sane (au_journal (nd_auth n))" "owner (au_journal (nd_auth n)) = Some (config_identity cr cf)"
    and l: "live (nd_auth n) = recs (au_journal (nd_auth n))"
    using node_journal(1) [OF assms(1) np] by simp_all
  from assms(2) consider "j_append jo (au_journal (nd_auth n)) r = (au_journal a, Inr ())"
    | e where "j_append jo (au_journal (nd_auth n)) r = (au_journal a, Inl e)" by (auto simp: wrote_def)
  then show ?thesis
  proof cases
    case 1
    then show ?thesis using append_ok [OF j assms(3)] reopen_sane l by (simp add: live_def)
  next
    case 2
    then show ?thesis using append_err [OF j assms(3)] torn_reopen l by (auto simp: live_def)
  qed
qed

lemma phase_step:
  assumes "auth_step cr jo fits reopen cf n n'" "node_inv cr cf n" "phase_inv n"
  shows "phase_inv n'"
  using assms
proof (induction rule: auth_step.induct)
  case (vote ord n a v)
  show ?case
    using handle_fencing [OF vote.hyps(2)] handle_effect [OF vote.hyps(2)] vote append_fence [of cr cf n "Locked ord" "au_journal a"]
    by (auto simp: phase_inv_def quiet_def wrote_def)
next
  case (refuse ord n a e)
  show ?case
    using handle_fencing [OF refuse.hyps(2)] handle_effect [OF refuse.hyps(2)] refuse append_fence [of cr cf n "Locked ord" "au_journal a"]
    by (auto simp: phase_inv_def quiet_def wrote_def)
next
  case (confirmation v n c m a r)
  show ?case
    using confirm_fencing [OF confirmation.hyps(2)] confirm_effect [OF confirmation.hyps(2)] confirmation
      append_fence [of cr cf n "Confirmed (vf_order v)" "au_journal a"]
    by (auto simp: phase_inv_def quiet_def wrote_def)
next
  case (fencing p n a r)
  show ?case
    using fence_fencing [OF fencing.hyps(2)] fence_effect [OF fencing.hyps(2)] fencing
      append_fence [of cr cf n "EpochFence p" "au_journal a"]
    by (auto simp: phase_inv_def quiet_def wrote_def)
next
  case (install k n c a r)
  show ?case
    using install_fencing [OF install.hyps(2)] install_effect [OF install.hyps(2)] install
      append_fence [of cr cf n "EpochInstalled k" "au_journal a"]
    by (auto simp: phase_inv_def quiet_def wrote_def)
next
  case (compact n a r)
  have "recs j' = [Snapshot (snapshot_data_of (nd_auth n))]"
    if "j_compact jo (au_journal (nd_auth n)) (snapshot_data_of (nd_auth n)) = (j', Inr ())" for j'
    using compact_ok [OF node_journal(2) [OF compact.prems(1)] compact.hyps(1) that] by blast
  then show ?case
    using compact.hyps(2) compact.prems(2)
    by (auto simp: phase_inv_def compact_journal_def fenced_by_def split: if_splits prod.splits sum.splits)
next
  case (restart n a)
  then show ?case
    using restart_fencing [OF reopen_live(1,2) restart.hyps] by (simp add: phase_inv_def)
qed

lemma fenced_step:
  assumes "auth_step cr jo fits reopen cf n n'" "node_inv cr cf n" "fenced_inv g p log n"
  shows "fenced_inv g p log n'"
  using assms
proof (induction rule: auth_step.induct)
  case (vote ord n a v)
  then show ?case using handle_fenced [OF _ vote.hyps(2)] by (auto simp: fenced_inv_def is_ok_def)
next
  case (refuse ord n a e)
  then show ?case using handle_fenced [OF _ refuse.hyps(2)] by (auto simp: fenced_inv_def)
next
  case (confirmation v n c m a r)
  have "fenced_by (live a) = fenced_by (live (nd_auth n))"
    using confirm_effect [OF confirmation.hyps(2)] live_quiet [of n a]
      live_wrote [OF confirmation.prems(1) _ confirmation.hyps(1)] by fastforce
  then show ?case
    using confirm_fencing [OF confirmation.hyps(2)] confirmation.prems(2) by (auto simp: fenced_inv_def fencing_of_Some)
next
  case (fencing p n a r)
  then show ?case using fence_fencing [OF fencing.hyps(2)] by (auto simp: fenced_inv_def)
next
  case (install k n c a r)
  then show ?case using install_fencing [OF install.hyps(2)] by (auto simp: fenced_inv_def)
next
  case (compact n a r)
  then show ?case by (auto simp: fenced_inv_def compact_journal_def split: if_splits)
next
  case (restart n a)
  note r = restart_fencing [OF reopen_live(1,2) [OF restart.prems(1)] restart.hyps]
  have "auth_step cr jo fits reopen cf n (n\<lparr>nd_auth := a\<rparr>)" by (rule auth_step.restart) (rule restart.hyps)
  then have "live a = recs (au_journal a)"
    using node_journal(1) [OF node_inv_step [OF _ restart.prems(1)]] r(3) by fastforce
  then show ?case using r reopen_live(3) [OF restart.prems(1)] restart.prems(2)
    by (auto simp: fenced_inv_def fencing_of_Some)
qed

lemma fenced_reach:
  assumes "auth_reach cr jo fits reopen cf n n'" "node_inv cr cf n" "phase_inv n"
    and "\<not> au_poisoned (nd_auth n)" "au_epoch_state (nd_auth n) = Fencing p"
  shows "fenced_inv (nd_gen n) p (nd_signed n) n'"
  using assms(1) unfolding auth_reach_def
proof (induction rule: rtranclp_induct)
  case base
  then show ?case using assms(3-5) node_journal(1) [OF assms(2,4)] by (auto simp: fenced_inv_def phase_inv_def)
next
  case (step y z)
  then have "node_inv cr cf y" using assms(2) node_inv_reach by (auto simp: auth_reach_def)
  then show ?case using step fenced_step by blast
qed

lemma phase_reach:
  assumes "auth_reach cr jo fits reopen cf n n'" "node_inv cr cf n" "phase_inv n"
  shows "phase_inv n'"
  using assms(1) unfolding auth_reach_def
proof (induction rule: rtranclp_induct)
  case (step y z)
  then have "node_inv cr cf y" using assms(2) node_inv_reach by (auto simp: auth_reach_def)
  then show ?case using step phase_step by blast
qed (rule assms(3))

lemma phase_start:
  assumes "sane j" "owner j = None" "recs j = []" "ident (config_identity cr cf)"
  shows "phase_inv (start_node cr jo cf j)"
proof -
  obtain j' r where b: "j_bind jo j (config_identity cr cf) = (j', r)" by force
  then show ?thesis
    using bind_fresh [OF assms(4,1-3), of j']
    by (cases r) (auto simp: phase_inv_def start_node_def start_authority_def with_journal_def config_identity_def)
qed

end

text \<open>From the moment it is fenced until an installation, an authority's log of signed orders is fixed.\<close>

lemma fenced_life:
  assumes "deployed cr cf fs" "file_reach cr cf fs n" "\<not> au_poisoned (nd_auth n)"
    and "au_epoch_state (nd_auth n) = Fencing p"
    and "auth_reach cr (file_ops cr) (record_fits cr) (file_reopen cr) cf n n'" "nd_gen n' = nd_gen n"
  shows "nd_signed n' = nd_signed n" "au_epoch_state (nd_auth n') = Fencing p"
proof -
  note inv = file_life [OF assms(2,1)]
  have i: "length (config_identity cr cf) = IDENTITY_LEN" and f: "crypto_ok cr" "\<forall>f \<in> set fs. survivable f"
    using assms(1) by (simp_all add: config_identity_def journal_identity_def crypto_lengths deployed_def IDENTITY_LEN_def)
  have s0: "filej.node_inv cr cr cf (start_node cr (file_ops cr) cf (file_new fs))"
    by (rule file_life [OF _ assms(1)]) (simp add: file_reach_def auth_reach_def)
  have "filej.phase_inv cr (start_node cr (file_ops cr) cf (file_new fs))"
    by (rule filej.phase_start) (use file_new_fresh [OF f] i in auto)
  then have "filej.phase_inv cr n"
    using filej.phase_reach [OF _ s0] assms(2) by (simp add: file_reach_def)
  from filej.fenced_reach [OF assms(5) inv this assms(3,4)]
  show "nd_signed n' = nd_signed n" "au_epoch_state (nd_auth n') = Fencing p"
    using assms(6) by (simp_all add: filej.fenced_inv_def)
qed

section \<open>A demonstration epoch change\<close>

definition demo_members :: "(authority_id \<times> bytes) list" where
  "demo_members = map (\<lambda>(i, sk). (i, ed_public demo_crypto sk)) demo_keys"

definition demo_proposal :: "(authority_id \<times> bytes) list \<Rightarrow> epoch_proposal" where
  "demo_proposal ms = \<lparr>ep_network_id = NetworkId ''n'', ep_policy_id = tp_id demo_policy, ep_epoch = 1, ep_next_roster = ms\<rparr>"

lemma demo_same_roster:
  "committee_with_epoch demo_crypto demo_members demo_policy e = Some (demo_committee\<lparr>cm_epoch := e\<rparr>)"
proof -
  have "with_epoch_loop [] {} demo_members = Some demo_members"
    by (simp add: demo_members_def demo_keys_def demo_public MAX_AUTHORITY_ID_BYTES_def MAX_COMMITTEE_MEMBERS_def bt_contains_def)
  moreover have "demo_committee\<lparr>cm_epoch := e\<rparr> = \<lparr>cm_members = demo_members, cm_policy = demo_policy,
      cm_id = committee_id_of demo_crypto (tp_id demo_policy) demo_members, cm_epoch = e\<rparr>"
    using demo_committee_fields by (intro committee.equality) (simp_all add: demo_members_def)
  ultimately show ?thesis by (simp add: committee_with_epoch_def)
qed

definition demo_fenced :: "authority_id \<Rightarrow> bytes \<Rightarrow> file_journal node" where
  "demo_fenced i sk = (demo_voted i sk)
     \<lparr>nd_auth := fst (fence demo_crypto (file_ops demo_crypto) (nd_auth (demo_voted i sk)) (demo_proposal demo_members))\<rparr>"

lemma demo_fence:
  "\<exists>r. fence demo_crypto (file_ops demo_crypto) (nd_auth (demo_voted i sk)) (demo_proposal demo_members)
      = (nd_auth (demo_fenced i sk), r)"
  "au_epoch_state (nd_auth (demo_fenced i sk)) = Fencing (demo_proposal demo_members)"
  "\<not> au_poisoned (nd_auth (demo_fenced i sk))"
proof -
  from demo_voted_is [of i sk] obtain j where j: "nd_auth (demo_voted i sk) = (nd_auth (demo_start i sk))
      \<lparr>au_journal := j, au_locked := bt_insert (slot_of demo_order) demo_order []\<rparr>" "fj_faults j = []" by blast
  have "au_epoch (nd_auth (demo_start i sk)) = 0"
    by (simp add: demo_start_def start_node_def start_authority_def with_journal_def split: prod.splits)
  then show "au_epoch_state (nd_auth (demo_fenced i sk)) = Fencing (demo_proposal demo_members)"
    "\<not> au_poisoned (nd_auth (demo_fenced i sk))"
    using j demo_same_roster [of 1]
    by (simp_all add: demo_fenced_def fence_def demo_proposal_def demo_start_fields journal_append_def file_ops_def
        file_append_def Let_def next_fault_def)
qed (simp add: demo_fenced_def prod_eq_iff)

lemma demo_proposal_fits: "record_fits demo_crypto (EpochFence (demo_proposal demo_members))"
proof -
  have w: "wire_proposal_ok demo_crypto (demo_proposal demo_members)"
    by (auto simp: wire_proposal_ok_def demo_proposal_def demo_policy_def transfer_policy_new_def policy_id_of_def
        crypto_lengths [OF demo_crypto_ok] network_ok_def text_ok_def wire_roster_ok_def roster_item_ok_def
        demo_members_def demo_keys_def MAX_NETWORK_ID_BYTES_def MAX_AUTHORITY_ID_BYTES_def MAX_COMMITTEE_MEMBERS_def
        utf8_ascii as_bytes_def)
  moreover have "length (encode_epoch_proposal (demo_proposal demo_members)) \<le> MAX_RECORD_BYTES"
    using w
    by (simp add: wire_proposal_ok_def encode_epoch_proposal_def put_epoch_proposal_body_def put_roster_def put_roster_item_def
        put_str_def put_bytes_def DOMAIN_EPOCH_PROPOSAL_def domain_tag_def MAX_RECORD_BYTES_def demo_proposal_def
        demo_members_def demo_keys_def crypto_lengths [OF demo_crypto_ok])
  ultimately show ?thesis by (simp add: record_fits_def)
qed

lemma demo_fenced_reach: "file_reach demo_crypto (demo_config i sk) [] (demo_fenced i sk)"
proof -
  obtain r where "fence demo_crypto (file_ops demo_crypto) (nd_auth (demo_voted i sk)) (demo_proposal demo_members)
      = (nd_auth (demo_fenced i sk), r)" using demo_fence(1) by blast
  then have "auth_step demo_crypto (file_ops demo_crypto) (record_fits demo_crypto) (file_reopen demo_crypto)
      (demo_config i sk) (demo_voted i sk) ((demo_voted i sk)\<lparr>nd_auth := nd_auth (demo_fenced i sk)\<rparr>)"
    using demo_proposal_fits by (intro auth_step.fencing)
  then show ?thesis
    using demo_file_reach [of i sk] by (simp add: file_reach_def auth_reach_def demo_fenced_def)
qed

lemma demo_fenced_honest:
  assumes "(h, sk) \<in> set demo_keys"
  shows "honest_voter demo_crypto (demo_config h sk) (demo_fenced h sk) (ct_votes demo_certificate) h"
proof -
  have "nd_signed (demo_fenced h sk) = nd_signed (demo_voted h sk)" by (simp add: demo_fenced_def)
  then show ?thesis
    using demo_honest [OF assms] demo_deployed [of h sk] demo_fenced_reach [of h sk]
    unfolding honest_voter_def log_typed_def votes_unforged_def by auto
qed

section \<open>No certificate after a quorum of fences\<close>

text \<open>C8: a quorum of fences stops certification. Let a quorum of the committee have fenced, with at most \<open>(n - 1) / 3\<close>
  members that are not honest, and let no honest member of that quorum have installed an epoch since. Then every valid certificate of
  the committee, whatever crashes, restarts and compactions those members went through in between, carries the vote of
  an honest fenced member that signed it before its fence.\<close>

theorem fenced_quorum_stops_voting:
  assumes "certificate_is_valid cr k c" "order_ok (ct_order k)" "length (committee_bytes (cm_id c)) = 32"
    and "finite B" "card B \<le> fault_budget (committee_size c)" "F \<subseteq> members c" "committee_quorum c \<le> card F"
    and "\<forall>h \<in> F - B. \<exists>fs p. honest_voter cr (cfg h) (later h) (ct_votes k) h \<and>
      deployed cr (cfg h) fs \<and> file_reach cr (cfg h) fs (nd h) \<and> \<not> au_poisoned (nd_auth (nd h)) \<and>
      au_epoch_state (nd_auth (nd h)) = Fencing p \<and> nd_gen (later h) = nd_gen (nd h) \<and>
      auth_reach cr (file_ops cr) (record_fits cr) (file_reopen cr) (cfg h) (nd h) (later h)"
  shows "\<exists>h g ord. h \<in> F - B \<and> h \<in> signers k \<and> (g, cm_id c, ord) \<in> set (nd_signed (nd h)) \<and>
    st_transfer ord = st_transfer (ct_order k) \<and> st_round ord = st_round (ct_order k)"
proof -
  obtain h where h: "h \<in> F" "h \<in> signers k" "h \<notin> B"
    using cq.honest_intersection [of F c "signers k" B] valid_signers [OF assms(1)] assms(4-7)
    by (auto simp: members_def)
  from assms(8) h obtain fs p where hv: "honest_voter cr (cfg h) (later h) (ct_votes k) h"
    and f: "deployed cr (cfg h) fs" "file_reach cr (cfg h) fs (nd h)" "\<not> au_poisoned (nd_auth (nd h))"
      "au_epoch_state (nd_auth (nd h)) = Fencing p"
      "auth_reach cr (file_ops cr) (record_fits cr) (file_reopen cr) (cfg h) (nd h) (later h)"
      "nd_gen (later h) = nd_gen (nd h)" by blast
  from signer_vote [OF assms(1) h(2)] obtain v where v: "v \<in> set (ct_votes k)" "vt_authority v = h"
    "vote_matches cr v (ct_order k) c" .
  from honest_vote_logged [OF hv v assms(2,3)] obtain g ord where
    "(g, cm_id c, ord) \<in> set (nd_signed (later h))" "st_transfer ord = st_transfer (ct_order k)"
    "st_round ord = st_round (ct_order k)" .
  then show ?thesis using fenced_life(1) [OF f] h by auto
qed

theorem fenced_quorum_stops_voting_witness:
  "\<exists>h g ord. h \<in> {''u'', ''v'', ''w''} - {''w''} \<and> h \<in> signers demo_certificate \<and>
    (g, cm_id demo_committee, ord) \<in> set (nd_signed (demo_fenced h (the (map_of demo_keys h)))) \<and>
    st_transfer ord = demo_transfer \<and> st_round ord = st_round demo_order"
proof -
  let ?sk = "\<lambda>h. the (map_of demo_keys h)"
  have k: "(h, ?sk h) \<in> set demo_keys" if "h \<in> {''u'', ''v'', ''w''} - {''w''}" for h
    using that by (auto simp: demo_keys_def)
  have "\<exists>fs p. honest_voter demo_crypto (demo_config h (?sk h)) (demo_fenced h (?sk h))
        (ct_votes demo_certificate) h \<and>
      deployed demo_crypto (demo_config h (?sk h)) fs \<and>
      file_reach demo_crypto (demo_config h (?sk h)) fs (demo_fenced h (?sk h)) \<and>
      \<not> au_poisoned (nd_auth (demo_fenced h (?sk h))) \<and>
      au_epoch_state (nd_auth (demo_fenced h (?sk h))) = Fencing p \<and>
      nd_gen (demo_fenced h (?sk h)) = nd_gen (demo_fenced h (?sk h)) \<and>
      auth_reach demo_crypto (file_ops demo_crypto) (record_fits demo_crypto) (file_reopen demo_crypto)
        (demo_config h (?sk h)) (demo_fenced h (?sk h)) (demo_fenced h (?sk h))"
    if "h \<in> {''u'', ''v'', ''w''} - {''w''}" for h
    using demo_fenced_honest [OF k [OF that]] demo_deployed demo_fenced_reach demo_fence(2,3)
    unfolding auth_reach_def by blast
  note all = ballI [OF this]
  show ?thesis
    using fenced_quorum_stops_voting [where B = "{''w''}" and F = "{''u'', ''v'', ''w''}",
        OF demo_certificate_valid _ demo_sizes(3) _ _ _ _ all] demo_order_ok
    by (auto simp: demo_sizes demo_certificate_def fault_budget_def)
qed

section \<open>Installation\<close>

text \<open>The votes of an epoch certificate that counts: matching fields, distinct old members, valid signatures.\<close>

definition epoch_vote_counts :: "crypto \<Rightarrow> epoch_cert \<Rightarrow> committee \<Rightarrow> committee_id \<Rightarrow> epoch_vote \<Rightarrow> bool" where
  "epoch_vote_counts cr k old nid v \<longleftrightarrow> ev_epoch v = ek_epoch k \<and> ev_committee_id v = cm_id old \<and>
     ev_next_committee_id v = nid \<and> ev_frontier_digest v = frontier_digest cr (ek_frontier k) \<and>
     (\<exists>key. committee_key_of old (ev_authority v) = Some key \<and> epoch_vote_verify_signature cr v key = Inr ())"

lemma check_epoch_votes_ok:
  "check_epoch_votes cr k (cm_id old) nid (frontier_digest cr (ek_frontier k)) old seen vs = Inr s \<longleftrightarrow>
     (\<forall>v \<in> set vs. epoch_vote_counts cr k old nid v) \<and> distinct (map ev_authority vs) \<and>
     set (map ev_authority vs) \<inter> set seen = {} \<and> s = rev (map ev_authority vs) @ seen"
proof (induction vs arbitrary: seen)
  case (Cons v vs)
  show ?case
    by (simp add: Cons.IH epoch_vote_counts_def is_ok_def split: option.splits sum.splits) blast
qed auto

definition epoch_quorum :: "crypto \<Rightarrow> epoch_cert \<Rightarrow> committee \<Rightarrow> committee_id \<Rightarrow> bool" where
  "epoch_quorum cr k old nid \<longleftrightarrow> (\<forall>v \<in> set (ek_votes k). epoch_vote_counts cr k old nid v) \<and>
     distinct (map ev_authority (ek_votes k)) \<and> committee_quorum old \<le> length (ek_votes k)"

lemma check_epoch_votes_quorum:
  "(\<exists>s. check_epoch_votes cr k (cm_id old) nid (frontier_digest cr (ek_frontier k)) old [] (ek_votes k) = Inr s \<and>
      \<not> length s < committee_quorum old) \<longleftrightarrow> epoch_quorum cr k old nid"
  by (auto simp: check_epoch_votes_ok epoch_quorum_def)

lemma install_commits:
  assumes "\<not> au_poisoned a" "\<forall>cert nx fd. au_epoch_state a \<noteq> Installing cert nx fd"
    and "cm_id old = au_committee_id a" "ek_epoch k = au_epoch a + 1"
    and "committee_with_epoch cr (ek_next_roster k) (au_policy a) (ek_epoch k) = Some nx" "epoch_quorum cr k old (cm_id nx)"
  shows "install_epoch_cert cr jo a k old = install_commit cr jo a k nx (frontier_digest cr (ek_frontier k))"
proof -
  obtain s where "check_epoch_votes cr k (au_committee_id a) (cm_id nx) (frontier_digest cr (ek_frontier k)) old [] (ek_votes k) = Inr s"
    "\<not> length s < committee_quorum old"
    using assms(3,6) check_epoch_votes_quorum [of cr k old "cm_id nx"] by auto
  then show ?thesis
    using assms by (simp add: install_epoch_cert_def Let_def split: epoch_state.splits)
qed

lemma install_needs:
  assumes "install_epoch_cert cr jo a k old = (b, Inr r)" "r = Installed \<or> r = InstallPending"
  obtains nx where "cm_id old = au_committee_id a" "ek_epoch k = au_epoch a + 1"
    "committee_with_epoch cr (ek_next_roster k) (au_policy a) (ek_epoch k) = Some nx" "epoch_quorum cr k old (cm_id nx)"
    "install_commit cr jo a k nx (frontier_digest cr (ek_frontier k)) = (b, Inr r)"
proof -
  from assms obtain nx s where nx: "cm_id old = au_committee_id a" "ek_epoch k = au_epoch a + 1"
    "committee_with_epoch cr (ek_next_roster k) (au_policy a) (ek_epoch k) = Some nx"
    "check_epoch_votes cr k (cm_id old) (cm_id nx) (frontier_digest cr (ek_frontier k)) old [] (ek_votes k) = Inr s"
    "\<not> length s < committee_quorum old"
    "install_commit cr jo a k nx (frontier_digest cr (ek_frontier k)) = (b, Inr r)"
    by (auto simp: install_epoch_cert_def Let_def split: if_splits option.splits sum.splits epoch_state.splits)
  then show ?thesis using that [OF nx(1-3)] check_epoch_votes_quorum [of cr k old "cm_id nx"] by blast
qed

lemma install_commit_result:
  assumes "install_commit cr jo a k nx fd = (b, Inr r)"
  shows "au_locked b = []" "au_ledger b = au_ledger a" "au_confirmed b = au_confirmed a"
    and "r = Installed \<and> au_epoch_state b = Active \<and> au_epoch b = ek_epoch k \<and> au_committee_id b = cm_id nx \<and>
        list_all (\<lambda>(acct, sq). sq \<le> ledger_next_seq (au_ledger a) acct) (ek_frontier k) \<or>
      r = InstallPending \<and> au_epoch_state b = Installing k nx fd \<and> \<not> install_covered b \<and>
        au_committee_id b = au_committee_id a \<and> au_epoch b = au_epoch a"
  using assms
  by (auto simp: install_commit_def journal_append_def Let_def complete_install_def install_covered_def
      split: sum.splits if_splits prod.splits)

text \<open>C9: an authority moves towards a new committee on exactly the certificates that name the next
  epoch, a roster that builds, and the signed votes of a quorum of distinct members of its
  current committee for that roster and that frontier; and what it then is.\<close>

theorem install_exactly_on_quorum:
  assumes "\<not> au_poisoned a" "\<forall>cert nx fd. au_epoch_state a \<noteq> Installing cert nx fd"
    and "j_append jo (au_journal a) (EpochInstalled k) = (j', Inr ())"
  shows "((\<exists>b. install_epoch_cert cr jo a k old \<in> {(b, Inr Installed), (b, Inr InstallPending)})
      \<longleftrightarrow> cm_id old = au_committee_id a \<and> ek_epoch k = au_epoch a + 1 \<and>
        (\<exists>nx. committee_with_epoch cr (ek_next_roster k) (au_policy a) (ek_epoch k) = Some nx \<and>
          epoch_quorum cr k old (cm_id nx))) \<and>
    (\<forall>b. install_epoch_cert cr jo a k old = (b, Inr Installed) \<longrightarrow> au_epoch_state b = Active \<and> au_locked b = [] \<and>
      au_epoch b = ek_epoch k \<and> au_ledger b = au_ledger a \<and> au_confirmed b = au_confirmed a \<and>
      Some (au_committee_id b) = map_option cm_id (committee_with_epoch cr (ek_next_roster k) (au_policy a) (ek_epoch k)) \<and>
      (\<forall>(acct, sq) \<in> set (ek_frontier k). sq \<le> ledger_next_seq (au_ledger a) acct)) \<and>
    (\<forall>b. install_epoch_cert cr jo a k old = (b, Inr InstallPending) \<longrightarrow>
      epoch_gate b = GateReject (EpochCatchingUp (au_epoch a)) \<and>
      au_locked b = [] \<and> au_committee_id b = au_committee_id a \<and> au_ledger b = au_ledger a)"
proof (intro conjI allI impI)
  show "(\<exists>b. install_epoch_cert cr jo a k old \<in> {(b, Inr Installed), (b, Inr InstallPending)})
      \<longleftrightarrow> cm_id old = au_committee_id a \<and> ek_epoch k = au_epoch a + 1 \<and>
        (\<exists>nx. committee_with_epoch cr (ek_next_roster k) (au_policy a) (ek_epoch k) = Some nx \<and>
          epoch_quorum cr k old (cm_id nx))" (is "?l \<longleftrightarrow> ?r")
  proof
    show "?l \<Longrightarrow> ?r" by (auto elim!: install_needs)
    show "?r \<Longrightarrow> ?l" using install_commits [OF assms(1,2)] assms(3)
      by (auto simp: install_commit_def journal_append_def Let_def)
  qed
next
  fix b assume h: "install_epoch_cert cr jo a k old = (b, Inr Installed)"
  from install_needs [OF h] obtain nx where
    "committee_with_epoch cr (ek_next_roster k) (au_policy a) (ek_epoch k) = Some nx"
    "install_commit cr jo a k nx (frontier_digest cr (ek_frontier k)) = (b, Inr Installed)" by blast
  then show "au_epoch_state b = Active" "au_locked b = []" "au_epoch b = ek_epoch k" "au_ledger b = au_ledger a"
    "au_confirmed b = au_confirmed a"
    "Some (au_committee_id b) = map_option cm_id (committee_with_epoch cr (ek_next_roster k) (au_policy a) (ek_epoch k))"
    "\<forall>(acct, sq) \<in> set (ek_frontier k). sq \<le> ledger_next_seq (au_ledger a) acct"
    using install_commit_result [of cr jo a k nx "frontier_digest cr (ek_frontier k)" b Installed]
    by (auto simp: list_all_iff)
next
  fix b assume h: "install_epoch_cert cr jo a k old = (b, Inr InstallPending)"
  from install_needs [OF h] obtain nx where
    "install_commit cr jo a k nx (frontier_digest cr (ek_frontier k)) = (b, Inr InstallPending)" by blast
  then show "epoch_gate b = GateReject (EpochCatchingUp (au_epoch a))" "au_locked b = []"
    "au_committee_id b = au_committee_id a" "au_ledger b = au_ledger a"
    using install_commit_result [of cr jo a k nx "frontier_digest cr (ek_frontier k)" b InstallPending]
    by (auto simp: epoch_gate_def)
qed

section \<open>A whole epoch change\<close>

text \<open>
  The operator's sequence: every authority fences on the proposal, the votes of the fenced ones
  are put into a certificate over the first one's frontier, and every authority installs it.
\<close>

definition epoch_votes_of :: "(epoch_error + epoch_vote) list \<Rightarrow> epoch_vote list" where
  "epoch_votes_of rs = List.map_filter (\<lambda>r. case r of Inl _ \<Rightarrow> None | Inr v \<Rightarrow> Some v) rs"

definition epoch_change_round ::
    "crypto \<Rightarrow> 'j journal \<Rightarrow> 'j authority list \<Rightarrow> epoch_proposal \<Rightarrow> committee \<Rightarrow>
      'j authority list \<times> epoch_cert \<times> (epoch_error + install_outcome) list" where
  "epoch_change_round cr jo as p c =
     (let fenced = map (\<lambda>a. fst (fence cr jo a p)) as;
          cert = \<lparr>ek_epoch = ep_epoch p, ek_next_roster = ep_next_roster p, ek_frontier = au_frontier (hd fenced),
                  ek_votes = epoch_votes_of (map (sign_epoch_vote cr) fenced)\<rparr>;
          rs = map (\<lambda>a. install_epoch_cert cr jo a cert c) fenced
      in (map fst rs, cert, map snd rs))"

definition changeable :: "crypto \<Rightarrow> committee \<Rightarrow> epoch_proposal \<Rightarrow> 'j authority \<Rightarrow> bool" where
  "changeable cr c p a \<longleftrightarrow> \<not> au_poisoned a \<and> au_epoch_state a = Active \<and> au_committee_id a = cm_id c \<and>
     au_policy a = cm_policy c \<and> committee_key_of c (au_id a) = Some (ed_public cr (au_signing a)) \<and>
     ep_epoch p = au_epoch a + 1"

definition fenced_on :: "epoch_proposal \<Rightarrow> mem_journal authority \<Rightarrow> mem_journal authority" where
  "fenced_on p a = a\<lparr>au_journal := fst (mem_append (au_journal a) (EpochFence p)), au_epoch_state := Fencing p\<rparr>"

lemma changeable_fences:
  assumes "changeable cr c p a" "ep_policy_id p = tp_id (cm_policy c)"
    and "committee_with_epoch cr (ep_next_roster p) (cm_policy c) (ep_epoch p) = Some nx"
  shows "fence cr mem_ops a p = (fenced_on p a, Inr (Fenced (cm_id nx)))"
    and "sign_epoch_vote cr (fenced_on p a) =
      Inr (epoch_vote_sign cr (au_id a) (cm_id c) (ep_epoch p) (cm_id nx) (au_frontier a) (au_signing a))"
  using assms
  by (simp_all add: changeable_def fence_def fenced_on_def journal_append_def mem_append_ok mem_append_def
      sign_epoch_vote_def au_frontier_def)

lemma frontier_covered: "list_all (\<lambda>(acct, sq). sq \<le> ledger_next_seq (au_ledger a) acct) (au_frontier a)"
  by (auto simp: list_all_iff au_frontier_def)

lemma signed_vote_counts:
  assumes "crypto_ok cr" "changeable cr c p a" "ek_epoch k = ep_epoch p" "ek_frontier k = au_frontier a"
  shows "epoch_vote_counts cr k c nid (epoch_vote_sign cr (au_id a) (cm_id c) (ep_epoch p) nid (au_frontier a) (au_signing a))"
proof -
  note v = epoch_vote_sign_verifies [OF assms(1), of "au_id a" "cm_id c" "ep_epoch p" nid "au_frontier a" "au_signing a"]
  show ?thesis
    unfolding epoch_vote_counts_def using assms(2-4) v
    by (simp add: changeable_def) (simp add: epoch_vote_sign_def Let_def)
qed

lemma mem_install:
  assumes "changeable cr c p a" "ek_epoch k = ep_epoch p" "ek_next_roster k = ep_next_roster p" "ek_frontier k = au_frontier a"
    and "committee_with_epoch cr (ep_next_roster p) (cm_policy c) (ep_epoch p) = Some nx" "epoch_quorum cr k c (cm_id nx)"
  shows "\<exists>b. install_epoch_cert cr mem_ops (fenced_on p a) k c = (b, Inr Installed) \<and> \<not> au_poisoned b \<and>
    au_epoch_state b = Active \<and> au_committee_id b = cm_id nx \<and> au_epoch b = ep_epoch p \<and> same_config a b \<and>
    au_ledger b = au_ledger a \<and> au_confirmed b = au_confirmed a \<and> au_locked b = []"
proof -
  have "install_epoch_cert cr mem_ops (fenced_on p a) k c =
      install_commit cr mem_ops (fenced_on p a) k nx (frontier_digest cr (ek_frontier k))"
    by (rule install_commits) (use assms in \<open>auto simp: fenced_on_def changeable_def\<close>)
  moreover have "install_covered ((fenced_on p a)\<lparr>au_journal := j, au_locked := [], au_last_epoch_cert := Some k,
      au_epoch_state := Installing k nx fd\<rparr>)" for j fd
    using frontier_covered [of a] assms(4) by (simp add: install_covered_def fenced_on_def)
  ultimately show ?thesis
    using assms(1,2)
    by (simp add: install_commit_def journal_append_def mem_append_ok Let_def complete_install_def fenced_on_def
        changeable_def)
qed

text \<open>The whole sequence succeeds; shared by the two properties below.\<close>

lemma epoch_round_installs:
  assumes "crypto_ok cr" "\<forall>a \<in> set as. changeable cr c p a \<and> au_frontier a = fr" "distinct (map au_id as)"
    and "committee_quorum c \<le> length as" "ep_policy_id p = tp_id (cm_policy c)"
    and "committee_with_epoch cr (ep_next_roster p) (cm_policy c) (ep_epoch p) = Some nx"
  shows "\<exists>as' k. epoch_change_round cr mem_ops as p c = (as', k, replicate (length as) (Inr Installed)) \<and>
    list_all2 (\<lambda>a b. \<not> au_poisoned b \<and> au_epoch_state b = Active \<and> au_committee_id b = cm_id nx \<and>
      au_epoch b = ep_epoch p \<and> same_config a b \<and> au_ledger b = au_ledger a \<and> au_confirmed b = au_confirmed a \<and>
      au_locked b = []) as as'"
proof -
  let ?vote = "\<lambda>a. epoch_vote_sign cr (au_id a) (cm_id c) (ep_epoch p) (cm_id nx) (au_frontier a) (au_signing a)"
  let ?k = "\<lparr>ek_epoch = ep_epoch p, ek_next_roster = ep_next_roster p, ek_frontier = fr, ek_votes = map ?vote as\<rparr>"
  have ne: "as \<noteq> []" using assms(4) quorum_pos [of c] by auto
  have f: "fst (fence cr mem_ops a p) = fenced_on p a" "sign_epoch_vote cr (fenced_on p a) = Inr (?vote a)"
    if "a \<in> set as" for a
    using changeable_fences [of cr c p a nx] assms(2,5,6) that by auto
  have fenced: "map (\<lambda>a. fst (fence cr mem_ops a p)) as = map (fenced_on p) as" using f(1) by simp
  have votes: "epoch_votes_of (map (sign_epoch_vote cr) (map (fenced_on p) as)) = map ?vote as"
    using f(2) unfolding epoch_votes_of_def by (induction as) (simp_all add: List.map_filter_def)
  have fr: "au_frontier (hd (map (fenced_on p) as)) = fr"
    using ne assms(2) by (cases as) (auto simp: au_frontier_def fenced_on_def)
  have "\<forall>v \<in> set (map ?vote as). epoch_vote_counts cr ?k c (cm_id nx) v"
    using assms(1,2) by (auto intro!: signed_vote_counts)
  moreover have "map ev_authority (map ?vote as) = map au_id as" by (simp add: epoch_vote_sign_def Let_def)
  ultimately have q: "epoch_quorum cr ?k c (cm_id nx)" using assms(3,4) by (simp add: epoch_quorum_def del: map_map)
  let ?bs = "map (\<lambda>a. install_epoch_cert cr mem_ops (fenced_on p a) ?k c) as"
  have i: "\<exists>b. install_epoch_cert cr mem_ops (fenced_on p a) ?k c = (b, Inr Installed) \<and> \<not> au_poisoned b \<and>
    au_epoch_state b = Active \<and> au_committee_id b = cm_id nx \<and> au_epoch b = ep_epoch p \<and> same_config a b \<and>
    au_ledger b = au_ledger a \<and> au_confirmed b = au_confirmed a \<and> au_locked b = []" if "a \<in> set as" for a
    by (rule mem_install [OF _ _ _ _ assms(6) q]) (use assms(2) that in auto)
  have "epoch_change_round cr mem_ops as p c = (map fst ?bs, ?k, map snd ?bs)"
    unfolding epoch_change_round_def Let_def fenced votes fr by (simp add: comp_def)
  moreover have "map snd ?bs = replicate (length as) (Inr Installed)"
    unfolding map_map map_replicate_const [symmetric] by (rule map_cong) (use i in fastforce)+
  moreover have "list_all2 (\<lambda>a b. \<not> au_poisoned b \<and> au_epoch_state b = Active \<and> au_committee_id b = cm_id nx \<and>
      au_epoch b = ep_epoch p \<and> same_config a b \<and> au_ledger b = au_ledger a \<and> au_confirmed b = au_confirmed a \<and>
      au_locked b = []) as (map fst ?bs)"
    unfolding map_map list_all2_map2 list_all2_same using i by fastforce
  ultimately show ?thesis by auto
qed

text \<open>C10: an epoch change completes: when a quorum of the committee, active and with equal frontiers,
  receives a proposal for the next epoch whose roster builds, every one of them fences, votes
  and installs; each ends active in the new epoch under the new committee with its ledger and
  confirmations unchanged and no lock left.\<close>

theorem epoch_change_completes:
  assumes "crypto_ok cr" "\<forall>a \<in> set as. changeable cr c p a \<and> au_frontier a = fr" "distinct (map au_id as)"
    and "committee_quorum c \<le> length as" "ep_policy_id p = tp_id (cm_policy c)"
    and "committee_with_epoch cr (ep_next_roster p) (cm_policy c) (ep_epoch p) = Some nx"
  shows "\<exists>as' k. epoch_change_round cr mem_ops as p c = (as', k, replicate (length as) (Inr Installed)) \<and>
    list_all2 (\<lambda>a b. \<not> au_poisoned b \<and> au_epoch_state b = Active \<and> au_committee_id b = cm_id nx \<and>
      au_epoch b = ep_epoch p \<and> same_config a b \<and> au_ledger b = au_ledger a \<and> au_confirmed b = au_confirmed a \<and>
      au_locked b = []) as as'"
  using epoch_round_installs [OF assms] .

text \<open>The next roster: the last member changes its key.\<close>

definition demo_next :: "(authority_id \<times> bytes) list" where
  "demo_next = [(''u'', ed_public demo_crypto [6]), (''v'', ed_public demo_crypto [7]),
     (''w'', ed_public demo_crypto [8]), (''x'', ed_public demo_crypto [10])]"

lemma checksum_pad_inj:
  "foldl (\<lambda>h b. 31 * h + b) (x :: u8) (replicate n 0) = foldl (\<lambda>h b. 31 * h + b) y (replicate n 0) \<Longrightarrow> x = y"
proof (induction n arbitrary: x y)
  case (Suc n)
  then have "31 * x = 31 * y" by simp
  then have "223 * (31 * x) = 223 * (31 * y)" by simp
  moreover have "(223 * 31 :: u8) = 1" by simp
  ultimately show ?case unfolding mult.assoc [symmetric] by (metis mult_1)
qed simp

lemma demo_ids_differ: "committee_id_of demo_crypto (tp_id demo_policy) demo_next \<noteq> cm_id demo_committee"
proof
  assume "committee_id_of demo_crypto (tp_id demo_policy) demo_next = cm_id demo_committee"
  then show False
    unfolding demo_committee_fields
    by (simp add: committee_id_of_def demo_next_def demo_keys_def demo_public demo_crypto_def pad_to_def checksum_def)
      (drule checksum_pad_inj, simp)
qed

lemma demo_next_builds:
  "committee_with_epoch demo_crypto demo_next demo_policy 1 = Some \<lparr>cm_members = demo_next, cm_policy = demo_policy,
     cm_id = committee_id_of demo_crypto (tp_id demo_policy) demo_next, cm_epoch = 1\<rparr>"
  by (simp add: committee_with_epoch_def demo_next_def demo_public MAX_AUTHORITY_ID_BYTES_def MAX_COMMITTEE_MEMBERS_def
      bt_contains_def)

lemma demo_changeable:
  assumes "a \<in> set demo_authorities"
  shows "changeable demo_crypto demo_committee (demo_proposal ms) a \<and> au_frontier a = [(''a'', 0), (''b'', 0)]"
proof -
  have "ready demo_crypto demo_committee (demo_order_at 0 3) a" using demo_ready [OF assms, of 3] by simp
  moreover have "au_ledger a = demo_genesis" "au_epoch a = 0"
    using assms by (auto simp: demo_authorities_def demo_keys_def demo_mem_fields start_authority_def with_journal_def
        demo_config_def split: prod.splits)
  ultimately show ?thesis
    by (simp add: ready_def settles_def changeable_def demo_proposal_def au_frontier_def demo_genesis_def balances_def
        ledger_next_seq_def)
qed

theorem epoch_change_completes_witness:
  "\<exists>as' k. epoch_change_round demo_crypto mem_ops demo_authorities (demo_proposal demo_next) demo_committee =
      (as', k, replicate 4 (Inr Installed)) \<and> (\<forall>b \<in> set as'. au_epoch b = 1)"
proof -
  have "committee_with_epoch demo_crypto (ep_next_roster (demo_proposal demo_next)) (cm_policy demo_committee)
      (ep_epoch (demo_proposal demo_next)) = Some \<lparr>cm_members = demo_next, cm_policy = demo_policy,
     cm_id = committee_id_of demo_crypto (tp_id demo_policy) demo_next, cm_epoch = 1\<rparr>"
    using demo_next_builds by (simp add: demo_proposal_def demo_committee_fields)
  from epoch_change_completes [OF demo_crypto_ok _ demo_roster(1) _ _ this, of "[(''a'', 0), (''b'', 0)]"]
  obtain as' k where "epoch_change_round demo_crypto mem_ops demo_authorities (demo_proposal demo_next) demo_committee =
      (as', k, replicate 4 (Inr Installed))" "list_all2 (\<lambda>a b. au_epoch b = 1) demo_authorities as'"
    using demo_changeable [of _ demo_next]
    by (auto simp: demo_sizes demo_roster demo_proposal_def demo_committee_fields list_all2_conv_all_nth)
  then show ?thesis by (auto simp: list_all2_conv_all_nth in_set_conv_nth)
qed

definition demo_authority :: "mem_journal authority" where
  "demo_authority = start_authority demo_crypto mem_ops (demo_config ''u'' [6]) mem_new"

definition demo_epoch_cert :: "frontier \<Rightarrow> epoch_cert" where
  "demo_epoch_cert fr = \<lparr>ek_epoch = 1, ek_next_roster = demo_next, ek_frontier = fr,
     ek_votes = map (\<lambda>(i, sk). epoch_vote_sign demo_crypto i (cm_id demo_committee) 1
       (committee_id_of demo_crypto (tp_id demo_policy) demo_next) fr sk) demo_keys\<rparr>"

lemma demo_epoch_quorum:
  "epoch_quorum demo_crypto (demo_epoch_cert fr) demo_committee (committee_id_of demo_crypto (tp_id demo_policy) demo_next)"
proof -
  have "committee_key_of demo_committee i = Some (ed_public demo_crypto sk)" if "(i, sk) \<in> set demo_keys" for i sk
    using that by (auto simp: committee_key_of_def demo_committee_fields demo_keys_def)
  then have "epoch_vote_counts demo_crypto (demo_epoch_cert fr) demo_committee
      (committee_id_of demo_crypto (tp_id demo_policy) demo_next) v" if "v \<in> set (ek_votes (demo_epoch_cert fr))" for v
    using that epoch_vote_sign_verifies [OF demo_crypto_ok]
    by (auto simp: epoch_vote_counts_def demo_epoch_cert_def) (auto simp: epoch_vote_sign_def Let_def)
  moreover have "map ev_authority (ek_votes (demo_epoch_cert fr)) = [''u'', ''v'', ''w'', ''x'']"
    by (simp add: demo_epoch_cert_def demo_keys_def epoch_vote_sign_def Let_def)
  ultimately show ?thesis
    by (simp add: epoch_quorum_def demo_sizes) (simp add: demo_epoch_cert_def demo_keys_def)
qed

lemma demo_authority_fields [simp]:
  "\<not> au_poisoned demo_authority" "au_epoch_state demo_authority = Active" "au_policy demo_authority = demo_policy"
  "au_committee_id demo_authority = cm_id demo_committee" "au_epoch demo_authority = 0" "au_ledger demo_authority = demo_genesis"
  "au_confirmed demo_authority = []" "au_id demo_authority = ''u''" "au_signing demo_authority = [6]"
  unfolding demo_authority_def
  by (simp_all add: demo_mem_fields) (simp add: start_authority_def with_journal_def split: prod.splits)

theorem install_exactly_on_quorum_witness:
  "\<exists>b. install_epoch_cert demo_crypto mem_ops demo_authority (demo_epoch_cert [(''a'', 1)]) demo_committee
    \<in> {(b, Inr Installed), (b, Inr InstallPending)}"
  using install_exactly_on_quorum [where a = demo_authority and jo = mem_ops and old = demo_committee and cr = demo_crypto
      and k = "demo_epoch_cert [(''a'', 1)]", OF demo_authority_fields(1) _ mem_append_ok]
    demo_epoch_quorum [of "[(''a'', 1)]"] demo_next_builds
  by (simp add: demo_epoch_cert_def)

section \<open>An unchanged roster\<close>

lemma changeable_locked_on [simp]: "changeable cr c p (locked_on ord a) = changeable cr c p a"
  "au_frontier (locked_on ord a) = au_frontier a"
  by (simp_all add: changeable_def locked_on_def au_frontier_def)

lemma ready_after_change:
  assumes "ready cr c ord a" "\<not> au_poisoned b" "au_epoch_state b = Active" "au_committee_id b = cm_id c" "same_config a b"
    "au_ledger b = au_ledger a" "au_confirmed b = au_confirmed a" "au_locked b = []"
  shows "ready cr c ord b"
  using assms by (simp add: ready_def settles_def)

text \<open>C11: agreement does not survive an epoch change that keeps the roster: the committee
  identifier does not depend on the epoch and installation drops the locks, so a quorum of
  authorities, all honest, certifies two conflicting orders for one (account, sequence, round)
  under one committee identifier, one before and one after the change.\<close>

theorem same_roster_change_equivocates:
  assumes "crypto_ok cr" "\<forall>a \<in> set as. ready cr c o1 a \<and> ready cr c o2 a \<and> changeable cr c p a \<and> au_frontier a = fr"
    and "distinct (map au_id as)" "committee_quorum c \<le> length as" "slot_of o1 = slot_of o2"
    and "order_verify cr o1 (cm_policy c) = Inr ()" "order_verify cr o2 (cm_policy c) = Inr ()"
    and "tr_amount (st_transfer o1) \<noteq> 0" "tr_amount (st_transfer o2) \<noteq> 0" "ep_policy_id p = tp_id (cm_policy c)"
    and "committee_with_epoch cr (ep_next_roster p) (cm_policy c) (ep_epoch p) = Some nx" "cm_id nx = cm_id c"
  shows "\<exists>as1 vs1 as2 k as3 vs2.
    collect_votes cr mem_ops o1 as = (as1, vs1, 0, False) \<and>
    epoch_change_round cr mem_ops as1 p c = (as2, k, replicate (length as) (Inr Installed)) \<and>
    collect_votes cr mem_ops o2 as2 = (as3, vs2, 0, False) \<and>
    certificate_is_valid cr \<lparr>ct_order = o1, ct_votes = vs1\<rparr> c \<and> certificate_is_valid cr \<lparr>ct_order = o2, ct_votes = vs2\<rparr> c"
proof -
  let ?as1 = "map (locked_on o1) as" and ?vs1 = "map (\<lambda>a. sign_vote cr a o1) as"
  have c1: "collect_votes cr mem_ops o1 as = (?as1, ?vs1, 0, False)"
    using assms(2) by (intro collect_ready [OF _ assms(6,8)]) auto
  have ids: "map au_id ?as1 = map au_id as" by simp
  obtain as2 k where k: "epoch_change_round cr mem_ops ?as1 p c = (as2, k, replicate (length as) (Inr Installed))"
    and rel: "list_all2 (\<lambda>a b. \<not> au_poisoned b \<and> au_epoch_state b = Active \<and> au_committee_id b = cm_id c \<and>
      same_config a b \<and> au_ledger b = au_ledger a \<and> au_confirmed b = au_confirmed a \<and> au_locked b = []) ?as1 as2"
    using epoch_round_installs [OF assms(1), of ?as1 c p fr nx] assms(2-4,10-12)
    by (auto simp: comp_def list_all2_conv_all_nth)
  have rel': "list_all2 (\<lambda>a b. ready cr c o2 b \<and> au_id b = au_id a) as as2"
  proof (rule list.rel_mono_strong [OF rel [unfolded list_all2_map1]])
    fix a b assume "a \<in> set as" and b: "\<not> au_poisoned b \<and> au_epoch_state b = Active \<and> au_committee_id b = cm_id c \<and>
      same_config (locked_on o1 a) b \<and> au_ledger b = au_ledger (locked_on o1 a) \<and>
      au_confirmed b = au_confirmed (locked_on o1 a) \<and> au_locked b = []"
    then have "ready cr c o2 a" using assms(2) by blast
    then show "ready cr c o2 b \<and> au_id b = au_id a"
      using ready_after_change [of cr c o2 a b] b by (simp add: locked_on_def)
  qed
  have r2: "\<forall>a \<in> set as2. ready cr c o2 a" and id2: "map au_id as2 = map au_id as" and l2: "length as2 = length as"
    using rel' by (auto simp: list_all2_conv_all_nth in_set_conv_nth intro!: nth_equalityI)
  have c2: "collect_votes cr mem_ops o2 as2 = (map (locked_on o2) as2, map (\<lambda>a. sign_vote cr a o2) as2, 0, False)"
    by (rule collect_ready [OF r2 assms(7,9)])
  have "certificate_is_valid cr \<lparr>ct_order = o1, ct_votes = ?vs1\<rparr> c"
    using ready_certificate [OF assms(1) _ assms(6,3,4)] assms(2)
    by (simp add: certificate_assemble_def Let_def split: if_splits)
  moreover have "certificate_is_valid cr \<lparr>ct_order = o2, ct_votes = map (\<lambda>a. sign_vote cr a o2) as2\<rparr> c"
    using ready_certificate [OF assms(1) r2 assms(7)] assms(3,4) id2 l2
    by (simp add: certificate_assemble_def Let_def split: if_splits)
  ultimately show ?thesis using c1 c2 k by blast
qed

theorem same_roster_change_equivocates_witness:
  "\<exists>as1 vs1 as2 k as3 vs2.
    collect_votes demo_crypto mem_ops (demo_order_at 0 3) demo_authorities = (as1, vs1, 0, False) \<and>
    epoch_change_round demo_crypto mem_ops as1 (demo_proposal demo_members) demo_committee = (as2, k, replicate 4 (Inr Installed)) \<and>
    collect_votes demo_crypto mem_ops (demo_order_at 0 7) as2 = (as3, vs2, 0, False) \<and>
    certificate_is_valid demo_crypto \<lparr>ct_order = demo_order_at 0 3, ct_votes = vs1\<rparr> demo_committee \<and>
    certificate_is_valid demo_crypto \<lparr>ct_order = demo_order_at 0 7, ct_votes = vs2\<rparr> demo_committee"
proof -
  have "\<forall>a \<in> set demo_authorities. ready demo_crypto demo_committee (demo_order_at 0 3) a \<and>
      ready demo_crypto demo_committee (demo_order_at 0 7) a \<and>
      changeable demo_crypto demo_committee (demo_proposal demo_members) a \<and> au_frontier a = [(''a'', 0), (''b'', 0)]"
    using demo_ready [of _ 3] demo_ready [of _ 7] demo_changeable by simp
  from same_roster_change_equivocates [OF demo_crypto_ok this demo_roster(1) _ _ demo_order_at_verifies
      demo_order_at_verifies, of "demo_committee\<lparr>cm_epoch := 1\<rparr>"]
  show ?thesis
    using demo_same_roster [of 1]
    by (simp add: demo_sizes demo_roster slot_of_def demo_proposal_def demo_committee_fields)
qed

section \<open>What a restart loses\<close>

text \<open>A reachable state of an authority deployed on an in-memory journal.\<close>

definition mem_reach :: "crypto \<Rightarrow> config \<Rightarrow> mem_journal node \<Rightarrow> bool" where
  "mem_reach cr cf n \<longleftrightarrow> ledger_wf (cf_genesis cf) \<and>
     auth_reach cr mem_ops (\<lambda>_. True) (\<lambda>j. j) cf (start_node cr mem_ops cf mem_new) n"

lemma mem_life:
  assumes "mem_reach cr cf n"
  shows "memj.node_inv cr cf n"
proof -
  have "\<not> au_poisoned (start_authority cr mem_ops cf mem_new)"
    by (simp add: start_authority_def with_journal_def mem_ops_def mem_bind_def mem_new_def)
  then show ?thesis
    using assms memj.life_inv [of cr cf mem_new n] by (simp add: mem_reach_def mem_new_def)
qed

text \<open>C12: a snapshot keeps the epoch number but not the committee: an authority that completed an
  epoch change, compacts its journal and restarts comes back in the new epoch with the
  committee identifier it was first deployed with and without the epoch certificate, and
  refuses every certificate of the committee it had installed.\<close>

theorem compaction_forgets_committee:
  assumes "mem_reach cr cf n" "\<not> au_poisoned (nd_auth n)" "compact_journal mem_ops (nd_auth n) = (b, Inr ())"
    and "au_committee_id (nd_auth n) \<noteq> cf_committee cf"
  shows "\<exists>a. restart_authority cr mem_ops cf (au_journal b) = Inr a \<and> au_core a = au_core (nd_auth n) \<and>
    au_epoch a = au_epoch (nd_auth n) \<and> au_committee_id a = cf_committee cf \<and> au_last_epoch_cert a = None \<and>
    (\<forall>v c m. vf_committee_id v = au_committee_id (nd_auth n) \<longrightarrow>
      confirm_impl cr mem_ops a v c m = (a, Inl (ConfirmWrongCommittee (cf_committee cf) (au_committee_id (nd_auth n)))))"
proof -
  let ?a = "nd_auth n" and ?sn = "Snapshot (snapshot_data_of (nd_auth n))"
  have b: "au_journal b = (au_journal ?a)\<lparr>mj_records := [?sn]\<rparr>"
    using assms(3) by (auto simp: compact_journal_def mem_ops_def mem_compact_def split: if_splits)
  have own: "mj_identity (au_journal ?a) = Some (config_identity cr cf)" and wf: "core_wf (au_core ?a)"
    using memj.node_journal(1) [OF mem_life [OF assms(1)] assms(2)] memj.node_inv_core_wf [OF mem_life [OF assms(1)]]
    by auto
  let ?m = "start_authority cr mem_ops cf (au_journal b)"
  have m: "au_core ?m = (cf_genesis cf, [], [])" "au_policy ?m = cf_policy cf" "au_committee_id ?m = cf_committee cf"
    "au_last_epoch_cert ?m = None" "\<not> au_poisoned ?m"
    using own b by (simp_all add: start_authority_def with_journal_def au_core_def mem_ops_def mem_bind_def config_identity_def)
  have r: "restart_authority cr mem_ops cf (au_journal b) = replay_record cr ?m ?sn"
    using own b
    by (simp add: restart_authority_def recover_def start_authority_def mem_ops_def mem_bind_def mem_replay_def
        config_identity_def rbind_def split: sum.splits)
  note sn = snapshot_core [OF wf, of cr "cf_policy cf" "(cf_genesis cf, [], [])"]
  then obtain a where a: "replay_record cr ?m ?sn = Inr a" "au_core a = au_core ?a"
    using replay_record_refines [of cr ?m ?sn] m by (auto split: sum.splits)
  then have "au_epoch a = au_epoch ?a" "au_committee_id a = cf_committee cf" "au_last_epoch_cert a = None" "\<not> au_poisoned a"
    using m by (auto simp: replay_record_def snapshot_data_of_def split: sum.splits)
  then show ?thesis using r a assms(4) by (auto simp: confirm_impl_def)
qed

definition demo_switched :: "mem_journal node" where
  "demo_switched = (start_node demo_crypto mem_ops (demo_config ''u'' [6]) mem_new)
     \<lparr>nd_auth := fst (install_epoch_cert demo_crypto mem_ops demo_authority (demo_epoch_cert [(''a'', 0)]) demo_committee),
      nd_gen := 1\<rparr>"

lemma demo_switch:
  "install_epoch_cert demo_crypto mem_ops demo_authority (demo_epoch_cert [(''a'', 0)]) demo_committee =
     (nd_auth demo_switched, Inr Installed)"
  "\<not> au_poisoned (nd_auth demo_switched)" "au_epoch_state (nd_auth demo_switched) = Active"
  "au_committee_id (nd_auth demo_switched) = committee_id_of demo_crypto (tp_id demo_policy) demo_next"
proof -
  have b: "committee_with_epoch demo_crypto (ek_next_roster (demo_epoch_cert [(''a'', 0)])) (au_policy demo_authority)
      (ek_epoch (demo_epoch_cert [(''a'', 0)])) = Some \<lparr>cm_members = demo_next, cm_policy = demo_policy,
     cm_id = committee_id_of demo_crypto (tp_id demo_policy) demo_next, cm_epoch = 1\<rparr>"
    using demo_next_builds by (simp add: demo_epoch_cert_def)
  have e: "ek_epoch (demo_epoch_cert [(''a'', 0)]) = au_epoch demo_authority + 1"
    "ek_frontier (demo_epoch_cert [(''a'', 0)]) = [(''a'', 0)]" by (simp_all add: demo_epoch_cert_def)
  have "install_epoch_cert demo_crypto mem_ops demo_authority (demo_epoch_cert [(''a'', 0)]) demo_committee =
      install_commit demo_crypto mem_ops demo_authority (demo_epoch_cert [(''a'', 0)])
        \<lparr>cm_members = demo_next, cm_policy = demo_policy,
         cm_id = committee_id_of demo_crypto (tp_id demo_policy) demo_next, cm_epoch = 1\<rparr>
        (frontier_digest demo_crypto (ek_frontier (demo_epoch_cert [(''a'', 0)])))"
    by (rule install_commits [OF _ _ _ e(1) b]) (simp_all add: demo_epoch_quorum)
  then show "install_epoch_cert demo_crypto mem_ops demo_authority (demo_epoch_cert [(''a'', 0)]) demo_committee =
      (nd_auth demo_switched, Inr Installed)" "\<not> au_poisoned (nd_auth demo_switched)"
    "au_epoch_state (nd_auth demo_switched) = Active"
    "au_committee_id (nd_auth demo_switched) = committee_id_of demo_crypto (tp_id demo_policy) demo_next"
    by (simp_all add: demo_switched_def install_commit_def journal_append_def mem_append_ok Let_def install_covered_def
        complete_install_def e)
qed

lemma demo_switched_reach: "mem_reach demo_crypto (demo_config ''u'' [6]) demo_switched"
proof -
  have a: "nd_auth (start_node demo_crypto mem_ops (demo_config ''u'' [6]) mem_new) = demo_authority"
    by (simp add: start_node_def demo_authority_def)
  note auth_step.install [of "\<lambda>_. True", OF _ demo_switch(1) [folded a], of "\<lambda>j. j" "demo_config ''u'' [6]"]
  then show ?thesis
    using demo_genesis_wf
    by (simp add: mem_reach_def auth_reach_def moves_generation_def demo_switched_def start_node_def r_into_rtranclp)
qed

theorem compaction_forgets_committee_witness:
  "\<exists>b a. compact_journal mem_ops (nd_auth demo_switched) = (b, Inr ()) \<and>
    restart_authority demo_crypto mem_ops (demo_config ''u'' [6]) (au_journal b) = Inr a \<and>
    au_committee_id a \<noteq> au_committee_id (nd_auth demo_switched)"
proof -
  obtain b where b: "compact_journal mem_ops (nd_auth demo_switched) = (b, Inr ())"
    using demo_switch(3) by (simp add: compact_journal_def mem_ops_def mem_compact_def)
  have ne: "au_committee_id (nd_auth demo_switched) \<noteq> cf_committee (demo_config ''u'' [6])"
    using demo_ids_differ demo_switch(4) by (simp add: demo_config_def)
  show ?thesis
    using compaction_forgets_committee [OF demo_switched_reach demo_switch(2) b ne] b ne by metis
qed

text \<open>Replay does not complete an installation: an authority that was catching up, applied the
  confirmation that completed its epoch change and was then fenced for the following change
  comes back from its journal fenced for that change but still in the old epoch under the old
  committee, and refuses the certificate that would install the change it is fenced for.\<close>

theorem replay_misses_completion:
  assumes "au_epoch_state a = Installing k nx fd" "\<not> au_poisoned a" "ek_epoch k = au_epoch a + 1"
    and "confirm_impl cr jo a v c m = (b, Inr Applied)" "au_epoch_state b = Active"
    and "fence cr jo b p = (d, Inr (Fenced i))"
  shows "au_epoch d = au_epoch a + 1 \<and> au_committee_id d = cm_id nx \<and> au_epoch_state d = Fencing p \<and>
    (\<exists>d'. replay_all cr a [Confirmed (vf_order v), EpochFence p] = Inr d' \<and> au_epoch_state d' = Fencing p \<and>
      au_epoch d' = au_epoch a \<and> au_committee_id d' = au_committee_id a \<and> au_core d' = au_core d \<and>
      (\<forall>k' old r. ek_epoch k' = ep_epoch p \<longrightarrow> snd (install_epoch_cert cr jo d' k' old) = Inr r \<longrightarrow>
        r = InstallIgnoredStaleEpoch (au_epoch a + 1) (ep_epoch p)))"
proof -
  let ?t = "st_transfer (vf_order v)"
  from assms(4) have "confirm_apply cr jo a (vf_order v) = (b, Inr Applied)"
    by (auto simp: confirm_impl_def split: if_splits sum.splits)
  then obtain l j where l: "ledger_apply (au_ledger a) ?t = Inr l"
    and b: "b = complete_install (a\<lparr>au_ledger := l, au_journal := j,
        au_confirmed := bt_insert (tr_from ?t, tr_from_seq ?t) (order_id cr (vf_order v)) (au_confirmed a),
        au_locked := unlock_slot (tr_from ?t) (tr_from_seq ?t) (au_locked a)\<rparr>)"
    using assms(1,5)
    by (auto simp: confirm_apply_def Let_def journal_append_def split: option.splits sum.splits prod.splits if_splits)
  then have bf: "au_epoch b = au_epoch a + 1" "au_committee_id b = cm_id nx"
    using assms(1,3) by (simp_all add: complete_install_def)
  have d: "au_epoch d = au_epoch b" "au_committee_id d = au_committee_id b" "au_epoch_state d = Fencing p"
    "au_core d = au_core b" "ep_epoch p = au_epoch b + 1"
    using assms(5,6)
    by (auto simp: fence_def journal_append_def au_core_def split: if_splits option.splits prod.splits sum.splits)
  let ?d' = "a\<lparr>au_ledger := l, au_confirmed := bt_insert (tr_from ?t, tr_from_seq ?t) (order_id cr (vf_order v)) (au_confirmed a),
      au_locked := unlock_slot (tr_from ?t) (tr_from_seq ?t) (au_locked a), au_epoch_state := Fencing p\<rparr>"
  have r: "replay_all cr a [Confirmed (vf_order v), EpochFence p] = Inr ?d'"
    using l by (simp add: replay_record_def Let_def rbind_def)
  have st: "r = InstallIgnoredStaleEpoch (au_epoch a + 1) (ep_epoch p)"
    if "ek_epoch k' = ep_epoch p" "snd (install_epoch_cert cr jo ?d' k' old) = Inr r" for k' old r
    using that assms(2) bf(1) d(5) by (auto simp: install_epoch_cert_def split: if_splits)
  have "au_core ?d' = au_core d" using d(4) b by (simp add: au_core_def)
  then show ?thesis using d(1-3) bf r st by auto
qed

definition demo_catching :: "mem_journal authority" where
  "demo_catching = demo_authority\<lparr>au_epoch_state := Installing (demo_epoch_cert [(''a'', 1)])
     \<lparr>cm_members = demo_next, cm_policy = demo_policy,
      cm_id = committee_id_of demo_crypto (tp_id demo_policy) demo_next, cm_epoch = 1\<rparr>
     (frontier_digest demo_crypto [(''a'', 1)])\<rparr>"

lemma demo_catch_up:
  "\<exists>b. confirm_impl demo_crypto mem_ops demo_catching demo_verified demo_committee True = (b, Inr Applied) \<and>
     au_epoch_state b = Active \<and> au_epoch b = 1 \<and> \<not> au_poisoned b \<and> au_policy b = demo_policy"
proof -
  have "ledger_apply demo_genesis demo_transfer =
      Inr \<lparr>accounts = [(''a'', \<lparr>acc_balance = 7, acc_next_seq = 1\<rparr>), (''b'', \<lparr>acc_balance = 8, acc_next_seq = 0\<rparr>)]\<rparr>"
    unfolding ledger_apply_def demo_preflight
    by (simp add: apply_commit_def demo_genesis_def demo_transfer_def checked_add_def default_account_def
        ledger_balance_def Let_def)
  moreover have "committee_key_of demo_committee ''u'' = Some (ed_public demo_crypto [6])"
    by (simp add: committee_key_of_def demo_committee_fields demo_keys_def)
  moreover have "st_policy_id demo_order = tp_id demo_policy"
    using demo_order_verifies by (simp add: order_verify_def policy_validate_ok)
  ultimately show ?thesis
    by (simp add: confirm_impl_def confirm_apply_def demo_catching_def demo_verified_def demo_committee_fields
        demo_order_verifies Let_def journal_append_def mem_append_ok install_covered_def complete_install_def
        demo_epoch_cert_def ledger_next_seq_def)
qed

theorem replay_misses_completion_witness:
  "\<exists>b d i d'. confirm_impl demo_crypto mem_ops demo_catching demo_verified demo_committee True = (b, Inr Applied) \<and>
    fence demo_crypto mem_ops b ((demo_proposal demo_members)\<lparr>ep_epoch := 2\<rparr>) = (d, Inr (Fenced i)) \<and>
    replay_all demo_crypto demo_catching
      [Confirmed (vf_order demo_verified), EpochFence ((demo_proposal demo_members)\<lparr>ep_epoch := 2\<rparr>)] = Inr d' \<and>
    au_epoch d = 1 \<and> au_epoch d' = 0"
proof -
  obtain b where b: "confirm_impl demo_crypto mem_ops demo_catching demo_verified demo_committee True = (b, Inr Applied)"
    "au_epoch_state b = Active" "au_epoch b = 1" "\<not> au_poisoned b" "au_policy b = demo_policy"
    using demo_catch_up by blast
  then obtain d i where f: "fence demo_crypto mem_ops b ((demo_proposal demo_members)\<lparr>ep_epoch := 2\<rparr>) = (d, Inr (Fenced i))"
    using demo_same_roster [of 2]
    by (simp add: fence_def demo_proposal_def journal_append_def mem_append_ok)
  have c: "\<not> au_poisoned demo_catching" "ek_epoch (demo_epoch_cert [(''a'', 1)]) = au_epoch demo_catching + 1"
    "au_epoch demo_catching = 0"
    by (simp_all add: demo_catching_def demo_epoch_cert_def)
  have st: "\<exists>nx fd. au_epoch_state demo_catching = Installing (demo_epoch_cert [(''a'', 1)]) nx fd"
    by (simp add: demo_catching_def)
  then show ?thesis
    using replay_misses_completion [OF _ c(1,2) b(1,2) f] b(1) f c(3) by fastforce
qed

end
