(* ===== verification/Net.thy ===== *)
theory Net
  imports Quorum_Safety Wire
begin

text \<open>
  The authority network of \<open>333-transfer/src/net.rs\<close>: the in-memory mesh of mailboxes, the vote
  collector, ledgers fed from the mesh, remote confirmation and the drivers that compose them.
  An endpoint is the peer id it is bound to; the mesh behind its \<open>Arc<Mutex<..>>\<close> is the state
  that every call threads. The trait \<open>AuthorityNet\<close> is a record of its two operations (the
  seven \<open>broadcast_*\<close> methods differ only in the message they wrap), and the drivers generic in
  the trait take that record. Sleeping between rounds has no effect on the state; a failed
  assertion or \<open>expect\<close> is the value \<open>None\<close>.
\<close>

section \<open>The mesh\<close>

type_synonym peer_id = string

datatype net_error = UnknownPeer peer_id | NetClosed | NetIo string

record mail_entry =
  mail_from :: "peer_id option"
  mail_msg :: authority_msg

record mesh =
  mesh_mailboxes :: "(peer_id, mail_entry list) btree"
  mesh_closed :: bool

definition mesh_new :: mesh where
  "mesh_new = \<lparr>mesh_mailboxes = [], mesh_closed = False\<rparr>"

definition mesh_join :: "mesh \<Rightarrow> peer_id \<Rightarrow> mesh" where
  "mesh_join g p =
     (case map_of (mesh_mailboxes g) p of
        None \<Rightarrow> g\<lparr>mesh_mailboxes := bt_insert p [] (mesh_mailboxes g)\<rparr>
      | Some _ \<Rightarrow> g)"

definition mesh_participants :: "mesh \<Rightarrow> peer_id list" where
  "mesh_participants g = map fst (mesh_mailboxes g)"

definition set_closed :: "mesh \<Rightarrow> bool \<Rightarrow> mesh" where
  "set_closed g b = g\<lparr>mesh_closed := b\<rparr>"

definition deliver_to_from :: "mesh \<Rightarrow> peer_id \<Rightarrow> peer_id option \<Rightarrow> authority_msg \<Rightarrow> mesh \<times> (net_error + unit)" where
  "deliver_to_from g p hop m =
     (if mesh_closed g then (g, Inl NetClosed)
      else (case map_of (mesh_mailboxes g) p of
          None \<Rightarrow> (g, Inl (UnknownPeer p))
        | Some mb \<Rightarrow>
            (g\<lparr>mesh_mailboxes := bt_insert p (mb @ [\<lparr>mail_from = hop, mail_msg = m\<rparr>]) (mesh_mailboxes g)\<rparr>, Inr ())))"

definition deliver_to :: "mesh \<Rightarrow> peer_id \<Rightarrow> authority_msg \<Rightarrow> mesh \<times> (net_error + unit)" where
  "deliver_to g p m = deliver_to_from g p None m"

definition fanout :: "mesh \<Rightarrow> authority_msg \<Rightarrow> mesh \<times> (net_error + unit)" where
  "fanout g m =
     (if mesh_closed g then (g, Inl NetClosed)
      else if mesh_mailboxes g = [] then (g, Inr ())
      else (g\<lparr>mesh_mailboxes := map (\<lambda>(p, mb). (p, mb @ [\<lparr>mail_from = None, mail_msg = m\<rparr>])) (mesh_mailboxes g)\<rparr>, Inr ()))"

definition drain_with_hops :: "mesh \<Rightarrow> peer_id \<Rightarrow> mesh \<times> (peer_id option \<times> authority_msg) list" where
  "drain_with_hops g me =
     (case map_of (mesh_mailboxes g) me of
        None \<Rightarrow> (g, [])
      | Some mb \<Rightarrow> (g\<lparr>mesh_mailboxes := bt_insert me [] (mesh_mailboxes g)\<rparr>, map (\<lambda>e. (mail_from e, mail_msg e)) mb))"

definition drain :: "mesh \<Rightarrow> peer_id \<Rightarrow> mesh \<times> authority_msg list" where
  "drain g me = (case drain_with_hops g me of (g', es) \<Rightarrow> (g', map snd es))"

record 'n authority_net =
  net_broadcast :: "'n \<Rightarrow> peer_id \<Rightarrow> authority_msg \<Rightarrow> 'n \<times> (net_error + unit)"
  net_poll :: "'n \<Rightarrow> peer_id \<Rightarrow> 'n \<times> authority_msg list"

definition mesh_net :: "mesh authority_net" where
  "mesh_net = \<lparr>net_broadcast = (\<lambda>g _ m. fanout g m), net_poll = drain\<rparr>"

section \<open>Authorities on the network\<close>

fun is_equivocation :: "authority_error \<Rightarrow> bool" where
  "is_equivocation (Equivocation _ _) = True"
| "is_equivocation _ = False"

definition count_refusal :: "authority_error \<Rightarrow> nat \<times> bool \<Rightarrow> nat \<times> bool" where
  "count_refusal e = (\<lambda>(refusals, contested). (refusals + 1, contested \<or> is_equivocation e))"

text \<open>
  The inner loop of \<open>certify_via_mesh\<close> and of \<open>authority_handle_round\<close>; they differ in what they
  record of a refusal.
\<close>

fun handle_msgs ::
    "crypto \<Rightarrow> 'j journal \<Rightarrow> 'n authority_net \<Rightarrow> (authority_error \<Rightarrow> 's \<Rightarrow> 's) \<Rightarrow> peer_id \<Rightarrow> authority_msg list \<Rightarrow>
      'j authority \<Rightarrow> 'n \<Rightarrow> 's \<Rightarrow> 'j authority \<times> 'n \<times> 's" where
  "handle_msgs cr jo nt refuse ep [] a n s = (a, n, s)"
| "handle_msgs cr jo nt refuse ep (MsgOrder ord # ms) a n s =
     (case handle cr jo a ord of
        (a', Inr v) \<Rightarrow> handle_msgs cr jo nt refuse ep ms a' (fst (net_broadcast nt n ep (MsgVote v))) s
      | (a', Inl e) \<Rightarrow> handle_msgs cr jo nt refuse ep ms a' n (refuse e s))"
| "handle_msgs cr jo nt refuse ep (_ # ms) a n s = handle_msgs cr jo nt refuse ep ms a n s"

fun handle_all ::
    "crypto \<Rightarrow> 'j journal \<Rightarrow> 'n authority_net \<Rightarrow> (authority_error \<Rightarrow> 's \<Rightarrow> 's) \<Rightarrow> 'j authority list \<Rightarrow> peer_id list \<Rightarrow>
      'n \<Rightarrow> 's \<Rightarrow> 'j authority list \<times> 'n \<times> 's" where
  "handle_all cr jo nt refuse (a # as) (ep # eps) n s =
     (case net_poll nt n ep of (n1, msgs) \<Rightarrow>
      case handle_msgs cr jo nt refuse ep msgs a n1 s of (a', n2, s2) \<Rightarrow>
      case handle_all cr jo nt refuse as eps n2 s2 of (as', n3, s3) \<Rightarrow> (a' # as', n3, s3))"
| "handle_all cr jo nt refuse as eps n s = (as, n, s)"

section \<open>Collecting votes\<close>

record vote_collector =
  vc_order :: signed_transfer
  vc_votes :: "vote list"
  vc_seen :: "authority_id list"
  vc_refusals :: nat
  vc_contested :: bool

definition vc_new :: "signed_transfer \<Rightarrow> vote_collector" where
  "vc_new ord = \<lparr>vc_order = ord, vc_votes = [], vc_seen = [], vc_refusals = 0, vc_contested = False\<rparr>"

definition note_refusal :: "authority_error \<Rightarrow> vote_collector \<Rightarrow> vote_collector" where
  "note_refusal e vc = (let vc' = vc\<lparr>vc_refusals := vc_refusals vc + 1\<rparr>
     in if is_equivocation e then vc'\<lparr>vc_contested := True\<rparr> else vc')"

text \<open>The vote filter: validate first, then keep the first vote of each authority.\<close>

fun accept_votes ::
    "crypto \<Rightarrow> signed_transfer \<Rightarrow> committee \<Rightarrow> authority_msg list \<Rightarrow> authority_id list \<times> vote list \<Rightarrow>
      authority_id list \<times> vote list" where
  "accept_votes cr ord c [] st = st"
| "accept_votes cr ord c (MsgVote v # ms) (seen, votes) =
     accept_votes cr ord c ms
       (if is_ok (vote_validate_for cr v ord c) \<and> vt_authority v \<notin> set seen
        then (vt_authority v # seen, votes @ [v]) else (seen, votes))"
| "accept_votes cr ord c (_ # ms) st = accept_votes cr ord c ms st"

definition poll_round ::
    "crypto \<Rightarrow> 'n authority_net \<Rightarrow> peer_id \<Rightarrow> committee \<Rightarrow> 'n \<Rightarrow> vote_collector \<Rightarrow> 'n \<times> vote_collector" where
  "poll_round cr nt collector c n vc =
     (case net_poll nt n collector of (n', msgs) \<Rightarrow>
      case accept_votes cr (vc_order vc) c msgs (vc_seen vc, vc_votes vc) of (seen, votes) \<Rightarrow>
        (n', vc\<lparr>vc_votes := votes, vc_seen := seen\<rparr>))"

definition try_assemble :: "crypto \<Rightarrow> vote_collector \<Rightarrow> committee \<Rightarrow> certificate option" where
  "try_assemble cr vc c = certificate_assemble cr (vc_order vc) (vc_votes vc) c"

definition failed_status :: "vote_collector \<Rightarrow> certified" where
  "failed_status vc = CertifiedFailed (length (vc_votes vc)) (vc_refusals vc) (vc_contested vc)"

fun collect_until_quorum_with_pause ::
    "crypto \<Rightarrow> 'n authority_net \<Rightarrow> peer_id \<Rightarrow> committee \<Rightarrow> nat \<Rightarrow> 'n \<Rightarrow> vote_collector \<Rightarrow>
      ('n \<times> vote_collector \<times> certificate option \<times> certified) option" where
  "collect_until_quorum_with_pause cr nt collector c 0 n vc = Some (n, vc, None, failed_status vc)"
| "collect_until_quorum_with_pause cr nt collector c (Suc rounds) n vc =
     (case poll_round cr nt collector c n vc of (n', vc') \<Rightarrow>
      case try_assemble cr vc' c of
        Some k \<Rightarrow>
          (case certificate_verify cr k c of
             None \<Rightarrow> None
           | Some _ \<Rightarrow> Some (n', vc', Some k, CertifiedOk))
      | None \<Rightarrow> collect_until_quorum_with_pause cr nt collector c rounds n' vc')"

definition collect_until_quorum ::
    "crypto \<Rightarrow> 'n authority_net \<Rightarrow> peer_id \<Rightarrow> signed_transfer \<Rightarrow> committee \<Rightarrow> nat \<Rightarrow> 'n \<Rightarrow>
      ('n \<times> verified option \<times> certified) option" where
  "collect_until_quorum cr nt collector ord c max_rounds n =
     (case collect_until_quorum_with_pause cr nt collector c max_rounds n (vc_new ord) of
        None \<Rightarrow> None
      | Some (n', _, Some k, CertifiedOk) \<Rightarrow>
          (case certificate_verify cr k c of
             None \<Rightarrow> None
           | Some v \<Rightarrow> Some (n', Some v, CertifiedOk))
      | Some (n', _, _, status) \<Rightarrow> Some (n', None, status))"

definition authority_handle_round ::
    "crypto \<Rightarrow> 'j journal \<Rightarrow> 'n authority_net \<Rightarrow> 'j authority list \<Rightarrow> peer_id list \<Rightarrow> 'n \<Rightarrow> vote_collector \<Rightarrow>
      ('j authority list \<times> 'n \<times> vote_collector) option" where
  "authority_handle_round cr jo nt as eps n vc =
     (if length as \<noteq> length eps then None else Some (handle_all cr jo nt note_refusal as eps n vc))"

section \<open>Ledgers on the network\<close>

record mesh_ledger =
  ml_endpoint :: peer_id
  ml_ledger :: ledger

fun apply_certs ::
    "crypto \<Rightarrow> committee \<Rightarrow> authority_msg list \<Rightarrow> ledger \<Rightarrow> ledger \<times> (reject + unit) list" where
  "apply_certs cr c [] l = (l, [])"
| "apply_certs cr c (MsgCert k # ms) l =
     (case certificate_verify cr k c of
        Some v \<Rightarrow>
          (case apply_verified cr l v c of
             Inl e \<Rightarrow> (case apply_certs cr c ms l of (l', rs) \<Rightarrow> (l', Inl e # rs))
           | Inr l1 \<Rightarrow> (case apply_certs cr c ms l1 of (l', rs) \<Rightarrow> (l', Inr () # rs)))
      | None \<Rightarrow> (case apply_certs cr c ms l of (l', rs) \<Rightarrow> (l', Inl NoCertificate # rs)))"
| "apply_certs cr c (_ # ms) l = apply_certs cr c ms l"

definition poll_and_apply ::
    "crypto \<Rightarrow> 'n authority_net \<Rightarrow> committee \<Rightarrow> 'n \<Rightarrow> mesh_ledger \<Rightarrow> 'n \<times> mesh_ledger \<times> (reject + unit) list" where
  "poll_and_apply cr nt c n r =
     (case net_poll nt n (ml_endpoint r) of (n', msgs) \<Rightarrow>
      case apply_certs cr c msgs (ml_ledger r) of (l, outcomes) \<Rightarrow> (n', r\<lparr>ml_ledger := l\<rparr>, outcomes))"

fun poll_replicas ::
    "crypto \<Rightarrow> 'n authority_net \<Rightarrow> committee \<Rightarrow> 'n \<Rightarrow> mesh_ledger list \<Rightarrow>
      'n \<times> mesh_ledger list \<times> (reject + unit) list list" where
  "poll_replicas cr nt c n [] = (n, [], [])"
| "poll_replicas cr nt c n (r # rs) =
     (case poll_and_apply cr nt c n r of (n1, r', out) \<Rightarrow>
      case poll_replicas cr nt c n1 rs of (n2, rs', outs) \<Rightarrow> (n2, r' # rs', out # outs))"

definition disseminate_certificate ::
    "crypto \<Rightarrow> 'n authority_net \<Rightarrow> peer_id \<Rightarrow> certificate \<Rightarrow> committee \<Rightarrow> 'n \<Rightarrow> mesh_ledger list \<Rightarrow>
      'n \<times> mesh_ledger list \<times> (net_error + (reject + unit) list list)" where
  "disseminate_certificate cr nt broadcaster k c n rs =
     (case net_broadcast nt n broadcaster (MsgCert k) of
        (n', Inl e) \<Rightarrow> (n', rs, Inl e)
      | (n', Inr _) \<Rightarrow> (case poll_replicas cr nt c n' rs of (n2, rs', outs) \<Rightarrow> (n2, rs', Inr outs)))"

fun disseminate_polls ::
    "crypto \<Rightarrow> 'n authority_net \<Rightarrow> committee \<Rightarrow> nat \<Rightarrow> 'n \<Rightarrow> mesh_ledger list \<Rightarrow> (reject + unit) list list \<Rightarrow>
      'n \<times> mesh_ledger list \<times> (reject + unit) list list" where
  "disseminate_polls cr nt c 0 n rs all = (n, rs, all)"
| "disseminate_polls cr nt c (Suc polls) n rs all =
     (case poll_replicas cr nt c n rs of (n', rs', batches) \<Rightarrow>
      let all' = map2 (@) all batches
      in if list_all (\<lambda>v. v \<noteq> []) all' then (n', rs', all') else disseminate_polls cr nt c polls n' rs' all')"

definition disseminate_certificate_with_pause ::
    "crypto \<Rightarrow> 'n authority_net \<Rightarrow> peer_id \<Rightarrow> certificate \<Rightarrow> committee \<Rightarrow> nat \<Rightarrow> 'n \<Rightarrow> mesh_ledger list \<Rightarrow>
      'n \<times> mesh_ledger list \<times> (net_error + (reject + unit) list list)" where
  "disseminate_certificate_with_pause cr nt broadcaster k c max_polls n rs =
     (case net_broadcast nt n broadcaster (MsgCert k) of
        (n', Inl e) \<Rightarrow> (n', rs, Inl e)
      | (n', Inr _) \<Rightarrow>
          (case disseminate_polls cr nt c max_polls n' rs (replicate (length rs) []) of
             (n2, rs', all) \<Rightarrow> (n2, rs', Inr all)))"

section \<open>Remote confirmation\<close>

fun confirm_msgs ::
    "crypto \<Rightarrow> 'j journal \<Rightarrow> 'n authority_net \<Rightarrow> committee \<Rightarrow> peer_id \<Rightarrow> authority_msg list \<Rightarrow>
      'j authority \<Rightarrow> 'n \<Rightarrow> 'j authority \<times> 'n" where
  "confirm_msgs cr jo nt c ep [] a n = (a, n)"
| "confirm_msgs cr jo nt c ep (MsgCert k # ms) a n =
     (case certificate_verify cr k c of
        None \<Rightarrow> confirm_msgs cr jo nt c ep ms a n
      | Some v \<Rightarrow>
         (case confirm cr jo a v c of
            (a', Inl _) \<Rightarrow> confirm_msgs cr jo nt c ep ms a' n
          | (a', Inr _) \<Rightarrow>
             (case attestation_for cr a' (tr_from (vf_transfer v)) (tr_from_seq (vf_transfer v)) of
                None \<Rightarrow> confirm_msgs cr jo nt c ep ms a' n
              | Some att \<Rightarrow> confirm_msgs cr jo nt c ep ms a' (fst (net_broadcast nt n ep (MsgAttestation att))))))"
| "confirm_msgs cr jo nt c ep (_ # ms) a n = confirm_msgs cr jo nt c ep ms a n"

fun confirm_all ::
    "crypto \<Rightarrow> 'j journal \<Rightarrow> 'n authority_net \<Rightarrow> committee \<Rightarrow> 'j authority list \<Rightarrow> peer_id list \<Rightarrow> 'n \<Rightarrow>
      'j authority list \<times> 'n" where
  "confirm_all cr jo nt c (a # as) (ep # eps) n =
     (case net_poll nt n ep of (n1, msgs) \<Rightarrow>
      case confirm_msgs cr jo nt c ep msgs a n1 of (a', n2) \<Rightarrow>
      case confirm_all cr jo nt c as eps n2 of (as', n3) \<Rightarrow> (a' # as', n3))"
| "confirm_all cr jo nt c as eps n = (as, n)"

definition confirm_from_mesh ::
    "crypto \<Rightarrow> 'j journal \<Rightarrow> 'n authority_net \<Rightarrow> committee \<Rightarrow> 'j authority list \<Rightarrow> peer_id list \<Rightarrow> 'n \<Rightarrow>
      ('j authority list \<times> 'n) option" where
  "confirm_from_mesh cr jo nt c as eps n =
     (if length as \<noteq> length eps then None else Some (confirm_all cr jo nt c as eps n))"

fun accept_attestations ::
    "crypto \<Rightarrow> account_id \<Rightarrow> u64 \<Rightarrow> bytes \<Rightarrow> committee \<Rightarrow> authority_id list \<Rightarrow> authority_msg list \<Rightarrow>
      effect_attestation list" where
  "accept_attestations cr acct sq oid c seen [] = []"
| "accept_attestations cr acct sq oid c seen (MsgAttestation a # ms) =
     (if ea_account a = acct \<and> ea_seq a = sq \<and> ea_order_id a = oid \<and> attestation_is_valid cr a c \<and>
         ea_authority a \<notin> set seen
      then a # accept_attestations cr acct sq oid c (ea_authority a # seen) ms
      else accept_attestations cr acct sq oid c seen ms)"
| "accept_attestations cr acct sq oid c seen (_ # ms) = accept_attestations cr acct sq oid c seen ms"

definition collect_effect_attestations ::
    "crypto \<Rightarrow> 'n authority_net \<Rightarrow> peer_id \<Rightarrow> account_id \<Rightarrow> u64 \<Rightarrow> bytes \<Rightarrow> committee \<Rightarrow> 'n \<Rightarrow>
      'n \<times> effect_attestation list" where
  "collect_effect_attestations cr nt collector acct sq oid c n =
     (case net_poll nt n collector of (n', msgs) \<Rightarrow> (n', accept_attestations cr acct sq oid c [] msgs))"

section \<open>The certification drivers\<close>

definition certify_via_mesh ::
    "crypto \<Rightarrow> 'j journal \<Rightarrow> signed_transfer \<Rightarrow> 'j authority list \<Rightarrow> peer_id list \<Rightarrow> peer_id \<Rightarrow> committee \<Rightarrow> mesh \<Rightarrow>
      ('j authority list \<times> mesh \<times> verified option \<times> certified) option" where
  "certify_via_mesh cr jo ord as eps client c n =
     (if length as \<noteq> length eps then None
      else case net_broadcast mesh_net n client (MsgOrder ord) of
        (n1, Inl _) \<Rightarrow> Some (as, n1, None, CertifiedFailed 0 0 False)
      | (n1, Inr _) \<Rightarrow>
         (case handle_all cr jo mesh_net count_refusal as eps n1 (0, False) of
            (as2, n2, refusals, contested) \<Rightarrow>
          case net_poll mesh_net n2 client of (n3, msgs) \<Rightarrow>
          case accept_votes cr ord c msgs ([], []) of (_, votes) \<Rightarrow>
          case certificate_assemble cr ord votes c of
            Some k \<Rightarrow>
             (case certificate_verify cr k c of
                None \<Rightarrow> None
              | Some v \<Rightarrow>
                 (case confirm_from_mesh cr jo mesh_net c as2 eps (fst (net_broadcast mesh_net n3 client (MsgCert k))) of
                    None \<Rightarrow> None
                  | Some (as3, n4) \<Rightarrow> Some (as3, n4, Some v, CertifiedOk)))
          | None \<Rightarrow> Some (as2, n3, None, CertifiedFailed (length votes) refusals contested)))"

fun confirm_rounds ::
    "crypto \<Rightarrow> 'j journal \<Rightarrow> 'n authority_net \<Rightarrow> committee \<Rightarrow> peer_id list \<Rightarrow> nat \<Rightarrow> 'j authority list \<Rightarrow> 'n \<Rightarrow>
      ('j authority list \<times> 'n) option" where
  "confirm_rounds cr jo nt c eps 0 as n = Some (as, n)"
| "confirm_rounds cr jo nt c eps (Suc k) as n =
     (case confirm_from_mesh cr jo nt c as eps n of
        None \<Rightarrow> None
      | Some (as', n') \<Rightarrow> confirm_rounds cr jo nt c eps k as' n')"

fun certify_rounds ::
    "crypto \<Rightarrow> 'j journal \<Rightarrow> 'n authority_net \<Rightarrow> peer_id list \<Rightarrow> peer_id \<Rightarrow> committee \<Rightarrow> nat \<Rightarrow> nat \<Rightarrow>
      'j authority list \<Rightarrow> 'n \<Rightarrow> vote_collector \<Rightarrow>
      ('j authority list \<times> 'n \<times> verified option \<times> certificate option \<times> certified) option" where
  "certify_rounds cr jo nt eps client c max_rounds 0 as n coll = Some (as, n, None, None, failed_status coll)"
| "certify_rounds cr jo nt eps client c max_rounds (Suc r) as n coll =
     (case authority_handle_round cr jo nt as eps n coll of
        None \<Rightarrow> None
      | Some (as1, n1, coll1) \<Rightarrow>
         (case poll_round cr nt client c n1 coll1 of (n2, coll2) \<Rightarrow>
          case try_assemble cr coll2 c of
            Some k \<Rightarrow>
             (case certificate_verify cr k c of
                None \<Rightarrow> None
              | Some v \<Rightarrow>
                 (case confirm_rounds cr jo nt c eps max_rounds as1 (fst (net_broadcast nt n2 client (MsgCert k))) of
                    None \<Rightarrow> None
                  | Some (as3, n3) \<Rightarrow> Some (as3, n3, Some v, Some k, CertifiedOk)))
          | None \<Rightarrow> certify_rounds cr jo nt eps client c max_rounds r as1 n2 coll2))"

definition certify_via_mesh_rounds_with_pause ::
    "crypto \<Rightarrow> 'j journal \<Rightarrow> 'n authority_net \<Rightarrow> signed_transfer \<Rightarrow> 'j authority list \<Rightarrow> peer_id list \<Rightarrow> peer_id \<Rightarrow>
      committee \<Rightarrow> nat \<Rightarrow> 'n \<Rightarrow>
      ('j authority list \<times> 'n \<times> verified option \<times> certificate option \<times> certified) option" where
  "certify_via_mesh_rounds_with_pause cr jo nt ord as eps client c max_rounds n =
     (if length as \<noteq> length eps then None
      else case net_broadcast nt n client (MsgOrder ord) of
        (n1, Inl _) \<Rightarrow> Some (as, n1, None, None, CertifiedFailed 0 0 False)
      | (n1, Inr _) \<Rightarrow> certify_rounds cr jo nt eps client c max_rounds max_rounds as n1 (vc_new ord))"

section \<open>What the mailboxes hold\<close>

definition orders_in :: "authority_msg list \<Rightarrow> signed_transfer list" where
  "orders_in ms = concat (map (\<lambda>m. case m of MsgOrder x \<Rightarrow> [x] | _ \<Rightarrow> []) ms)"

definition votes_in :: "authority_msg list \<Rightarrow> vote list" where
  "votes_in ms = concat (map (\<lambda>m. case m of MsgVote x \<Rightarrow> [x] | _ \<Rightarrow> []) ms)"

definition certs_in :: "authority_msg list \<Rightarrow> certificate list" where
  "certs_in ms = concat (map (\<lambda>m. case m of MsgCert x \<Rightarrow> [x] | _ \<Rightarrow> []) ms)"

lemma orders_in_simps [simp]:
  "orders_in [] = []" "orders_in (xs @ ys) = orders_in xs @ orders_in ys" "orders_in (m # ys) = (case m of MsgOrder x \<Rightarrow> [x] | _ \<Rightarrow> []) @ orders_in ys"
  "orders_in (map MsgVote vs) = []"
  by (induction vs) (simp_all add: orders_in_def)

lemma votes_in_simps [simp]:
  "votes_in [] = []" "votes_in (xs @ ys) = votes_in xs @ votes_in ys"
  "votes_in (m # ys) = (case m of MsgVote x \<Rightarrow> [x] | _ \<Rightarrow> []) @ votes_in ys" "votes_in (map MsgVote vs) = vs"
  by (induction vs) (simp_all add: votes_in_def)

lemma certs_in_simps [simp]:
  "certs_in [] = []" "certs_in (xs @ ys) = certs_in xs @ certs_in ys" "certs_in (m # ys) = (case m of MsgCert x \<Rightarrow> [x] | _ \<Rightarrow> []) @ certs_in ys"
  "certs_in (map MsgVote vs) = []" "certs_in (map MsgAttestation ts) = []"
  by (induction vs; induction ts) (simp_all add: certs_in_def)

text \<open>What \<open>handle\<close> makes of a sequence of orders: the votes and the refusals.\<close>

fun handle_orders ::
    "crypto \<Rightarrow> 'j journal \<Rightarrow> signed_transfer list \<Rightarrow> 'j authority \<Rightarrow> 'j authority \<times> vote list \<times> authority_error list" where
  "handle_orders cr jo [] a = (a, [], [])"
| "handle_orders cr jo (ord # os) a =
     (case handle cr jo a ord of
        (a', Inr v) \<Rightarrow> (case handle_orders cr jo os a' of (b, vs, es) \<Rightarrow> (b, v # vs, es))
      | (a', Inl e) \<Rightarrow> (case handle_orders cr jo os a' of (b, vs, es) \<Rightarrow> (b, vs, e # es)))"

text \<open>The attestation an authority broadcasts when it confirms.\<close>

definition attests :: "crypto \<Rightarrow> 'j journal \<Rightarrow> verified \<Rightarrow> committee \<Rightarrow> 'j authority \<Rightarrow> effect_attestation list" where
  "attests cr jo v c a =
     (case confirm cr jo a v c of
        (a', Inl _) \<Rightarrow> []
      | (a', Inr _) \<Rightarrow>
         (case attestation_for cr a' (tr_from (vf_transfer v)) (tr_from_seq (vf_transfer v)) of None \<Rightarrow> [] | Some t \<Rightarrow> [t]))"

lemma accept_votes_only_votes: "accept_votes cr ord c ms st = accept_votes cr ord c (map MsgVote (votes_in ms)) st"
  by (induction cr ord c ms st rule: accept_votes.induct) (auto simp: votes_in_def)

lemma accept_votes_all:
  assumes "\<forall>v \<in> set vs. vote_matches cr v ord c" "distinct (map vt_authority vs)" "vt_authority ` set vs \<inter> set seen = {}"
  shows "accept_votes cr ord c (map MsgVote vs) (seen, votes) = (rev (map vt_authority vs) @ seen, votes @ vs)"
  using assms
proof (induction vs arbitrary: seen votes)
  case (Cons v vs)
  then have "vote_validate_for cr v ord c = Inr ()" by (simp add: vote_validate_for_ok)
  then show ?case using Cons by auto
qed simp

section \<open>The network interface\<close>

text \<open>
  What the drivers rely on: a poll hands over and empties the caller's own inbox; while the
  network is up a broadcast reaches the inbox of every peer, the sender's included, and a
  network that is down refuses it and changes nothing.
\<close>

locale broadcast_net =
  fixes nt :: "'n authority_net" and inbox :: "'n \<Rightarrow> peer_id \<Rightarrow> authority_msg list"
    and up :: "'n \<Rightarrow> bool" and peers :: "'n \<Rightarrow> peer_id set"
  assumes poll_inbox: "snd (net_poll nt n p) = inbox n p"
    and poll_empties: "inbox (fst (net_poll nt n p)) = (inbox n)(p := [])"
    and poll_keeps: "up (fst (net_poll nt n p)) = up n" "peers (fst (net_poll nt n p)) = peers n"
    and broadcast_reaches: "up n \<Longrightarrow> q \<in> peers n \<Longrightarrow> inbox (fst (net_broadcast nt n p m)) q = inbox n q @ [m]"
    and broadcast_stays: "up n \<Longrightarrow> q \<notin> peers n \<Longrightarrow> inbox (fst (net_broadcast nt n p m)) q = inbox n q"
    and broadcast_ok: "up n \<Longrightarrow> snd (net_broadcast nt n p m) = Inr ()"
    and broadcast_keeps: "up n \<Longrightarrow> up (fst (net_broadcast nt n p m))" "up n \<Longrightarrow> peers (fst (net_broadcast nt n p m)) = peers n"
    and down_refuses: "\<not> up n \<Longrightarrow> \<exists>e. net_broadcast nt n p m = (n, Inl e)"
begin

text \<open>The messages \<open>ms\<close> were broadcast, in this order, and nothing was polled.\<close>

definition sent :: "'n \<Rightarrow> authority_msg list \<Rightarrow> 'n \<Rightarrow> bool" where
  "sent n ms n' \<longleftrightarrow> up n' = up n \<and> peers n' = peers n \<and>
     (\<forall>q. inbox n' q = (if q \<in> peers n then inbox n q @ ms else inbox n q))"

lemma sent_refl [simp]: "sent n [] n"
  by (simp add: sent_def)

lemma sent_trans: "sent n xs n1 \<Longrightarrow> sent n1 ys n2 \<Longrightarrow> sent n (xs @ ys) n2"
  by (auto simp: sent_def)

lemma sent_broadcast: "up n \<Longrightarrow> sent n [m] (fst (net_broadcast nt n p m))"
  using broadcast_reaches broadcast_stays broadcast_keeps by (auto simp: sent_def)

lemma sent_up: "sent n xs n' \<Longrightarrow> up n' = up n" "sent n xs n' \<Longrightarrow> peers n' = peers n"
  "sent n xs n' \<Longrightarrow> q \<in> peers n \<Longrightarrow> inbox n' q = inbox n q @ xs"
  by (simp_all add: sent_def)

lemma handle_msgs_spec:
  assumes "up n" "handle_orders cr jo (orders_in ms) a = (b, vs, es)"
  shows "\<exists>n'. handle_msgs cr jo nt refuse ep ms a n s = (b, n', foldl (\<lambda>s e. refuse e s) s es) \<and> sent n (map MsgVote vs) n'"
  using assms
proof (induction ms arbitrary: a n s b vs es)
  case (Cons m ms)
  show ?case
  proof (cases m)
    case (MsgOrder ord)
    obtain a' r where h: "handle cr jo a ord = (a', r)" by force
    obtain b' vs' es' where os: "handle_orders cr jo (orders_in ms) a' = (b', vs', es')" by (metis prod_cases3)
    show ?thesis
    proof (cases r)
      case (Inl e)
      then show ?thesis
        using Cons.IH [OF Cons.prems(1) os, of "refuse e s"] Cons.prems(2) h os MsgOrder by auto
    next
      case (Inr v)
      let ?n1 = "fst (net_broadcast nt n ep (MsgVote v))"
      have s1: "sent n [MsgVote v] ?n1" by (rule sent_broadcast [OF Cons.prems(1)])
      from Cons.IH [of ?n1, OF _ os] obtain n' where
        n': "handle_msgs cr jo nt refuse ep ms a' ?n1 s = (b', n', foldl (\<lambda>s e. refuse e s) s es')" "sent ?n1 (map MsgVote vs') n'"
        using sent_up(1) [OF s1] Cons.prems(1) by blast
      then show ?thesis using sent_trans [OF s1 n'(2)] Cons.prems(2) h os MsgOrder Inr by auto
    qed
  qed (use Cons in \<open>auto simp: orders_in_def\<close>)
qed simp

text \<open>One authority after the other, each with one order in its inbox.\<close>

lemma handle_all_spec:
  assumes "length as = length eps" "distinct eps" "set eps \<subseteq> peers n" "up n" "\<forall>ep \<in> set eps. orders_in (inbox n ep) = [ord]"
    and "collect_votes cr jo ord as = (as', vs, refusals, contested)"
  shows "\<exists>es n'. handle_all cr jo nt refuse as eps n s = (as', n', foldl (\<lambda>s e. refuse e s) s es) \<and>
    refusals = length es \<and> contested = list_ex is_equivocation es \<and> up n' \<and> peers n' = peers n \<and>
    (\<forall>q. q \<in> peers n \<longrightarrow> q \<notin> set eps \<longrightarrow> inbox n' q = inbox n q @ map MsgVote vs) \<and>
    (\<forall>q \<in> set eps. certs_in (inbox n' q) = [])"
  using assms
proof (induction as eps arbitrary: n s as' vs refusals contested rule: list_induct2')
  case (4 a as ep eps)
  obtain a' r where h: "handle cr jo a ord = (a', r)" by force
  obtain as2 vs2 rf2 ct2 where c2: "collect_votes cr jo ord as = (as2, vs2, rf2, ct2)" by (metis prod_cases4)
  let ?v = "case r of Inl _ \<Rightarrow> [] | Inr v \<Rightarrow> [v]" and ?e = "case r of Inl e \<Rightarrow> [e] | Inr _ \<Rightarrow> []"
  let ?n1 = "fst (net_poll nt n ep)"
  have "handle_orders cr jo (orders_in (inbox n ep)) a = (a', ?v, ?e)" using 4(6) h by (simp split: sum.splits)
  from handle_msgs_spec [OF _ this, of ?n1 refuse ep s] obtain n2 where
    n2: "handle_msgs cr jo nt refuse ep (inbox n ep) a ?n1 s = (a', n2, foldl (\<lambda>s e. refuse e s) s ?e)" "sent ?n1 (map MsgVote ?v) n2"
    using 4(5) poll_keeps(1) by auto
  have up2: "up n2" "peers n2 = peers n" using sent_up(1,2) [OF n2(2)] 4(5) poll_keeps by auto
  have in2: "inbox n2 q = (if q = ep then [] else inbox n q) @ map MsgVote ?v" if "q \<in> peers n" for q
    using sent_up(3) [OF n2(2), of q] that poll_keeps(2) poll_empties by simp
  have pre: "length as = length eps" "distinct eps" "set eps \<subseteq> peers n2" "\<forall>ep' \<in> set eps. orders_in (inbox n2 ep') = [ord]"
    using 4(2-4,6) up2(2) in2 by auto
  from 4(1) [OF pre(1-3) up2(1) pre(4) c2, of "foldl (\<lambda>s e. refuse e s) s ?e"] obtain es n' where
    r': "handle_all cr jo nt refuse as eps n2 (foldl (\<lambda>s e. refuse e s) s ?e) = (as2, n', foldl (\<lambda>s e. refuse e s) s (?e @ es))"
      "rf2 = length es" "ct2 = list_ex is_equivocation es" "up n'" "peers n' = peers n"
      "\<forall>q. q \<in> peers n \<longrightarrow> q \<notin> set eps \<longrightarrow> inbox n' q = inbox n2 q @ map MsgVote vs2" "\<forall>q \<in> set eps. certs_in (inbox n' q) = []"
    unfolding up2(2) foldl_append by blast
  have cv: "as' = a' # as2" "vs = ?v @ vs2" "refusals = length (?e @ es)" "contested = list_ex is_equivocation (?e @ es)"
    using 4(7) h c2 r'(2,3) by (auto split: sum.splits authority_error.splits)
  have "handle_all cr jo nt refuse (a # as) (ep # eps) n s = (as', n', foldl (\<lambda>s e. refuse e s) s (?e @ es))"
    using n2(1) r'(1) cv(1) poll_inbox [of n ep] by (simp add: case_prod_beta)
  moreover have "inbox n' q = inbox n q @ map MsgVote vs" if "q \<in> peers n" "q \<notin> set (ep # eps)" for q
    using that r'(6) in2 [of q] cv(2) by simp
  moreover have "certs_in (inbox n' q) = []" if "q \<in> set (ep # eps)" for q
    using that r'(6,7) in2 [of ep] 4(3,4) by (auto split: sum.splits)
  ultimately show ?case using cv(3,4) r'(4,5) by blast
qed auto

lemma confirm_msgs_spec:
  assumes "up n" "certs_in ms = [k]" "certificate_verify cr k c = Some v"
  shows "\<exists>n'. confirm_msgs cr jo nt c ep ms a n = (fst (confirm cr jo a v c), n') \<and>
    sent n (map MsgAttestation (attests cr jo v c a)) n'"
proof -
  have none: "confirm_msgs cr jo nt c ep ms a n = (a, n)" if "certs_in ms = []" for ms a n
    using that by (induction ms) (auto simp: certs_in_def split: authority_msg.splits)
  have one: "confirm_msgs cr jo nt c ep (MsgCert k # ms) a n = (fst (confirm cr jo a v c),
      (case attests cr jo v c a of [] \<Rightarrow> n | t # _ \<Rightarrow> fst (net_broadcast nt n ep (MsgAttestation t))))"
    if "certs_in ms = []" for ms
    using none [OF that] assms(3) by (auto simp: attests_def split: sum.splits prod.splits option.splits)
  have "\<exists>ms'. certs_in ms' = [] \<and> confirm_msgs cr jo nt c ep ms a n = confirm_msgs cr jo nt c ep (MsgCert k # ms') a n"
    using assms(2) by (induction ms) (auto simp: certs_in_def split: authority_msg.splits)
  moreover have "attests cr jo v c a = [] \<or> (\<exists>t. attests cr jo v c a = [t])"
    by (auto simp: attests_def split: sum.splits prod.splits option.splits)
  ultimately show ?thesis using one sent_broadcast [OF assms(1)] by fastforce
qed

lemma confirm_all_spec:
  assumes "length as = length eps" "distinct eps" "set eps \<subseteq> peers n" "up n" "\<forall>ep \<in> set eps. certs_in (inbox n ep) = [k]"
    and "certificate_verify cr k c = Some v"
  shows "\<exists>n'. confirm_all cr jo nt c as eps n = (map (\<lambda>a. fst (confirm cr jo a v c)) as, n') \<and> up n' \<and> peers n' = peers n \<and>
    (\<forall>q. q \<in> peers n \<longrightarrow> q \<notin> set eps \<longrightarrow> inbox n' q = inbox n q @ map MsgAttestation (concat (map (attests cr jo v c) as))) \<and>
    (\<forall>q \<in> set eps. certs_in (inbox n' q) = [])"
  using assms
proof (induction as eps arbitrary: n rule: list_induct2')
  case (4 a as ep eps)
  let ?n1 = "fst (net_poll nt n ep)"
  from confirm_msgs_spec [of ?n1 "inbox n ep" k cr c v jo ep a] obtain n2 where
    n2: "confirm_msgs cr jo nt c ep (inbox n ep) a ?n1 = (fst (confirm cr jo a v c), n2)"
      "sent ?n1 (map MsgAttestation (attests cr jo v c a)) n2"
    using 4(5-7) poll_keeps(1) by auto
  have up2: "up n2" "peers n2 = peers n" using sent_up(1,2) [OF n2(2)] 4(5) poll_keeps by auto
  have in2: "inbox n2 q = (if q = ep then [] else inbox n q) @ map MsgAttestation (attests cr jo v c a)" if "q \<in> peers n" for q
    using sent_up(3) [OF n2(2), of q] that poll_keeps(2) poll_empties by simp
  have pre: "length as = length eps" "distinct eps" "set eps \<subseteq> peers n2" "\<forall>ep' \<in> set eps. certs_in (inbox n2 ep') = [k]"
    using 4(2-4,6) up2(2) in2 by auto
  from 4(1) [OF pre(1-3) up2(1) pre(4) 4(7)] obtain n' where
    r': "confirm_all cr jo nt c as eps n2 = (map (\<lambda>a. fst (confirm cr jo a v c)) as, n')" "up n'" "peers n' = peers n"
      "\<forall>q. q \<in> peers n \<longrightarrow> q \<notin> set eps \<longrightarrow> inbox n' q = inbox n2 q @ map MsgAttestation (concat (map (attests cr jo v c) as))"
      "\<forall>q \<in> set eps. certs_in (inbox n' q) = []"
    unfolding up2(2) by blast
  have "confirm_all cr jo nt c (a # as) (ep # eps) n = (map (\<lambda>a. fst (confirm cr jo a v c)) (a # as), n')"
    using n2(1) r'(1) poll_inbox [of n ep] by (simp add: case_prod_beta)
  moreover have "inbox n' q = inbox n q @ map MsgAttestation (concat (map (attests cr jo v c) (a # as)))"
    if "q \<in> peers n" "q \<notin> set (ep # eps)" for q
    using that r'(4) in2 [of q] by simp
  moreover have "certs_in (inbox n' q) = []" if "q \<in> set (ep # eps)" for q
    using that r'(4,5) in2 [of ep] 4(3,4) by auto
  ultimately show ?case using r'(2,3) by blast
qed auto

lemma confirm_all_idle:
  assumes "\<forall>ep \<in> set eps. certs_in (inbox n ep) = []" "length as = length eps"
  shows "\<exists>n'. confirm_all cr jo nt c as eps n = (as, n') \<and> up n' = up n \<and> peers n' = peers n \<and>
    (\<forall>q. inbox n' q = (if q \<in> set eps then [] else inbox n q))"
  using assms(2,1)
proof (induction as eps arbitrary: n rule: list_induct2)
  case (Cons a as ep eps)
  have none: "confirm_msgs cr jo nt c ep ms a n = (a, n)" if "certs_in ms = []" for ms n
    using that by (induction ms) (auto simp: certs_in_def split: authority_msg.splits)
  let ?n1 = "fst (net_poll nt n ep)"
  have "\<forall>ep' \<in> set eps. certs_in (inbox ?n1 ep') = []" using Cons.prems by (simp add: poll_empties)
  from Cons.IH [OF this] none [of "inbox n ep" ?n1] show ?case
    using Cons.prems poll_inbox [of n ep] poll_keeps [of n ep] by (auto simp: case_prod_beta poll_empties)
qed auto

lemma vote_phase:
  assumes "length as = length eps" "distinct eps" "client \<notin> set eps" "insert client (set eps) \<subseteq> peers n" "up n"
    and "\<forall>ep \<in> set eps. orders_in (inbox n ep) = []" "votes_in (inbox n client) = []"
    and "collect_votes cr jo ord as = (as', vs, refusals, contested)"
  shows "\<exists>es n'. handle_all cr jo nt refuse as eps (fst (net_broadcast nt n client (MsgOrder ord))) s =
      (as', n', foldl (\<lambda>s e. refuse e s) s es) \<and> refusals = length es \<and> contested = list_ex is_equivocation es \<and>
    up n' \<and> peers n' = peers n \<and> votes_in (inbox n' client) = vs \<and> (\<forall>q \<in> set eps. certs_in (inbox n' q) = [])"
proof -
  let ?n1 = "fst (net_broadcast nt n client (MsgOrder ord))"
  have s1: "sent n [MsgOrder ord] ?n1" by (rule sent_broadcast [OF assms(5)])
  have "\<forall>ep \<in> set eps. orders_in (inbox ?n1 ep) = [ord]" using sent_up(3) [OF s1] assms(4,6) by auto
  from handle_all_spec [OF assms(1,2) _ _ this assms(8), of refuse s] obtain es n' where
    r: "handle_all cr jo nt refuse as eps ?n1 s = (as', n', foldl (\<lambda>s e. refuse e s) s es)" "refusals = length es"
      "contested = list_ex is_equivocation es" "up n'" "peers n' = peers n" "inbox n' client = inbox ?n1 client @ map MsgVote vs"
      "\<forall>q \<in> set eps. certs_in (inbox n' q) = []"
    using sent_up(1,2) [OF s1] assms(3,4,5) by auto
  have "votes_in (inbox n' client) = vs" using r(6) sent_up(3) [OF s1, of client] assms(4,7) by simp
  with r show ?thesis by blast
qed

lemma confirm_phase:
  assumes "length as = length eps" "distinct eps" "client \<notin> set eps" "insert client (set eps) \<subseteq> peers n" "up n"
    and "\<forall>q \<in> set eps. certs_in (inbox n q) = []" "certificate_verify cr k c = Some v"
  shows "\<exists>n'. confirm_all cr jo nt c as eps (fst (net_broadcast nt (fst (net_poll nt n client)) client (MsgCert k))) =
      (map (\<lambda>a. fst (confirm cr jo a v c)) as, n') \<and> up n' \<and> peers n' = peers n \<and>
    inbox n' client = MsgCert k # map MsgAttestation (concat (map (attests cr jo v c) as)) \<and>
    (\<forall>q \<in> set eps. certs_in (inbox n' q) = [])"
proof -
  let ?n1 = "fst (net_poll nt n client)"
  let ?n2 = "fst (net_broadcast nt ?n1 client (MsgCert k))"
  have s2: "sent ?n1 [MsgCert k] ?n2" using assms(5) poll_keeps(1) by (intro sent_broadcast) simp
  have "\<forall>q \<in> set eps. certs_in (inbox ?n2 q) = [k]"
    using sent_up(3) [OF s2] assms(3,4,6) poll_keeps(2) poll_empties by auto
  moreover have "up ?n2" "peers ?n2 = peers n" using sent_up(1,2) [OF s2] assms(5) poll_keeps by simp_all
  moreover have "inbox ?n2 client = [MsgCert k]" using sent_up(3) [OF s2, of client] assms(4) poll_keeps(2) poll_empties by simp
  ultimately show ?thesis
    using confirm_all_spec [OF assms(1,2) _ _ _ assms(7), of ?n2 jo] assms(3,4) by auto
qed

lemma confirm_rounds_idle:
  assumes "\<forall>q \<in> set eps. certs_in (inbox n q) = []" "length as = length eps"
  shows "\<exists>n'. confirm_rounds cr jo nt c eps rounds as n = Some (as, n') \<and> up n' = up n \<and> peers n' = peers n \<and>
    (\<forall>q. q \<notin> set eps \<longrightarrow> inbox n' q = inbox n q)"
  using assms(1)
proof (induction rounds arbitrary: n)
  case (Suc rounds)
  from confirm_all_idle [OF Suc.prems assms(2)] obtain n1 where
    n1: "confirm_all cr jo nt c as eps n = (as, n1)" "up n1 = up n" "peers n1 = peers n"
      "\<forall>q. inbox n1 q = (if q \<in> set eps then [] else inbox n q)" by blast
  from Suc.IH [of n1] n1(4) obtain n' where "confirm_rounds cr jo nt c eps rounds as n1 = Some (as, n')" "up n' = up n1"
    "peers n' = peers n1" "\<forall>q. q \<notin> set eps \<longrightarrow> inbox n' q = inbox n1 q" by auto
  then show ?case using n1 assms(2) by (simp add: confirm_from_mesh_def)
qed simp

end

section \<open>The mesh implements the interface\<close>

definition mesh_inbox :: "mesh \<Rightarrow> peer_id \<Rightarrow> authority_msg list" where
  "mesh_inbox g p = (case map_of (mesh_mailboxes g) p of None \<Rightarrow> [] | Some mb \<Rightarrow> map mail_msg mb)"

definition mesh_peers :: "mesh \<Rightarrow> peer_id set" where
  "mesh_peers g = fst ` set (mesh_mailboxes g)"

abbreviation mesh_up :: "mesh \<Rightarrow> bool" where
  "mesh_up g \<equiv> \<not> mesh_closed g"

lemma mesh_peers_iff: "p \<in> mesh_peers g \<longleftrightarrow> map_of (mesh_mailboxes g) p \<noteq> None"
  by (simp add: mesh_peers_def map_of_eq_None_iff)

lemma mesh_fanout_inbox:
  "mesh_up g \<Longrightarrow> mesh_inbox (fst (fanout g m)) q = (if q \<in> mesh_peers g then mesh_inbox g q @ [m] else mesh_inbox g q)"
  by (auto simp: fanout_def mesh_inbox_def mesh_peers_iff map_of_map split: option.splits)

interpretation meshn: broadcast_net mesh_net mesh_inbox mesh_up mesh_peers
proof
  fix g p q m
  show "snd (net_poll mesh_net g p) = mesh_inbox g p"
    by (simp add: mesh_net_def drain_def drain_with_hops_def mesh_inbox_def comp_def split: option.splits)
  show "mesh_inbox (fst (net_poll mesh_net g p)) = (mesh_inbox g)(p := [])"
    by (auto simp: mesh_net_def drain_def drain_with_hops_def mesh_inbox_def fun_eq_iff split: option.splits)
  show "mesh_up (fst (net_poll mesh_net g p)) = mesh_up g"
    by (simp add: mesh_net_def drain_def drain_with_hops_def split: option.splits)
  show "mesh_peers (fst (net_poll mesh_net g p)) = mesh_peers g"
    by (auto simp: mesh_net_def drain_def drain_with_hops_def mesh_peers_iff split: option.splits if_splits)
  assume u: "mesh_up g"
  show "q \<in> mesh_peers g \<Longrightarrow> mesh_inbox (fst (net_broadcast mesh_net g p m)) q = mesh_inbox g q @ [m]"
    "q \<notin> mesh_peers g \<Longrightarrow> mesh_inbox (fst (net_broadcast mesh_net g p m)) q = mesh_inbox g q"
    using u by (simp_all add: mesh_net_def mesh_fanout_inbox)
  show "snd (net_broadcast mesh_net g p m) = Inr ()" "mesh_up (fst (net_broadcast mesh_net g p m))"
    "mesh_peers (fst (net_broadcast mesh_net g p m)) = mesh_peers g"
    using u by (auto simp: mesh_net_def fanout_def mesh_peers_iff map_of_map)
next
  fix g p m
  show "\<not> mesh_up g \<Longrightarrow> \<exists>e. net_broadcast mesh_net g p m = (g, Inl e)" by (simp add: mesh_net_def fanout_def)
qed

section \<open>Votes of seated authorities\<close>

text \<open>An authority that holds its seat in committee \<open>c\<close>, whatever it has locked, confirmed or lost.\<close>

definition seated :: "crypto \<Rightarrow> committee \<Rightarrow> 'j authority \<Rightarrow> bool" where
  "seated cr c a \<longleftrightarrow> au_epoch_state a = Active \<and> au_committee_id a = cm_id c \<and> au_policy a = cm_policy c \<and>
     committee_key_of c (au_id a) = Some (ed_public cr (au_signing a))"

lemma seated_vote:
  assumes "crypto_ok cr" "seated cr c a" "handle cr jo a ord = (a', Inr v)"
  shows "vote_matches cr v ord c" "vt_authority v = au_id a"
proof -
  have ho: "handle_order cr jo a ord = (a', Inr v)"
    using assms(2,3) by (auto simp: handle_def seated_def epoch_gate_def split: if_splits)
  then have pol: "st_policy_id ord = tp_id (cm_policy c)"
    using assms(2) by (auto simp: handle_order_def Let_def seated_def order_verify_def policy_validate_ok split: sum.splits)
  have "v = sign_vote cr a ord"
    using ho by (auto simp: handle_order_def Let_def journal_append_def sign_vote_def
        split: sum.splits option.splits if_splits prod.splits)
  then show "vote_matches cr v ord c" "vt_authority v = au_id a"
    using assms(1,2) pol crypto_complete(2) [OF assms(1)]
    by (simp_all add: vote_matches_def sign_vote_def vote_message_def seated_def)
qed

lemma collect_votes_valid:
  assumes "crypto_ok cr" "collect_votes cr jo ord as = (as', vs, refusals, contested)" "\<forall>a \<in> set as. seated cr c a"
    "distinct (map au_id as)"
  shows "(\<forall>v \<in> set vs. vote_matches cr v ord c) \<and> distinct (map vt_authority vs) \<and> vt_authority ` set vs \<subseteq> au_id ` set as \<and>
    length as' = length as"
  using assms(2-)
proof (induction as arbitrary: as' vs refusals contested)
  case (Cons a as)
  obtain a' r where h: "handle cr jo a ord = (a', r)" by force
  obtain as2 vs2 rf2 ct2 where c2: "collect_votes cr jo ord as = (as2, vs2, rf2, ct2)" by (metis prod_cases4)
  have ih: "(\<forall>v \<in> set vs2. vote_matches cr v ord c) \<and> distinct (map vt_authority vs2) \<and> vt_authority ` set vs2 \<subseteq> au_id ` set as \<and>
    length as2 = length as"
    by (rule Cons.IH [OF c2]) (use Cons.prems in simp_all)
  show ?case
  proof (cases r)
    case (Inl e)
    then have "vs = vs2" "as' = a' # as2" using Cons.prems(1) h c2 by (auto split: authority_error.splits)
    then show ?thesis using ih by auto
  next
    case (Inr v)
    then have "vs = v # vs2" "as' = a' # as2" using Cons.prems(1) h c2 by auto
    moreover have "vote_matches cr v ord c" "vt_authority v = au_id a"
      using seated_vote [OF assms(1) _ h [unfolded Inr]] Cons.prems(2) by auto
    ultimately show ?thesis using ih Cons.prems(3) by auto
  qed
qed simp

lemma assemble_verifies: "certificate_assemble cr ord vs c = Some k \<Longrightarrow>
    k = \<lparr>ct_order = ord, ct_votes = vs\<rparr> \<and> certificate_verify cr k c = Some \<lparr>vf_order = ord, vf_committee_id = cm_id c\<rparr>"
  by (auto simp: certificate_assemble_def certificate_verify_def Let_def split: if_splits)

lemma count_refusals:
  "foldl (\<lambda>s e. count_refusal e s) (r, b) es = (r + length es, b \<or> list_ex is_equivocation es)"
  by (induction es arbitrary: r b) (auto simp: count_refusal_def)

lemma confirm_signing: "confirm cr jo a v c = (b, Inr r) \<Longrightarrow> au_signing b = au_signing a"
  by (auto simp: confirm_def confirm_impl_def confirm_apply_def journal_append_def complete_install_def Let_def
      split: if_splits sum.splits option.splits prod.splits epoch_state.splits)

lemma attests_settled:
  assumes "crypto_ok cr" "settles cr c ord a" "order_verify cr ord (cm_policy c) = Inr ()"
    and "j_append jo (au_journal a) (Confirmed ord) = (j', Inr ())"
  shows "\<exists>t. attests cr jo \<lparr>vf_order = ord, vf_committee_id = cm_id c\<rparr> c a = [t] \<and> ea_authority t = au_id a \<and>
    ea_account t = tr_from (st_transfer ord) \<and> ea_seq t = tr_from_seq (st_transfer ord) \<and> ea_order_id t = order_id cr ord \<and>
    attestation_is_valid cr t c"
proof -
  let ?v = "\<lparr>vf_order = ord, vf_committee_id = cm_id c\<rparr>"
  obtain b where b: "confirm cr jo a ?v c = (b, Inr Applied)"
    "map_of (au_confirmed b) (tr_from (st_transfer ord), tr_from_seq (st_transfer ord)) = Some (order_id cr ord)"
    "au_id b = au_id a" "au_committee_id b = au_committee_id a"
    using settles_confirms [OF assms(2-4)] by blast
  have "au_signing b = au_signing a" by (rule confirm_signing [OF b(1)])
  then show ?thesis
    using b assms(2) crypto_complete(2) [OF assms(1)]
    by (simp add: attests_def attestation_for_def vf_transfer_def attestation_is_valid_def settles_def)
qed

lemma accept_attestations_all:
  assumes "\<forall>t \<in> set ts. ea_account t = acct \<and> ea_seq t = sq \<and> ea_order_id t = oid \<and> attestation_is_valid cr t c"
    "distinct (map ea_authority ts)" "ea_authority ` set ts \<inter> set seen = {}"
  shows "accept_attestations cr acct sq oid c seen (map MsgAttestation ts) = ts"
  using assms by (induction ts arbitrary: seen) auto

lemma settled_final:
  assumes "crypto_ok cr" "\<forall>a \<in> set as. settles cr c ord a" "order_verify cr ord (cm_policy c) = Inr ()"
    and "distinct (map au_id as)" "committee_quorum c \<le> length as"
  defines "ts \<equiv> concat (map (attests cr mem_ops \<lparr>vf_order = ord, vf_committee_id = cm_id c\<rparr> c) as)"
  shows "accept_attestations cr (tr_from (st_transfer ord)) (tr_from_seq (st_transfer ord)) (order_id cr ord) c []
      (map MsgAttestation ts) = ts"
    and "is_final_effectcert cr (tr_from (st_transfer ord)) (tr_from_seq (st_transfer ord)) (order_id cr ord) ts c"
proof -
  define f where "f a = hd (attests cr mem_ops \<lparr>vf_order = ord, vf_committee_id = cm_id c\<rparr> c a)" for a
  have f: "attests cr mem_ops \<lparr>vf_order = ord, vf_committee_id = cm_id c\<rparr> c a = [f a]" "ea_authority (f a) = au_id a"
      "ea_account (f a) = tr_from (st_transfer ord)" "ea_seq (f a) = tr_from_seq (st_transfer ord)"
      "ea_order_id (f a) = order_id cr ord" "attestation_is_valid cr (f a) c" if "a \<in> set as" for a
    using attests_settled [OF assms(1) _ assms(3) mem_append_ok, of a] assms(2) that unfolding f_def by auto
  have ts: "ts = map f as" unfolding ts_def using f(1) by (induction as) auto
  then have ids: "map ea_authority ts = map au_id as" using f(2) by simp
  have all: "\<forall>t \<in> set ts. ea_account t = tr_from (st_transfer ord) \<and> ea_seq t = tr_from_seq (st_transfer ord) \<and>
      ea_order_id t = order_id cr ord \<and> attestation_is_valid cr t c" using f(3-6) ts by auto
  show "accept_attestations cr (tr_from (st_transfer ord)) (tr_from_seq (st_transfer ord)) (order_id cr ord) c []
      (map MsgAttestation ts) = ts"
    by (rule accept_attestations_all [OF all]) (use ids assms(4) in auto)
  have "attesters cr (tr_from (st_transfer ord)) (tr_from_seq (st_transfer ord)) (order_id cr ord) c ts = set (map au_id as)"
    using all unfolding attesters_def ids [symmetric] by auto
  then show "is_final_effectcert cr (tr_from (st_transfer ord)) (tr_from_seq (st_transfer ord)) (order_id cr ord) ts c"
    using distinct_card [OF assms(4)] assms(5) by (simp add: final_iff)
qed

section \<open>What a collector hears\<close>

text \<open>Everything \<open>k\<close> successive polls return, and the members with a valid vote among it.\<close>

fun polled :: "'n authority_net \<Rightarrow> peer_id \<Rightarrow> nat \<Rightarrow> 'n \<Rightarrow> authority_msg list" where
  "polled nt p 0 n = []"
| "polled nt p (Suc k) n = (case net_poll nt n p of (n', ms) \<Rightarrow> ms @ polled nt p k n')"

definition valid_voters :: "crypto \<Rightarrow> signed_transfer \<Rightarrow> committee \<Rightarrow> authority_msg list \<Rightarrow> authority_id set" where
  "valid_voters cr ord c ms = vt_authority ` {v \<in> set (votes_in ms). vote_matches cr v ord c}"

definition enough :: "crypto \<Rightarrow> signed_transfer \<Rightarrow> committee \<Rightarrow> authority_msg list \<Rightarrow> bool" where
  "enough cr ord c ms \<longleftrightarrow> order_verify cr ord (cm_policy c) = Inr () \<and> committee_quorum c \<le> card (valid_voters cr ord c ms)"

definition collector_inv :: "crypto \<Rightarrow> signed_transfer \<Rightarrow> committee \<Rightarrow> authority_msg list \<Rightarrow> authority_id list \<times> vote list \<Rightarrow> bool" where
  "collector_inv cr ord c heard st \<longleftrightarrow>
     (case st of (seen, votes) \<Rightarrow> set seen = valid_voters cr ord c heard \<and> distinct (map vt_authority votes) \<and>
       vt_authority ` set votes = valid_voters cr ord c heard \<and> (\<forall>v \<in> set votes. vote_matches cr v ord c))"

lemma valid_voters_append: "valid_voters cr ord c (xs @ ys) = valid_voters cr ord c xs \<union> valid_voters cr ord c ys"
  by (auto simp: valid_voters_def)

lemma accept_votes_inv:
  assumes "collector_inv cr ord c heard st"
  shows "collector_inv cr ord c (heard @ ms) (accept_votes cr ord c ms st)"
  using assms
proof (induction ms arbitrary: heard st)
  case (Cons m ms)
  obtain seen votes where st: "st = (seen, votes)" by force
  have vv: "valid_voters cr ord c (heard @ [m]) = valid_voters cr ord c heard \<union>
      (case m of MsgVote v \<Rightarrow> if vote_matches cr v ord c then {vt_authority v} else {} | _ \<Rightarrow> {})"
    by (auto simp: valid_voters_def split: authority_msg.splits)
  have ok: "is_ok (vote_validate_for cr v ord c) \<longleftrightarrow> vote_matches cr v ord c" for v
    by (simp add: is_ok_iff flip: vote_validate_for_ok)
  have "collector_inv cr ord c (heard @ [m]) (accept_votes cr ord c [m] st)"
    using Cons.prems unfolding st collector_inv_def vv by (cases m) (auto simp: ok)
  moreover have "accept_votes cr ord c (m # ms) st = accept_votes cr ord c ms (accept_votes cr ord c [m] st)"
    by (cases m) (simp_all add: st)
  ultimately show ?case using Cons.IH [of "heard @ [m]" "accept_votes cr ord c [m] st"] by simp
qed simp

lemma inv_assembles:
  assumes "collector_inv cr ord c heard (seen, votes)"
  shows "length votes = card (valid_voters cr ord c heard)"
    and "certificate_assemble cr ord votes c = (if enough cr ord c heard then Some \<lparr>ct_order = ord, ct_votes = votes\<rparr> else None)"
proof -
  show len: "length votes = card (valid_voters cr ord c heard)"
    using assms distinct_card [of "map vt_authority votes"] by (simp add: collector_inv_def)
  show "certificate_assemble cr ord votes c = (if enough cr ord c heard then Some \<lparr>ct_order = ord, ct_votes = votes\<rparr> else None)"
  proof -
    have "distinct (map vt_authority votes)" "\<forall>v \<in> set votes. vote_matches cr v ord c"
      using assms by (simp_all add: collector_inv_def)
    moreover have "committee_quorum c \<le> length votes \<Longrightarrow> votes \<noteq> []" using quorum_pos [of c] by auto
    ultimately have "certificate_is_valid cr \<lparr>ct_order = ord, ct_votes = votes\<rparr> c \<longleftrightarrow> enough cr ord c heard"
      unfolding certificate_valid_iff enough_def len [symmetric] by auto
    then show ?thesis by (simp add: certificate_assemble_def)
  qed
qed

lemma collect_loop:
  assumes "collector_inv cr (vc_order vc) c heard (vc_seen vc, vc_votes vc)" "\<not> enough cr (vc_order vc) c heard"
  shows "\<exists>n' vc'. collect_until_quorum_with_pause cr nt p c rounds n vc =
     Some (n', vc', if enough cr (vc_order vc) c (heard @ polled nt p rounds n)
       then (Some \<lparr>ct_order = vc_order vc, ct_votes = vc_votes vc'\<rparr>, CertifiedOk)
       else (None, CertifiedFailed (card (valid_voters cr (vc_order vc) c (heard @ polled nt p rounds n))) (vc_refusals vc) (vc_contested vc))) \<and>
     (enough cr (vc_order vc) c (heard @ polled nt p rounds n) \<longrightarrow>
       certificate_verify cr \<lparr>ct_order = vc_order vc, ct_votes = vc_votes vc'\<rparr> c = Some \<lparr>vf_order = vc_order vc, vf_committee_id = cm_id c\<rparr>)"
  using assms
proof (induction rounds arbitrary: n vc heard)
  case 0
  then show ?case using inv_assembles(1) by (auto simp: failed_status_def)
next
  case (Suc rounds)
  obtain n1 ms where p: "net_poll nt n p = (n1, ms)" by force
  obtain seen votes where av: "accept_votes cr (vc_order vc) c ms (vc_seen vc, vc_votes vc) = (seen, votes)" by force
  let ?vc = "vc\<lparr>vc_votes := votes, vc_seen := seen\<rparr>"
  have inv: "collector_inv cr (vc_order vc) c (heard @ ms) (seen, votes)" using accept_votes_inv [OF Suc.prems(1), of ms] av by simp
  have pr: "poll_round cr nt p c n vc = (n1, ?vc)" using p av by (simp add: poll_round_def)
  note asm = inv_assembles(2) [OF inv]
  show ?case
  proof (cases "enough cr (vc_order vc) c (heard @ ms)")
    case True
    have "card (valid_voters cr (vc_order vc) c (heard @ ms)) \<le> card (valid_voters cr (vc_order vc) c (heard @ ms @ polled nt p rounds n1))"
      by (rule card_mono) (auto simp: valid_voters_append, simp_all add: valid_voters_def)
    then have "enough cr (vc_order vc) c (heard @ ms @ polled nt p rounds n1)" using True by (simp add: enough_def)
    moreover have "certificate_verify cr \<lparr>ct_order = vc_order vc, ct_votes = votes\<rparr> c = Some \<lparr>vf_order = vc_order vc, vf_committee_id = cm_id c\<rparr>"
      using assemble_verifies [of cr "vc_order vc" votes c] asm True by simp
    ultimately show ?thesis using True pr p asm by (simp add: try_assemble_def)
  next
    case False
    have "collector_inv cr (vc_order ?vc) c (heard @ ms) (vc_seen ?vc, vc_votes ?vc)" "\<not> enough cr (vc_order ?vc) c (heard @ ms)"
      using inv False by simp_all
    from Suc.IH [OF this, of n1] show ?thesis using False pr p asm by (simp add: try_assemble_def cong: if_cong)
  qed
qed

section \<open>Properties\<close>

text \<open>C18: certification over the network computes what the synchronous \<open>certify\<close> computes. Let there be as many endpoints as
  authorities (otherwise \<open>certify_via_mesh\<close> panics at its assertion), let the authorities have different ids and be active members of the
  committee under its policy and with the keys it lists, and let the endpoints and the client be different and have joined an open mesh on which no older orders wait for the endpoints
  and no older votes for the client. Then \<open>certify_via_mesh\<close> does not panic and gives the
  same authorities, the same verified certificate or none, and the same counts of votes,
  refusals and contention, whatever the ledgers, locks and journals of the authorities.\<close>

theorem mesh_certify_equals_certify:
  assumes "crypto_ok cr" "\<forall>a \<in> set as. seated cr c a" "distinct (map au_id as)"
    and "length as = length eps" "distinct eps" "client \<notin> set eps" "insert client (set eps) \<subseteq> mesh_peers n" "\<not> mesh_closed n"
    and "\<forall>ep \<in> set eps. orders_in (mesh_inbox n ep) = []" "votes_in (mesh_inbox n client) = []"
    and "certify cr jo ord as c = (as', ver, status)"
  shows "\<exists>n'. certify_via_mesh cr jo ord as eps client c n = Some (as', n', ver, status)"
proof -
  obtain as1 vs rf ct where cv: "collect_votes cr jo ord as = (as1, vs, rf, ct)" by (metis prod_cases4)
  note valid = collect_votes_valid [OF assms(1) cv assms(2,3)]
  obtain n1 where b1: "net_broadcast mesh_net n client (MsgOrder ord) = (n1, Inr ())"
    using meshn.broadcast_ok [OF assms(8), of client "MsgOrder ord"] by (metis prod.collapse)
  from meshn.vote_phase [OF assms(4-10) cv, of count_refusal "(0, False)", unfolded b1 fst_conv] obtain n2 where
    h: "handle_all cr jo mesh_net count_refusal as eps n1 (0, False) = (as1, n2, rf, ct)"
      "mesh_up n2" "mesh_peers n2 = mesh_peers n" "votes_in (mesh_inbox n2 client) = vs"
      "\<forall>q \<in> set eps. certs_in (mesh_inbox n2 q) = []"
    by (auto simp: count_refusals)
  obtain n3 where p3: "net_poll mesh_net n2 client = (n3, mesh_inbox n2 client)"
    using meshn.poll_inbox [of n2 client] by (metis prod.collapse)
  have "accept_votes cr ord c (mesh_inbox n2 client) ([], []) = (rev (map vt_authority vs), vs)"
    unfolding accept_votes_only_votes [of _ _ _ "mesh_inbox n2 client"] h(4) using accept_votes_all [of vs cr ord c "[]" "[]"] valid by simp
  then have run: "certify_via_mesh cr jo ord as eps client c n =
     (case certificate_assemble cr ord vs c of
        Some k \<Rightarrow>
         (case certificate_verify cr k c of
            None \<Rightarrow> None
          | Some v \<Rightarrow>
             (case confirm_from_mesh cr jo mesh_net c as1 eps (fst (net_broadcast mesh_net n3 client (MsgCert k))) of
                None \<Rightarrow> None
              | Some (as3, n4) \<Rightarrow> Some (as3, n4, Some v, CertifiedOk)))
      | None \<Rightarrow> Some (as1, n3, None, CertifiedFailed (length vs) rf ct))"
    using assms(4) b1 h(1) p3 by (simp add: certify_via_mesh_def)
  show ?thesis
  proof (cases "certificate_assemble cr ord vs c")
    case None
    then show ?thesis using assms(11) cv run by (simp add: certify_def)
  next
    case (Some k)
    note k = conjunct1 [OF assemble_verifies [OF Some]] and kv = conjunct2 [OF assemble_verifies [OF Some]]
    have len: "length as1 = length eps" using valid assms(4) by simp
    have "insert client (set eps) \<subseteq> mesh_peers n2" using assms(7) h(3) by simp
    from meshn.confirm_phase [OF len assms(5,6) this h(2,5) kv, of jo, unfolded p3 fst_conv]
    show ?thesis using Some run assms(11) cv len kv by (auto simp: certify_def confirm_from_mesh_def)
  qed
qed

text \<open>The witness network: the four demonstration authorities and a client, all mailboxes empty.\<close>

definition demo_mesh :: mesh where
  "demo_mesh = foldl mesh_join mesh_new [''u'', ''v'', ''w'', ''x'', ''z'']"

lemma demo_mesh_is:
  "demo_mesh = \<lparr>mesh_mailboxes = [(''u'', []), (''v'', []), (''w'', []), (''x'', []), (''z'', [])], mesh_closed = False\<rparr>"
  by (simp add: demo_mesh_def mesh_join_def mesh_new_def)

lemma demo_mesh_facts:
  "insert ''z'' (set [''u'', ''v'', ''w'', ''x'']) \<subseteq> mesh_peers demo_mesh" "\<not> mesh_closed demo_mesh" "mesh_inbox demo_mesh p = []"
  by (simp_all add: demo_mesh_is mesh_peers_def mesh_inbox_def)

lemma demo_seated: "a \<in> set demo_authorities \<Longrightarrow> seated demo_crypto demo_committee a"
  using demo_ready [of a 3 0] by (auto simp: ready_def settles_def seated_def)

theorem mesh_certify_equals_certify_witness:
  "\<exists>as' ver status n'. certify demo_crypto mem_ops demo_order demo_authorities demo_committee = (as', ver, status) \<and>
    certify_via_mesh demo_crypto mem_ops demo_order demo_authorities [''u'', ''v'', ''w'', ''x''] ''z'' demo_committee demo_mesh
      = Some (as', n', ver, status)"
proof -
  obtain as' ver status where c: "certify demo_crypto mem_ops demo_order demo_authorities demo_committee = (as', ver, status)"
    by (metis prod_cases3)
  have "length demo_authorities = length [''u'', ''v'', ''w'', ''x'']" using demo_roster(2) by simp
  from mesh_certify_equals_certify [OF demo_crypto_ok _ demo_roster(1) this _ _ demo_mesh_facts(1,2) _ _ c]
  show ?thesis using c demo_seated demo_mesh_facts(3) by auto
qed

text \<open>C19: an order is carried to effect finality over the network. Let the driven authorities, at least a quorum, with different ids,
  all be ready for the order on in-memory journals (running, seated, in the committee's epoch, with the slot unlocked and the sequence number
  unconfirmed and a ledger that accepts the transfer), let the order verify and move a positive amount, and let there be one endpoint for
  each, different and joined, like the client, to an open mesh with no older orders waiting for the endpoints and no older votes for the client.
  Then \<open>certify_via_mesh_rounds\<close> certifies the order with any positive number of rounds, every one of the authorities
  applies it, and the client, polling its mailbox afterwards, collects the attestations that
  make the effect final.\<close>

theorem mesh_rounds_reach_finality:
  assumes "crypto_ok cr" "\<forall>a \<in> set as. ready cr c ord a" "order_verify cr ord (cm_policy c) = Inr ()"
    and "tr_amount (st_transfer ord) \<noteq> 0" "distinct (map au_id as)" "committee_quorum c \<le> length as"
    and "length as = length eps" "distinct eps" "client \<notin> set eps" "insert client (set eps) \<subseteq> mesh_peers n" "\<not> mesh_closed n"
    and "\<forall>ep \<in> set eps. orders_in (mesh_inbox n ep) = []" "votes_in (mesh_inbox n client) = []" "0 < rounds"
  shows "\<exists>as' n' k n'' ts.
    certify_via_mesh_rounds_with_pause cr mem_ops mesh_net ord as eps client c rounds n =
      Some (as', n', Some \<lparr>vf_order = ord, vf_committee_id = cm_id c\<rparr>, Some k, CertifiedOk) \<and>
    list_all2 (\<lambda>a b. ledger_apply (au_ledger a) (st_transfer ord) = Inr (au_ledger b)) as as' \<and>
    collect_effect_attestations cr mesh_net client (tr_from (st_transfer ord)) (tr_from_seq (st_transfer ord))
      (order_id cr ord) c n' = (n'', ts) \<and>
    is_final_effectcert cr (tr_from (st_transfer ord)) (tr_from_seq (st_transfer ord)) (order_id cr ord) ts c"
proof -
  let ?v = "\<lparr>vf_order = ord, vf_committee_id = cm_id c\<rparr>" and ?as1 = "map (locked_on ord) as"
  let ?vs = "map (\<lambda>a. sign_vote cr a ord) as"
  let ?k = "\<lparr>ct_order = ord, ct_votes = ?vs\<rparr>"
  obtain r where r: "rounds = Suc r" using assms(14) gr0_implies_Suc by blast
  have cv: "collect_votes cr mem_ops ord as = (?as1, ?vs, 0, False)" by (rule collect_ready [OF assms(2-4)])
  have asm: "certificate_assemble cr ord ?vs c = Some ?k" by (rule ready_certificate [OF assms(1-3,5,6)])
  note kv = conjunct2 [OF assemble_verifies [OF asm]]
  obtain n1 where b1: "net_broadcast mesh_net n client (MsgOrder ord) = (n1, Inr ())"
    using meshn.broadcast_ok [OF assms(11), of client "MsgOrder ord"] by (metis prod.collapse)
  from meshn.vote_phase [OF assms(7-13) cv, of note_refusal "vc_new ord", unfolded b1 fst_conv] obtain n2 where
    h: "handle_all cr mem_ops mesh_net note_refusal as eps n1 (vc_new ord) = (?as1, n2, vc_new ord)"
      "mesh_up n2" "mesh_peers n2 = mesh_peers n" "votes_in (mesh_inbox n2 client) = ?vs"
      "\<forall>q \<in> set eps. certs_in (mesh_inbox n2 q) = []"
    by auto
  obtain n3 where p3: "net_poll mesh_net n2 client = (n3, mesh_inbox n2 client)"
    using meshn.poll_inbox [of n2 client] by (metis prod.collapse)
  have "accept_votes cr ord c (mesh_inbox n2 client) ([], []) = (rev (map vt_authority ?vs), ?vs)"
    using asm assms(5)
    unfolding accept_votes_only_votes [of _ _ _ "mesh_inbox n2 client"] h(4) certificate_assemble_def certificate_valid_iff Let_def
    by (subst accept_votes_all) (auto split: if_splits)
  then obtain coll where pr: "poll_round cr mesh_net client c n2 (vc_new ord) = (n3, coll)" "try_assemble cr coll c = Some ?k"
    using p3 asm by (auto simp: poll_round_def try_assemble_def vc_new_def)
  have len: "length ?as1 = length eps" using assms(7) by simp
  have "insert client (set eps) \<subseteq> mesh_peers n2" using assms(10) h(3) by simp
  from meshn.confirm_phase [OF len assms(8,9) this h(2,5) kv, of mem_ops, unfolded p3 fst_conv] obtain n4 where
    c4: "confirm_all cr mem_ops mesh_net c ?as1 eps (fst (net_broadcast mesh_net n3 client (MsgCert ?k))) =
        (map (\<lambda>a. fst (confirm cr mem_ops a ?v c)) ?as1, n4)"
      "mesh_inbox n4 client = MsgCert ?k # map MsgAttestation (concat (map (attests cr mem_ops ?v c) ?as1))"
      "\<forall>q \<in> set eps. certs_in (mesh_inbox n4 q) = []" by blast
  let ?as' = "map (\<lambda>a. fst (confirm cr mem_ops a ?v c)) ?as1"
  from meshn.confirm_rounds_idle [OF c4(3), of ?as' cr mem_ops c r] obtain n5 where
    c5: "confirm_rounds cr mem_ops mesh_net c eps r ?as' n4 = Some (?as', n5)" "mesh_inbox n5 client = mesh_inbox n4 client"
    using assms(7,9) by auto
  have run: "certify_via_mesh_rounds_with_pause cr mem_ops mesh_net ord as eps client c rounds n =
      Some (?as', n5, Some ?v, Some ?k, CertifiedOk)"
    using assms(7) b1 h(1) pr c4(1) c5(1) kv r
    by (simp add: certify_via_mesh_rounds_with_pause_def authority_handle_round_def confirm_from_mesh_def)
  have st: "\<forall>a \<in> set ?as1. settles cr c ord a" using assms(2) by (auto simp: ready_def)
  have "distinct (map au_id ?as1)" "committee_quorum c \<le> length ?as1" using assms(5,6) by (simp_all add: comp_def)
  note fin = settled_final [OF assms(1) st assms(3) this]
  have "list_all2 (\<lambda>a b. ledger_apply (au_ledger a) (st_transfer ord) = Inr (au_ledger b)) as ?as'"
    unfolding list_all2_map2 list_all2_same
    using settles_confirms [OF _ assms(3) mem_append_ok] st by fastforce
  moreover obtain n6 where "net_poll mesh_net n5 client = (n6, mesh_inbox n4 client)"
    using meshn.poll_inbox [of n5 client] c5(2) by (metis prod.collapse)
  ultimately show ?thesis
    using run fin c4(2) by (auto simp: collect_effect_attestations_def simp del: map_map)
qed

theorem mesh_rounds_reach_finality_witness:
  "\<exists>as' n' k n'' ts.
    certify_via_mesh_rounds_with_pause demo_crypto mem_ops mesh_net demo_order demo_authorities [''u'', ''v'', ''w'', ''x''] ''z''
      demo_committee 2 demo_mesh =
      Some (as', n', Some \<lparr>vf_order = demo_order, vf_committee_id = cm_id demo_committee\<rparr>, Some k, CertifiedOk) \<and>
    collect_effect_attestations demo_crypto mesh_net ''z'' ''a'' 0 (order_id demo_crypto demo_order) demo_committee n' = (n'', ts) \<and>
    is_final_effectcert demo_crypto ''a'' 0 (order_id demo_crypto demo_order) ts demo_committee"
proof -
  have rd: "\<forall>a \<in> set demo_authorities. ready demo_crypto demo_committee demo_order a"
    using demo_ready [of _ 3 0] by (simp add: demo_order_is)
  have ov: "order_verify demo_crypto demo_order (cm_policy demo_committee) = Inr ()"
    using demo_order_at_verifies [of 0 3] by (simp add: demo_order_is)
  have len: "length demo_authorities = length [''u'', ''v'', ''w'', ''x'']" using demo_roster(2) by simp
  have q: "committee_quorum demo_committee \<le> length demo_authorities" using demo_roster(2) by (simp add: demo_sizes)
  from mesh_rounds_reach_finality [OF demo_crypto_ok rd ov _ demo_roster(1) q len _ _ demo_mesh_facts(1,2), of 2] obtain as' n' k n'' ts where
    "certify_via_mesh_rounds_with_pause demo_crypto mem_ops mesh_net demo_order demo_authorities [''u'', ''v'', ''w'', ''x''] ''z''
      demo_committee 2 demo_mesh =
      Some (as', n', Some \<lparr>vf_order = demo_order, vf_committee_id = cm_id demo_committee\<rparr>, Some k, CertifiedOk)"
    "collect_effect_attestations demo_crypto mesh_net ''z'' ''a'' 0 (order_id demo_crypto demo_order) demo_committee n' = (n'', ts)"
    "is_final_effectcert demo_crypto ''a'' 0 (order_id demo_crypto demo_order) ts demo_committee"
    using demo_mesh_facts(3) by (auto simp: demo_transfer_def)
  then show ?thesis by blast
qed

text \<open>Collection is exact on every network, hostile ones included: \<open>collect_until_quorum\<close> never panics, and it
  certifies exactly when the order verifies and the polls returned, among whatever else, valid
  votes of a quorum of distinct members; junk, forged and repeated votes neither help nor
  suppress a valid vote, and a failure reports the number of valid voters.\<close>

theorem collector_exact:
  "\<exists>n'. collect_until_quorum cr nt p ord c rounds n =
     Some (n', if order_verify cr ord (cm_policy c) = Inr () \<and>
                  committee_quorum c \<le> card (valid_voters cr ord c (polled nt p rounds n))
               then (Some \<lparr>vf_order = ord, vf_committee_id = cm_id c\<rparr>, CertifiedOk)
               else (None, CertifiedFailed (card (valid_voters cr ord c (polled nt p rounds n))) 0 False))"
proof -
  let ?vc = "vc_new ord"
  have "collector_inv cr (vc_order ?vc) c [] (vc_seen ?vc, vc_votes ?vc)"
    by (simp add: collector_inv_def vc_new_def valid_voters_def)
  moreover have "\<not> enough cr (vc_order ?vc) c []" using quorum_pos [of c] by (simp add: enough_def valid_voters_def)
  ultimately show ?thesis
    using collect_loop [of cr ?vc c "[]" nt p rounds n] unfolding enough_def
    by (auto simp: collect_until_quorum_def vc_new_def split: if_splits)
qed

lemma apply_certs_certified:
  "apply_certs cr c ms l = (l', rs) \<Longrightarrow>
     \<exists>ks. apply_all l (map (\<lambda>k. st_transfer (ct_order k)) ks) = Inr l' \<and> list_all (\<lambda>k. certificate_is_valid cr k c) ks"
proof (induction ms arbitrary: l rs)
  case Nil
  then show ?case by (intro exI [of _ "[]"]) simp
next
  case (Cons m ms)
  have skip: ?case if "apply_certs cr c ms l = (l', rs1)" for rs1 using Cons.IH that by blast
  show ?case
  proof (cases m)
    case (MsgCert k)
    let ?v = "\<lparr>vf_order = ct_order k, vf_committee_id = cm_id c\<rparr>"
    show ?thesis
    proof (cases "certificate_is_valid cr k c \<and> is_ok (apply_verified cr l ?v c)")
      case True
      then obtain l1 where l1: "apply_verified cr l ?v c = Inr l1" by (auto simp: is_ok_iff)
      then have "ledger_apply l (st_transfer (ct_order k)) = Inr l1"
        by (simp add: apply_verified_def vf_transfer_def split: if_splits)
      moreover obtain rs1 where "apply_certs cr c ms l1 = (l', rs1)"
        using Cons.prems MsgCert True l1 by (auto simp: certificate_verify_def split: prod.splits)
      then obtain ks where "apply_all l1 (map (\<lambda>k. st_transfer (ct_order k)) ks) = Inr l'" "list_all (\<lambda>k. certificate_is_valid cr k c) ks"
        using Cons.IH by blast
      ultimately show ?thesis using True by (intro exI [of _ "k # ks"]) simp
    next
      case False
      then obtain rs1 where "apply_certs cr c ms l = (l', rs1)"
        using Cons.prems MsgCert by (auto simp: certificate_verify_def split: prod.splits sum.splits if_splits)
      then show ?thesis by (rule skip)
    qed
  qed (use Cons.prems skip in auto)
qed

lemma poll_replicas_certified:
  "poll_replicas cr nt c n rs = (n', rs', outs) \<Longrightarrow>
     list_all2 (\<lambda>r r'. ml_endpoint r' = ml_endpoint r \<and>
       (\<exists>ks. apply_all (ml_ledger r) (map (\<lambda>k. st_transfer (ct_order k)) ks) = Inr (ml_ledger r') \<and>
         list_all (\<lambda>k. certificate_is_valid cr k c) ks)) rs rs'"
  by (induction cr nt c n rs arbitrary: n' rs' outs rule: poll_replicas.induct)
    (auto simp: poll_and_apply_def split: prod.splits dest: apply_certs_certified)

text \<open>Ledgers fed from the network apply only what the committee certified: whatever a mailbox contains,
  every replica that takes part in a dissemination ends with its ledger plus transfers that
  carry a valid certificate, so its supply is unchanged.\<close>

theorem disseminated_only_certified:
  assumes "disseminate_certificate cr nt b k c n rs = (n', rs', out)" "\<forall>r \<in> set rs. ledger_wf (ml_ledger r)"
  shows "list_all2 (\<lambda>r r'. ml_endpoint r' = ml_endpoint r \<and> total_supply (ml_ledger r') = total_supply (ml_ledger r) \<and>
     (\<exists>ks. apply_all (ml_ledger r) (map (\<lambda>k. st_transfer (ct_order k)) ks) = Inr (ml_ledger r') \<and>
       list_all (\<lambda>k. certificate_is_valid cr k c) ks)) rs rs'"
proof -
  have sup: "total_supply l' = total_supply l" if "ledger_wf l" "apply_all l ts = Inr l'" for l l' ts
    using apply_all_supply [OF that] by (simp add: total_supply_spec)
  have nil: "apply_all l (map (\<lambda>k. st_transfer (ct_order k)) []) = Inr l" for l by simp
  have "list_all2 (\<lambda>r r'. ml_endpoint r' = ml_endpoint r \<and>
       (\<exists>ks. apply_all (ml_ledger r) (map (\<lambda>k. st_transfer (ct_order k)) ks) = Inr (ml_ledger r') \<and>
         list_all (\<lambda>k. certificate_is_valid cr k c) ks)) rs rs'"
  proof (cases "snd (net_broadcast nt n b (MsgCert k))")
    case (Inl e)
    then have "rs' = rs" using assms(1) by (auto simp: disseminate_certificate_def split: prod.splits sum.splits)
    moreover have "\<exists>ks. apply_all l (map (\<lambda>k. st_transfer (ct_order k)) ks) = Inr l \<and> list_all (\<lambda>k. certificate_is_valid cr k c) ks" for l
      using nil by (intro exI [of _ "[]"]) simp
    ultimately show ?thesis by (simp add: list_all2_same)
  next
    case (Inr u)
    then show ?thesis
      using assms(1) poll_replicas_certified by (fastforce simp: disseminate_certificate_def split: prod.splits sum.splits)
  qed
  then show ?thesis using assms(2) sup by (auto simp: list_all2_conv_all_nth)
qed

theorem disseminated_only_certified_witness:
  "\<exists>n' rs' out. disseminate_certificate demo_crypto mesh_net ''z'' demo_certificate demo_committee demo_mesh
      [\<lparr>ml_endpoint = ''u'', ml_ledger = demo_genesis\<rparr>, \<lparr>ml_endpoint = ''v'', ml_ledger = demo_genesis\<rparr>] = (n', rs', out) \<and>
    length rs' = 2 \<and> list_all (\<lambda>r. total_supply (ml_ledger r) = total_supply demo_genesis) rs'"
proof -
  let ?rs = "[\<lparr>ml_endpoint = ''u'', ml_ledger = demo_genesis\<rparr>, \<lparr>ml_endpoint = ''v'', ml_ledger = demo_genesis\<rparr>]"
  obtain n' rs' out where d: "disseminate_certificate demo_crypto mesh_net ''z'' demo_certificate demo_committee demo_mesh ?rs = (n', rs', out)"
    by (metis prod_cases3)
  have wf: "\<forall>r \<in> set ?rs. ledger_wf (ml_ledger r)"
    by (simp add: demo_genesis_def ledger_wf_def supply_of_def)
  from disseminated_only_certified [OF d wf] obtain r1 r2 where "rs' = [r1, r2]"
    "total_supply (ml_ledger r1) = total_supply demo_genesis" "total_supply (ml_ledger r2) = total_supply demo_genesis"
    by (auto simp: list_all2_Cons1)
  then show ?thesis using d by simp
qed

end
