(* ===== verification/CRDT.thy ===== *)
theory CRDT
  imports Prelude
begin

text \<open>
  The merge types of \<open>333-crdt/src\<close>: \<open>traits.rs\<close> (the ordered and the optional merge),
  \<open>scalar.rs\<close>, \<open>lww.rs\<close>, \<open>map.rs\<close> and \<open>delta.rs\<close>. The trait \<open>Crdt\<close> is the interface \<open>crdt\<close>: an
  associative, commutative and idempotent merge on the valid states. A generic type takes the
  merge of its component as an argument, and its laws follow from the component's. The two
  sorted vectors are merged by one function that walks both, as the two loops of the code do.
\<close>

section \<open>The interface\<close>

locale crdt =
  fixes valid :: "'a \<Rightarrow> bool" and mrg :: "'a \<Rightarrow> 'a \<Rightarrow> 'a"
  assumes valid_merge: "valid a \<Longrightarrow> valid b \<Longrightarrow> valid (mrg a b)"
    and merge_comm: "valid a \<Longrightarrow> valid b \<Longrightarrow> mrg a b = mrg b a"
    and merge_assoc: "valid a \<Longrightarrow> valid b \<Longrightarrow> valid c \<Longrightarrow> mrg (mrg a b) c = mrg a (mrg b c)"
    and merge_idem: "valid a \<Longrightarrow> mrg a a = a"
begin

definition below :: "'a \<Rightarrow> 'a \<Rightarrow> bool" where
  "below a b \<longleftrightarrow> mrg a b = b"

lemma below_refl: "valid a \<Longrightarrow> below a a"
  by (simp add: below_def merge_idem)

lemma below_antisym: "valid a \<Longrightarrow> valid b \<Longrightarrow> below a b \<Longrightarrow> below b a \<Longrightarrow> a = b"
  unfolding below_def by (metis merge_comm)

lemma below_trans: "valid a \<Longrightarrow> valid b \<Longrightarrow> valid c \<Longrightarrow> below a b \<Longrightarrow> below b c \<Longrightarrow> below a c"
  unfolding below_def by (metis merge_assoc)

lemma below_merge1: "valid a \<Longrightarrow> valid b \<Longrightarrow> below a (mrg a b)"
  unfolding below_def by (metis merge_assoc merge_idem)

lemma below_merge2: "valid a \<Longrightarrow> valid b \<Longrightarrow> below b (mrg a b)"
  by (metis below_merge1 merge_comm)

lemma merge_least: "valid a \<Longrightarrow> valid b \<Longrightarrow> valid c \<Longrightarrow> below a c \<Longrightarrow> below b c \<Longrightarrow> below (mrg a b) c"
  unfolding below_def by (metis merge_assoc)

lemma merge_below: "valid a \<Longrightarrow> valid b \<Longrightarrow> below b a \<Longrightarrow> mrg a b = a"
  unfolding below_def by (metis merge_comm)

lemma foldl_valid: "valid s \<Longrightarrow> \<forall>x \<in> set xs. valid x \<Longrightarrow> valid (foldl mrg s xs)"
  by (induction xs arbitrary: s) (auto simp: valid_merge)

lemma foldl_upper:
  "valid s \<Longrightarrow> \<forall>x \<in> set xs. valid x \<Longrightarrow> y \<in> insert s (set xs) \<Longrightarrow> below y (foldl mrg s xs)"
proof (induction xs arbitrary: s y)
  case Nil
  then show ?case by (simp add: below_refl)
next
  case (Cons x xs)
  have v: "valid (mrg s x)" "valid (foldl mrg (mrg s x) xs)" using Cons.prems by (auto simp: valid_merge foldl_valid)
  have up: "below (mrg s x) (foldl mrg (mrg s x) xs)" using Cons.IH [OF v(1)] Cons.prems by auto
  show ?case
  proof (cases "y \<in> set xs")
    case True
    then show ?thesis using Cons.IH [OF v(1)] Cons.prems by auto
  next
    case False
    then have "below y (mrg s x)" "valid y" using Cons.prems by (auto intro: below_merge1 below_merge2)
    then show ?thesis using below_trans [OF _ v] up by simp
  qed
qed

lemma foldl_least:
  "valid s \<Longrightarrow> \<forall>x \<in> set xs. valid x \<Longrightarrow> valid z \<Longrightarrow> \<forall>y \<in> insert s (set xs). below y z \<Longrightarrow> below (foldl mrg s xs) z"
  by (induction xs arbitrary: s) (auto intro: merge_least valid_merge)

text \<open>Strong eventual consistency: order and repetition of the merged states do not matter.\<close>

lemma converges:
  assumes "valid s" "\<forall>x \<in> set xs. valid x" "set xs = set ys"
  shows "foldl mrg s xs = foldl mrg s ys"
proof (rule below_antisym)
  show "valid (foldl mrg s xs)" "valid (foldl mrg s ys)" using assms by (auto simp: foldl_valid)
  then show "below (foldl mrg s xs) (foldl mrg s ys)" "below (foldl mrg s ys) (foldl mrg s xs)"
    using assms by (auto intro!: foldl_least intro: foldl_upper)
qed

text \<open>Merging an ascending chain of states is merging its last one.\<close>

lemma chain_last:
  assumes "valid s" "\<forall>x \<in> set xs. valid x" "valid y" "\<forall>x \<in> set xs. below x y"
  shows "foldl mrg s (xs @ [y]) = mrg s y"
proof (rule below_antisym)
  have v: "valid (foldl mrg s xs)" using assms by (simp add: foldl_valid)
  then show "valid (foldl mrg s (xs @ [y]))" "valid (mrg s y)" using assms by (simp_all add: valid_merge)
  have "below s (mrg s y)" "below y (mrg s y)" using assms by (auto intro: below_merge1 below_merge2)
  moreover have "below x (mrg s y)" if "x \<in> set xs" for x
    using that assms calculation(2) below_trans [of x y "mrg s y"] by (simp add: valid_merge)
  ultimately show "below (foldl mrg s (xs @ [y])) (mrg s y)"
    using assms v by (simp add: valid_merge merge_least foldl_least)
  have "below s (foldl mrg s xs)" using assms foldl_upper [of s xs s] by simp
  then show "below (mrg s y) (foldl mrg s (xs @ [y]))"
    using assms v below_merge1 [OF v assms(3)] below_merge2 [OF v assms(3)]
    by (auto intro!: merge_least valid_merge below_trans [of s "foldl mrg s xs"])
qed

end

section \<open>Scalars\<close>

definition auto_merge :: "'a::linorder \<Rightarrow> 'a \<Rightarrow> 'a" where
  "auto_merge a b = (if a < b then b else a)"

interpretation autoc: crdt "\<lambda>_. True" "auto_merge :: 'a::linorder \<Rightarrow> 'a \<Rightarrow> 'a"
  by unfold_locales (auto simp: auto_merge_def)

lemma auto_merge_max: "auto_merge a b = max a b"
  by (auto simp: auto_merge_def max_def)

definition option_merge :: "'a option \<Rightarrow> 'a option \<Rightarrow> 'a option" where
  "option_merge a b = (if a \<noteq> b then None else a)"

interpretation optc: crdt "\<lambda>_. True" option_merge
  by unfold_locales (auto simp: option_merge_def)

datatype crdt_bool = CBool bool

definition bool_set :: "crdt_bool \<Rightarrow> crdt_bool" where
  "bool_set b = CBool True"

fun bool_get :: "crdt_bool \<Rightarrow> bool" where
  "bool_get (CBool b) = b"

fun bool_merge :: "crdt_bool \<Rightarrow> crdt_bool \<Rightarrow> crdt_bool" where
  "bool_merge (CBool a) (CBool b) = CBool (a \<or> b)"

interpretation boolc: crdt "\<lambda>_. True" bool_merge
proof unfold_locales
  fix a b c
  show "bool_merge (bool_merge a b) c = bool_merge a (bool_merge b c)" by (cases a; cases b; cases c) simp
  show "bool_merge a b = bool_merge b a" by (cases a; cases b) auto
  show "bool_merge a a = a" by (cases a) simp
qed simp

datatype 'a deletable = Present 'a | Deleted

fun is_deleted :: "'a deletable \<Rightarrow> bool" where
  "is_deleted Deleted = True"
| "is_deleted (Present _) = False"

fun as_option :: "'a deletable \<Rightarrow> 'a option" where
  "as_option (Present v) = Some v"
| "as_option Deleted = None"

fun deletable_merge :: "('a \<Rightarrow> 'a \<Rightarrow> 'a) \<Rightarrow> 'a deletable \<Rightarrow> 'a deletable \<Rightarrow> 'a deletable" where
  "deletable_merge mv Deleted _ = Deleted"
| "deletable_merge mv (Present _) Deleted = Deleted"
| "deletable_merge mv (Present v) (Present v2) = Present (mv v v2)"

definition deletable_valid :: "('a \<Rightarrow> bool) \<Rightarrow> 'a deletable \<Rightarrow> bool" where
  "deletable_valid val d = (case d of Present v \<Rightarrow> val v | Deleted \<Rightarrow> True)"

lemma deletable_crdt:
  assumes "crdt val mv"
  shows "crdt (deletable_valid val) (deletable_merge mv)"
proof
  fix a b c
  note v = crdt.valid_merge [OF assms] crdt.merge_comm [OF assms] crdt.merge_assoc [OF assms] crdt.merge_idem [OF assms]
  show "deletable_valid val a \<Longrightarrow> deletable_valid val b \<Longrightarrow> deletable_valid val (deletable_merge mv a b)"
    by (cases a; cases b) (simp_all add: deletable_valid_def v)
  show "deletable_valid val a \<Longrightarrow> deletable_valid val b \<Longrightarrow> deletable_merge mv a b = deletable_merge mv b a"
    by (cases a; cases b) (auto simp: deletable_valid_def intro: v)
  show "deletable_valid val a \<Longrightarrow> deletable_valid val b \<Longrightarrow> deletable_valid val c \<Longrightarrow>
      deletable_merge mv (deletable_merge mv a b) c = deletable_merge mv a (deletable_merge mv b c)"
    by (cases a; cases b; cases c) (simp_all add: deletable_valid_def v(1,3))
  show "deletable_valid val a \<Longrightarrow> deletable_merge mv a a = a"
    by (cases a) (simp_all add: deletable_valid_def v)
qed

section \<open>Last writer wins\<close>

record 'a lww =
  lww_ts :: u64
  lww_v :: 'a

definition lww_raw :: "u64 \<Rightarrow> 'a \<Rightarrow> 'a lww" where
  "lww_raw ts v = \<lparr>lww_ts = ts, lww_v = v\<rparr>"

definition lww_update :: "'a lww \<Rightarrow> u64 \<Rightarrow> 'a \<Rightarrow> 'a lww \<times> bool" where
  "lww_update l new_ts new_v =
     (if new_ts > lww_ts l then (l\<lparr>lww_ts := new_ts, lww_v := new_v\<rparr>, True) else (l, False))"

definition lww_merge :: "('a \<Rightarrow> 'a \<Rightarrow> 'a) \<Rightarrow> 'a lww \<Rightarrow> 'a lww \<Rightarrow> 'a lww" where
  "lww_merge mv a b =
     (if lww_ts a < lww_ts b then \<lparr>lww_ts = lww_ts b, lww_v = lww_v b\<rparr>
      else if lww_ts a = lww_ts b then \<lparr>lww_ts = lww_ts a, lww_v = mv (lww_v a) (lww_v b)\<rparr>
      else a)"

lemma lww_crdt:
  assumes "crdt val mv"
  shows "crdt (\<lambda>l. val (lww_v l)) (lww_merge mv)"
proof
  fix a b c :: "'a lww"
  note v = crdt.valid_merge [OF assms] crdt.merge_comm [OF assms] crdt.merge_assoc [OF assms] crdt.merge_idem [OF assms]
  show "val (lww_v a) \<Longrightarrow> val (lww_v b) \<Longrightarrow> val (lww_v (lww_merge mv a b))"
    by (simp add: lww_merge_def v)
  show "val (lww_v a) \<Longrightarrow> val (lww_v b) \<Longrightarrow> lww_merge mv a b = lww_merge mv b a"
    by (auto simp: lww_merge_def intro: v)
  show "val (lww_v a) \<Longrightarrow> val (lww_v b) \<Longrightarrow> val (lww_v c) \<Longrightarrow>
      lww_merge mv (lww_merge mv a b) c = lww_merge mv a (lww_merge mv b c)"
    by (auto simp: lww_merge_def v(1,3))
  show "val (lww_v a) \<Longrightarrow> lww_merge mv a a = a"
    by (simp add: lww_merge_def v)
qed

section \<open>Sorted vectors\<close>

text \<open>
  \<open>binary_search_by\<close> of the standard library on a vector of entries, and the merge of two
  vectors that combines the entries of equal keys with \<open>f\<close>.
\<close>

function search_loop :: "('k::linorder \<times> 'w) list \<Rightarrow> 'k \<Rightarrow> nat \<Rightarrow> nat \<Rightarrow> nat" where
  "search_loop xs k base sz =
     (if sz \<le> 1 then base
      else let half = sz div 2; mid = base + half
        in search_loop xs k (if k < fst (xs ! mid) then base else mid) (sz - half))"
  by auto
termination
  by (relation "measure (\<lambda>(_, _, _, sz). sz)") auto

declare search_loop.simps [simp del]

definition binary_search :: "('k::linorder \<times> 'w) list \<Rightarrow> 'k \<Rightarrow> nat option" where
  "binary_search xs k =
     (if xs = [] then None
      else let i = search_loop xs k 0 (length xs) in if fst (xs ! i) = k then Some i else None)"

fun merge_sorted :: "('w \<Rightarrow> 'w \<Rightarrow> 'w) \<Rightarrow> ('k::linorder \<times> 'w) list \<Rightarrow> ('k \<times> 'w) list \<Rightarrow> ('k \<times> 'w) list" where
  "merge_sorted f [] b = b"
| "merge_sorted f a [] = a"
| "merge_sorted f ((k, v) # a) ((k', v') # b) =
     (if k < k' then (k, v) # merge_sorted f a ((k', v') # b)
      else if k > k' then (k', v') # merge_sorted f ((k, v) # a) b
      else (k, f v v') # merge_sorted f a b)"

lemma search_loop_range: "0 < sz \<Longrightarrow> base \<le> search_loop xs k base sz \<and> search_loop xs k base sz < base + sz"
proof (induction xs k base sz rule: search_loop.induct)
  case (1 xs k base sz)
  show ?case
  proof (cases "sz \<le> 1")
    case False
    let ?h = "sz div 2" let ?b = "if k < fst (xs ! (base + ?h)) then base else base + ?h"
    have "?b \<le> search_loop xs k ?b (sz - ?h) \<and> search_loop xs k ?b (sz - ?h) < ?b + (sz - ?h)"
      using 1(1) [OF False refl refl] False by simp
    then show ?thesis using False by (subst (1 2) search_loop.simps) (auto simp: Let_def split: if_splits)
  qed (use 1(2) in \<open>simp add: search_loop.simps\<close>)
qed

lemma search_loop_finds:
  assumes "bt_wf xs" "i < length xs" "base \<le> i" "i < base + sz" "base + sz \<le> length xs"
  shows "search_loop xs (fst (xs ! i)) base sz = i"
  using assms(3-5)
proof (induction sz arbitrary: base rule: less_induct)
  case (less sz)
  have mono: "fst (xs ! p) < fst (xs ! q) \<longleftrightarrow> p < q" if "p < length xs" "q < length xs" for p q
    using assms(1) that unfolding bt_wf_def
    by (metis length_map linorder_neqE_nat nth_map order_less_asym' order_less_irrefl sorted_wrt_iff_nth_less)
  show ?case
  proof (cases "sz \<le> 1")
    case True
    then show ?thesis using less.prems by (simp add: search_loop.simps [of _ _ _ sz])
  next
    case False
    let ?h = "sz div 2"
    have m: "fst (xs ! i) < fst (xs ! (base + ?h)) \<longleftrightarrow> i < base + ?h" using mono assms(2) less.prems False by simp
    have "sz - ?h < sz" using False by simp
    from less.IH [OF this] show ?thesis
      using less.prems False m
      by (subst search_loop.simps) (auto simp: Let_def not_less)
  qed
qed

lemma binary_search_lookup:
  assumes "bt_wf xs"
  shows "map_option (\<lambda>i. snd (xs ! i)) (binary_search xs k) = map_of xs k"
proof (cases "map_of xs k")
  case None
  have "fst (xs ! search_loop xs k 0 (length xs)) \<noteq> k" if "xs \<noteq> []"
    using that None search_loop_range [of "length xs" 0 xs k] by (metis image_eqI length_greater_0_conv map_of_eq_None_iff nth_mem add_0)
  then show ?thesis using None by (simp add: binary_search_def Let_def)
next
  case (Some w)
  then have "(k, w) \<in> set xs" by (rule map_of_SomeD)
  then obtain i where i: "i < length xs" "xs ! i = (k, w)" by (auto simp: in_set_conv_nth)
  have "search_loop xs k 0 (length xs) = i"
    using search_loop_finds [OF assms i(1), of 0 "length xs"] i by simp
  then show ?thesis using i Some by (auto simp: binary_search_def Let_def)
qed

lemma keys_merge_sorted: "fst ` set (merge_sorted f a b) = fst ` set a \<union> fst ` set b"
  by (induction f a b rule: merge_sorted.induct) auto

lemma merge_sorted_wf: "bt_wf a \<Longrightarrow> bt_wf b \<Longrightarrow> bt_wf (merge_sorted f a b)"
proof (induction f a b rule: merge_sorted.induct)
  case (3 f k v a k' v' b)
  then show ?case by (auto simp: keys_merge_sorted ball_Un) (force+)?
qed simp_all

definition combine :: "('w \<Rightarrow> 'w \<Rightarrow> 'w) \<Rightarrow> 'w option \<Rightarrow> 'w option \<Rightarrow> 'w option" where
  "combine f a b = (case a of None \<Rightarrow> b | Some v \<Rightarrow> (case b of None \<Rightarrow> Some v | Some v' \<Rightarrow> Some (f v v')))"

lemma combine_simps [simp]: "combine f None b = b" "combine f a None = a" "combine f (Some v) (Some v') = Some (f v v')"
  by (simp_all add: combine_def split: option.splits)

lemma merge_sorted_lookup:
  "bt_wf a \<Longrightarrow> bt_wf b \<Longrightarrow> map_of (merge_sorted f a b) k = combine f (map_of a k) (map_of b k)"
proof (induction f a b rule: merge_sorted.induct)
  case (3 f k1 v a k2 v' b)
  have n: "k \<le> k1 \<Longrightarrow> map_of a k = None" "k \<le> k2 \<Longrightarrow> map_of b k = None"
    using bt_get_Cons_lt [OF 3(4)] bt_get_Cons_lt [OF 3(5)] by simp_all
  show ?case using 3 n by (auto simp: not_less less_imp_le)
qed simp_all

definition sorted_valid :: "('w \<Rightarrow> bool) \<Rightarrow> ('k::linorder \<times> 'w) list \<Rightarrow> bool" where
  "sorted_valid val xs \<longleftrightarrow> bt_wf xs \<and> (\<forall>(_, v) \<in> set xs. val v)"

lemma sorted_valid_iff: "sorted_valid val xs \<longleftrightarrow> bt_wf xs \<and> (\<forall>k v. map_of xs k = Some v \<longrightarrow> val v)"
  by (auto simp: sorted_valid_def bt_get_in_set)

lemma merge_sorted_crdt:
  assumes "crdt val f"
  shows "crdt (sorted_valid val) (merge_sorted f :: ('k::linorder \<times> 'w) list \<Rightarrow> _)"
proof
  note v = crdt.valid_merge [OF assms] crdt.merge_comm [OF assms] crdt.merge_assoc [OF assms] crdt.merge_idem [OF assms]
  fix a b c :: "('k \<times> 'w) list"
  show m: "sorted_valid val a \<Longrightarrow> sorted_valid val b \<Longrightarrow> sorted_valid val (merge_sorted f a b)" for a b :: "('k \<times> 'w) list"
    by (auto simp: sorted_valid_iff merge_sorted_wf merge_sorted_lookup combine_def v(1) split: option.splits)
  show "sorted_valid val a \<Longrightarrow> sorted_valid val b \<Longrightarrow> merge_sorted f a b = merge_sorted f b a"
    by (rule bt_ext)
      (auto simp: sorted_valid_iff merge_sorted_wf merge_sorted_lookup fun_eq_iff combine_def intro: v(2) split: option.splits)
  show "sorted_valid val a \<Longrightarrow> sorted_valid val b \<Longrightarrow> sorted_valid val c \<Longrightarrow>
      merge_sorted f (merge_sorted f a b) c = merge_sorted f a (merge_sorted f b c)"
    by (rule bt_ext)
      (auto simp: sorted_valid_iff merge_sorted_wf merge_sorted_lookup fun_eq_iff combine_def v(3) split: option.splits)
  show "sorted_valid val a \<Longrightarrow> merge_sorted f a a = a"
    by (rule bt_ext)
      (auto simp: sorted_valid_iff merge_sorted_wf merge_sorted_lookup fun_eq_iff combine_def v(4) split: option.splits)
qed

section \<open>LwwMap and Map\<close>

record ('k, 'v) lww_map =
  lm_vals :: "('k \<times> u64 \<times> 'v) list"

definition lm_new :: "('k, 'v) lww_map" where
  "lm_new = \<lparr>lm_vals = []\<rparr>"

definition lm_raw_item :: "'k \<Rightarrow> u64 \<Rightarrow> 'v \<Rightarrow> ('k, 'v) lww_map" where
  "lm_raw_item k ts v = \<lparr>lm_vals = [(k, ts, v)]\<rparr>"

definition lm_get :: "('k::linorder, 'v) lww_map \<Rightarrow> 'k \<Rightarrow> 'v option" where
  "lm_get m k = map_option (\<lambda>i. snd (snd (lm_vals m ! i))) (binary_search (lm_vals m) k)"

definition lm_get_with_ts :: "('k::linorder, 'v) lww_map \<Rightarrow> 'k \<Rightarrow> (u64 \<times> 'v) option" where
  "lm_get_with_ts m k = map_option (\<lambda>i. (fst (snd (lm_vals m ! i)), snd (snd (lm_vals m ! i)))) (binary_search (lm_vals m) k)"

fun lww_entry_merge :: "('v \<Rightarrow> 'v \<Rightarrow> 'v) \<Rightarrow> u64 \<times> 'v \<Rightarrow> u64 \<times> 'v \<Rightarrow> u64 \<times> 'v" where
  "lww_entry_merge mv (ts_a, va) (ts_b, vb) =
     (if ts_a < ts_b then (ts_b, vb) else if ts_a > ts_b then (ts_a, va) else (ts_a, mv va vb))"

definition lm_merge :: "('v \<Rightarrow> 'v \<Rightarrow> 'v) \<Rightarrow> ('k::linorder, 'v) lww_map \<Rightarrow> ('k, 'v) lww_map \<Rightarrow> ('k, 'v) lww_map" where
  "lm_merge mv a b = \<lparr>lm_vals = merge_sorted (lww_entry_merge mv) (lm_vals a) (lm_vals b)\<rparr>"

definition lm_put :: "('v \<Rightarrow> 'v \<Rightarrow> 'v) \<Rightarrow> ('k::linorder, 'v) lww_map \<Rightarrow> 'k \<Rightarrow> u64 \<Rightarrow> 'v \<Rightarrow> ('k, 'v) lww_map" where
  "lm_put mv m k ts v = lm_merge mv m (lm_raw_item k ts v)"

record ('k, 'v) crdt_map =
  mp_vals :: "('k \<times> 'v) list"

definition mp_new :: "('k, 'v) crdt_map" where
  "mp_new = \<lparr>mp_vals = []\<rparr>"

definition mp_put_mutator :: "'k \<Rightarrow> 'v \<Rightarrow> ('k, 'v) crdt_map" where
  "mp_put_mutator k v = \<lparr>mp_vals = [(k, v)]\<rparr>"

definition mp_merge :: "('v \<Rightarrow> 'v \<Rightarrow> 'v) \<Rightarrow> ('k::linorder, 'v) crdt_map \<Rightarrow> ('k, 'v) crdt_map \<Rightarrow> ('k, 'v) crdt_map" where
  "mp_merge mv a b = \<lparr>mp_vals = merge_sorted mv (mp_vals a) (mp_vals b)\<rparr>"

definition mp_put :: "('v \<Rightarrow> 'v \<Rightarrow> 'v) \<Rightarrow> ('k::linorder, 'v) crdt_map \<Rightarrow> 'k \<Rightarrow> 'v \<Rightarrow> ('k, 'v) crdt_map" where
  "mp_put mv m k v = mp_merge mv m (mp_put_mutator k v)"

definition mp_get :: "('k::linorder, 'v) crdt_map \<Rightarrow> 'k \<Rightarrow> 'v option" where
  "mp_get m k = map_option (\<lambda>i. snd (mp_vals m ! i)) (binary_search (mp_vals m) k)"

definition mp_clear :: "('k, 'v) crdt_map \<Rightarrow> ('k, 'v) crdt_map" where
  "mp_clear m = m\<lparr>mp_vals := []\<rparr>"

lemma lww_map_crdt:
  assumes "crdt val mv"
  shows "crdt (\<lambda>m. sorted_valid (\<lambda>(_, v). val v) (lm_vals m)) (lm_merge mv)"
proof -
  note v = crdt.valid_merge [OF assms] crdt.merge_comm [OF assms] crdt.merge_assoc [OF assms] crdt.merge_idem [OF assms]
  have "crdt (\<lambda>(_ :: u64, v). val v) (lww_entry_merge mv)"
    by unfold_locales (auto simp: v(1,3,4) intro: v(2) split: if_splits)
  note m = merge_sorted_crdt [OF this]
  show ?thesis
    by unfold_locales
      (auto simp: lm_merge_def crdt.valid_merge [OF m] crdt.merge_assoc [OF m] crdt.merge_idem [OF m]
        intro: crdt.merge_comm [OF m])
qed

lemma map_crdt:
  assumes "crdt val mv"
  shows "crdt (\<lambda>m. sorted_valid val (mp_vals m)) (mp_merge mv)"
proof -
  note m = merge_sorted_crdt [OF assms]
  show ?thesis
    by unfold_locales
      (auto simp: mp_merge_def crdt.valid_merge [OF m] crdt.merge_assoc [OF m] crdt.merge_idem [OF m]
        intro: crdt.merge_comm [OF m])
qed

text \<open>The compositions the program's tests build: a register map of ordered values, a map of registers of ordered values.\<close>

interpretation lwwm: crdt "\<lambda>m :: ('k::linorder, 'v::linorder) lww_map. sorted_valid (\<lambda>_. True) (lm_vals m)"
    "lm_merge auto_merge"
  using lww_map_crdt [OF autoc.crdt_axioms] by (simp add: case_prod_unfold)

interpretation mapc: crdt "\<lambda>m :: ('k::linorder, 'v::linorder lww) crdt_map. sorted_valid (\<lambda>_. True) (mp_vals m)"
    "mp_merge (lww_merge auto_merge)"
  using map_crdt [OF lww_crdt [OF autoc.crdt_axioms]] by simp

interpretation delc: crdt "\<lambda>_. True" "deletable_merge (auto_merge :: 'a::linorder \<Rightarrow> 'a \<Rightarrow> 'a)"
proof -
  have "deletable_valid (\<lambda>_ :: 'a. True) = (\<lambda>_. True)" by (simp add: fun_eq_iff deletable_valid_def split: deletable.splits)
  then show "crdt (\<lambda>_. True) (deletable_merge (auto_merge :: 'a \<Rightarrow> 'a \<Rightarrow> 'a))"
    using deletable_crdt [OF autoc.crdt_axioms] by metis
qed

section \<open>Deltas\<close>

record 'a delta_wrap =
  dw_state :: 'a
  dw_buffer :: "'a list"

definition take_delta :: "'a \<Rightarrow> 'a option \<Rightarrow> 'a" where
  "take_delta s baseline = s"

definition merge_delta :: "('a \<Rightarrow> 'a \<Rightarrow> 'a) \<Rightarrow> 'a \<Rightarrow> 'a \<Rightarrow> 'a" where
  "merge_delta mv s d = mv s d"

definition dw_new :: "'a \<Rightarrow> 'a delta_wrap" where
  "dw_new s = \<lparr>dw_state = s, dw_buffer = []\<rparr>"

definition dw_stage :: "'a delta_wrap \<Rightarrow> 'a delta_wrap" where
  "dw_stage w = w\<lparr>dw_buffer := dw_buffer w @ [dw_state w]\<rparr>"

definition dw_drain :: "'a delta_wrap \<Rightarrow> 'a delta_wrap \<times> 'a list" where
  "dw_drain w = (w\<lparr>dw_buffer := []\<rparr>, dw_buffer w)"

definition dw_absorb :: "('a \<Rightarrow> 'a \<Rightarrow> 'a) \<Rightarrow> 'a delta_wrap \<Rightarrow> 'a \<Rightarrow> 'a delta_wrap" where
  "dw_absorb mv w d = \<lparr>dw_state = merge_delta mv (dw_state w) d, dw_buffer = dw_buffer w @ [d]\<rparr>"

definition dw_merge :: "('a \<Rightarrow> 'a \<Rightarrow> 'a) \<Rightarrow> 'a delta_wrap \<Rightarrow> 'a delta_wrap \<Rightarrow> 'a delta_wrap" where
  "dw_merge mv w other = w\<lparr>dw_state := mv (dw_state w) (dw_state other)\<rparr>"

lemma absorb_all:
  "foldl (dw_absorb mv) w ds = \<lparr>dw_state = foldl mv (dw_state w) ds, dw_buffer = dw_buffer w @ ds\<rparr>"
  by (induction ds arbitrary: w) (simp_all add: dw_absorb_def merge_delta_def)

section \<open>Properties\<close>

text \<open>The map after a sequence of writes.\<close>

definition lm_puts :: "('k \<times> u64 \<times> 'v) list \<Rightarrow> ('k::linorder, 'v::linorder) lww_map" where
  "lm_puts ps = foldl (\<lambda>m (k, ts, v). lm_put auto_merge m k ts v) lm_new ps"

lemma entry_merge_max: "lww_entry_merge auto_merge = (max :: u64 \<times> 'v::linorder \<Rightarrow> _)"
proof (intro ext)
  show "lww_entry_merge auto_merge x y = max x y" for x y :: "u64 \<times> 'v"
    by (cases x; cases y) (auto simp: auto_merge_def max_def less_eq_prod_def)
qed

lemma lm_puts_snoc: "lm_puts (ps @ [(k, ts, v)]) = lm_put auto_merge (lm_puts ps) k ts v"
  by (simp add: lm_puts_def)

lemma lm_puts_wf: "bt_wf (lm_vals (lm_puts ps))"
proof (induction ps rule: rev_induct)
  case Nil
  then show ?case by (simp add: lm_puts_def lm_new_def)
next
  case (snoc p ps)
  then show ?case by (cases p) (simp add: lm_puts_snoc lm_put_def lm_merge_def lm_raw_item_def merge_sorted_wf)
qed

definition writes_of :: "('k \<times> u64 \<times> 'v) list \<Rightarrow> 'k \<Rightarrow> (u64 \<times> 'v) set" where
  "writes_of ps k = {w. (k, w) \<in> set ps}"

definition latest :: "('a::linorder) set \<Rightarrow> 'a option" where
  "latest W = (if W = {} then None else Some (Max W))"

lemma finite_writes: "finite (writes_of ps k)"
proof -
  have "writes_of ps k \<subseteq> snd ` set ps" by (force simp: writes_of_def)
  then show ?thesis using finite_surj [of "set ps" _ snd] by simp
qed

lemma combine_latest:
  "finite A \<Longrightarrow> finite B \<Longrightarrow> combine max (latest A) (latest B) = latest (A \<union> B)"
  by (auto simp: latest_def Max_Un)

lemma lm_puts_lookup: "map_of (lm_vals (lm_puts ps)) k = latest (writes_of ps k)"
proof (induction ps rule: rev_induct)
  case Nil
  then show ?case by (simp add: lm_puts_def lm_new_def latest_def writes_of_def)
next
  case (snoc p ps)
  obtain k' w where p: "p = (k', w)" by (rule prod.exhaust)
  have u: "writes_of (ps @ [p]) k = writes_of ps k \<union> (if k = k' then {w} else {})"
    by (auto simp: writes_of_def p)
  have "map_of (lm_vals (lm_puts (ps @ [p]))) k = combine max (latest (writes_of ps k)) (map_of [p] k)"
    using snoc lm_puts_wf [of ps]
    by (cases w) (simp add: p lm_puts_snoc lm_put_def lm_merge_def lm_raw_item_def merge_sorted_lookup entry_merge_max)
  also have "map_of [p] k = latest (if k = k' then {w} else {})" by (simp add: p latest_def)
  finally show ?case using u combine_latest [of "writes_of ps k" "if k = k' then {w} else {}"]
    by (simp add: finite_writes split: if_splits)
qed

text \<open>A last-writer-wins map holds, for every key, the write with the greatest timestamp (the
  greater value on a tie) among all writes it received, and merging two replicas gives the
  map of all their writes together, whatever the order they came in.\<close>

theorem lww_map_keeps_latest:
  fixes ps qs :: "('k::linorder \<times> u64 \<times> 'v::linorder) list"
  shows "lm_get_with_ts (lm_merge auto_merge (lm_puts ps) (lm_puts qs)) k = latest (writes_of ps k \<union> writes_of qs k) \<and>
   lm_merge auto_merge (lm_puts ps) (lm_puts qs) = lm_puts (qs @ ps)"
proof -
  have l: "map_of (lm_vals (lm_merge auto_merge (lm_puts ps) (lm_puts qs))) k = latest (writes_of ps k \<union> writes_of qs k)" for k
    by (simp add: lm_merge_def merge_sorted_lookup lm_puts_wf lm_puts_lookup entry_merge_max combine_latest finite_writes)
  have wf: "bt_wf (lm_vals (lm_merge auto_merge (lm_puts ps) (lm_puts qs)))"
    by (simp add: lm_merge_def merge_sorted_wf lm_puts_wf)
  have "writes_of (qs @ ps) k = writes_of ps k \<union> writes_of qs k" for k by (auto simp: writes_of_def)
  then have "lm_vals (lm_merge auto_merge (lm_puts ps) (lm_puts qs)) = lm_vals (lm_puts (qs @ ps))"
    by (intro bt_ext wf lm_puts_wf) (simp add: fun_eq_iff l lm_puts_lookup)
  moreover have "lm_get_with_ts m k = map_of (lm_vals m) k" if "bt_wf (lm_vals m)" for m :: "('k, 'v) lww_map"
    using binary_search_lookup [OF that, of k] by (simp add: lm_get_with_ts_def prod.collapse option.map_comp comp_def)
  ultimately show ?thesis using l wf by simp
qed

text \<open>Replicas of a map of registers that merge the same states, in any order and any number of
  times, end equal.\<close>

theorem nested_map_converges:
  fixes s :: "('k::linorder, 'v::linorder lww) crdt_map"
  assumes "bt_wf (mp_vals s)" "\<forall>x \<in> set xs. bt_wf (mp_vals x)" "set xs = set ys"
  shows "foldl (mp_merge (lww_merge auto_merge)) s xs = foldl (mp_merge (lww_merge auto_merge)) s ys"
  using mapc.converges [of s xs ys] assms by (simp add: sorted_valid_def)

theorem nested_map_converges_witness:
  "foldl (mp_merge (lww_merge auto_merge)) mp_new
     [mp_put_mutator ''a'' (lww_raw 1 (5 :: nat)), mp_put_mutator ''a'' (lww_raw 2 3), mp_put_mutator ''b'' (lww_raw 1 1)]
   = foldl (mp_merge (lww_merge auto_merge)) mp_new
     [mp_put_mutator ''b'' (lww_raw 1 1), mp_put_mutator ''a'' (lww_raw 2 3), mp_put_mutator ''b'' (lww_raw 1 1),
      mp_put_mutator ''a'' (lww_raw 1 (5 :: nat))]"
  by (rule nested_map_converges) (auto simp: mp_new_def mp_put_mutator_def)

end
