(* ===== verification/Counter.thy ===== *)
theory Counter
  imports CRDT
begin

text \<open>
  Per-replica counters in ordered maps: the maximum merge shared by \<open>PNCounter\<close>
  (\<open>333-crdt/src/counter.rs\<close>) and \<open>VersionVector\<close> (\<open>333-crdt/src/dvv.rs\<close>), and the counter itself.
  A system of replicas that increment, decrement and merge each other's past states, in any
  interleaving, never loses or double counts an operation.
\<close>

type_synonym replica_id = string
type_synonym clocks = "(replica_id, u64) btree"

section \<open>Maps of clocks\<close>

definition clock_get :: "clocks \<Rightarrow> replica_id \<Rightarrow> u64" where
  "clock_get m r = (case map_of m r of None \<Rightarrow> 0 | Some v \<Rightarrow> v)"

text \<open>\<open>entry(r).or_insert(0)\<close> followed by raising the entry to \<open>v\<close> if \<open>v\<close> is greater.\<close>

definition clock_raise :: "clocks \<Rightarrow> replica_id \<times> u64 \<Rightarrow> clocks" where
  "clock_raise m e = (case e of (r, v) \<Rightarrow> bt_insert r (if v > clock_get m r then v else clock_get m r) m)"

definition clocks_merge :: "clocks \<Rightarrow> clocks \<Rightarrow> clocks" where
  "clocks_merge a b = foldl clock_raise a b"

lemma clock_raise_wf: "bt_wf a \<Longrightarrow> bt_wf (clock_raise a e)"
  by (simp add: clock_raise_def split: prod.splits)

lemma clocks_merge_wf: "bt_wf a \<Longrightarrow> bt_wf (clocks_merge a b)"
  unfolding clocks_merge_def by (induction b arbitrary: a) (auto simp: clock_raise_wf)

lemma clock_raise_lookup:
  "map_of (clock_raise a (r, v)) k = (if k = r then Some (max v (clock_get a r)) else map_of a k)"
  by (auto simp: clock_raise_def max_def)

lemma clocks_merge_lookup:
  "bt_wf b \<Longrightarrow> map_of (clocks_merge a b) k = combine max (map_of a k) (map_of b k)"
proof (induction b arbitrary: a)
  case Nil
  then show ?case by (simp add: clocks_merge_def)
next
  case (Cons e b)
  obtain r v where e: "e = (r, v)" by force
  have n: "map_of b r = None" using bt_get_Cons_lt [of r v b r] Cons.prems by (simp add: e)
  have "map_of (clocks_merge a (e # b)) k = combine max (map_of (clock_raise a e) k) (map_of b k)"
    using Cons.IH [of "clock_raise a e"] Cons.prems by (simp add: clocks_merge_def)
  then show ?case
    using n by (auto simp: e clock_raise_lookup clock_get_def combine_def max.commute split: option.splits)
qed

lemma clock_get_merge: "bt_wf b \<Longrightarrow> clock_get (clocks_merge a b) r = max (clock_get a r) (clock_get b r)"
  by (auto simp: clock_get_def clocks_merge_lookup combine_def split: option.splits)

interpretation clkc: crdt bt_wf clocks_merge
proof
  fix a b c :: clocks
  show "bt_wf a \<Longrightarrow> bt_wf b \<Longrightarrow> bt_wf (clocks_merge a b)" by (rule clocks_merge_wf)
  show "bt_wf a \<Longrightarrow> bt_wf b \<Longrightarrow> clocks_merge a b = clocks_merge b a"
    by (rule bt_ext)
      (auto simp: clocks_merge_wf clocks_merge_lookup fun_eq_iff combine_def max.commute split: option.splits)
  show "bt_wf a \<Longrightarrow> bt_wf b \<Longrightarrow> bt_wf c \<Longrightarrow> clocks_merge (clocks_merge a b) c = clocks_merge a (clocks_merge b c)"
    by (rule bt_ext)
      (auto simp: clocks_merge_wf clocks_merge_lookup fun_eq_iff combine_def max.assoc split: option.splits)
  show "bt_wf a \<Longrightarrow> clocks_merge a a = a"
    by (rule bt_ext) (auto simp: clocks_merge_wf clocks_merge_lookup fun_eq_iff combine_def split: option.splits)
qed

section \<open>PNCounter\<close>

record pn_counter =
  pn_p :: clocks
  pn_n :: clocks

definition pn_new :: pn_counter where
  "pn_new = \<lparr>pn_p = [], pn_n = []\<rparr>"

definition pn_increment :: "pn_counter \<Rightarrow> replica_id \<Rightarrow> u64 \<Rightarrow> pn_counter" where
  "pn_increment c r d = c\<lparr>pn_p := bt_insert r (saturating_add (clock_get (pn_p c) r) d) (pn_p c)\<rparr>"

definition pn_decrement :: "pn_counter \<Rightarrow> replica_id \<Rightarrow> u64 \<Rightarrow> pn_counter" where
  "pn_decrement c r d = c\<lparr>pn_n := bt_insert r (saturating_add (clock_get (pn_n c) r) d) (pn_n c)\<rparr>"

text \<open>The sums are \<open>u128\<close>, reinterpreted as \<open>i128\<close> and subtracted.\<close>

definition pn_value :: "pn_counter \<Rightarrow> int" where
  "pn_value c =
     (let pos = sum_list (map (\<lambda>(_, v). ucast v :: u128) (pn_p c));
          neg = sum_list (map (\<lambda>(_, v). ucast v :: u128) (pn_n c))
      in sint (pos - neg))"

definition pn_merge :: "pn_counter \<Rightarrow> pn_counter \<Rightarrow> pn_counter" where
  "pn_merge a b = \<lparr>pn_p = clocks_merge (pn_p a) (pn_p b), pn_n = clocks_merge (pn_n a) (pn_n b)\<rparr>"

definition pn_wf :: "pn_counter \<Rightarrow> bool" where
  "pn_wf c \<longleftrightarrow> bt_wf (pn_p c) \<and> bt_wf (pn_n c)"

interpretation pnc: crdt pn_wf pn_merge
  by unfold_locales
    (auto simp: pn_wf_def pn_merge_def clkc.valid_merge clkc.merge_assoc clkc.merge_idem intro: clkc.merge_comm)

lemma pn_wf_ops [simp]: "pn_wf pn_new" "pn_wf c \<Longrightarrow> pn_wf (pn_increment c r d)" "pn_wf c \<Longrightarrow> pn_wf (pn_decrement c r d)"
  by (simp_all add: pn_wf_def pn_new_def pn_increment_def pn_decrement_def)

lemma clock_get_insert [simp]: "clock_get (bt_insert r v m) k = (if k = r then v else clock_get m k)"
  by (simp add: clock_get_def)

text \<open>The sum of the entries is the sum of the clocks of any set of replicas that contains the nonzero ones.\<close>

lemma clocks_sum:
  assumes "bt_wf m" "finite R" "\<And>r. r \<notin> R \<Longrightarrow> clock_get m r = 0"
  shows "(\<Sum>(_, v) \<leftarrow> m. unat v) = (\<Sum>r \<in> R. unat (clock_get m r))"
proof -
  have d: "distinct (map fst m)" using assms(1) by (rule bt_wf_distinct)
  have "(\<Sum>(_, v) \<leftarrow> m. unat v) = (\<Sum>(r, v) \<in> set m. unat v)"
    using d by (simp add: sum_list_distinct_conv_sum_set distinct_map)
  also have "\<dots> = (\<Sum>e \<in> set m. unat (clock_get m (fst e)))"
    using assms(1) by (intro sum.cong) (auto simp: clock_get_def bt_get_in_set [symmetric])
  also have "\<dots> = (\<Sum>r \<in> fst ` set m. unat (clock_get m r))"
    using d by (simp add: sum.reindex distinct_map)
  also have "\<dots> = (\<Sum>r \<in> fst ` set m \<union> R. unat (clock_get m r))"
    using assms(2) by (intro sum.mono_neutral_left) (auto simp: clock_get_def map_of_eq_None_iff [THEN iffD2])
  also have "\<dots> = (\<Sum>r \<in> R. unat (clock_get m r))"
    using assms(2,3) by (intro sum.mono_neutral_right) auto
  finally show ?thesis .
qed

lemma u128_sum:
  "(\<Sum>(_, v) \<leftarrow> m. unat (v :: u64)) < 2 ^ 128 \<Longrightarrow>
     unat (sum_list (map (\<lambda>(_, v). ucast v :: u128) m)) = (\<Sum>(_, v) \<leftarrow> m. unat v)"
proof (induction m)
  case (Cons e m)
  obtain r v where e: "e = (r, v)" by force
  have "unat v < 2 ^ 128" by (rule order_less_le_trans [OF unsigned_less]) simp
  then have "unat (ucast v :: u128) = unat v" by (simp add: unsigned_ucast_eq take_bit_nat_eq_self)
  then show ?case using Cons by (simp add: e unat_add_no_overflow)
qed simp

lemma pn_value_exact:
  assumes "(\<Sum>(_, v) \<leftarrow> pn_p c. unat v) < 2 ^ 127" "(\<Sum>(_, v) \<leftarrow> pn_n c. unat v) < 2 ^ 127"
  shows "pn_value c = int (\<Sum>(_, v) \<leftarrow> pn_p c. unat v) - int (\<Sum>(_, v) \<leftarrow> pn_n c. unat v)"
proof -
  let ?p = "sum_list (map (\<lambda>(_, v). ucast v :: u128) (pn_p c))" and ?n = "sum_list (map (\<lambda>(_, v). ucast v :: u128) (pn_n c))"
  have u: "unat ?p < 2 ^ 127" "unat ?n < 2 ^ 127" using assms by (simp_all add: u128_sum)
  have lt: "uint w < 2 ^ 127" if "unat w < 2 ^ 127" for w :: u128
  proof -
    have "int (unat w) < int (2 ^ 127)" using that by (simp only: of_nat_less_iff)
    then show ?thesis by simp
  qed
  have s: "sint w = uint w" if "unat w < 2 ^ 127" for w :: u128
  proof -
    have "- (2 ^ 127) \<le> (0 :: int)" "0 \<le> uint w" by simp_all
    then have "- (2 ^ 127) \<le> uint w" by (rule order_trans)
    then have "signed_take_bit 127 (uint w) = uint w" using lt [OF that] by (rule signed_take_bit_int_eq_self)
    then show ?thesis by (simp add: sint_uint)
  qed
  have "sint (?p - ?n) = signed_take_bit 127 (uint ?p - uint ?n)"
    using s [OF u(1)] s [OF u(2)] by (simp add: sint_word_ariths)
  also have "\<dots> = uint ?p - uint ?n"
  proof (rule signed_take_bit_int_eq_self)
    have "0 \<le> uint ?p" "0 \<le> uint ?n" by simp_all
    with lt [OF u(1)] lt [OF u(2)] show "- (2 ^ 127) \<le> uint ?p - uint ?n" "uint ?p - uint ?n < 2 ^ 127" by linarith+
  qed
  finally have "sint (?p - ?n) = uint ?p - uint ?n" .
  then have "pn_value c = int (unat ?p) - int (unat ?n)" by (simp add: pn_value_def Let_def)
  moreover have "unat ?p = (\<Sum>(_, v) \<leftarrow> pn_p c. unat v)" "unat ?n = (\<Sum>(_, v) \<leftarrow> pn_n c. unat v)"
    using assms by (simp_all add: u128_sum)
  ultimately show ?thesis by simp
qed

section \<open>A system of replicas\<close>

text \<open>
  Every replica works on its own counter under its own name; \<open>seen\<close> holds every state that ever
  existed, so a merge may deliver an old state. \<open>P\<close> and \<open>N\<close> count what was really added and
  subtracted, without saturation.
\<close>

record pn_system =
  ps_state :: "replica_id \<Rightarrow> pn_counter"
  ps_seen :: "pn_counter set"
  ps_added :: "replica_id \<Rightarrow> nat"
  ps_removed :: "replica_id \<Rightarrow> nat"

definition pn_moves :: "pn_system \<Rightarrow> replica_id \<Rightarrow> pn_counter \<Rightarrow> pn_system" where
  "pn_moves s r c = s\<lparr>ps_state := (ps_state s)(r := c), ps_seen := insert c (ps_seen s)\<rparr>"

inductive pn_reach :: "pn_system \<Rightarrow> bool" where
  start: "pn_reach \<lparr>ps_state = (\<lambda>_. pn_new), ps_seen = {pn_new}, ps_added = (\<lambda>_. 0), ps_removed = (\<lambda>_. 0)\<rparr>"
| increment: "pn_reach s \<Longrightarrow> pn_reach ((pn_moves s r (pn_increment (ps_state s r) r d))
    \<lparr>ps_added := (ps_added s)(r := ps_added s r + unat d)\<rparr>)"
| decrement: "pn_reach s \<Longrightarrow> pn_reach ((pn_moves s r (pn_decrement (ps_state s r) r d))
    \<lparr>ps_removed := (ps_removed s)(r := ps_removed s r + unat d)\<rparr>)"
| merge: "pn_reach s \<Longrightarrow> c \<in> ps_seen s \<Longrightarrow> pn_reach (pn_moves s r (pn_merge (ps_state s r) c))"

definition sat64 :: "nat \<Rightarrow> nat" where
  "sat64 n = min n (2 ^ 64 - 1)"

definition clocks_within :: "clocks \<Rightarrow> (replica_id \<Rightarrow> nat) \<Rightarrow> bool" where
  "clocks_within m f \<longleftrightarrow> (\<forall>r. unat (clock_get m r) \<le> sat64 (f r))"

definition pn_inv :: "pn_system \<Rightarrow> bool" where
  "pn_inv s \<longleftrightarrow> (\<forall>r. ps_state s r \<in> ps_seen s \<and> unat (clock_get (pn_p (ps_state s r)) r) = sat64 (ps_added s r) \<and>
       unat (clock_get (pn_n (ps_state s r)) r) = sat64 (ps_removed s r)) \<and>
     (\<forall>c \<in> ps_seen s. pn_wf c \<and> clocks_within (pn_p c) (ps_added s) \<and> clocks_within (pn_n c) (ps_removed s))"

lemma sat64_add: "unat (saturating_add a (d :: u64)) = sat64 (n + unat d)" if "unat a = sat64 n" for a
  using that by (simp add: unat_saturating_add sat64_def)

lemma sat64_mono: "m \<le> n \<Longrightarrow> sat64 m \<le> sat64 n"
  by (simp add: sat64_def)

lemma within_bump:
  "clocks_within m f \<Longrightarrow> clocks_within m (f(r := f r + n))"
  unfolding clocks_within_def by (metis fun_upd_apply le_add1 le_trans sat64_mono)

lemma within_insert:
  "clocks_within m f \<Longrightarrow> unat v \<le> sat64 (f r) \<Longrightarrow> clocks_within (bt_insert r v m) f"
  by (simp add: clocks_within_def)

lemma within_merge: "clocks_within a f \<Longrightarrow> clocks_within b f \<Longrightarrow> bt_wf b \<Longrightarrow> clocks_within (clocks_merge a b) f"
  by (auto simp: clocks_within_def clock_get_merge max_def)

lemma unat_max: "unat (max a b) = max (unat a) (unat (b :: 'a::len word))"
  by (auto simp: max_def word_le_nat_alt)

lemma pn_reach_inv: "pn_reach s \<Longrightarrow> pn_inv s"
proof (induction rule: pn_reach.induct)
  case start
  then show ?case by (simp add: pn_inv_def pn_new_def pn_wf_def clocks_within_def clock_get_def sat64_def)
next
  case (increment s r d)
  let ?c = "ps_state s r" and ?f = "(ps_added s)(r := ps_added s r + unat d)"
  let ?v = "saturating_add (clock_get (pn_p ?c) r) d"
  have v: "unat ?v = sat64 (ps_added s r + unat d)" using increment.IH by (auto simp: pn_inv_def intro: sat64_add)
  have old: "\<forall>c \<in> ps_seen s. pn_wf c \<and> clocks_within (pn_p c) ?f \<and> clocks_within (pn_n c) (ps_removed s)"
    using increment.IH by (auto simp: pn_inv_def intro: within_bump)
  moreover have "?c \<in> ps_seen s" using increment.IH by (simp add: pn_inv_def)
  ultimately have "pn_wf (pn_increment ?c r d) \<and> clocks_within (pn_p (pn_increment ?c r d)) ?f \<and>
      clocks_within (pn_n (pn_increment ?c r d)) (ps_removed s)"
    using v by (auto simp: pn_increment_def pn_wf_def intro!: within_insert)
  then show ?case using old increment.IH v by (auto simp: pn_inv_def pn_moves_def pn_increment_def)
next
  case (decrement s r d)
  let ?c = "ps_state s r" and ?f = "(ps_removed s)(r := ps_removed s r + unat d)"
  let ?v = "saturating_add (clock_get (pn_n ?c) r) d"
  have v: "unat ?v = sat64 (ps_removed s r + unat d)" using decrement.IH by (auto simp: pn_inv_def intro: sat64_add)
  have old: "\<forall>c \<in> ps_seen s. pn_wf c \<and> clocks_within (pn_n c) ?f \<and> clocks_within (pn_p c) (ps_added s)"
    using decrement.IH by (auto simp: pn_inv_def intro: within_bump)
  moreover have "?c \<in> ps_seen s" using decrement.IH by (simp add: pn_inv_def)
  ultimately have "pn_wf (pn_decrement ?c r d) \<and> clocks_within (pn_n (pn_decrement ?c r d)) ?f \<and>
      clocks_within (pn_p (pn_decrement ?c r d)) (ps_added s)"
    using v by (auto simp: pn_decrement_def pn_wf_def intro!: within_insert)
  then show ?case using old decrement.IH v by (auto simp: pn_inv_def pn_moves_def pn_decrement_def)
next
  case (merge s c r)
  let ?m = "pn_merge (ps_state s r) c"
  have c: "pn_wf c" "clocks_within (pn_p c) (ps_added s)" "clocks_within (pn_n c) (ps_removed s)"
    and m: "pn_wf ?m" "clocks_within (pn_p ?m) (ps_added s)" "clocks_within (pn_n ?m) (ps_removed s)"
    using merge by (auto simp: pn_inv_def pnc.valid_merge pn_merge_def pn_wf_def intro!: within_merge clocks_merge_wf)
  have "unat (clock_get (pn_p ?m) r) = sat64 (ps_added s r) \<and> unat (clock_get (pn_n ?m) r) = sat64 (ps_removed s r)"
    using merge.IH c by (auto simp: pn_inv_def pn_merge_def clock_get_merge pn_wf_def unat_max clocks_within_def max.absorb1)
  then show ?case using merge.IH m by (auto simp: pn_inv_def pn_moves_def)
qed

lemma clocks_merge_all:
  assumes "pn_wf c" "\<forall>x \<in> set xs. pn_wf x"
  shows "clock_get (pn_p (foldl pn_merge c xs)) r = foldl (\<lambda>m x. max m (clock_get (pn_p x) r)) (clock_get (pn_p c) r) xs"
    and "clock_get (pn_n (foldl pn_merge c xs)) r = foldl (\<lambda>m x. max m (clock_get (pn_n x) r)) (clock_get (pn_n c) r) xs"
  using assms
  by (induction xs arbitrary: c) (auto simp: pnc.valid_merge, auto simp: pn_merge_def clock_get_merge pn_wf_def)

lemma foldl_max_ge: "unat m \<le> unat (foldl (\<lambda>m q. max m (g q)) (m :: u64) rs)"
proof (induction rs arbitrary: m)
  case (Cons q rs)
  have "unat m \<le> unat (max m (g q))" by (simp add: unat_max)
  also have "\<dots> \<le> unat (foldl (\<lambda>m q. max m (g q)) (max m (g q)) rs)" by (rule Cons.IH)
  finally show ?case by simp
qed simp

lemma foldl_max_member: "r \<in> set rs \<Longrightarrow> unat (g r) \<le> unat (foldl (\<lambda>m q. max m (g q)) (m :: u64) rs)"
proof (induction rs arbitrary: m)
  case (Cons q rs)
  then show ?case using foldl_max_ge [of "max m (g q)" g rs] by (auto simp: unat_max)
qed simp

lemma foldl_max_own:
  fixes g :: "'x \<Rightarrow> u64"
  assumes "\<And>q. unat (g q) \<le> b" "r \<in> set rs \<and> unat (g r) = b \<or> b = 0"
  shows "unat (foldl (\<lambda>m q. max m (g q)) (g r0) rs) = b"
proof -
  have "unat m \<le> b \<Longrightarrow> unat (foldl (\<lambda>m q. max m (g q)) m rs) \<le> b" for m
    using assms(1) by (induction rs arbitrary: m) (auto simp: unat_max)
  then have "unat (foldl (\<lambda>m q. max m (g q)) (g r0) rs) \<le> b" using assms(1) by blast
  then show ?thesis using assms(2) foldl_max_member [of r rs g "g r0"] by auto
qed

section \<open>Properties\<close>

text \<open>C40: no operation of a \<open>PNCounter\<close> is lost or counted twice: after any interleaving of increments,
  decrements and merges of past states, merging the states of all replicas that operated gives
  the sum of all increments minus the sum of all decrements, each replica's totals saturating
  at \<open>u64::MAX\<close>.\<close>

theorem pn_counter_exact:
  assumes "pn_reach s" "distinct rs" "r0 \<in> set rs" "\<forall>r. r \<notin> set rs \<longrightarrow> ps_added s r = 0 \<and> ps_removed s r = 0"
    and "length rs < 2 ^ 63"
  shows "pn_value (foldl pn_merge (ps_state s r0) (map (ps_state s) rs)) =
    (\<Sum>r \<leftarrow> rs. int (sat64 (ps_added s r))) - (\<Sum>r \<leftarrow> rs. int (sat64 (ps_removed s r)))"
proof -
  let ?c = "foldl pn_merge (ps_state s r0) (map (ps_state s) rs)"
  have inv: "pn_inv s" using assms(1) by (rule pn_reach_inv)
  then have wf: "pn_wf (ps_state s r)" "clocks_within (pn_p (ps_state s r)) (ps_added s)"
    "clocks_within (pn_n (ps_state s r)) (ps_removed s)" for r
    by (auto simp: pn_inv_def)
  have own: "unat (clock_get (pn_p (ps_state s r)) r) = sat64 (ps_added s r)"
    "unat (clock_get (pn_n (ps_state s r)) r) = sat64 (ps_removed s r)" for r
    using inv by (auto simp: pn_inv_def)
  have p: "unat (clock_get (pn_p ?c) r) = sat64 (ps_added s r)" and n: "unat (clock_get (pn_n ?c) r) = sat64 (ps_removed s r)" for r
  proof -
    have all: "\<forall>x \<in> set (map (ps_state s) rs). pn_wf x" using wf(1) by auto
    note wi = wf(2,3) [unfolded clocks_within_def, rule_format]
    have z: "r \<in> set rs \<or> sat64 (ps_added s r) = 0 \<and> sat64 (ps_removed s r) = 0" using assms(4) by (auto simp: sat64_def)
    show "unat (clock_get (pn_p ?c) r) = sat64 (ps_added s r)"
      by (subst clocks_merge_all(1) [OF wf(1) all], subst foldl_map, rule foldl_max_own [of _ _ r]) (use wi(1) own(1) z in auto)
    show "unat (clock_get (pn_n ?c) r) = sat64 (ps_removed s r)"
      by (subst clocks_merge_all(2) [OF wf(1) all], subst foldl_map, rule foldl_max_own [of _ _ r]) (use wi(2) own(2) z in auto)
  qed
  have cw: "pn_wf ?c" using wf by (auto intro!: pnc.foldl_valid)
  have z: "clock_get (pn_p ?c) r = 0" "clock_get (pn_n ?c) r = 0" if "r \<notin> set rs" for r
    using p [of r] n [of r] assms(4) that by (simp_all add: sat64_def unat_eq_0)
  have sums: "(\<Sum>(_, v) \<leftarrow> pn_p ?c. unat v) = (\<Sum>r \<in> set rs. sat64 (ps_added s r))"
    "(\<Sum>(_, v) \<leftarrow> pn_n ?c. unat v) = (\<Sum>r \<in> set rs. sat64 (ps_removed s r))"
    using clocks_sum [of "pn_p ?c" "set rs"] clocks_sum [of "pn_n ?c" "set rs"] cw z p n by (simp_all add: pn_wf_def)
  have "(\<Sum>r \<in> set rs. sat64 (f r)) < 2 ^ 127" for f :: "replica_id \<Rightarrow> nat"
  proof -
    have "(\<Sum>r \<in> set rs. sat64 (f r)) \<le> card (set rs) * (2 ^ 64 - 1)"
      using sum_bounded_above [of "set rs" "\<lambda>r. sat64 (f r)" "2 ^ 64 - 1"] by (simp add: sat64_def)
    also have "\<dots> \<le> 2 ^ 63 * (2 ^ 64 - 1)" using assms(5) card_length [of rs] by (intro mult_right_mono) auto
    also have "\<dots> < 2 ^ 127" by simp
    finally show ?thesis .
  qed
  then have "pn_value ?c = int (\<Sum>r \<in> set rs. sat64 (ps_added s r)) - int (\<Sum>r \<in> set rs. sat64 (ps_removed s r))"
    using pn_value_exact [of ?c] sums by simp
  then show ?thesis using assms(2) by (simp add: sum_list_distinct_conv_sum_set)
qed

theorem pn_counter_exact_witness:
  "\<exists>s. pn_reach s \<and> ps_added s ''A'' = 5 \<and> ps_removed s ''B'' = 2 \<and>
    pn_value (foldl pn_merge (ps_state s ''A'') (map (ps_state s) [''A'', ''B''])) = 3"
proof -
  let ?s0 = "\<lparr>ps_state = (\<lambda>_. pn_new), ps_seen = {pn_new}, ps_added = (\<lambda>_. 0), ps_removed = (\<lambda>_. 0)\<rparr>"
  let ?s1 = "(pn_moves ?s0 ''A'' (pn_increment (ps_state ?s0 ''A'') ''A'' 5))\<lparr>ps_added := (ps_added ?s0)(''A'' := ps_added ?s0 ''A'' + unat (5::u64))\<rparr>"
  let ?s = "(pn_moves ?s1 ''B'' (pn_decrement (ps_state ?s1 ''B'') ''B'' 2))\<lparr>ps_removed := (ps_removed ?s1)(''B'' := ps_removed ?s1 ''B'' + unat (2::u64))\<rparr>"
  have r: "pn_reach ?s" by (rule pn_reach.decrement [OF pn_reach.increment [OF pn_reach.start]])
  have "ps_added ?s = (\<lambda>_. 0)(''A'' := 5)" "ps_removed ?s = (\<lambda>_. 0)(''B'' := 2)"
    by (simp_all add: pn_moves_def fun_eq_iff)
  with r obtain s where s: "pn_reach s" "ps_added s = (\<lambda>_. 0)(''A'' := 5)" "ps_removed s = (\<lambda>_. 0)(''B'' := 2)" by blast
  then show ?thesis
    using pn_counter_exact [OF s(1), of "[''A'', ''B'']" "''A''"] by (auto simp: sat64_def)
qed

section \<open>Deltas of a counter\<close>

datatype pn_op = PnInc u64 | PnDec u64

fun pn_apply :: "replica_id \<Rightarrow> pn_counter \<Rightarrow> pn_op \<Rightarrow> pn_counter" where
  "pn_apply r c (PnInc d) = pn_increment c r d"
| "pn_apply r c (PnDec d) = pn_decrement c r d"

text \<open>A local mutation through \<open>state_mut\<close>, then \<open>stage\<close>.\<close>

definition staged_op :: "replica_id \<Rightarrow> pn_counter delta_wrap \<Rightarrow> pn_op \<Rightarrow> pn_counter delta_wrap" where
  "staged_op r w oper = dw_stage (w\<lparr>dw_state := pn_apply r (dw_state w) oper\<rparr>)"

lemma clocks_below_raise: "bt_wf m \<Longrightarrow> clock_get m r \<le> v \<Longrightarrow> clocks_merge m (bt_insert r v m) = bt_insert r v m"
  by (rule bt_ext)
    (auto simp: clocks_merge_wf clocks_merge_lookup fun_eq_iff combine_def clock_get_def max_def split: option.splits)

lemma saturating_add_ge: "a \<le> saturating_add a (b :: u64)"
proof -
  have "unat a < 2 ^ 64" by (rule order_less_le_trans [OF unsigned_less]) simp
  then show ?thesis by (simp add: word_le_nat_alt unat_saturating_add)
qed

lemma pn_apply_below: "pn_wf c \<Longrightarrow> pn_wf (pn_apply r c oper) \<and> pnc.below c (pn_apply r c oper)"
  by (cases oper)
    (auto simp: pnc.below_def pn_merge_def pn_increment_def pn_decrement_def pn_wf_def clkc.merge_idem
      clocks_below_raise saturating_add_ge)

lemma staged_chain:
  assumes "pn_wf (dw_state w)" "\<forall>x \<in> set (dw_buffer w). pn_wf x \<and> pnc.below x (dw_state w)"
  shows "pn_wf (dw_state (foldl (staged_op r) w ops)) \<and>
    (\<forall>x \<in> set (dw_buffer (foldl (staged_op r) w ops)). pn_wf x \<and> pnc.below x (dw_state (foldl (staged_op r) w ops)))"
  using assms
proof (induction ops arbitrary: w)
  case (Cons oper ops)
  let ?w = "staged_op r w oper"
  have s: "dw_state ?w = pn_apply r (dw_state w) oper" "dw_buffer ?w = dw_buffer w @ [dw_state ?w]"
    by (simp_all add: staged_op_def dw_stage_def)
  note b = pn_apply_below [OF Cons.prems(1), of r oper]
  have "pn_wf x \<and> pnc.below x (dw_state ?w)" if "x \<in> set (dw_buffer ?w)" for x
  proof (cases "x = dw_state ?w")
    case True
    then show ?thesis using b s(1) pnc.below_refl by simp
  next
    case False
    then have "pn_wf x" "pnc.below x (dw_state w)" using that s(2) Cons.prems(2) by auto
    then show ?thesis using pnc.below_trans [OF _ Cons.prems(1)] b s(1) by simp
  qed
  then have "\<forall>x \<in> set (dw_buffer ?w). pn_wf x \<and> pnc.below x (dw_state ?w)" by blast
  moreover have "pn_wf (dw_state ?w)" using b s(1) by simp
  ultimately show ?case using Cons.IH [of ?w] by simp
qed simp

text \<open>Deltas carry everything: a receiver that absorbs the deltas drained from a sender, in order,
  reaches the state it would have by merging the sender's whole state, and buffers every delta
  for its own peers.\<close>

theorem drained_deltas_suffice:
  assumes "pn_wf c" "pn_wf t" "ops \<noteq> []" "dw_drain (foldl (staged_op r) (dw_new c) ops) = (w, ds)"
  shows "foldl (dw_absorb pn_merge) (dw_new t) ds = \<lparr>dw_state = pn_merge t (dw_state w), dw_buffer = ds\<rparr> \<and>
    dw_buffer w = [] \<and> length ds = length ops"
proof -
  let ?w = "foldl (staged_op r) (dw_new c) ops"
  have w: "dw_state w = dw_state ?w" "ds = dw_buffer ?w" "dw_buffer w = []" using assms(4) by (auto simp: dw_drain_def)
  have len: "length (dw_buffer (foldl (staged_op r) v ops)) = length (dw_buffer v) + length ops" for v
    by (induction ops arbitrary: v) (simp_all add: staged_op_def dw_stage_def)
  have chain: "pn_wf (dw_state ?w)" "\<forall>x \<in> set ds. pn_wf x \<and> pnc.below x (dw_state ?w)"
    using staged_chain [of "dw_new c" r ops] assms(1) w(2) by (auto simp: dw_new_def)
  obtain ops' oper where "ops = ops' @ [oper]" using assms(3) by (metis rev_exhaust)
  then obtain ds' where ds: "ds = ds' @ [dw_state ?w]" using w(2) by (simp add: staged_op_def dw_stage_def)
  have "foldl pn_merge t ds = pn_merge t (dw_state ?w)"
    unfolding ds by (rule pnc.chain_last) (use assms(2) chain ds in auto)
  moreover have "length ds = length ops" using w(2) len [of "dw_new c"] by (simp add: dw_new_def)
  ultimately show ?thesis using w(1,3) by (simp add: absorb_all dw_new_def)
qed

theorem drained_deltas_suffice_witness:
  "dw_state (foldl (dw_absorb pn_merge) (dw_new pn_new)
     (snd (dw_drain (foldl (staged_op ''A'') (dw_new pn_new) [PnInc 5, PnInc 3]))))
   = pn_merge pn_new (pn_apply ''A'' (pn_apply ''A'' pn_new (PnInc 5)) (PnInc 3))"
  using drained_deltas_suffice [of pn_new pn_new "[PnInc 5, PnInc 3]" "''A''"
      "fst (dw_drain (foldl (staged_op ''A'') (dw_new pn_new) [PnInc 5, PnInc 3]))"
      "snd (dw_drain (foldl (staged_op ''A'') (dw_new pn_new) [PnInc 5, PnInc 3]))"]
  by (simp add: dw_drain_def staged_op_def dw_stage_def dw_new_def)

end
