(* ===== verification/Causal.thy ===== *)
theory Causal
  imports Counter "HOL-Library.Multiset"
begin

text \<open>
  Version vectors and the dotted value set of \<open>333-crdt/src/dvv.rs\<close>, and the causal broadcaster of
  \<open>333-crdt/src/rcb.rs\<close>: a received message waits until every message it depends on has been
  delivered. Counters are \<open>u64\<close> and wrap, as in a release build. The loops that advance a clock
  and that rescan the waiting messages are shown to end.
\<close>

section \<open>Version vectors\<close>

record version_vector =
  vv_clocks :: clocks

definition vv_new :: version_vector where
  "vv_new = \<lparr>vv_clocks = []\<rparr>"

definition vv_get :: "version_vector \<Rightarrow> replica_id \<Rightarrow> u64" where
  "vv_get v r = clock_get (vv_clocks v) r"

definition vv_tick :: "version_vector \<Rightarrow> replica_id \<Rightarrow> version_vector \<times> u64" where
  "vv_tick v r = (let c = clock_get (vv_clocks v) r + 1 in (v\<lparr>vv_clocks := bt_insert r c (vv_clocks v)\<rparr>, c))"

fun dominates_loop :: "version_vector \<Rightarrow> clocks \<Rightarrow> bool" where
  "dominates_loop v [] = True"
| "dominates_loop v ((rid, c) # rest) = (if vv_get v rid < c then False else dominates_loop v rest)"

definition vv_dominates :: "version_vector \<Rightarrow> version_vector \<Rightarrow> bool" where
  "vv_dominates v other = dominates_loop v (vv_clocks other)"

definition is_concurrent_with :: "version_vector \<Rightarrow> version_vector \<Rightarrow> bool" where
  "is_concurrent_with v other \<longleftrightarrow> \<not> vv_dominates v other \<and> \<not> vv_dominates other v"

definition vv_merge :: "version_vector \<Rightarrow> version_vector \<Rightarrow> version_vector" where
  "vv_merge v other = v\<lparr>vv_clocks := clocks_merge (vv_clocks v) (vv_clocks other)\<rparr>"

definition vv_wf :: "version_vector \<Rightarrow> bool" where
  "vv_wf v \<longleftrightarrow> bt_wf (vv_clocks v)"

interpretation vvc: crdt vv_wf vv_merge
proof
  fix a b c :: version_vector
  show "vv_wf a \<Longrightarrow> vv_wf b \<Longrightarrow> vv_wf (vv_merge a b)" by (simp add: vv_wf_def vv_merge_def clkc.valid_merge)
  show "vv_wf a \<Longrightarrow> vv_wf b \<Longrightarrow> vv_merge a b = vv_merge b a"
    by (simp add: vv_wf_def vv_merge_def clkc.merge_comm [of "vv_clocks a"])
  show "vv_wf a \<Longrightarrow> vv_wf b \<Longrightarrow> vv_wf c \<Longrightarrow> vv_merge (vv_merge a b) c = vv_merge a (vv_merge b c)"
    by (simp add: vv_wf_def vv_merge_def clkc.merge_assoc)
  show "vv_wf a \<Longrightarrow> vv_merge a a = a" by (simp add: vv_wf_def vv_merge_def clkc.merge_idem)
qed

lemma vv_get_tick [simp]: "vv_get (fst (vv_tick v r)) q = (if q = r then vv_get v r + 1 else vv_get v q)"
  by (simp add: vv_get_def vv_tick_def Let_def)

lemma vv_wf_simps [simp]: "vv_wf vv_new" "vv_wf v \<Longrightarrow> vv_wf (fst (vv_tick v r))"
  by (simp_all add: vv_wf_def vv_new_def vv_tick_def Let_def)

lemma vv_get_new [simp]: "vv_get vv_new r = 0"
  by (simp add: vv_get_def vv_new_def clock_get_def)

lemma dominates_loop_iff: "dominates_loop v m \<longleftrightarrow> (\<forall>(r, c) \<in> set m. c \<le> vv_get v r)"
  by (induction m) (auto simp: not_less split: if_splits)

lemma dominates_iff: "vv_wf other \<Longrightarrow> vv_dominates v other \<longleftrightarrow> (\<forall>r. vv_get other r \<le> vv_get v r)"
proof -
  assume "vv_wf other"
  then have "(r, c) \<in> set (vv_clocks other) \<longleftrightarrow> map_of (vv_clocks other) r = Some c" for r c
    by (simp add: vv_wf_def bt_get_in_set)
  then have "(\<forall>(r, c) \<in> set (vv_clocks other). c \<le> vv_get v r) \<longleftrightarrow> (\<forall>r. vv_get other r \<le> vv_get v r)"
    by (fastforce simp: vv_get_def [of other] clock_get_def split: option.splits)
  then show ?thesis by (simp add: vv_dominates_def dominates_loop_iff)
qed

lemma unat_succ_less: "(a :: u64) < n \<Longrightarrow> unat (a + 1) = Suc (unat a)"
proof -
  assume "a < n"
  then have "unat a + unat (1 :: u64) \<le> unat n" by (simp add: word_less_nat_alt)
  also have "unat n < 2 ^ LENGTH(64)" by (rule unsigned_less)
  finally show ?thesis by (simp add: unat_add_no_overflow)
qed

section \<open>Causal broadcast\<close>

record 'a causal_msg =
  msg_sender :: replica_id
  msg_counter :: u64
  msg_context :: version_vector
  msg_payload :: 'a

record 'a broadcaster =
  vb_me :: replica_id
  vb_delivered :: version_vector
  vb_pending :: "'a causal_msg list"

definition vb_new :: "replica_id \<Rightarrow> 'a broadcaster" where
  "vb_new me = \<lparr>vb_me = me, vb_delivered = vv_new, vb_pending = []\<rparr>"

text \<open>\<open>while v.get(r) < n { v.tick(r) }\<close>\<close>

function tick_until :: "version_vector \<Rightarrow> replica_id \<Rightarrow> u64 \<Rightarrow> version_vector" where
  "tick_until v r n = (if vv_get v r < n then tick_until (fst (vv_tick v r)) r n else v)"
  by auto
termination
proof (relation "measure (\<lambda>(v, r, n). unat n - unat (vv_get v r))")
  fix v r and n :: u64
  assume "vv_get v r < n"
  then have "unat (vv_get v r) < unat n" "unat (vv_get v r + 1) = Suc (unat (vv_get v r))"
    by (simp_all add: word_less_nat_alt [symmetric] unat_succ_less)
  then show "((fst (vv_tick v r), r, n), (v, r, n)) \<in> measure (\<lambda>(v, r, n). unat n - unat (vv_get v r))" by simp
qed simp

declare tick_until.simps [simp del]

lemma tick_until_get: "vv_get (tick_until v r n) q = (if q = r then max (vv_get v r) n else vv_get v q)"
proof (induction v r n rule: tick_until.induct)
  case (1 v r n)
  show ?case
  proof (cases "vv_get v r < n")
    case True
    then have "vv_get v r + 1 \<le> n" by (simp add: word_le_nat_alt unat_succ_less word_less_nat_alt)
    then show ?thesis using 1 True by (subst tick_until.simps) (auto simp: max_def)
  next
    case False
    then show ?thesis by (subst tick_until.simps) (auto simp: max_def)
  qed
qed

lemma tick_until_wf: "vv_wf v \<Longrightarrow> vv_wf (tick_until v r n)"
  by (induction v r n rule: tick_until.induct) (subst tick_until.simps, simp)

definition can_deliver :: "version_vector \<Rightarrow> 'a causal_msg \<Rightarrow> bool" where
  "can_deliver delivered msg =
     (if vv_get delivered (msg_sender msg) + 1 \<noteq> msg_counter msg then False
      else let stripped = msg_context msg;
               hypothetical = tick_until delivered (msg_sender msg) (msg_counter msg)
        in vv_dominates hypothetical stripped \<or>
           vv_dominates hypothetical (fst (vv_tick stripped (msg_sender msg))))"

definition deliver_now :: "version_vector \<Rightarrow> 'a causal_msg \<Rightarrow> version_vector" where
  "deliver_now delivered msg = tick_until delivered (msg_sender msg) (msg_counter msg)"

definition vb_submit :: "'a broadcaster \<Rightarrow> 'a \<Rightarrow> 'a broadcaster \<times> 'a causal_msg" where
  "vb_submit b payload =
     (case vv_tick (vb_delivered b) (vb_me b) of (v, counter) \<Rightarrow>
        (b\<lparr>vb_delivered := v\<rparr>,
         \<lparr>msg_sender = vb_me b, msg_counter = counter, msg_context = v, msg_payload = payload\<rparr>))"

text \<open>One pass over the waiting messages: the clock after it, what was delivered, what still waits.\<close>

fun scan_pending ::
    "version_vector \<Rightarrow> 'a causal_msg list \<Rightarrow> version_vector \<times> 'a causal_msg list \<times> 'a causal_msg list" where
  "scan_pending d [] = (d, [], [])"
| "scan_pending d (m # ms) =
     (if can_deliver d m
      then (case scan_pending (deliver_now d m) ms of (d', now, rest) \<Rightarrow> (d', m # now, rest))
      else (case scan_pending d ms of (d', now, rest) \<Rightarrow> (d', now, m # rest)))"

lemma scan_length: "scan_pending d ms = (d', now, rest) \<Longrightarrow> length now + length rest = length ms"
  by (induction d ms arbitrary: d' now rest rule: scan_pending.induct) (auto split: if_splits prod.splits)

function rescan ::
    "version_vector \<Rightarrow> 'a causal_msg list \<Rightarrow> version_vector \<times> 'a causal_msg list \<times> 'a causal_msg list" where
  "rescan d ms =
     (case scan_pending d ms of (d', now, rest) \<Rightarrow>
        if length rest = length ms then (d', now, rest)
        else (case rescan d' rest of (d'', later, waiting) \<Rightarrow> (d'', now @ later, waiting)))"
  by auto
termination
  by (relation "measure (\<lambda>(_, ms). length ms)") (auto dest: scan_length [OF sym])

declare rescan.simps [simp del]

definition vb_receive :: "'a broadcaster \<Rightarrow> 'a causal_msg \<Rightarrow> 'a broadcaster \<times> 'a causal_msg list" where
  "vb_receive b msg =
     (case rescan (vb_delivered b) (vb_pending b @ [msg]) of (d, now, rest) \<Rightarrow>
        (b\<lparr>vb_delivered := d, vb_pending := rest\<rparr>, now))"

section \<open>What is delivered\<close>

text \<open>A message as \<open>submit\<close> builds it.\<close>

definition msg_ok :: "'a causal_msg \<Rightarrow> bool" where
  "msg_ok m \<longleftrightarrow> vv_wf (msg_context m) \<and> vv_get (msg_context m) (msg_sender m) = msg_counter m \<and> msg_counter m \<noteq> 0"

text \<open>The next message of its sender, with every message of the others it depends on delivered.\<close>

definition causally_ready :: "version_vector \<Rightarrow> 'a causal_msg \<Rightarrow> bool" where
  "causally_ready d m \<longleftrightarrow> vv_get d (msg_sender m) + 1 = msg_counter m \<and>
     (\<forall>r. r \<noteq> msg_sender m \<longrightarrow> vv_get (msg_context m) r \<le> vv_get d r)"

lemma succ_nonzero:
  assumes "(a :: u64) + 1 = c" "c \<noteq> 0"
  shows "a < c" "unat c = Suc (unat a)"
proof -
  have "unat c = Suc (unat a) mod 2 ^ 64" using assms(1) by (auto simp: unat_word_ariths)
  moreover have "unat a < 2 ^ 64" by (rule order_less_le_trans [OF unsigned_less]) simp
  moreover have "unat c \<noteq> 0" using assms(2) by (simp add: unat_eq_0)
  ultimately show "unat c = Suc (unat a)" by (auto simp: mod_Suc split: if_splits)
  then show "a < c" by (simp add: word_less_nat_alt)
qed

lemma can_deliver_iff:
  assumes "msg_ok m"
  shows "can_deliver d m \<longleftrightarrow> causally_ready d m"
proof (cases "vv_get d (msg_sender m) + 1 = msg_counter m")
  case True
  then have lt: "vv_get d (msg_sender m) < msg_counter m" using assms succ_nonzero(1) [OF True] by (simp add: msg_ok_def)
  let ?h = "tick_until d (msg_sender m) (msg_counter m)"
  have h: "vv_get ?h r = (if r = msg_sender m then msg_counter m else vv_get d r)" for r
    using lt by (simp add: tick_until_get max.absorb2 less_imp_le)
  have w: "vv_wf (msg_context m)" "vv_wf (fst (vv_tick (msg_context m) (msg_sender m)))"
    and c: "vv_get (msg_context m) (msg_sender m) = msg_counter m" using assms by (simp_all add: msg_ok_def)
  show ?thesis
    using True c
    by (auto simp: can_deliver_def causally_ready_def Let_def dominates_iff [OF w(1)] dominates_iff [OF w(2)] h split: if_splits)
qed (simp add: can_deliver_def causally_ready_def)

lemma deliver_now_get:
  assumes "msg_ok m" "causally_ready d m"
  shows "vv_get (deliver_now d m) r = (if r = msg_sender m then msg_counter m else vv_get d r)"
  using assms succ_nonzero(1) [of "vv_get d (msg_sender m)" "msg_counter m"]
  by (auto simp: deliver_now_def tick_until_get causally_ready_def msg_ok_def max_def)

text \<open>A sequence of deliveries, each causally ready when it happens.\<close>

inductive delivers :: "version_vector \<Rightarrow> 'a causal_msg list \<Rightarrow> version_vector \<Rightarrow> bool" where
  none: "delivers d [] d"
| one: "causally_ready d m \<Longrightarrow> delivers (deliver_now d m) ms d' \<Longrightarrow> delivers d (m # ms) d'"

inductive_cases delivers_NilE: "delivers d [] d'"
inductive_cases delivers_ConsE: "delivers d (m # ms) d'"

lemma delivers_append: "delivers d xs d' \<Longrightarrow> delivers d' ys d'' \<Longrightarrow> delivers d (xs @ ys) d''"
  by (induction rule: delivers.induct) (auto intro: delivers.one)

lemma scan_delivers:
  assumes "scan_pending d ms = (d', now, rest)" "\<forall>m \<in> set ms. msg_ok m"
  shows "delivers d now d'" and "mset now + mset rest = mset ms"
    and "length rest = length ms \<Longrightarrow> now = [] \<and> rest = ms \<and> d' = d \<and> (\<forall>m \<in> set ms. \<not> causally_ready d m)"
proof -
  from assms have "delivers d now d' \<and> mset now + mset rest = mset ms \<and>
    (length rest = length ms \<longrightarrow> now = [] \<and> rest = ms \<and> d' = d \<and> (\<forall>m \<in> set ms. \<not> causally_ready d m))"
  proof (induction d ms arbitrary: d' now rest rule: scan_pending.induct)
    case (2 d m ms)
    show ?case
    proof (cases "can_deliver d m")
      case True
      then obtain now' where s: "scan_pending (deliver_now d m) ms = (d', now', rest)" "now = m # now'"
        using 2(3) by (auto split: prod.splits)
      then show ?thesis
        using 2(1) [OF True s(1)] 2(4) True scan_length [OF s(1)] can_deliver_iff [of m d] by (auto intro: delivers.one)
    next
      case False
      then obtain rest' where s: "scan_pending d ms = (d', now, rest')" "rest = m # rest'"
        using 2(3) by (auto split: prod.splits)
      then show ?thesis using 2(2) [OF False s(1)] 2(4) False can_deliver_iff [of m d] by auto
    qed
  qed (auto intro: delivers.none)
  then show "delivers d now d'" "mset now + mset rest = mset ms"
    "length rest = length ms \<Longrightarrow> now = [] \<and> rest = ms \<and> d' = d \<and> (\<forall>m \<in> set ms. \<not> causally_ready d m)" by blast+
qed

lemma rescan_delivers:
  assumes "rescan d ms = (d', now, rest)" "\<forall>m \<in> set ms. msg_ok m"
  shows "delivers d now d' \<and> mset now + mset rest = mset ms \<and> (\<forall>m \<in> set rest. \<not> causally_ready d' m)"
  using assms
proof (induction d ms arbitrary: d' now rest rule: rescan.induct)
  case (1 d ms)
  obtain d1 now1 rest1 where s: "scan_pending d ms = (d1, now1, rest1)" by (metis prod.exhaust)
  note sc = scan_delivers [OF s 1(3)]
  show ?case
  proof (cases "length rest1 = length ms")
    case True
    then have "d' = d1" "now = now1" "rest = rest1" using 1(2) s by (auto simp: rescan.simps [of d ms])
    then show ?thesis using sc True by auto
  next
    case False
    obtain d2 now2 rest2 where r: "rescan d1 rest1 = (d2, now2, rest2)" by (metis prod.exhaust)
    have e: "d' = d2" "now = now1 @ now2" "rest = rest2" using 1(2) s r False by (auto simp: rescan.simps [of d ms])
    have "\<forall>m \<in> set rest1. msg_ok m" using sc(2) 1(3) by (metis set_mset_mset union_iff)
    from 1(1) [OF s [symmetric] refl False r this] show ?thesis
      using sc(1,2) e delivers_append by (auto simp: add.assoc)
  qed
qed

lemma delivers_mono:
  assumes "delivers d ms d'" "\<forall>m \<in> set ms. msg_ok m"
  shows "vv_get d r \<le> vv_get d' r" and "\<forall>m \<in> set ms. vv_get d (msg_sender m) < msg_counter m"
proof -
  from assms have "(\<forall>r. vv_get d r \<le> vv_get d' r) \<and> (\<forall>m \<in> set ms. vv_get d (msg_sender m) < msg_counter m)"
  proof (induction rule: delivers.induct)
    case (one d m ms d')
    have ok: "msg_ok m" using one.prems by simp
    have lt: "vv_get d (msg_sender m) < msg_counter m"
      using succ_nonzero(1) [of "vv_get d (msg_sender m)" "msg_counter m"] one.hyps(1) ok
      by (simp add: causally_ready_def msg_ok_def)
    have le: "vv_get d r \<le> vv_get (deliver_now d m) r" for r
      using deliver_now_get [OF ok one.hyps(1)] lt by (simp add: less_imp_le)
    have "\<forall>r. vv_get (deliver_now d m) r \<le> vv_get d' r"
      "\<forall>x \<in> set ms. vv_get (deliver_now d m) (msg_sender x) < msg_counter x"
      using one.IH one.prems by auto
    then show ?case using le lt by (auto intro: order_trans [OF le] order_le_less_trans [OF le])
  qed simp
  then show "vv_get d r \<le> vv_get d' r" "\<forall>m \<in> set ms. vv_get d (msg_sender m) < msg_counter m" by blast+
qed

lemma receive_delivers:
  assumes "vb_receive b m = (b', now)" "\<forall>x \<in> set (m # vb_pending b). msg_ok x"
  shows "delivers (vb_delivered b) now (vb_delivered b')" "mset now + mset (vb_pending b') = mset (m # vb_pending b)"
    "\<forall>x \<in> set (vb_pending b'). \<not> causally_ready (vb_delivered b') x" "vb_me b' = vb_me b"
proof -
  obtain d rest where r: "rescan (vb_delivered b) (vb_pending b @ [m]) = (d, now, rest)"
    "b' = b\<lparr>vb_delivered := d, vb_pending := rest\<rparr>"
    using assms(1) by (auto simp: vb_receive_def split: prod.splits)
  have "\<forall>x \<in> set (vb_pending b @ [m]). msg_ok x" using assms(2) by auto
  from rescan_delivers [OF r(1) this]
  show "delivers (vb_delivered b) now (vb_delivered b')" "mset now + mset (vb_pending b') = mset (m # vb_pending b)"
    "\<forall>x \<in> set (vb_pending b'). \<not> causally_ready (vb_delivered b') x" "vb_me b' = vb_me b"
    using r(2) by simp_all
qed

section \<open>Properties of the broadcaster\<close>

text \<open>What \<open>receive\<close> returns is delivered in causal order: each message is the next one of its sender
  and comes after everything its sender had delivered when it sent it; no message is lost or
  duplicated, and none that could be delivered is left waiting.\<close>

theorem receive_is_causal:
  assumes "vb_receive b m = (b', now)" "\<forall>x \<in> set (m # vb_pending b). msg_ok x"
  shows "delivers (vb_delivered b) now (vb_delivered b') \<and> mset now + mset (vb_pending b') = mset (m # vb_pending b) \<and>
    (\<forall>x \<in> set (vb_pending b'). \<not> can_deliver (vb_delivered b') x)"
proof -
  note r = receive_delivers [OF assms]
  have "set (vb_pending b') \<subseteq> set (m # vb_pending b)" using r(2) by (metis mset_subset_eq_add_right set_mset_mono set_mset_mset)
  then have "\<forall>x \<in> set (vb_pending b'). msg_ok x" using assms(2) by blast
  then show ?thesis using r(1-3) can_deliver_iff by blast
qed

definition demo_msg :: "nat causal_msg" where
  "demo_msg = snd (vb_submit (vb_new ''A'') 7)"

lemma demo_msg_ok: "msg_ok demo_msg"
  by (simp add: demo_msg_def vb_submit_def vb_new_def vv_tick_def Let_def msg_ok_def vv_wf_def vv_new_def vv_get_def
      clock_get_def)

theorem receive_is_causal_witness:
  "\<exists>b now. vb_receive (vb_new ''B'') demo_msg = (b, now) \<and> delivers vv_new now (vb_delivered b) \<and>
    mset now + mset (vb_pending b) = {#demo_msg#}"
proof -
  obtain b now where r: "vb_receive (vb_new ''B'') demo_msg = (b, now)" by force
  show ?thesis using receive_is_causal [OF r] demo_msg_ok r by (auto simp: vb_new_def)
qed

definition vb_receive_all :: "'a broadcaster \<Rightarrow> 'a causal_msg list \<Rightarrow> 'a broadcaster" where
  "vb_receive_all b xs = foldl (\<lambda>b x. fst (vb_receive b x)) b xs"

lemma stale_not_delivered:
  assumes "vb_receive b m = (b', now)" "\<forall>x \<in> set (m # vb_pending b). msg_ok x" "x \<in> set (m # vb_pending b)"
    and "msg_counter x \<le> vv_get (vb_delivered b) (msg_sender x)"
  shows "x \<in> set (vb_pending b') \<and> msg_counter x \<le> vv_get (vb_delivered b') (msg_sender x) \<and> (\<forall>x \<in> set (vb_pending b'). msg_ok x)"
proof -
  note r = receive_delivers [OF assms(1,2)]
  have split: "set now \<union> set (vb_pending b') = set (m # vb_pending b)" using r(2) by (metis set_mset_mset set_mset_union)
  then have ok: "\<forall>x \<in> set now. msg_ok x" "\<forall>x \<in> set (vb_pending b'). msg_ok x" using assms(2) by blast+
  have "x \<notin> set now" using delivers_mono(2) [OF r(1) ok(1)] assms(4) by auto
  then show ?thesis
    using split assms(3,4) ok(2) delivers_mono(1) [OF r(1) ok(1), of "msg_sender x"] by auto
qed

text \<open>A duplicate of a delivered message is never delivered again, but it is never dropped either:
  it stays in the pending buffer whatever is received later.\<close>

theorem duplicate_waits_forever:
  assumes "\<forall>x \<in> set (m # vb_pending b). msg_ok x" "\<forall>x \<in> set xs. msg_ok x"
    and "msg_counter m \<le> vv_get (vb_delivered b) (msg_sender m)"
  shows "m \<in> set (vb_pending (vb_receive_all b (m # xs)))"
proof -
  have keep: "m \<in> set (vb_pending (vb_receive_all b' xs))"
    if "\<forall>x \<in> set (vb_pending b'). msg_ok x" "m \<in> set (vb_pending b')"
      "msg_counter m \<le> vv_get (vb_delivered b') (msg_sender m)" for b'
    using that assms(2)
  proof (induction xs arbitrary: b')
    case (Cons x xs)
    obtain b1 now where b1: "vb_receive b' x = (b1, now)" by force
    from stale_not_delivered [OF b1, of m] Cons show ?case by (simp add: vb_receive_all_def b1)
  qed (simp add: vb_receive_all_def)
  obtain b1 now where b1: "vb_receive b m = (b1, now)" by force
  from stale_not_delivered [OF this assms(1) _ assms(3)] keep show ?thesis by (simp add: vb_receive_all_def b1)
qed

theorem duplicate_waits_forever_witness:
  "demo_msg \<in> set (vb_pending (vb_receive_all (fst (vb_submit (vb_new ''A'') 7)) [demo_msg, demo_msg]))"
  by (rule duplicate_waits_forever)
    (use demo_msg_ok in \<open>simp_all add: demo_msg_def vb_submit_def vb_new_def vv_tick_def Let_def vv_get_def clock_get_def\<close>)

section \<open>Dotted value sets\<close>

record dot =
  dot_hash :: u64
  dot_counter :: u64

record 'a dvv_set =
  dvv_entries :: "(dot \<times> 'a) list"
  dvv_context :: version_vector

definition dvv_new :: "'a dvv_set" where
  "dvv_new = \<lparr>dvv_entries = [], dvv_context = vv_new\<rparr>"

definition dvv_write :: "'a dvv_set \<Rightarrow> replica_id \<Rightarrow> u64 \<Rightarrow> 'a \<Rightarrow> 'a dvv_set" where
  "dvv_write s replica h v =
     (case vv_tick (dvv_context s) replica of (ctx, counter) \<Rightarrow>
        \<lparr>dvv_entries = filter (\<lambda>(d, _). \<not> (dot_hash d = h \<and> dot_counter d < counter)) (dvv_entries s)
           @ [(\<lparr>dot_hash = h, dot_counter = counter\<rparr>, v)],
         dvv_context = ctx\<rparr>)"

definition dvv_values :: "'a dvv_set \<Rightarrow> 'a list" where
  "dvv_values s = map snd (dvv_entries s)"

fun dvv_add :: "(dot \<times> 'a) list \<Rightarrow> (dot \<times> 'a) list \<Rightarrow> (dot \<times> 'a) list" where
  "dvv_add es [] = es"
| "dvv_add es ((d, v) # rest) = dvv_add (if d \<in> fst ` set es then es else es @ [(d, v)]) rest"

definition per_replica_max :: "(dot \<times> 'a) list \<Rightarrow> (u64, u64) btree" where
  "per_replica_max es =
     foldl (\<lambda>m (d, _). let e = (case map_of m (dot_hash d) of None \<Rightarrow> 0 | Some c \<Rightarrow> c)
        in bt_insert (dot_hash d) (if dot_counter d > e then dot_counter d else e) m) [] es"

definition dvv_merge :: "'a dvv_set \<Rightarrow> 'a dvv_set \<Rightarrow> 'a dvv_set" where
  "dvv_merge s other =
     (let es = dvv_add (dvv_entries s) (dvv_entries other); mx = per_replica_max es
      in \<lparr>dvv_entries = filter (\<lambda>(d, _). (case map_of mx (dot_hash d) of None \<Rightarrow> 0 | Some c \<Rightarrow> c) = dot_counter d) es,
          dvv_context = vv_merge (dvv_context s) (dvv_context other)\<rparr>)"

lemma dvv_add_set:
  "inj_on fst (set xs) \<Longrightarrow> set (dvv_add es xs) = set es \<union> {e \<in> set xs. fst e \<notin> fst ` set es}"
proof (induction es xs rule: dvv_add.induct)
  case (2 es d v rest)
  have inj: "inj_on fst (set rest)" and uniq: "e \<in> set rest \<Longrightarrow> fst e = d \<Longrightarrow> e = (d, v)" for e
    using 2(2) by (auto simp: inj_on_def)
  show ?case
  proof (cases "d \<in> fst ` set es")
    case True
    then have "{e \<in> set ((d, v) # rest). fst e \<notin> fst ` set es} = {e \<in> set rest. fst e \<notin> fst ` set es}"
      by (fastforce simp: image_iff)
    then show ?thesis using 2(1) inj True by simp
  next
    case False
    have "{e \<in> set rest. fst e \<notin> insert d (fst ` set es)} \<union> {(d, v)} = {e \<in> set ((d, v) # rest). fst e \<notin> fst ` set es}"
    proof (rule set_eqI)
      fix e
      show "e \<in> {e \<in> set rest. fst e \<notin> insert d (fst ` set es)} \<union> {(d, v)} \<longleftrightarrow>
          e \<in> {e \<in> set ((d, v) # rest). fst e \<notin> fst ` set es}"
        using False uniq [of e] by (cases "e = (d, v)") auto
    qed
    then show ?thesis using 2(1) inj False by auto
  qed
qed simp

definition hash_max :: "(dot \<times> 'a) list \<Rightarrow> u64 \<Rightarrow> u64" where
  "hash_max es h = foldl (\<lambda>m (d, _). if dot_hash d = h then max m (dot_counter d) else m) 0 es"

lemma per_replica_max_lookup:
  "(case map_of (per_replica_max es) h of None \<Rightarrow> 0 | Some c \<Rightarrow> c) = hash_max es h"
  unfolding per_replica_max_def hash_max_def
  by (induction es rule: rev_induct) (auto simp: Let_def max_def split: prod.splits)

lemma hash_max_snoc: "hash_max (es @ [(d, v)]) h = (if dot_hash d = h then max (hash_max es h) (dot_counter d) else hash_max es h)"
  by (simp add: hash_max_def)

lemma hash_max_is: "(d, v) \<in> set es \<Longrightarrow> dot_counter d \<le> hash_max es (dot_hash d)"
  by (induction es rule: rev_induct) (auto simp: hash_max_snoc max.coboundedI1)

lemma hash_max_attained: "hash_max es h = 0 \<or> (\<exists>(d, v) \<in> set es. dot_hash d = h \<and> dot_counter d = hash_max es h)"
proof (induction es rule: rev_induct)
  case (snoc e es)
  then show ?case by (cases e) (auto simp: hash_max_snoc max_def)
qed (simp add: hash_max_def)

definition newest_in :: "(dot \<times> 'a) set \<Rightarrow> dot \<Rightarrow> bool" where
  "newest_in U d \<longleftrightarrow> (\<forall>e \<in> U. dot_hash (fst e) = dot_hash d \<longrightarrow> dot_counter (fst e) \<le> dot_counter d)"

lemma hash_max_newest: "(d, v) \<in> set es \<Longrightarrow> hash_max es (dot_hash d) = dot_counter d \<longleftrightarrow> newest_in (set es) d"
proof
  assume "hash_max es (dot_hash d) = dot_counter d"
  then show "newest_in (set es) d" using hash_max_is [of _ _ es] by (fastforce simp: newest_in_def)
next
  assume d: "(d, v) \<in> set es" and n: "newest_in (set es) d"
  have "hash_max es (dot_hash d) \<le> dot_counter d"
    using hash_max_attained [of es "dot_hash d"] n by (fastforce simp: newest_in_def)
  then show "hash_max es (dot_hash d) = dot_counter d" using hash_max_is [OF d] by simp
qed

lemma dvv_merge_set:
  assumes "inj_on fst (set (dvv_entries s) \<union> set (dvv_entries t))"
  shows "set (dvv_entries (dvv_merge s t)) =
    {e \<in> set (dvv_entries s) \<union> set (dvv_entries t). newest_in (set (dvv_entries s) \<union> set (dvv_entries t)) (fst e)}"
proof -
  let ?es = "dvv_add (dvv_entries s) (dvv_entries t)" and ?U = "set (dvv_entries s) \<union> set (dvv_entries t)"
  have inj: "inj_on fst (set (dvv_entries t))" using assms by (rule inj_on_subset) simp
  have "e \<in> set (dvv_entries s)" if "e \<in> set (dvv_entries t)" "fst e \<in> fst ` set (dvv_entries s)" for e
    using that assms by (auto simp: inj_on_def)
  then have u: "set ?es = ?U" unfolding dvv_add_set [OF inj] by blast
  have "set (dvv_entries (dvv_merge s t)) = {e \<in> set ?es. hash_max ?es (dot_hash (fst e)) = dot_counter (fst e)}"
    by (auto simp: dvv_merge_def Let_def per_replica_max_lookup)
  also have "\<dots> = {e \<in> set ?es. newest_in (set ?es) (fst e)}"
    using hash_max_newest [of _ _ ?es] by (metis (no_types, lifting) prod.collapse)
  finally show ?thesis unfolding u .
qed

text \<open>Merging two dotted sets keeps exactly the newest entry of every replica: an entry survives when
  it is in one of the sets and no entry of its replica in either set has a greater counter.\<close>

theorem dvv_merge_keeps_newest:
  assumes "inj_on fst (set (dvv_entries s) \<union> set (dvv_entries t))"
  shows "set (dvv_entries (dvv_merge s t)) =
    {e \<in> set (dvv_entries s) \<union> set (dvv_entries t). newest_in (set (dvv_entries s) \<union> set (dvv_entries t)) (fst e)}"
  using dvv_merge_set [OF assms] .

definition demo_alice :: "nat dvv_set" where "demo_alice = dvv_write dvv_new ''A'' 1 10"
definition demo_bob :: "nat dvv_set" where "demo_bob = dvv_write dvv_new ''B'' 2 20"

lemma demo_entries:
  "dvv_entries demo_alice = [(\<lparr>dot_hash = 1, dot_counter = 1\<rparr>, 10)]" "dvv_entries demo_bob = [(\<lparr>dot_hash = 2, dot_counter = 1\<rparr>, 20)]"
  by (simp_all add: demo_alice_def demo_bob_def dvv_write_def dvv_new_def vv_tick_def vv_new_def Let_def clock_get_def)

theorem dvv_merge_keeps_newest_witness:
  "set (dvv_entries (dvv_merge demo_alice demo_bob)) =
    {(\<lparr>dot_hash = 1, dot_counter = 1\<rparr>, 10), (\<lparr>dot_hash = 2, dot_counter = 1\<rparr>, 20)}"
proof -
  let ?U = "{(\<lparr>dot_hash = 1, dot_counter = 1\<rparr>, 10), (\<lparr>dot_hash = 2, dot_counter = 1\<rparr>, 20 :: nat)}"
  have u: "set (dvv_entries demo_alice) \<union> set (dvv_entries demo_bob) = ?U" by (auto simp: demo_entries)
  have "inj_on fst ?U" by (simp add: inj_on_def)
  then have "set (dvv_entries (dvv_merge demo_alice demo_bob)) = {e \<in> ?U. newest_in ?U (fst e)}"
    using dvv_merge_keeps_newest [of demo_alice demo_bob] unfolding u by simp
  also have "\<dots> = ?U" by (auto simp: newest_in_def)
  finally show ?thesis .
qed

end
