(* ===== verification/Replica.thy ===== *)
theory Replica
  imports Causal Ledger
begin

text \<open>
  \<open>Replica\<close> of \<open>333-transfer/src/lib.rs\<close>: an owner's ledger fed by the causal broadcaster. The main
  result is about a whole system of honest replicas over a network that delivers any sent
  message to anyone, in any order and any number of times: no delivery is ever rejected,
  replicas that have delivered the same messages hold the same ledger, and a replica that has
  received everything has delivered everything.
\<close>

section \<open>The replica\<close>

type_synonym transfer_msg = "transfer causal_msg"

record replica =
  rp_me :: account_id
  rp_ledger :: ledger
  rp_rcb :: "transfer broadcaster"

record delivery_outcome =
  do_applied :: "transfer list"
  do_rejected :: "(transfer \<times> reject) list"

definition replica_new :: "account_id \<Rightarrow> ledger \<Rightarrow> replica" where
  "replica_new me l = \<lparr>rp_me = me, rp_ledger = l, rp_rcb = vb_new me\<rparr>"

definition replica_submit :: "replica \<Rightarrow> account_id \<Rightarrow> amount \<Rightarrow> replica \<times> (reject + transfer_msg)" where
  "replica_submit rp to amount =
     (let t = \<lparr>tr_from = rp_me rp, tr_from_seq = ledger_next_seq (rp_ledger rp) (rp_me rp), tr_to = to, tr_amount = amount\<rparr> in
      case ledger_apply (rp_ledger rp) t of
        Inl e \<Rightarrow> (rp, Inl e)
      | Inr l \<Rightarrow> (case vb_submit (rp_rcb rp) t of (b, m) \<Rightarrow> (rp\<lparr>rp_ledger := l, rp_rcb := b\<rparr>, Inr m)))"

fun deliver_loop :: "ledger \<Rightarrow> delivery_outcome \<Rightarrow> transfer_msg list \<Rightarrow> ledger \<times> delivery_outcome" where
  "deliver_loop l out [] = (l, out)"
| "deliver_loop l out (m # ms) =
     (case ledger_apply l (msg_payload m) of
        Inr l' \<Rightarrow> deliver_loop l' (out\<lparr>do_applied := do_applied out @ [msg_payload m]\<rparr>) ms
      | Inl e \<Rightarrow> deliver_loop l (out\<lparr>do_rejected := do_rejected out @ [(msg_payload m, e)]\<rparr>) ms)"

definition replica_deliver :: "replica \<Rightarrow> transfer_msg \<Rightarrow> replica \<times> delivery_outcome" where
  "replica_deliver rp msg =
     (case vb_receive (rp_rcb rp) msg of (b, ready) \<Rightarrow>
      case deliver_loop (rp_ledger rp) \<lparr>do_applied = [], do_rejected = []\<rparr> ready of (l, out) \<Rightarrow>
        (rp\<lparr>rp_ledger := l, rp_rcb := b\<rparr>, out))"

lemma deliver_loop_ok:
  "apply_all l (map msg_payload ms) = Inr l' \<Longrightarrow>
     deliver_loop l out ms = (l', out\<lparr>do_applied := do_applied out @ map msg_payload ms\<rparr>)"
  by (induction l out ms rule: deliver_loop.induct) (auto simp: rbind_eq_Inr)

section \<open>Views of the sent messages\<close>

abbreviation cnt :: "transfer_msg \<Rightarrow> nat" where
  "cnt m \<equiv> unat (msg_counter m)"

abbreviation clock_nat :: "version_vector \<Rightarrow> replica_id \<Rightarrow> nat" where
  "clock_nat d r \<equiv> unat (vv_get d r)"

text \<open>The messages of \<open>sent\<close> that a clock covers, and a ledger that has applied exactly those, once each.\<close>

definition covered :: "transfer_msg list \<Rightarrow> version_vector \<Rightarrow> transfer_msg set" where
  "covered sent d = {m \<in> set sent. cnt m \<le> clock_nat d (msg_sender m)}"

definition view :: "ledger \<Rightarrow> transfer_msg list \<Rightarrow> transfer_msg list \<Rightarrow> version_vector \<Rightarrow> ledger \<Rightarrow> bool" where
  "view g sent lg d l \<longleftrightarrow> distinct lg \<and> set lg = covered sent d \<and> apply_all g (map msg_payload lg) = Inr l"

text \<open>
  A message is justified when its transfer passed the checks on a ledger that had applied
  exactly the messages its context covers, itself apart.
\<close>

definition justified :: "ledger \<Rightarrow> transfer_msg list \<Rightarrow> transfer_msg \<Rightarrow> bool" where
  "justified g sent m \<longleftrightarrow> (\<exists>lg l. distinct lg \<and> set lg = covered sent (msg_context m) - {m} \<and>
     apply_all g (map msg_payload lg) = Inr l \<and> preflight l (msg_payload m) = Inr ())"

definition sent_ok :: "ledger \<Rightarrow> transfer_msg list \<Rightarrow> bool" where
  "sent_ok g sent \<longleftrightarrow> (\<forall>m \<in> set sent. msg_ok m \<and> tr_from (msg_payload m) = msg_sender m \<and> justified g sent m) \<and>
     (\<forall>m \<in> set sent. \<forall>m' \<in> set sent. msg_sender m = msg_sender m' \<and> msg_counter m = msg_counter m' \<longrightarrow> m = m')"

lemma sum_filter_payload:
  fixes f :: "transfer \<Rightarrow> nat"
  assumes "distinct lg"
  shows "(\<Sum>t \<leftarrow> filter P (map msg_payload lg). f t) = (\<Sum>m \<in> {m \<in> set lg. P (msg_payload m)}. f (msg_payload m))"
  using assms by (simp add: filter_map sum_list_distinct_conv_sum_set comp_def)

lemma length_filter_payload:
  assumes "distinct lg"
  shows "length (filter P (map msg_payload lg)) = card {m \<in> set lg. P (msg_payload m)}"
  using assms by (simp add: filter_map distinct_length_filter Int_def comp_def conj_commute)

text \<open>More messages, but the same ones of \<open>s\<close>: the transfer of \<open>s\<close> stays applicable.\<close>

lemma preflight_extends:
  assumes g: "ledger_wf g" and lg: "distinct lg" "apply_all g (map msg_payload lg) = Inr l"
    and lg0: "distinct lg0" "apply_all g (map msg_payload lg0) = Inr l0" and pf: "preflight l0 t = Inr ()"
    and sub: "set lg0 \<subseteq> set lg" and same: "\<And>m. m \<in> set lg \<Longrightarrow> tr_from (msg_payload m) = tr_from t \<Longrightarrow> m \<in> set lg0"
  shows "preflight l t = Inr ()"
proof -
  let ?s = "tr_from t"
  have own: "{m \<in> set lg. tr_from (msg_payload m) = ?s \<and> P m} = {m \<in> set lg0. tr_from (msg_payload m) = ?s \<and> P m}" for P
    using sub same by blast
  have wf: "ledger_wf l" "ledger_wf l0" using apply_all_wf [OF g] lg(2) lg0(2) by blast+
  have "unat (ledger_next_seq l ?s) = unat (ledger_next_seq l0 ?s)"
    using apply_all_next_seq [OF lg(2), of ?s, unfolded length_filter_payload [OF lg(1)]]
      apply_all_next_seq [OF lg0(2), of ?s, unfolded length_filter_payload [OF lg0(1)]] own [of "\<lambda>_. True"] by simp
  moreover have "debits ?s (map msg_payload lg) = debits ?s (map msg_payload lg0)"
    using own [of "\<lambda>m. tr_to (msg_payload m) \<noteq> ?s"]
    unfolding debits_def sum_filter_payload [OF lg(1)] sum_filter_payload [OF lg0(1)] by simp
  moreover have "credits ?s (map msg_payload lg0) \<le> credits ?s (map msg_payload lg)"
    unfolding credits_def sum_filter_payload [OF lg(1)] sum_filter_payload [OF lg0(1)]
    using sub by (intro sum_mono2) auto
  ultimately have "ledger_next_seq l ?s = ledger_next_seq l0 ?s" "ledger_balance l0 ?s \<le> ledger_balance l ?s"
    using apply_all_balance [OF lg(2), of ?s] apply_all_balance [OF lg0(2), of ?s]
    by (simp_all add: word_unat_eq_iff word_le_nat_alt)
  moreover have "contains_account l0 ?s \<Longrightarrow> contains_account l ?s"
    using apply_all_contains [OF lg(2), of ?s] apply_all_contains [OF lg0(2), of ?s] sub by auto
  ultimately show ?thesis using pf wf by (auto simp: preflight_ok_wf)
qed

lemma view_deliver:
  assumes g: "ledger_wf g" and s: "sent_ok g sent" and v: "view g sent lg d l" and m: "m \<in> set sent" "causally_ready d m"
  shows "\<exists>l'. ledger_apply l (msg_payload m) = Inr l' \<and> view g sent (lg @ [m]) (deliver_now d m) l'"
proof -
  let ?s = "msg_sender m"
  have ok: "msg_ok m" "tr_from (msg_payload m) = ?s" and j: "justified g sent m" using s m(1) by (auto simp: sent_ok_def)
  have c: "cnt m = Suc (clock_nat d ?s)"
    using succ_nonzero(2) [of "vv_get d ?s" "msg_counter m"] m(2) ok(1) by (simp add: causally_ready_def msg_ok_def)
  have ctx: "clock_nat (msg_context m) ?s = cnt m" "r \<noteq> ?s \<Longrightarrow> clock_nat (msg_context m) r \<le> clock_nat d r" for r
    using ok(1) m(2) by (auto simp: msg_ok_def causally_ready_def word_le_nat_alt)
  have uniq: "m' = m" if "m' \<in> set sent" "msg_sender m' = ?s" "cnt m' = cnt m" for m'
    using s m(1) that by (auto simp: sent_ok_def word_unat_eq_iff)
  from j obtain lg0 l0 where j0: "distinct lg0" "set lg0 = covered sent (msg_context m) - {m}"
    "apply_all g (map msg_payload lg0) = Inr l0" "preflight l0 (msg_payload m) = Inr ()"
    by (auto simp: justified_def)
  have lgs: "distinct lg" "set lg = covered sent d" "apply_all g (map msg_payload lg) = Inr l" using v by (auto simp: view_def)
  have "set lg0 \<subseteq> set lg"
  proof
    fix m' assume "m' \<in> set lg0"
    then have m': "m' \<in> set sent" "cnt m' \<le> clock_nat (msg_context m) (msg_sender m')" "m' \<noteq> m"
      using j0(2) by (auto simp: covered_def)
    show "m' \<in> set lg"
    proof (cases "msg_sender m' = ?s")
      case True
      then have "cnt m' \<noteq> cnt m" using uniq m' by blast
      then show ?thesis using m' True ctx(1) c lgs(2) by (simp add: covered_def)
    next
      case False
      then show ?thesis using m' ctx(2) [OF False] lgs(2) by (simp add: covered_def)
    qed
  qed
  moreover have "m' \<in> set lg0" if "m' \<in> set lg" "tr_from (msg_payload m') = tr_from (msg_payload m)" for m'
  proof -
    have m': "m' \<in> set sent" "cnt m' \<le> clock_nat d (msg_sender m')" using that(1) lgs(2) by (auto simp: covered_def)
    have sn: "msg_sender m' = ?s" using that(2) s ok(2) m'(1) by (auto simp: sent_ok_def)
    have "cnt m' \<le> clock_nat d ?s" using m'(2) unfolding sn .
    then have "cnt m' \<le> clock_nat (msg_context m) ?s" "m' \<noteq> m" using c ctx(1) by auto
    then show ?thesis unfolding j0(2) covered_def sn [symmetric] using m'(1) by simp
  qed
  ultimately have "preflight l (msg_payload m) = Inr ()"
    using preflight_extends [OF g lgs(1,3) j0(1,3,4)] by blast
  then obtain l' where l': "ledger_apply l (msg_payload m) = Inr l'"
    using apply_commit_total [of l "msg_payload m"] by (auto simp: ledger_apply_Inr)
  have d': "clock_nat (deliver_now d m) r = (if r = ?s then cnt m else clock_nat d r)" for r
    using deliver_now_get [OF ok(1) m(2)] by simp
  have "covered sent (deliver_now d m) = insert m (covered sent d)"
    using m(1) c uniq by (auto simp: covered_def d' le_Suc_eq split: if_splits)
  moreover have "m \<notin> set lg" using lgs(2) c by (simp add: covered_def)
  ultimately have "view g sent (lg @ [m]) (deliver_now d m) l'"
    using lgs l' by (simp add: view_def apply_all_append)
  with l' show ?thesis by blast
qed

lemma view_delivers:
  assumes "delivers d now d'" "ledger_wf g" "sent_ok g sent" "view g sent lg d l" "set now \<subseteq> set sent"
  shows "\<exists>l'. apply_all l (map msg_payload now) = Inr l' \<and> view g sent (lg @ now) d' l'"
  using assms
proof (induction arbitrary: lg l rule: delivers.induct)
  case (one d m ms d')
  from view_deliver [OF one.prems(1,2,3) _ one.hyps(1)] one.prems(4) obtain l1 where
    l1: "ledger_apply l (msg_payload m) = Inr l1" "view g sent (lg @ [m]) (deliver_now d m) l1" by auto
  from one.IH [OF one.prems(1,2) l1(2)] one.prems(4) show ?case using l1(1) by auto
qed simp

section \<open>The system\<close>

text \<open>
  \<open>rs_sent\<close> is every message ever submitted, in order; \<open>rs_log\<close> what a replica has applied and
  \<open>rs_recv\<close> what it has been given, its own submissions included.
\<close>

record rsys =
  rs_rep :: "account_id \<Rightarrow> replica"
  rs_sent :: "transfer_msg list"
  rs_log :: "account_id \<Rightarrow> transfer_msg list"
  rs_recv :: "account_id \<Rightarrow> transfer_msg set"

abbreviation clk :: "rsys \<Rightarrow> account_id \<Rightarrow> version_vector" where
  "clk s i \<equiv> vb_delivered (rp_rcb (rs_rep s i))"

inductive rs_reach :: "ledger \<Rightarrow> rsys \<Rightarrow> bool" for g where
  start: "rs_reach g \<lparr>rs_rep = (\<lambda>i. replica_new i g), rs_sent = [], rs_log = (\<lambda>_. []), rs_recv = (\<lambda>_. {})\<rparr>"
| submit: "rs_reach g s \<Longrightarrow> replica_submit (rs_rep s i) to x = (rp, Inr m) \<Longrightarrow>
    rs_reach g (s\<lparr>rs_rep := (rs_rep s)(i := rp), rs_sent := rs_sent s @ [m], rs_log := (rs_log s)(i := rs_log s i @ [m]),
      rs_recv := (rs_recv s)(i := insert m (rs_recv s i))\<rparr>)"
| deliver: "rs_reach g s \<Longrightarrow> m \<in> set (rs_sent s) \<Longrightarrow> replica_deliver (rs_rep s i) m = (rp, out) \<Longrightarrow>
    rs_reach g (s\<lparr>rs_rep := (rs_rep s)(i := rp),
      rs_log := (rs_log s)(i := rs_log s i @ snd (vb_receive (rp_rcb (rs_rep s i)) m)),
      rs_recv := (rs_recv s)(i := insert m (rs_recv s i))\<rparr>)"

text \<open>Message histories: every clock value of an owner has its message, contexts lie in the past.\<close>

definition history_ok :: "transfer_msg list \<Rightarrow> (replica_id \<Rightarrow> nat) \<Rightarrow> bool" where
  "history_ok sent own \<longleftrightarrow>
     (\<forall>m \<in> set sent. \<forall>r. clock_nat (msg_context m) r \<le> own r) \<and>
     (\<forall>r k. 0 < k \<and> k \<le> own r \<longrightarrow> (\<exists>m \<in> set sent. msg_sender m = r \<and> cnt m = k)) \<and>
     (\<forall>xs m ys. sent = xs @ m # ys \<longrightarrow> covered sent (msg_context m) - {m} \<subseteq> set xs)"

definition waiting_ok :: "transfer_msg list \<Rightarrow> transfer_msg set \<Rightarrow> transfer broadcaster \<Rightarrow> bool" where
  "waiting_ok sent recv b \<longleftrightarrow> set (vb_pending b) \<subseteq> set sent \<and> (\<forall>m \<in> set (vb_pending b). \<not> causally_ready (vb_delivered b) m) \<and>
     recv \<subseteq> covered sent (vb_delivered b) \<union> set (vb_pending b)"

definition rs_inv :: "ledger \<Rightarrow> rsys \<Rightarrow> bool" where
  "rs_inv g s \<longleftrightarrow> sent_ok g (rs_sent s) \<and> history_ok (rs_sent s) (\<lambda>r. clock_nat (clk s r) r) \<and>
     (\<forall>i. rp_me (rs_rep s i) = i \<and> vb_me (rp_rcb (rs_rep s i)) = i \<and> vv_wf (clk s i) \<and>
       view g (rs_sent s) (rs_log s i) (clk s i) (rp_ledger (rs_rep s i)) \<and>
       (\<forall>r. clock_nat (clk s i) r \<le> clock_nat (clk s r) r) \<and> waiting_ok (rs_sent s) (rs_recv s i) (rp_rcb (rs_rep s i)))"

lemma history_okD:
  assumes "history_ok sent own"
  shows "m \<in> set sent \<Longrightarrow> clock_nat (msg_context m) r \<le> own r"
    and "0 < k \<Longrightarrow> k \<le> own r \<Longrightarrow> \<exists>m \<in> set sent. msg_sender m = r \<and> cnt m = k"
    and "sent = xs @ m # ys \<Longrightarrow> covered sent (msg_context m) - {m} \<subseteq> set xs"
  using assms unfolding history_ok_def by blast+

lemma sent_counter_le:
  assumes "history_ok sent own" "sent_ok g sent" "m \<in> set sent"
  shows "cnt m \<le> own (msg_sender m)"
proof -
  have "clock_nat (msg_context m) (msg_sender m) \<le> own (msg_sender m)" by (rule history_okD(1) [OF assms(1,3)])
  moreover have "vv_get (msg_context m) (msg_sender m) = msg_counter m" using assms(2,3) by (simp add: sent_ok_def msg_ok_def)
  ultimately show ?thesis by simp
qed

text \<open>The owner's clock never exceeds its sequence numbers.\<close>

lemma own_clock_le_seq:
  assumes s: "sent_ok g sent" and h: "history_ok sent own" and v: "view g sent lg d l" and o: "clock_nat d i = own i"
  shows "own i \<le> unat (ledger_next_seq l i)"
proof -
  let ?M = "{m \<in> set lg. tr_from (msg_payload m) = i}"
  have "{1..own i} \<subseteq> cnt ` ?M"
  proof
    fix k assume "k \<in> {1..own i}"
    then obtain m where m: "m \<in> set sent" "msg_sender m = i" "cnt m = k" using history_okD(2) [OF h, of k i] by auto
    then have "m \<in> set lg" using v o \<open>k \<in> {1..own i}\<close> by (auto simp: view_def covered_def)
    moreover have "tr_from (msg_payload m) = i" using s m by (auto simp: sent_ok_def)
    ultimately show "k \<in> cnt ` ?M" using m(3) by blast
  qed
  then have "card {1..own i} \<le> card (cnt ` ?M)" by (rule card_mono [rotated]) simp
  also have "\<dots> \<le> card ?M" by (rule card_image_le) simp
  also have "\<dots> = length (filter (\<lambda>t. tr_from t = i) (map msg_payload lg))"
    using v length_filter_payload [of lg "\<lambda>t. tr_from t = i"] by (simp add: view_def)
  also have "\<dots> \<le> unat (ledger_next_seq l i)"
    using v apply_all_next_seq [of g "map msg_payload lg" l i] by (simp add: view_def)
  finally show ?thesis by simp
qed

text \<open>A new message of \<open>i\<close> with a fresh counter is invisible to every clock that is not ahead of \<open>i\<close>.\<close>

lemma covered_snoc:
  "covered (sent @ [m]) d = covered sent d \<union> (if cnt m \<le> clock_nat d (msg_sender m) then {m} else {})"
  by (auto simp: covered_def)

text \<open>What a submission adds.\<close>

lemma submit_fields:
  assumes "replica_submit rp to x = (rp', Inr m)" "rp_me rp = i" "vb_me (rp_rcb rp) = i"
  shows "msg_sender m = i" "msg_counter m = vv_get (vb_delivered (rp_rcb rp)) i + 1"
    "msg_context m = fst (vv_tick (vb_delivered (rp_rcb rp)) i)" "tr_from (msg_payload m) = i"
    "ledger_apply (rp_ledger rp) (msg_payload m) = Inr (rp_ledger rp')"
    "vb_delivered (rp_rcb rp') = fst (vv_tick (vb_delivered (rp_rcb rp)) i)"
    "vb_pending (rp_rcb rp') = vb_pending (rp_rcb rp)" "rp_me rp' = i" "vb_me (rp_rcb rp') = i"
  using assms
  by (auto simp: replica_submit_def Let_def vb_submit_def vv_tick_def vv_get_def split: sum.splits)

text \<open>A fresh message \<open>m\<close> of \<open>i\<close>, submitted by a replica with clock \<open>d\<close> and ledger \<open>l\<close>.\<close>

definition fresh_msg :: "transfer_msg \<Rightarrow> version_vector \<Rightarrow> (replica_id \<Rightarrow> nat) \<Rightarrow> bool" where
  "fresh_msg m d own \<longleftrightarrow> msg_ok m \<and> vv_wf d \<and> clock_nat d (msg_sender m) = own (msg_sender m) \<and>
     cnt m = Suc (own (msg_sender m)) \<and> (\<forall>r. clock_nat d r \<le> own r) \<and>
     (\<forall>r. clock_nat (msg_context m) r = (if r = msg_sender m then cnt m else clock_nat d r))"

lemma fresh_covered:
  assumes "fresh_msg m d own"
  shows "(\<And>r. clock_nat d' r \<le> own r) \<Longrightarrow> covered (sent @ [m]) d' = covered sent d'"
    and "sent_ok g sent \<Longrightarrow> history_ok sent own \<Longrightarrow> covered (sent @ [m]) (msg_context m) = insert m (covered sent d)"
proof -
  have c: "cnt m = Suc (own (msg_sender m))" "clock_nat d (msg_sender m) = own (msg_sender m)"
    and x: "clock_nat (msg_context m) r = (if r = msg_sender m then cnt m else clock_nat d r)" for r
    using assms by (auto simp: fresh_msg_def)
  show "covered (sent @ [m]) d' = covered sent d'" if "\<And>r. clock_nat d' r \<le> own r"
    using that [of "msg_sender m"] c by (simp add: covered_snoc)
  assume s: "sent_ok g sent" "history_ok sent own"
  have "cnt m' \<le> clock_nat (msg_context m) (msg_sender m') \<longleftrightarrow> cnt m' \<le> clock_nat d (msg_sender m')" if "m' \<in> set sent" for m'
    using sent_counter_le [OF s(2,1) that] x [of "msg_sender m'"] c by (auto split: if_splits)
  then have "covered sent (msg_context m) = covered sent d" by (auto simp: covered_def)
  then show "covered (sent @ [m]) (msg_context m) = insert m (covered sent d)"
    using x [of "msg_sender m"] by (simp add: covered_snoc)
qed

lemma fresh_sent_ok:
  assumes f: "fresh_msg m d own" and s: "sent_ok g sent" and h: "history_ok sent own" and v: "view g sent lg d l"
    and t: "tr_from (msg_payload m) = msg_sender m" "preflight l (msg_payload m) = Inr ()"
  shows "sent_ok g (sent @ [m])"
proof -
  have new: "m' \<in> set sent \<Longrightarrow> msg_sender m' = msg_sender m \<Longrightarrow> msg_counter m' = msg_counter m \<Longrightarrow> False" for m'
    using sent_counter_le [OF h s, of m'] f by (simp add: fresh_msg_def)
  have "justified g (sent @ [m]) m"
    using v t(2) fresh_covered(2) [OF f s h] new [of m] unfolding justified_def view_def
    by (intro exI [of _ lg] exI [of _ l]) (auto simp: covered_def)
  moreover have "justified g (sent @ [m]) m'" if "m' \<in> set sent" for m'
    using s that fresh_covered(1) [OF f history_okD(1) [OF h that]] by (auto simp: sent_ok_def justified_def)
  ultimately show ?thesis using s f t(1) unfolding sent_ok_def fresh_msg_def by (auto dest: new new [OF _ sym sym])
qed

lemma fresh_history_ok:
  assumes f: "fresh_msg m d own" and s: "sent_ok g sent" and h: "history_ok sent own"
  shows "history_ok (sent @ [m]) (own(msg_sender m := Suc (own (msg_sender m))))"
  unfolding history_ok_def
proof (intro conjI ballI allI impI)
  let ?own = "own(msg_sender m := Suc (own (msg_sender m)))"
  show "clock_nat (msg_context x) r \<le> ?own r" if "x \<in> set (sent @ [m])" for x r
    using that history_okD(1) [OF h, of x r] f by (auto simp: fresh_msg_def)
  show "\<exists>x \<in> set (sent @ [m]). msg_sender x = r \<and> cnt x = k" if "0 < k \<and> k \<le> ?own r" for r k
  proof (cases "k \<le> own r")
    case True
    then show ?thesis using history_okD(2) [OF h, of k r] that by auto
  next
    case False
    then have "r = msg_sender m" "k = cnt m" using that f by (auto simp: fresh_msg_def split: if_splits)
    then show ?thesis by auto
  qed
  show "covered (sent @ [m]) (msg_context x) - {x} \<subseteq> set xs" if "sent @ [m] = xs @ x # ys" for xs x ys
  proof (cases ys rule: rev_cases)
    case Nil
    then have "x = m" "xs = sent" using that by auto
    then show ?thesis by (auto simp: covered_def)
  next
    case (snoc zs z)
    then have e: "sent = xs @ x # zs" using that by auto
    then have x: "x \<in> set sent" by simp
    show ?thesis
      unfolding fresh_covered(1) [OF f history_okD(1) [OF h x]] by (rule history_okD(3) [OF h e])
  qed
qed

lemma not_ready_after_tick:
  assumes "\<not> causally_ready d p" "vv_get (msg_context p) i \<le> vv_get d i" "msg_ok p"
    and "msg_sender p = i \<Longrightarrow> cnt p \<le> clock_nat d i" "Suc (clock_nat d i) < 2 ^ 64"
  shows "\<not> causally_ready (fst (vv_tick d i)) p"
proof (cases "msg_sender p = i")
  case True
  have "clock_nat (fst (vv_tick d i)) i = Suc (clock_nat d i)" using assms(5) by (simp add: unat_add_no_overflow)
  moreover have "cnt p = Suc (clock_nat (fst (vv_tick d i)) i)" if "causally_ready (fst (vv_tick d i)) p"
    using that True assms(3) succ_nonzero(2) [of "vv_get (fst (vv_tick d i)) i" "msg_counter p"]
    unfolding causally_ready_def msg_ok_def by blast
  ultimately show ?thesis using assms(4) [OF True] by fastforce
next
  case False
  have "vv_get (msg_context p) r \<le> vv_get d r" if "vv_get (msg_context p) r \<le> vv_get (fst (vv_tick d i)) r" for r
    using that assms(2) by (cases "r = i") simp_all
  moreover have "vv_get (fst (vv_tick d i)) (msg_sender p) = vv_get d (msg_sender p)" using False by simp
  ultimately show ?thesis using assms(1) unfolding causally_ready_def by metis
qed

lemma rs_invD:
  assumes "rs_inv g s"
  shows "sent_ok g (rs_sent s)" "history_ok (rs_sent s) (\<lambda>r. clock_nat (clk s r) r)" "rp_me (rs_rep s i) = i"
    "vb_me (rp_rcb (rs_rep s i)) = i" "vv_wf (clk s i)" "view g (rs_sent s) (rs_log s i) (clk s i) (rp_ledger (rs_rep s i))"
    "clock_nat (clk s i) r \<le> clock_nat (clk s r) r" "waiting_ok (rs_sent s) (rs_recv s i) (rp_rcb (rs_rep s i))"
  using assms unfolding rs_inv_def by blast+

lemma submit_fresh:
  assumes inv: "rs_inv g s" and sub: "replica_submit (rs_rep s i) to x = (rp, Inr m)"
  shows "fresh_msg m (clk s i) (\<lambda>r. clock_nat (clk s r) r)" "Suc (clock_nat (clk s i) i) < 2 ^ 64"
    "preflight (rp_ledger (rs_rep s i)) (msg_payload m) = Inr ()"
proof -
  note d = rs_invD [OF inv]
  note f = submit_fields [OF sub d(3,4)]
  show pf: "preflight (rp_ledger (rs_rep s i)) (msg_payload m) = Inr ()" using f(5) by (simp add: ledger_apply_Inr)
  have "clock_nat (clk s i) i \<le> unat (ledger_next_seq (rp_ledger (rs_rep s i)) i)"
    using own_clock_le_seq [OF d(1,2,6), of i] by simp
  then show lt: "Suc (clock_nat (clk s i) i) < 2 ^ 64" using pf f(4) by (simp add: preflight_ok_iff)
  then have c: "cnt m = Suc (clock_nat (clk s i) i)" using f(2) by (simp add: unat_add_no_overflow)
  then have "msg_counter m \<noteq> 0" by auto
  then have "msg_ok m" using f(1-3) d(5) [of i] by (simp add: msg_ok_def)
  then show "fresh_msg m (clk s i) (\<lambda>r. clock_nat (clk s r) r)"
    using c f(1-3) d(5) [of i] d(7) [of i] by (simp add: fresh_msg_def)
qed

lemma rs_inv_submit:
  assumes inv: "rs_inv g s" and sub: "replica_submit (rs_rep s i) to x = (rp, Inr m)"
  shows "rs_inv g (s\<lparr>rs_rep := (rs_rep s)(i := rp), rs_sent := rs_sent s @ [m], rs_log := (rs_log s)(i := rs_log s i @ [m]),
      rs_recv := (rs_recv s)(i := insert m (rs_recv s i))\<rparr>)" (is "rs_inv g ?s'")
proof -
  let ?own = "\<lambda>r. clock_nat (clk s r) r"
  note d = rs_invD [OF inv]
  note f = submit_fields [OF sub d(3,4)]
  note fr = submit_fresh [OF inv sub]
  have so: "sent_ok g (rs_sent s @ [m])"
    by (rule fresh_sent_ok [OF fr(1) d(1,2,6)]) (use f fr(3) in auto)
  have dm: "vb_delivered (rp_rcb rp) = msg_context m" using f(3,6) by simp
  have own': "(\<lambda>r. clock_nat (clk ?s' r) r) = ?own(msg_sender m := Suc (?own (msg_sender m)))"
    using fr(1) f(1) dm by (auto simp: fresh_msg_def fun_eq_iff)
  have ho: "history_ok (rs_sent s @ [m]) (\<lambda>r. clock_nat (clk ?s' r) r)"
    unfolding own' by (rule fresh_history_ok [OF fr(1) d(1,2)])
  have cov: "covered (rs_sent s @ [m]) (clk s j) = covered (rs_sent s) (clk s j)" for j
    by (rule fresh_covered(1) [OF fr(1) d(7)])
  have covi: "covered (rs_sent s @ [m]) (msg_context m) = insert m (covered (rs_sent s) (clk s i))"
    by (rule fresh_covered(2) [OF fr(1) d(1,2)])
  have new: "m \<notin> covered (rs_sent s) (clk s i)"
    using sent_counter_le [OF d(2,1), of m] fr(1) by (auto simp: covered_def fresh_msg_def)
  have vi: "view g (rs_sent s @ [m]) (rs_log s i @ [m]) (msg_context m) (rp_ledger rp)"
    using d(6) [of i] f(5) covi new by (auto simp: view_def apply_all_append)
  have vj: "view g (rs_sent s @ [m]) (rs_log s j) (clk s j) (rp_ledger (rs_rep s j))" for j
    using d(6) [of j] cov by (simp add: view_def)
  have "\<not> causally_ready (msg_context m) p" if "p \<in> set (vb_pending (rp_rcb (rs_rep s i)))" for p
    unfolding f(3)
  proof (rule not_ready_after_tick)
    have p: "p \<in> set (rs_sent s)" using that d(8) [of i] by (auto simp: waiting_ok_def)
    show "\<not> causally_ready (clk s i) p" using that d(8) [of i] by (auto simp: waiting_ok_def)
    show "vv_get (msg_context p) i \<le> vv_get (clk s i) i" using history_okD(1) [OF d(2) p] by (simp add: word_le_nat_alt)
    show "msg_ok p" using d(1) p by (auto simp: sent_ok_def)
    show "cnt p \<le> clock_nat (clk s i) i" if "msg_sender p = i" using sent_counter_le [OF d(2,1) p] that by simp
  qed (rule fr(2))
  then have wi: "waiting_ok (rs_sent s @ [m]) (insert m (rs_recv s i)) (rp_rcb rp)"
    using d(8) [of i] f(3,6,7) covi by (auto simp: waiting_ok_def)
  have wj: "waiting_ok (rs_sent s @ [m]) (rs_recv s j) (rp_rcb (rs_rep s j))" for j
    using d(8) [of j] cov [of j] by (auto simp: waiting_ok_def)
  have le: "clock_nat (clk ?s' j) r \<le> clock_nat (clk ?s' r) r" for j r
    using fr(1) d(7) [of j r] d(7) [of i r] f(1) dm by (auto simp: fresh_msg_def intro: le_SucI)
  have "vv_wf (msg_context m)" using d(5) [of i] unfolding f(3) by simp
  then have wf: "vv_wf (clk ?s' j)" for j using d(5) dm by simp
  show ?thesis
    unfolding rs_inv_def using so ho vi vj wi wj le wf d(3,4) f(3,6,8,9) by auto
qed

section \<open>Deliveries\<close>

lemma delivers_bound:
  assumes "delivers d now d'" "\<forall>m \<in> set now. msg_ok m \<and> cnt m \<le> own (msg_sender m)" "\<And>r. clock_nat d r \<le> own r"
  shows "clock_nat d' r \<le> own r"
  using assms
proof (induction rule: delivers.induct)
  case (one d m ms d')
  have "clock_nat (deliver_now d m) r \<le> own r" for r
    using deliver_now_get [of m d r] one.hyps(1) one.prems by auto
  then show ?case using one by auto
qed simp

lemma delivers_wf: "delivers d now d' \<Longrightarrow> vv_wf d \<Longrightarrow> vv_wf d'"
  by (induction rule: delivers.induct) (auto simp: deliver_now_def tick_until_wf)

text \<open>One delivery to replica \<open>i\<close>: everything released applies.\<close>

lemma deliver_ok:
  assumes g: "ledger_wf g" and inv: "rs_inv g s" and m: "m \<in> set (rs_sent s)"
    and del: "replica_deliver (rs_rep s i) m = (rp, out)"
  obtains now b where "vb_receive (rp_rcb (rs_rep s i)) m = (b, now)" "rp_rcb rp = b" "rp_me rp = i"
    "out = \<lparr>do_applied = map msg_payload now, do_rejected = []\<rparr>" "set now \<subseteq> set (rs_sent s)"
    "view g (rs_sent s) (rs_log s i @ now) (vb_delivered b) (rp_ledger rp)"
    "delivers (clk s i) now (vb_delivered b)" "mset now + mset (vb_pending b) = mset (m # vb_pending (rp_rcb (rs_rep s i)))"
    "\<forall>x \<in> set (vb_pending b). \<not> causally_ready (vb_delivered b) x" "vb_me b = i"
proof -
  note d = rs_invD [OF inv]
  obtain b now where r: "vb_receive (rp_rcb (rs_rep s i)) m = (b, now)" by force
  have pend: "set (vb_pending (rp_rcb (rs_rep s i))) \<subseteq> set (rs_sent s)" using d(8) [of i] by (simp add: waiting_ok_def)
  then have "\<forall>x \<in> set (m # vb_pending (rp_rcb (rs_rep s i))). msg_ok x" using m d(1) by (auto simp: sent_ok_def)
  note rd = receive_delivers [OF r this]
  have "set now \<subseteq> set (m # vb_pending (rp_rcb (rs_rep s i)))"
    using rd(2) by (metis mset_subset_eq_add_left set_mset_mono set_mset_mset)
  then have sub: "set now \<subseteq> set (rs_sent s)" using pend m by auto
  from view_delivers [OF rd(1) g d(1) d(6) [of i] sub] obtain l' where
    l': "apply_all (rp_ledger (rs_rep s i)) (map msg_payload now) = Inr l'"
    "view g (rs_sent s) (rs_log s i @ now) (vb_delivered b) l'" by blast
  have "rp = (rs_rep s i)\<lparr>rp_ledger := l', rp_rcb := b\<rparr>" "out = \<lparr>do_applied = map msg_payload now, do_rejected = []\<rparr>"
    using del r deliver_loop_ok [OF l'(1)] by (auto simp: replica_deliver_def)
  then show ?thesis using that [OF r] d(3,4) [of i] rd l'(2) sub by simp
qed

lemma rs_inv_deliver:
  assumes g: "ledger_wf g" and inv: "rs_inv g s" and m: "m \<in> set (rs_sent s)"
    and del: "replica_deliver (rs_rep s i) m = (rp, out)"
  shows "rs_inv g (s\<lparr>rs_rep := (rs_rep s)(i := rp),
      rs_log := (rs_log s)(i := rs_log s i @ snd (vb_receive (rp_rcb (rs_rep s i)) m)),
      rs_recv := (rs_recv s)(i := insert m (rs_recv s i))\<rparr>)" (is "rs_inv g ?s'")
proof -
  note d = rs_invD [OF inv]
  from deliver_ok [OF g inv m del] obtain now b where r: "vb_receive (rp_rcb (rs_rep s i)) m = (b, now)"
    and b: "rp_rcb rp = b" "rp_me rp = i" "vb_me b = i" and sub: "set now \<subseteq> set (rs_sent s)"
    and v: "view g (rs_sent s) (rs_log s i @ now) (vb_delivered b) (rp_ledger rp)"
    and dl: "delivers (clk s i) now (vb_delivered b)"
    and ms: "mset now + mset (vb_pending b) = mset (m # vb_pending (rp_rcb (rs_rep s i)))"
    and nr: "\<forall>x \<in> set (vb_pending b). \<not> causally_ready (vb_delivered b) x" by metis
  have ok: "\<forall>x \<in> set now. msg_ok x \<and> cnt x \<le> clock_nat (clk s (msg_sender x)) (msg_sender x)"
    using sub d(1) sent_counter_le [OF d(2,1)] by (auto simp: sent_ok_def)
  have up: "clock_nat (vb_delivered b) r \<le> clock_nat (clk s r) r" for r by (rule delivers_bound [OF dl ok d(7)])
  have mono: "clock_nat (clk s i) r \<le> clock_nat (vb_delivered b) r" for r
    using delivers_mono(1) [OF dl] ok by (auto simp: word_le_nat_alt)
  have own: "clock_nat (vb_delivered b) i = clock_nat (clk s i) i" using up [of i] mono [of i] by simp
  have own': "(\<lambda>r. clock_nat (clk ?s' r) r) = (\<lambda>r. clock_nat (clk s r) r)" using own b(1) by (auto simp: fun_eq_iff)
  have split: "set now \<union> set (vb_pending b) = insert m (set (vb_pending (rp_rcb (rs_rep s i))))"
    using ms by (metis list.simps(15) set_mset_mset set_mset_union)
  have "set now \<subseteq> covered (rs_sent s) (vb_delivered b)" using v by (auto simp: view_def)
  moreover have "covered (rs_sent s) (clk s i) \<subseteq> covered (rs_sent s) (vb_delivered b)"
    using mono by (auto simp: covered_def intro: order_trans)
  moreover have "rs_recv s i \<subseteq> covered (rs_sent s) (clk s i) \<union> set (vb_pending (rp_rcb (rs_rep s i)))"
    using d(8) [of i] by (simp add: waiting_ok_def)
  moreover have "insert m (set (vb_pending (rp_rcb (rs_rep s i)))) \<subseteq> set now \<union> set (vb_pending b)" using split by simp
  ultimately have "insert m (rs_recv s i) \<subseteq> covered (rs_sent s) (vb_delivered b) \<union> set (vb_pending b)" by blast
  moreover have "set (vb_pending b) \<subseteq> set (rs_sent s)" using d(8) [of i] split m unfolding waiting_ok_def by auto
  ultimately have w: "waiting_ok (rs_sent s) (insert m (rs_recv s i)) b" using nr by (simp add: waiting_ok_def)
  have le: "clock_nat (clk ?s' j) r \<le> clock_nat (clk s r) r" for j r using up d(7) b(1) by simp
  show ?thesis
    unfolding rs_inv_def
  proof (intro conjI allI)
    show "history_ok (rs_sent ?s') (\<lambda>r. clock_nat (clk ?s' r) r)" unfolding own' using d(2) by simp
    show "clock_nat (clk ?s' j) r \<le> clock_nat (clk ?s' r) r" for j r using le [of j r] fun_cong [OF own', of r] by simp
    show "vv_wf (clk ?s' j)" for j using d(5) delivers_wf [OF dl d(5)] b(1) by simp
  qed (use d(1,3,4,6,8) v b r w in \<open>simp_all\<close>)
qed

lemma rs_inv_reach: "rs_reach g s \<Longrightarrow> ledger_wf g \<Longrightarrow> rs_inv g s"
proof (induction rule: rs_reach.induct)
  case start
  then show ?case
    by (auto simp: rs_inv_def sent_ok_def history_ok_def replica_new_def vb_new_def view_def covered_def waiting_ok_def)
qed (auto intro: rs_inv_submit rs_inv_deliver)

section \<open>A small run\<close>

text \<open>Two owners; \<open>a\<close> pays \<open>b\<close>, and \<open>b\<close> is given the message.\<close>

definition run_genesis :: ledger where
  "run_genesis = \<lparr>accounts = [(''a'', \<lparr>acc_balance = 50, acc_next_seq = 0\<rparr>), (''b'', \<lparr>acc_balance = 50, acc_next_seq = 0\<rparr>)]\<rparr>"

definition run_after :: ledger where
  "run_after = \<lparr>accounts = [(''a'', \<lparr>acc_balance = 40, acc_next_seq = 1\<rparr>), (''b'', \<lparr>acc_balance = 60, acc_next_seq = 0\<rparr>)]\<rparr>"

definition run_msg :: transfer_msg where
  "run_msg = \<lparr>msg_sender = ''a'', msg_counter = 1, msg_context = \<lparr>vv_clocks = [(''a'', 1)]\<rparr>,
     msg_payload = \<lparr>tr_from = ''a'', tr_from_seq = 0, tr_to = ''b'', tr_amount = 10\<rparr>\<rparr>"

definition run_paid :: rsys where
  "run_paid = \<lparr>rs_rep = (\<lambda>i. replica_new i run_genesis)(''a'' := fst (replica_submit (replica_new ''a'' run_genesis) ''b'' 10)),
     rs_sent = [run_msg], rs_log = (\<lambda>_. [])(''a'' := [run_msg]), rs_recv = (\<lambda>_. {})(''a'' := {run_msg})\<rparr>"

definition run_done :: rsys where
  "run_done = run_paid\<lparr>rs_rep := (rs_rep run_paid)(''b'' := fst (replica_deliver (replica_new ''b'' run_genesis) run_msg)),
     rs_log := (rs_log run_paid)(''b'' := [run_msg]), rs_recv := (rs_recv run_paid)(''b'' := {run_msg})\<rparr>"

lemma run_genesis_wf: "ledger_wf run_genesis"
  by (simp add: run_genesis_def ledger_wf_def supply_of_def)

lemma run_apply: "ledger_apply run_genesis (msg_payload run_msg) = Inr run_after"
  by (simp add: run_genesis_def run_msg_def run_after_def ledger_apply_def preflight_def apply_commit_def checked_add_def
      ledger_balance_def)

lemma run_submit: "snd (replica_submit (replica_new ''a'' run_genesis) ''b'' 10) = Inr run_msg"
proof -
  have "\<lparr>tr_from = ''a'', tr_from_seq = ledger_next_seq run_genesis ''a'', tr_to = ''b'', tr_amount = 10\<rparr> = msg_payload run_msg"
    by (simp add: run_genesis_def run_msg_def ledger_next_seq_def)
  then show ?thesis
    using run_apply
    by (simp add: replica_submit_def replica_new_def vb_submit_def vb_new_def vv_tick_def vv_new_def clock_get_def)
      (simp add: run_msg_def)
qed

lemma run_receive:
  "vb_receive (vb_new ''b'') run_msg = ((vb_new ''b'')\<lparr>vb_delivered := \<lparr>vv_clocks = [(''a'', 1)]\<rparr>\<rparr>, [run_msg])"
proof -
  have t: "tick_until vv_new ''a'' 1 = \<lparr>vv_clocks = [(''a'', 1)]\<rparr>"
    by (simp add: tick_until.simps vv_get_def vv_tick_def vv_new_def clock_get_def)
  have "can_deliver vv_new run_msg"
    by (simp add: can_deliver_def run_msg_def t vv_dominates_def) (simp add: vv_get_def vv_new_def clock_get_def)
  moreover have "deliver_now vv_new run_msg = \<lparr>vv_clocks = [(''a'', 1)]\<rparr>"
    using t by (simp add: deliver_now_def run_msg_def)
  ultimately show ?thesis by (simp add: vb_receive_def vb_new_def rescan.simps)
qed

lemma run_deliver:
  "replica_deliver (replica_new ''b'' run_genesis) run_msg =
     (\<lparr>rp_me = ''b'', rp_ledger = run_after, rp_rcb = (vb_new ''b'')\<lparr>vb_delivered := \<lparr>vv_clocks = [(''a'', 1)]\<rparr>\<rparr>\<rparr>,
      \<lparr>do_applied = [msg_payload run_msg], do_rejected = []\<rparr>)"
  by (simp add: replica_deliver_def replica_new_def run_receive run_apply)

lemma run_reach: "rs_reach run_genesis run_paid" "rs_reach run_genesis run_done"
proof -
  have "replica_submit (replica_new ''a'' run_genesis) ''b'' 10 = (fst (replica_submit (replica_new ''a'' run_genesis) ''b'' 10), Inr run_msg)"
    using run_submit by (metis prod.collapse)
  from rs_reach.submit [OF rs_reach.start, of _ "''a''" "''b''" 10, simplified, OF this]
  show 1: "rs_reach run_genesis run_paid" by (simp add: run_paid_def)
  have "rs_rep run_paid ''b'' = replica_new ''b'' run_genesis" "rp_rcb (replica_new ''b'' run_genesis) = vb_new ''b''" "run_msg \<in> set (rs_sent run_paid)"
    "rs_log run_paid ''b'' = []" "rs_recv run_paid ''b'' = {}"
    by (simp_all add: run_paid_def replica_new_def)
  then show "rs_reach run_genesis run_done"
    using rs_reach.deliver [OF 1, of run_msg "''b''" "fst (replica_deliver (replica_new ''b'' run_genesis) run_msg)"
        "snd (replica_deliver (replica_new ''b'' run_genesis) run_msg)"] run_receive
    by (simp add: run_done_def)
qed

lemma run_reps:
  "rs_rep run_paid ''b'' = replica_new ''b'' run_genesis" "rs_sent run_paid = [run_msg]" "rs_sent run_done = [run_msg]"
  "rs_recv run_done ''b'' = {run_msg}" "rp_ledger (rs_rep run_done ''b'') = run_after"
  "clk run_done ''b'' = \<lparr>vv_clocks = [(''a'', 1)]\<rparr>"
  by (simp_all add: run_done_def run_paid_def run_deliver)

lemma run_clock: "clk run_done ''a'' = \<lparr>vv_clocks = [(''a'', 1)]\<rparr>"
proof -
  obtain rp where e: "replica_submit (replica_new ''a'' run_genesis) ''b'' 10 = (rp, Inr run_msg)"
    using run_submit by (metis prod.collapse)
  then have "vb_delivered (rp_rcb rp) = \<lparr>vv_clocks = [(''a'', 1)]\<rparr>"
    by (subst submit_fields(6) [OF e]) (simp_all add: replica_new_def vb_new_def vv_tick_def vv_new_def clock_get_def)
  then show ?thesis using e by (simp add: run_done_def run_paid_def)
qed

section \<open>Properties\<close>

text \<open>C16: in a system of honest replicas, whatever was submitted, delivered, reordered and repeated, no
  replica ever rejects a transfer that the causal broadcast releases to it.\<close>

theorem deliver_never_rejects:
  assumes "rs_reach g s" "ledger_wf g" "m \<in> set (rs_sent s)" "replica_deliver (rs_rep s i) m = (rp, out)"
  shows "do_rejected out = [] \<and> do_applied out = map msg_payload (snd (vb_receive (rp_rcb (rs_rep s i)) m))"
proof -
  obtain now b where "vb_receive (rp_rcb (rs_rep s i)) m = (b, now)" "out = \<lparr>do_applied = map msg_payload now, do_rejected = []\<rparr>"
    using deliver_ok [OF assms(2) rs_inv_reach [OF assms(1,2)] assms(3,4)] .
  then show ?thesis by simp
qed

theorem deliver_never_rejects_witness:
  "do_rejected (snd (replica_deliver (replica_new ''b'' run_genesis) run_msg)) = [] \<and>
   do_applied (snd (replica_deliver (replica_new ''b'' run_genesis) run_msg)) = [msg_payload run_msg]"
proof -
  have "run_msg \<in> set (rs_sent run_paid)" by (simp add: run_reps)
  from deliver_never_rejects [OF run_reach(1) run_genesis_wf this, of "''b''", unfolded run_reps(1), OF run_deliver]
  show ?thesis by (simp add: run_deliver)
qed

text \<open>C17: replicas agree: two replicas that have delivered the same messages (equal clocks) hold equal
  ledgers, whatever the orders in which the messages reached them, and no money was made.\<close>

theorem replicas_agree:
  assumes "rs_reach g s" "ledger_wf g" "\<forall>r. vv_get (clk s i) r = vv_get (clk s j) r"
  shows "rp_ledger (rs_rep s i) = rp_ledger (rs_rep s j) \<and> total_supply (rp_ledger (rs_rep s i)) = total_supply g"
proof -
  note d = rs_invD(6) [OF rs_inv_reach [OF assms(1,2)]]
  have v: "distinct (rs_log s r)" "set (rs_log s r) = covered (rs_sent s) (clk s r)"
    "apply_all g (map msg_payload (rs_log s r)) = Inr (rp_ledger (rs_rep s r))" for r
    using d [of r] by (auto simp: view_def)
  have "covered (rs_sent s) (clk s i) = covered (rs_sent s) (clk s j)" using assms(3) by (simp add: covered_def)
  then have "mset (rs_log s i) = mset (rs_log s j)"
    using set_eq_iff_mset_eq_distinct [OF v(1) [of i] v(1) [of j]] v(2) by blast
  then have "mset (map msg_payload (rs_log s i)) = mset (map msg_payload (rs_log s j))" by simp
  then have "rp_ledger (rs_rep s i) = rp_ledger (rs_rep s j)"
    using apply_all_multiset [OF _ _ v(3) [of i] v(3) [of j]] assms(2) unfolding ledger_wf_def by blast
  moreover have "ledger_wf (rp_ledger (rs_rep s i))" "supply_of (rp_ledger (rs_rep s i)) = supply_of g"
    using apply_all_wf [OF assms(2) v(3)] apply_all_supply [OF assms(2) v(3)] by auto
  ultimately show ?thesis using assms(2) by (simp add: total_supply_spec ledger_wf_def)
qed

theorem replicas_agree_witness:
  "rp_ledger (rs_rep run_done ''a'') = run_after \<and> total_supply (rp_ledger (rs_rep run_done ''a'')) = total_supply run_genesis"
proof -
  have "\<forall>r. vv_get (clk run_done ''a'') r = vv_get (clk run_done ''b'') r" by (simp add: run_clock run_reps)
  from replicas_agree [OF run_reach(2) run_genesis_wf this] show ?thesis unfolding run_reps(5) .
qed

text \<open>Delivery completes: a replica that has been given every message ever sent, in any order, has
  applied every one of them.\<close>

theorem received_all_applies_all:
  assumes "rs_reach g s" "ledger_wf g" "set (rs_sent s) \<subseteq> rs_recv s i"
  shows "set (rs_log s i) = set (rs_sent s)"
proof (rule ccontr)
  assume ne: "set (rs_log s i) \<noteq> set (rs_sent s)"
  let ?sent = "rs_sent s" and ?d = "clk s i"
  note d = rs_invD [OF rs_inv_reach [OF assms(1,2)]]
  have cov: "set (rs_log s i) = covered ?sent ?d" using d(6) [of i] by (simp add: view_def)
  then have "\<exists>m \<in> set ?sent. m \<notin> covered ?sent ?d" using ne by (auto simp: covered_def)
  then obtain xs m ys where e: "?sent = xs @ m # ys" "m \<notin> covered ?sent ?d" "\<forall>x \<in> set xs. x \<in> covered ?sent ?d"
    using split_list_first_prop [of ?sent "\<lambda>m. m \<notin> covered ?sent ?d"] by auto
  have m: "m \<in> set ?sent" using e(1) by simp
  have lt: "clock_nat ?d (msg_sender m) < cnt m" using e(2) m by (auto simp: covered_def)
  have past: "k \<le> clock_nat ?d r" if "k \<le> clock_nat (msg_context m) r" "r \<noteq> msg_sender m \<or> k < cnt m" for r k
  proof (cases "k = 0")
    case False
    have "k \<le> clock_nat (clk s r) r" using that(1) history_okD(1) [OF d(2) m, of r] by linarith
    then obtain m' where m': "m' \<in> set ?sent" "msg_sender m' = r" "cnt m' = k"
      using history_okD(2) [OF d(2), of k r] False by auto
    then have "m' \<in> covered ?sent (msg_context m) - {m}" using that by (auto simp: covered_def)
    then have "m' \<in> covered ?sent ?d" using history_okD(3) [OF d(2) e(1)] e(3) by blast
    then show ?thesis using m' by (simp add: covered_def)
  qed simp
  have ok: "msg_ok m" using d(1) m by (auto simp: sent_ok_def)
  have "cnt m - 1 \<le> clock_nat ?d (msg_sender m)" by (rule past) (use ok lt in \<open>auto simp: msg_ok_def\<close>)
  then have "unat (vv_get ?d (msg_sender m) + 1) = cnt m"
    using lt unat_succ_less [of "vv_get ?d (msg_sender m)" "msg_counter m"] by (simp add: word_less_nat_alt)
  moreover have "vv_get (msg_context m) r \<le> vv_get ?d r" if "r \<noteq> msg_sender m" for r
    using past [of _ r] that by (simp add: word_le_nat_alt)
  ultimately have "causally_ready ?d m" by (simp add: causally_ready_def word_unat_eq_iff)
  moreover have "m \<in> set (vb_pending (rp_rcb (rs_rep s i)))"
    using d(8) [of i] assms(3) m e(2) by (auto simp: waiting_ok_def)
  ultimately show False using d(8) [of i] by (auto simp: waiting_ok_def)
qed

theorem received_all_applies_all_witness:
  "set (rs_log run_done ''b'') = {run_msg}"
  using received_all_applies_all [OF run_reach(2) run_genesis_wf, of "''b''"] run_reps(3,4) by simp

end
