(* ===== verification/Anti_Entropy.thy ===== *)
theory Anti_Entropy
  imports Bytes
begin

text \<open>
  Merkle digests of \<open>333-crdt/src/anti_entropy.rs\<close>: the FNV-1a hash, the sixteen buckets of a
  key-value snapshot, their digest and the comparison of two digests. Hashes are 64-bit words
  with wrapping multiplication; \<open>usize\<close> is 64 bits wide.
\<close>

unbundle bit_operations_syntax

section \<open>Digests\<close>

definition BUCKET_COUNT :: nat where "BUCKET_COUNT = 16"

definition fnv_offset :: u64 where "fnv_offset = 0xcbf29ce484222325"
definition fnv_prime :: u64 where "fnv_prime = 0x100000001b3"

definition fnv1a_64 :: "bytes \<Rightarrow> u64" where
  "fnv1a_64 bs = foldl (\<lambda>h b. (h XOR ucast b) * fnv_prime) fnv_offset bs"

definition bucket_of_key :: "bytes \<Rightarrow> nat" where
  "bucket_of_key key = unat (fnv1a_64 key) mod BUCKET_COUNT"

record merkle_digest =
  bucket_hashes :: "u64 list"
  md_root :: u64

type_synonym bucket = "(bytes, bytes) btree"

fun fill_buckets :: "bucket list \<Rightarrow> (bytes \<times> bytes) list \<Rightarrow> bucket list" where
  "fill_buckets bs [] = bs"
| "fill_buckets bs ((k, v) # es) =
     (let b = bucket_of_key k in fill_buckets (bs[b := bt_insert k v (bs ! b)]) es)"

definition leaf_hash :: "bucket \<Rightarrow> u64" where
  "leaf_hash m = foldl (\<lambda>h (k, v). (((h XOR fnv1a_64 k) * fnv_prime) XOR fnv1a_64 v) * fnv_prime) fnv_offset m"

definition build :: "(bytes \<times> bytes) list \<Rightarrow> merkle_digest" where
  "build entries =
     (let leaf_hashes = map leaf_hash (fill_buckets (replicate BUCKET_COUNT []) entries)
      in \<lparr>bucket_hashes = leaf_hashes, md_root = fnv1a_64 (concat (map u64_be leaf_hashes))\<rparr>)"

definition digest_diff :: "merkle_digest \<Rightarrow> merkle_digest \<Rightarrow> nat list" where
  "digest_diff a b =
     (if md_root a = md_root b then []
      else filter (\<lambda>i. bucket_hashes a ! i \<noteq> bucket_hashes b ! i) [0..<BUCKET_COUNT])"

record reconcile_hint =
  mismatched_buckets :: "nat list"

definition reconcile_plan :: "merkle_digest \<Rightarrow> merkle_digest \<Rightarrow> reconcile_hint" where
  "reconcile_plan local remote = \<lparr>mismatched_buckets = digest_diff local remote\<rparr>"

section \<open>Buckets hold the snapshot\<close>

text \<open>The value a snapshot has for a key: the last entry wins.\<close>

definition stored :: "(bytes \<times> bytes) list \<Rightarrow> bytes \<Rightarrow> bytes option" where
  "stored es k = map_of (rev es) k"

definition buckets_ok :: "bucket list \<Rightarrow> bool" where
  "buckets_ok bs \<longleftrightarrow> length bs = BUCKET_COUNT \<and> (\<forall>m \<in> set bs. bt_wf m)"

lemma bucket_lt: "bucket_of_key k < BUCKET_COUNT"
  by (simp add: bucket_of_key_def BUCKET_COUNT_def)

lemma fill_buckets_ok: "buckets_ok bs \<Longrightarrow> buckets_ok (fill_buckets bs es)"
proof (induction bs es rule: fill_buckets.induct)
  case (2 bs k v es)
  have "bt_wf (bt_insert k v (bs ! bucket_of_key k))" using "2.prems" bucket_lt [of k] by (simp add: buckets_ok_def)
  then have "buckets_ok (bs[bucket_of_key k := bt_insert k v (bs ! bucket_of_key k)])"
    using "2.prems" by (auto simp: buckets_ok_def dest: set_update_subset_insert [THEN subsetD])
  then show ?case using "2.IH" by (simp add: Let_def)
qed simp

lemma bucket_wf: "buckets_ok bs \<Longrightarrow> i < BUCKET_COUNT \<Longrightarrow> bt_wf (bs ! i)"
  by (simp add: buckets_ok_def)

lemma fill_buckets_lookup:
  "buckets_ok bs \<Longrightarrow> i < BUCKET_COUNT \<Longrightarrow>
     map_of (fill_buckets bs es ! i) k =
       (case stored es k of Some v \<Rightarrow> if bucket_of_key k = i then Some v else map_of (bs ! i) k | None \<Rightarrow> map_of (bs ! i) k)"
proof (induction bs es rule: fill_buckets.induct)
  case (2 bs k' v es)
  let ?bs = "bs[bucket_of_key k' := bt_insert k' v (bs ! bucket_of_key k')]"
  have "fill_buckets ?bs [] = ?bs" "fill_buckets bs [(k', v)] = ?bs" by (simp_all add: Let_def)
  then have ok: "buckets_ok ?bs" using fill_buckets_ok [OF "2.prems"(1), of "[(k', v)]"] by simp
  have "map_of (?bs ! i) k = (if k = k' \<and> bucket_of_key k = i then Some v else map_of (bs ! i) k)"
    using "2.prems" bucket_lt [of k'] by (auto simp: buckets_ok_def nth_list_update)
  then show ?case
    using "2.IH" [OF refl ok "2.prems"(2)] by (auto simp: stored_def Let_def map_add_def split: option.splits)
qed (simp add: stored_def)

text \<open>Bucket \<open>i\<close> is determined by the values of the keys that hash into it.\<close>

lemma bucket_content:
  assumes "i < BUCKET_COUNT" "\<And>k. bucket_of_key k = i \<Longrightarrow> stored es k = stored fs k"
  shows "fill_buckets (replicate BUCKET_COUNT []) es ! i = fill_buckets (replicate BUCKET_COUNT []) fs ! i"
proof (rule bt_ext)
  have ok: "buckets_ok (replicate BUCKET_COUNT [])" by (simp add: buckets_ok_def)
  then have "buckets_ok (fill_buckets (replicate BUCKET_COUNT []) xs)" for xs by (rule fill_buckets_ok)
  then show "bt_wf (fill_buckets (replicate BUCKET_COUNT []) es ! i)" "bt_wf (fill_buckets (replicate BUCKET_COUNT []) fs ! i)"
    using assms(1) bucket_wf by blast+
  show "map_of (fill_buckets (replicate BUCKET_COUNT []) es ! i) = map_of (fill_buckets (replicate BUCKET_COUNT []) fs ! i)"
    using fill_buckets_lookup [OF ok assms(1)] assms by (auto simp: fun_eq_iff split: option.splits)
qed

section \<open>Properties\<close>

text \<open>Reconciliation ships only buckets that differ: every bucket of the plan holds a key on which the
  two snapshots disagree, the plan is the same from both sides, and snapshots with equal
  contents have equal digests and an empty plan, whatever the order of their entries.\<close>

theorem plan_only_differences:
  "set (mismatched_buckets (reconcile_plan (build es) (build fs))) \<subseteq> bucket_of_key ` {k. stored es k \<noteq> stored fs k} \<and>
   reconcile_plan (build es) (build fs) = reconcile_plan (build fs) (build es) \<and>
   (stored es \<noteq> stored fs \<or> build es = build fs)"
proof -
  let ?b = "\<lambda>es. fill_buckets (replicate BUCKET_COUNT []) es"
  have ok: "buckets_ok (?b xs)" for xs by (rule fill_buckets_ok) (simp add: buckets_ok_def)
  have len: "length (?b xs) = BUCKET_COUNT" for xs using ok by (simp add: buckets_ok_def)
  have "i \<in> bucket_of_key ` {k. stored es k \<noteq> stored fs k}" if "i < BUCKET_COUNT" "leaf_hash (?b es ! i) \<noteq> leaf_hash (?b fs ! i)" for i
    using bucket_content [of i es fs] that by (metis (mono_tags, lifting) imageI mem_Collect_eq)
  then have "set (mismatched_buckets (reconcile_plan (build es) (build fs))) \<subseteq> bucket_of_key ` {k. stored es k \<noteq> stored fs k}"
    using len by (auto simp: reconcile_plan_def digest_diff_def build_def Let_def)
  moreover have "reconcile_plan (build es) (build fs) = reconcile_plan (build fs) (build es)"
    by (auto simp: reconcile_plan_def digest_diff_def intro: filter_cong)
  moreover have "build es = build fs" if "stored es = stored fs"
  proof -
    have "?b es = ?b fs" using bucket_content [of _ es fs] that len by (auto intro: nth_equalityI)
    then show ?thesis by (simp add: build_def)
  qed
  ultimately show ?thesis by blast
qed

theorem plan_only_differences_witness:
  "build [([1], [2]), ([3], [4])] = build [([3], [4]), ([1], [2])]"
proof -
  have "stored [([1], [2]), ([3], [4])] = stored [([3], [4]), ([1], [2])]" by (auto simp: stored_def fun_eq_iff)
  then show ?thesis using plan_only_differences [of "[([1], [2]), ([3], [4])]" "[([3], [4]), ([1], [2])]"] by blast
qed

end
