(* ===== verification/Exchange.thy ===== *)
theory Exchange
  imports Anti_Entropy
begin

text \<open>
  The kernel of the compute exchange (\<open>333-compute-exchange/src/lib.rs\<close>): a deterministic reducer
  over consent, lease, attempt and settlement, with an idempotency inbox. \<open>decide\<close> turns a
  command into events and effects or a rejection, \<open>evolve\<close> applies one event, and \<open>handle\<close>
  deduplicates, decides, evolves and records. The derived \<open>Debug\<close> text of a command, which only
  feeds the fingerprint of a conflict report, is the parameter \<open>dbg\<close>.
\<close>

section \<open>Data\<close>

type_synonym u16 = "16 word"
type_synonym node_id = string
type_synonym principal_id = string
type_synonym grant_id = string
type_synonym lease_id = string
type_synonym assignment_id = string
type_synonym attempt_id = string
type_synonym settlement_id = string
type_synonym capability_id = string
type_synonym idempotency_key = string
type_synonym effect_id = string

record resource_caps =
  rc_workers :: u16
  rc_duty_cycle_percent :: u8
  rc_memory_mib :: u32
  rc_network_bytes :: u64
  rc_gpu :: bool

record engine_policy =
  pol_policy_hash :: string
  pol_maximum :: resource_caps
  pol_browser_foreground_only :: bool
  pol_maximum_outstanding_assignments :: u8

definition BROWSER_ALPHA_V1_POLICY_HASH :: string where
  "BROWSER_ALPHA_V1_POLICY_HASH = ''333-browser-alpha-v1''"

definition policy_browser_alpha_v1 :: engine_policy where
  "policy_browser_alpha_v1 =
     \<lparr>pol_policy_hash = BROWSER_ALPHA_V1_POLICY_HASH,
      pol_maximum = \<lparr>rc_workers = 4, rc_duty_cycle_percent = 50, rc_memory_mib = 512, rc_network_bytes = 0, rc_gpu = False\<rparr>,
      pol_browser_foreground_only = True, pol_maximum_outstanding_assignments = 1\<rparr>"

datatype execution_mode = BrowserForeground | BrowserBackground | NativeNode

record resource_grant =
  gr_id :: grant_id
  gr_principal :: principal_id
  gr_issued_at_ms :: u64
  gr_expires_at_ms :: u64
  gr_browser_foreground_only :: bool
  gr_max_workers :: u16
  gr_duty_cycle_percent :: u8
  gr_memory_mib :: u32
  gr_network_bytes :: u64
  gr_gpu_allowed :: bool
  gr_policy_hash :: string

definition grant_caps :: "resource_grant \<Rightarrow> resource_caps" where
  "grant_caps g = \<lparr>rc_workers = gr_max_workers g, rc_duty_cycle_percent = gr_duty_cycle_percent g,
     rc_memory_mib = gr_memory_mib g, rc_network_bytes = gr_network_bytes g, rc_gpu = gr_gpu_allowed g\<rparr>"

record resource_lease =
  le_id :: lease_id
  le_grant_id :: grant_id
  le_generation :: u64
  le_mode :: execution_mode
  le_resources :: resource_caps

record assignment =
  as_id :: assignment_id
  as_lease_id :: lease_id
  as_generation :: u64
  as_requester :: principal_id
  as_workload_digest :: string
  as_mode :: execution_mode
  as_resources :: resource_caps

record attempt =
  at_id :: attempt_id
  at_assignment_id :: assignment_id
  at_producer :: principal_id
  at_generation :: u64
  at_resources :: resource_caps
  at_workload_digest :: string

record submitted_result =
  sr_producer :: principal_id
  sr_result_digest :: string
  sr_usage :: resource_caps
  sr_compute_ms :: u64

record verifier_capability =
  vcap_id :: capability_id
  vcap_subject :: principal_id
  vcap_node_id :: node_id
  vcap_attempt_id :: attempt_id
  vcap_not_before_ms :: u64
  vcap_expires_at_ms :: u64

datatype verification_verdict = VerdictAccept | VerdictReject string

record verification_record =
  vr_attempt_id :: attempt_id
  vr_verifier :: principal_id
  vr_capability_id :: capability_id
  vr_result_digest :: string
  vr_verified_at_ms :: u64

record settlement_plan =
  sp_id :: settlement_id
  sp_attempt_id :: attempt_id
  sp_beneficiary :: principal_id
  sp_service_credits :: u64
  sp_verified_result_digest :: string

record settlement_receipt =
  rcp_settlement_id :: settlement_id
  rcp_service_credits :: u64
  rcp_external_reference :: string

datatype consent_state =
    ConsentUnseen
  | ConsentActive grant_id
  | ConsentRevoked grant_id u64
  | ConsentExpired grant_id u64

datatype stop_reason = StopConsentRevoked | StopConsentExpired

datatype lease_state = LeaseClosed | LeaseActive resource_lease | LeaseStopped lease_id stop_reason

datatype attempt_failure = FailConsentRevoked | FailConsentExpired | FailVerificationRejected string

datatype attempt_state =
    AttemptNone
  | AttemptOffered assignment
  | AttemptRunning attempt
  | AttemptResultSubmitted attempt submitted_result
  | AttemptVerified attempt submitted_result verification_record
  | AttemptFailed assignment_id "attempt_id option" attempt_failure

datatype settlement_state =
    SettlementNone
  | SettlementPrepared settlement_plan
  | SettlementPosted settlement_plan settlement_receipt

record aggregate =
  ag_node_id :: node_id
  ag_generation :: u64
  ag_observed_at_ms :: u64
  ag_consent :: consent_state
  ag_grant :: "resource_grant option"
  ag_lease :: lease_state
  ag_attempt :: attempt_state
  ag_settlement :: settlement_state

definition aggregate_new :: "node_id \<Rightarrow> aggregate" where
  "aggregate_new n = \<lparr>ag_node_id = n, ag_generation = 0, ag_observed_at_ms = 0, ag_consent = ConsentUnseen,
     ag_grant = None, ag_lease = LeaseClosed, ag_attempt = AttemptNone, ag_settlement = SettlementNone\<rparr>"

section \<open>Commands, events, effects, rejections\<close>

datatype exchange_command =
    GrantConsent resource_grant
  | ObserveTime u64
  | OpenLease resource_lease
  | OfferAssignment assignment
  | StartAttempt attempt_id assignment_id
  | SubmitResult attempt_id submitted_result
  | VerifyResult attempt_id principal_id verifier_capability verification_verdict
  | PrepareSettlement settlement_id attempt_id u64
  | RecordSettlementReceipt settlement_receipt
  | RevokeConsent grant_id string

record command_envelope =
  env_idempotency_key :: idempotency_key
  env_generation :: u64
  env_command :: exchange_command

datatype exchange_event =
    EvConsentGranted u64 resource_grant
  | EvTimeObserved u64
  | EvLeaseOpened resource_lease
  | EvAssignmentOffered assignment
  | EvAttemptStarted attempt
  | EvResultSubmitted attempt_id submitted_result
  | EvResultVerified verification_record
  | EvResultRejected attempt_id string
  | EvSettlementPrepared settlement_plan
  | EvSettlementReceiptRecorded settlement_receipt
  | EvConsentRevoked grant_id u64 string
  | EvConsentExpired grant_id u64
  | EvLeaseStopped lease_id stop_reason
  | EvAttemptFailed assignment_id "attempt_id option" attempt_failure

datatype sandbox_stop_reason = SandboxResultSubmitted | SandboxConsentRevoked | SandboxConsentExpired

datatype exchange_effect =
    StartSandbox effect_id node_id lease_id assignment_id attempt_id execution_mode resource_caps string
  | StopSandbox effect_id node_id "lease_id option" "attempt_id option" sandbox_stop_reason
  | PostServiceCredit effect_id settlement_plan

datatype input_problem = MustBePositive | MustBeNonEmpty | InvalidTimeRange | DoesNotMatchRecordedValue

datatype terminal_consent = TerminalRevoked | TerminalExpired

datatype scope_violation =
    ScopeWorkers u64 u64
  | ScopeDutyCycle u64 u64
  | ScopeMemoryMib u64 u64
  | ScopeNetworkBytes u64 u64
  | ScopeGpuForbidden
  | ScopeBackgroundExecutionForbidden
  | ScopePolicyHashMismatch string string

datatype authorization_failure =
    ProducerIsVerifier
  | CapabilitySubjectMismatch
  | CapabilityNodeMismatch
  | CapabilityAttemptMismatch
  | CapabilityNotYetValid
  | CapabilityExpired
  | ResultProducerMismatch

datatype rejection =
    ConsentRequired
  | ConsentTerminal terminal_consent
  | LeaseRequired
  | ScopeExceeded scope_violation
  | InvalidTransition string string
  | InvalidInput string input_problem
  | Unauthorized authorization_failure
  | RejExpired u64 u64
  | StaleGeneration u64 u64
  | IdempotencyConflict idempotency_key string string
  | ResultUnverified

record accepted_decision =
  ad_events :: "exchange_event list"
  ad_effects :: "exchange_effect list"
  ad_replayed :: bool

record rejected_decision =
  rd_reason :: rejection
  rd_replayed :: bool

datatype command_outcome = Accepted accepted_decision | Rejected rejected_decision

fun outcome_effects :: "command_outcome \<Rightarrow> exchange_effect list" where
  "outcome_effects (Accepted d) = ad_effects d"
| "outcome_effects (Rejected _) = []"

fun outcome_events :: "command_outcome \<Rightarrow> exchange_event list" where
  "outcome_events (Accepted d) = ad_events d"
| "outcome_events (Rejected _) = []"

fun outcome_replayed :: "command_outcome \<Rightarrow> bool" where
  "outcome_replayed (Accepted d) = ad_replayed d"
| "outcome_replayed (Rejected d) = rd_replayed d"

fun replay_receipt :: "command_outcome \<Rightarrow> command_outcome" where
  "replay_receipt (Accepted d) = Accepted \<lparr>ad_events = ad_events d, ad_effects = [], ad_replayed = True\<rparr>"
| "replay_receipt (Rejected d) = Rejected \<lparr>rd_reason = rd_reason d, rd_replayed = True\<rparr>"

definition accepted :: "exchange_event list \<Rightarrow> exchange_effect list \<Rightarrow> command_outcome" where
  "accepted evs effs = Accepted \<lparr>ad_events = evs, ad_effects = effs, ad_replayed = False\<rparr>"

definition rejected :: "rejection \<Rightarrow> command_outcome" where
  "rejected r = Rejected \<lparr>rd_reason = r, rd_replayed = False\<rparr>"

section \<open>Resources\<close>

definition validate_nonzero :: "resource_caps \<Rightarrow> rejection + unit" where
  "validate_nonzero c =
     (if rc_workers c = 0 then Inl (InvalidInput ''workers'' MustBePositive)
      else if rc_duty_cycle_percent c = 0 then Inl (InvalidInput ''duty_cycle_percent'' MustBePositive)
      else if rc_memory_mib c = 0 then Inl (InvalidInput ''memory_mib'' MustBePositive)
      else Inr ())"

definition require_within :: "resource_caps \<Rightarrow> resource_caps \<Rightarrow> rejection + unit" where
  "require_within c upper =
     (if rc_workers c > rc_workers upper
      then Inl (ScopeExceeded (ScopeWorkers (ucast (rc_workers c)) (ucast (rc_workers upper))))
      else if rc_duty_cycle_percent c > rc_duty_cycle_percent upper
      then Inl (ScopeExceeded (ScopeDutyCycle (ucast (rc_duty_cycle_percent c)) (ucast (rc_duty_cycle_percent upper))))
      else if rc_memory_mib c > rc_memory_mib upper
      then Inl (ScopeExceeded (ScopeMemoryMib (ucast (rc_memory_mib c)) (ucast (rc_memory_mib upper))))
      else if rc_network_bytes c > rc_network_bytes upper
      then Inl (ScopeExceeded (ScopeNetworkBytes (rc_network_bytes c) (rc_network_bytes upper)))
      else if rc_gpu c \<and> \<not> rc_gpu upper then Inl (ScopeExceeded ScopeGpuForbidden)
      else Inr ())"

section \<open>State queries\<close>

definition has_outstanding_assignment :: "aggregate \<Rightarrow> bool" where
  "has_outstanding_assignment st =
     (case ag_attempt st of
        AttemptNone \<Rightarrow> False
      | AttemptFailed _ _ _ \<Rightarrow> False
      | AttemptVerified _ _ _ \<Rightarrow> (case ag_settlement st of SettlementPosted _ _ \<Rightarrow> False | _ \<Rightarrow> True)
      | _ \<Rightarrow> True)"

definition active_grant :: "aggregate \<Rightarrow> rejection + resource_grant" where
  "active_grant st =
     (case ag_consent st of
        ConsentActive _ \<Rightarrow>
          (case ag_grant st of
             None \<Rightarrow> Inl ConsentRequired
           | Some g \<Rightarrow>
              if ag_observed_at_ms st \<ge> gr_expires_at_ms g
              then Inl (RejExpired (gr_expires_at_ms g) (ag_observed_at_ms st)) else Inr g)
      | ConsentUnseen \<Rightarrow> Inl ConsentRequired
      | ConsentRevoked _ _ \<Rightarrow> Inl (ConsentTerminal TerminalRevoked)
      | ConsentExpired _ _ \<Rightarrow> Inl (ConsentTerminal TerminalExpired))"

definition active_lease :: "aggregate \<Rightarrow> rejection + resource_lease" where
  "active_lease st = (case ag_lease st of LeaseActive l \<Rightarrow> Inr l | _ \<Rightarrow> Inl LeaseRequired)"

definition active_attempt_id :: "aggregate \<Rightarrow> attempt_id option" where
  "active_attempt_id st =
     (case ag_attempt st of
        AttemptRunning a \<Rightarrow> Some (at_id a)
      | AttemptResultSubmitted a _ \<Rightarrow> Some (at_id a)
      | AttemptVerified a _ _ \<Rightarrow> Some (at_id a)
      | _ \<Rightarrow> None)"

definition state_name :: "aggregate \<Rightarrow> string" where
  "state_name st =
     (case ag_consent st of
        ConsentUnseen \<Rightarrow> ''consent:unseen''
      | ConsentRevoked _ _ \<Rightarrow> ''consent:revoked''
      | ConsentExpired _ _ \<Rightarrow> ''consent:expired''
      | ConsentActive _ \<Rightarrow>
         (case ag_lease st of
            LeaseClosed \<Rightarrow> ''lease:closed''
          | LeaseStopped _ _ \<Rightarrow> ''lease:stopped''
          | LeaseActive _ \<Rightarrow>
             (case ag_attempt st of
                AttemptNone \<Rightarrow> ''attempt:none''
              | AttemptOffered _ \<Rightarrow> ''attempt:offered''
              | AttemptRunning _ \<Rightarrow> ''attempt:running''
              | AttemptResultSubmitted _ _ \<Rightarrow> ''attempt:result-submitted''
              | AttemptVerified _ _ _ \<Rightarrow>
                 (case ag_settlement st of
                    SettlementNone \<Rightarrow> ''attempt:verified''
                  | SettlementPrepared _ \<Rightarrow> ''settlement:prepared''
                  | SettlementPosted _ _ \<Rightarrow> ''settlement:posted'')
              | AttemptFailed _ _ _ \<Rightarrow> ''attempt:failed'')))"

definition invalid :: "aggregate \<Rightarrow> string \<Rightarrow> rejection" where
  "invalid st cmd = InvalidTransition (state_name st) cmd"

definition effect_id_of :: "idempotency_key \<Rightarrow> string \<Rightarrow> effect_id" where
  "effect_id_of key suffix = key @ '':'' @ suffix"

section \<open>Decisions\<close>

definition validate_mode :: "engine_policy \<Rightarrow> execution_mode \<Rightarrow> rejection + unit" where
  "validate_mode pol mode =
     (if pol_browser_foreground_only pol \<and> mode \<noteq> BrowserForeground
      then Inl (ScopeExceeded ScopeBackgroundExecutionForbidden) else Inr ())"

definition validate_grant :: "engine_policy \<Rightarrow> resource_grant \<Rightarrow> rejection + unit" where
  "validate_grant pol g =
     (if gr_id g = [] \<or> gr_principal g = [] \<or> gr_policy_hash g = []
      then Inl (InvalidInput ''grant.id/principal/policy_hash'' MustBeNonEmpty)
      else if gr_issued_at_ms g \<ge> gr_expires_at_ms g
      then Inl (InvalidInput ''grant.issued_at_ms/expires_at_ms'' InvalidTimeRange)
      else if gr_policy_hash g \<noteq> pol_policy_hash pol
      then Inl (ScopeExceeded (ScopePolicyHashMismatch (pol_policy_hash pol) (gr_policy_hash g)))
      else if pol_browser_foreground_only pol \<and> \<not> gr_browser_foreground_only g
      then Inl (ScopeExceeded ScopeBackgroundExecutionForbidden)
      else rbind (validate_nonzero (grant_caps g)) (\<lambda>_. require_within (grant_caps g) (pol_maximum pol)))"

fun failure_of :: "stop_reason \<Rightarrow> attempt_failure" where
  "failure_of StopConsentRevoked = FailConsentRevoked"
| "failure_of StopConsentExpired = FailConsentExpired"

definition append_stop_events :: "aggregate \<Rightarrow> exchange_event list \<Rightarrow> stop_reason \<Rightarrow> exchange_event list" where
  "append_stop_events st evs reason =
     evs
     @ (case ag_lease st of LeaseActive l \<Rightarrow> [EvLeaseStopped (le_id l) reason] | _ \<Rightarrow> [])
     @ (case ag_attempt st of
          AttemptOffered a \<Rightarrow> [EvAttemptFailed (as_id a) None (failure_of reason)]
        | AttemptRunning a \<Rightarrow> [EvAttemptFailed (at_assignment_id a) (Some (at_id a)) (failure_of reason)]
        | _ \<Rightarrow> [])"

definition stop_sandbox_effect :: "aggregate \<Rightarrow> idempotency_key \<Rightarrow> sandbox_stop_reason \<Rightarrow> exchange_effect" where
  "stop_sandbox_effect st key reason =
     StopSandbox (effect_id_of key ''stop-sandbox'') (ag_node_id st)
       (case ag_lease st of LeaseActive l \<Rightarrow> Some (le_id l) | _ \<Rightarrow> None) (active_attempt_id st) reason"

type_synonym decision = "rejection + exchange_event list \<times> exchange_effect list"

definition decide_grant :: "aggregate \<Rightarrow> engine_policy \<Rightarrow> resource_grant \<Rightarrow> u64 \<Rightarrow> decision" where
  "decide_grant st pol g gen =
     (case ag_consent st of
        ConsentActive _ \<Rightarrow> Inl (invalid st ''GrantConsent'')
      | _ \<Rightarrow>
         if has_outstanding_assignment st \<or> (case ag_settlement st of SettlementPrepared _ \<Rightarrow> True | _ \<Rightarrow> False)
         then Inl (invalid st ''GrantConsent'')
         else rbind (validate_grant pol g) (\<lambda>_.
           if gr_issued_at_ms g < ag_observed_at_ms st then Inl (InvalidInput ''issued_at_ms'' InvalidTimeRange)
           else Inr ([EvConsentGranted gen g], [])))"

definition decide_observe_time :: "aggregate \<Rightarrow> idempotency_key \<Rightarrow> u64 \<Rightarrow> decision" where
  "decide_observe_time st key t =
     (if t < ag_observed_at_ms st then Inl (InvalidInput ''observed_at_ms'' InvalidTimeRange)
      else case (ag_consent st, ag_grant st) of
        (ConsentActive gid, Some g) \<Rightarrow>
          (if t \<ge> gr_expires_at_ms g
           then Inr (append_stop_events st [EvTimeObserved t, EvConsentExpired gid t] StopConsentExpired,
                     [stop_sandbox_effect st key SandboxConsentExpired])
           else Inr ([EvTimeObserved t], []))
      | _ \<Rightarrow> Inr ([EvTimeObserved t], []))"

definition decide_open_lease :: "aggregate \<Rightarrow> engine_policy \<Rightarrow> resource_lease \<Rightarrow> decision" where
  "decide_open_lease st pol l =
     rbind (active_grant st) (\<lambda>g.
       if \<not> (case ag_lease st of LeaseActive _ \<Rightarrow> False | _ \<Rightarrow> True) then Inl (invalid st ''OpenLease'')
       else if le_grant_id l \<noteq> gr_id g \<or> le_generation l \<noteq> ag_generation st
       then Inl (InvalidInput ''lease.grant_id/generation'' DoesNotMatchRecordedValue)
       else if le_id l = [] then Inl (InvalidInput ''lease.id'' MustBeNonEmpty)
       else rbind (validate_mode pol (le_mode l)) (\<lambda>_.
            rbind (validate_nonzero (le_resources l)) (\<lambda>_.
            rbind (require_within (le_resources l) (grant_caps g)) (\<lambda>_.
              Inr ([EvLeaseOpened l], [])))))"

definition decide_offer :: "aggregate \<Rightarrow> engine_policy \<Rightarrow> assignment \<Rightarrow> decision" where
  "decide_offer st pol a =
     rbind (active_grant st) (\<lambda>_.
     rbind (active_lease st) (\<lambda>l.
       if has_outstanding_assignment st \<or> pol_maximum_outstanding_assignments pol = 0
       then Inl (invalid st ''OfferAssignment'')
       else if as_lease_id a \<noteq> le_id l \<or> as_generation a \<noteq> ag_generation st
       then Inl (InvalidInput ''assignment.lease_id/generation'' DoesNotMatchRecordedValue)
       else if as_id a = [] \<or> as_requester a = [] \<or> as_workload_digest a = []
       then Inl (InvalidInput ''assignment.id/requester/workload_digest'' MustBeNonEmpty)
       else rbind (validate_mode pol (as_mode a)) (\<lambda>_.
            rbind (validate_nonzero (as_resources a)) (\<lambda>_.
            rbind (require_within (as_resources a) (le_resources l)) (\<lambda>_.
              Inr ([EvAssignmentOffered a], []))))))"

definition decide_start :: "aggregate \<Rightarrow> idempotency_key \<Rightarrow> attempt_id \<Rightarrow> assignment_id \<Rightarrow> decision" where
  "decide_start st key aid asid =
     rbind (active_grant st) (\<lambda>g.
     rbind (active_lease st) (\<lambda>l.
       case ag_attempt st of
         AttemptOffered a \<Rightarrow>
           (if aid = [] \<or> as_id a \<noteq> asid \<or> as_lease_id a \<noteq> le_id l
            then Inl (InvalidInput ''attempt_id/assignment_id'' DoesNotMatchRecordedValue)
            else Inr ([EvAttemptStarted \<lparr>at_id = aid, at_assignment_id = asid, at_producer = gr_principal g,
                        at_generation = ag_generation st, at_resources = as_resources a,
                        at_workload_digest = as_workload_digest a\<rparr>],
                      [StartSandbox (effect_id_of key ''start-sandbox'') (ag_node_id st) (le_id l) (as_id a) aid
                        (as_mode a) (as_resources a) (as_workload_digest a)]))
       | _ \<Rightarrow> Inl (invalid st ''StartAttempt'')))"

definition decide_submit_result :: "aggregate \<Rightarrow> idempotency_key \<Rightarrow> attempt_id \<Rightarrow> submitted_result \<Rightarrow> decision" where
  "decide_submit_result st key aid r =
     rbind (active_grant st) (\<lambda>g.
     rbind (active_lease st) (\<lambda>l.
       case ag_attempt st of
         AttemptRunning a \<Rightarrow>
           (if at_id a \<noteq> aid then Inl (invalid st ''SubmitResult'')
            else if sr_producer r \<noteq> gr_principal g \<or> sr_producer r \<noteq> at_producer a
            then Inl (Unauthorized ResultProducerMismatch)
            else if sr_result_digest r = [] then Inl (InvalidInput ''result_digest'' MustBeNonEmpty)
            else rbind (validate_nonzero (sr_usage r)) (\<lambda>_.
                 rbind (require_within (sr_usage r) (at_resources a)) (\<lambda>_.
                   Inr ([EvResultSubmitted aid r],
                        [StopSandbox (effect_id_of key ''stop-sandbox-result-submitted'') (ag_node_id st)
                           (Some (le_id l)) (Some aid) SandboxResultSubmitted]))))
       | _ \<Rightarrow> Inl (invalid st ''SubmitResult'')))"

definition decide_verify ::
    "aggregate \<Rightarrow> attempt_id \<Rightarrow> principal_id \<Rightarrow> verifier_capability \<Rightarrow> verification_verdict \<Rightarrow> decision" where
  "decide_verify st aid verifier cap verdict =
     (case ag_attempt st of
        AttemptResultSubmitted a r \<Rightarrow>
          (if at_id a \<noteq> aid then Inl (invalid st ''VerifyResult'')
           else if verifier = [] \<or> vcap_id cap = [] then Inl (InvalidInput ''verifier/capability.id'' MustBeNonEmpty)
           else if vcap_not_before_ms cap \<ge> vcap_expires_at_ms cap
           then Inl (InvalidInput ''capability.not_before_ms/expires_at_ms'' InvalidTimeRange)
           else if verifier = sr_producer r then Inl (Unauthorized ProducerIsVerifier)
           else if vcap_subject cap \<noteq> verifier then Inl (Unauthorized CapabilitySubjectMismatch)
           else if vcap_node_id cap \<noteq> ag_node_id st then Inl (Unauthorized CapabilityNodeMismatch)
           else if vcap_attempt_id cap \<noteq> at_id a then Inl (Unauthorized CapabilityAttemptMismatch)
           else if ag_observed_at_ms st < vcap_not_before_ms cap then Inl (Unauthorized CapabilityNotYetValid)
           else if ag_observed_at_ms st \<ge> vcap_expires_at_ms cap then Inl (Unauthorized CapabilityExpired)
           else (case verdict of
               VerdictAccept \<Rightarrow>
                 Inr ([EvResultVerified \<lparr>vr_attempt_id = at_id a, vr_verifier = verifier, vr_capability_id = vcap_id cap,
                         vr_result_digest = sr_result_digest r, vr_verified_at_ms = ag_observed_at_ms st\<rparr>], [])
             | VerdictReject code \<Rightarrow>
                 (if code = [] then Inl (InvalidInput ''verification_rejection_code'' MustBeNonEmpty)
                  else Inr ([EvResultRejected (at_id a) code], []))))
      | _ \<Rightarrow> Inl (invalid st ''VerifyResult''))"

definition decide_prepare_settlement ::
    "aggregate \<Rightarrow> idempotency_key \<Rightarrow> settlement_id \<Rightarrow> attempt_id \<Rightarrow> u64 \<Rightarrow> decision" where
  "decide_prepare_settlement st key sid aid credits =
     rbind (case ag_attempt st of
          AttemptVerified a r _ \<Rightarrow> if at_id a = aid then Inr (a, r) else Inl (invalid st ''PrepareSettlement'')
        | AttemptResultSubmitted _ _ \<Rightarrow> Inl ResultUnverified
        | AttemptRunning _ \<Rightarrow> Inl ResultUnverified
        | AttemptOffered _ \<Rightarrow> Inl ResultUnverified
        | _ \<Rightarrow> Inl (invalid st ''PrepareSettlement'')) (\<lambda>(a, r).
       if ag_settlement st \<noteq> SettlementNone then Inl (invalid st ''PrepareSettlement'')
       else if sid = [] \<or> credits = 0 then Inl (InvalidInput ''settlement_id/service_credits'' MustBePositive)
       else (case ag_grant st of
           None \<Rightarrow> Inl ConsentRequired
         | Some g \<Rightarrow>
            (let plan = \<lparr>sp_id = sid, sp_attempt_id = at_id a, sp_beneficiary = gr_principal g,
                         sp_service_credits = credits, sp_verified_result_digest = sr_result_digest r\<rparr>
             in Inr ([EvSettlementPrepared plan], [PostServiceCredit (effect_id_of key ''post-service-credit'') plan]))))"

definition decide_record_receipt :: "aggregate \<Rightarrow> settlement_receipt \<Rightarrow> decision" where
  "decide_record_receipt st rc =
     (case ag_settlement st of
        SettlementPrepared plan \<Rightarrow>
          (if rcp_settlement_id rc \<noteq> sp_id plan \<or> rcp_service_credits rc \<noteq> sp_service_credits plan \<or>
              rcp_external_reference rc = []
           then Inl (InvalidInput ''settlement_receipt'' DoesNotMatchRecordedValue)
           else Inr ([EvSettlementReceiptRecorded rc], []))
      | _ \<Rightarrow> Inl (invalid st ''RecordSettlementReceipt''))"

definition decide_revoke :: "aggregate \<Rightarrow> idempotency_key \<Rightarrow> grant_id \<Rightarrow> string \<Rightarrow> decision" where
  "decide_revoke st key gid reason =
     rbind (active_grant st) (\<lambda>g.
       if gid \<noteq> gr_id g then Inl (InvalidInput ''grant_id'' DoesNotMatchRecordedValue)
       else if reason = [] then Inl (InvalidInput ''reason'' MustBeNonEmpty)
       else Inr (append_stop_events st [EvConsentRevoked gid (ag_observed_at_ms st) reason] StopConsentRevoked,
                 [stop_sandbox_effect st key SandboxConsentRevoked]))"

fun decide_command :: "aggregate \<Rightarrow> engine_policy \<Rightarrow> idempotency_key \<Rightarrow> u64 \<Rightarrow> exchange_command \<Rightarrow> decision" where
  "decide_command st pol key gen (GrantConsent g) = decide_grant st pol g gen"
| "decide_command st pol key gen (ObserveTime t) = decide_observe_time st key t"
| "decide_command st pol key gen (OpenLease l) = decide_open_lease st pol l"
| "decide_command st pol key gen (OfferAssignment a) = decide_offer st pol a"
| "decide_command st pol key gen (StartAttempt aid asid) = decide_start st key aid asid"
| "decide_command st pol key gen (SubmitResult aid r) = decide_submit_result st key aid r"
| "decide_command st pol key gen (VerifyResult aid v cap vd) = decide_verify st aid v cap vd"
| "decide_command st pol key gen (PrepareSettlement sid aid c) = decide_prepare_settlement st key sid aid c"
| "decide_command st pol key gen (RecordSettlementReceipt rc) = decide_record_receipt st rc"
| "decide_command st pol key gen (RevokeConsent gid reason) = decide_revoke st key gid reason"

definition decide :: "aggregate \<Rightarrow> engine_policy \<Rightarrow> idempotency_key \<Rightarrow> exchange_command \<Rightarrow> u64 \<Rightarrow> command_outcome" where
  "decide st pol key cmd gen =
     (case decide_command st pol key gen cmd of
        Inr (evs, effs) \<Rightarrow> accepted evs effs
      | Inl reason \<Rightarrow> rejected reason)"

section \<open>Evolution\<close>

fun evolve :: "aggregate \<Rightarrow> exchange_event \<Rightarrow> aggregate" where
  "evolve st (EvConsentGranted gen g) =
     st\<lparr>ag_generation := gen, ag_observed_at_ms := gr_issued_at_ms g, ag_consent := ConsentActive (gr_id g),
        ag_grant := Some g, ag_lease := LeaseClosed, ag_attempt := AttemptNone, ag_settlement := SettlementNone\<rparr>"
| "evolve st (EvTimeObserved t) = st\<lparr>ag_observed_at_ms := t\<rparr>"
| "evolve st (EvLeaseOpened l) = st\<lparr>ag_lease := LeaseActive l\<rparr>"
| "evolve st (EvAssignmentOffered a) = st\<lparr>ag_attempt := AttemptOffered a, ag_settlement := SettlementNone\<rparr>"
| "evolve st (EvAttemptStarted a) = st\<lparr>ag_attempt := AttemptRunning a\<rparr>"
| "evolve st (EvResultSubmitted _ r) =
     (case ag_attempt st of AttemptRunning a \<Rightarrow> st\<lparr>ag_attempt := AttemptResultSubmitted a r\<rparr> | _ \<Rightarrow> st)"
| "evolve st (EvResultVerified v) =
     (case ag_attempt st of AttemptResultSubmitted a r \<Rightarrow> st\<lparr>ag_attempt := AttemptVerified a r v\<rparr> | _ \<Rightarrow> st)"
| "evolve st (EvResultRejected _ code) =
     (case ag_attempt st of
        AttemptResultSubmitted a _ \<Rightarrow>
          st\<lparr>ag_attempt := AttemptFailed (at_assignment_id a) (Some (at_id a)) (FailVerificationRejected code)\<rparr>
      | _ \<Rightarrow> st)"
| "evolve st (EvSettlementPrepared plan) = st\<lparr>ag_settlement := SettlementPrepared plan\<rparr>"
| "evolve st (EvSettlementReceiptRecorded rc) =
     (case ag_settlement st of SettlementPrepared plan \<Rightarrow> st\<lparr>ag_settlement := SettlementPosted plan rc\<rparr> | _ \<Rightarrow> st)"
| "evolve st (EvConsentRevoked gid t _) = st\<lparr>ag_consent := ConsentRevoked gid t\<rparr>"
| "evolve st (EvConsentExpired gid t) = st\<lparr>ag_consent := ConsentExpired gid t\<rparr>"
| "evolve st (EvLeaseStopped lid reason) = st\<lparr>ag_lease := LeaseStopped lid reason\<rparr>"
| "evolve st (EvAttemptFailed asid aid reason) = st\<lparr>ag_attempt := AttemptFailed asid aid reason\<rparr>"

text \<open>The \<open>debug_assert_eq!\<close> checks of \<open>evolve\<close>: a debug build panics where this is false.\<close>

fun evolve_asserts :: "aggregate \<Rightarrow> exchange_event \<Rightarrow> bool" where
  "evolve_asserts st (EvResultSubmitted aid _) =
     (case ag_attempt st of AttemptRunning a \<Rightarrow> at_id a = aid | _ \<Rightarrow> True)"
| "evolve_asserts st (EvResultVerified v) =
     (case ag_attempt st of AttemptResultSubmitted a _ \<Rightarrow> at_id a = vr_attempt_id v | _ \<Rightarrow> True)"
| "evolve_asserts st (EvResultRejected aid _) =
     (case ag_attempt st of AttemptResultSubmitted a _ \<Rightarrow> at_id a = aid | _ \<Rightarrow> True)"
| "evolve_asserts st _ = True"

section \<open>The engine\<close>

record intent =
  in_generation :: u64
  in_command :: exchange_command

record inbox_record =
  ib_fingerprint :: string
  ib_intent :: intent
  ib_outcome :: command_outcome

record exchange =
  cx_policy :: engine_policy
  cx_aggregate :: aggregate
  cx_inbox :: "(idempotency_key, inbox_record) btree"

definition cx_new :: "node_id \<Rightarrow> engine_policy \<Rightarrow> exchange" where
  "cx_new n pol = \<lparr>cx_policy = pol, cx_aggregate = aggregate_new n, cx_inbox = []\<rparr>"

text \<open>\<open>{:016x}\<close> of an integer.\<close>

definition hex16 :: "u64 \<Rightarrow> string" where
  "hex16 w = map (\<lambda>i. hex_digit (unat w div 16 ^ i mod 16)) (rev [0..<16])"

definition fingerprint :: "(exchange_command \<Rightarrow> string) \<Rightarrow> intent \<Rightarrow> string" where
  "fingerprint dbg i =
     (let material = ''v1'' @ [CHR 0x00] @ dec_string (unat (in_generation i)) @ [CHR 0x00] @ dbg (in_command i)
      in ''v1-fnv64-'' @ hex16 (fnv1a_64 (as_bytes material)))"

definition check_generation :: "exchange \<Rightarrow> command_envelope \<Rightarrow> rejection + unit" where
  "check_generation x env =
     (let gen = ag_generation (cx_aggregate x);
          expected = (case env_command env of GrantConsent _ \<Rightarrow> saturating_add gen 1 | _ \<Rightarrow> gen)
      in if env_generation env \<noteq> expected then Inl (StaleGeneration expected (env_generation env)) else Inr ())"

definition cx_handle ::
    "(exchange_command \<Rightarrow> string) \<Rightarrow> exchange \<Rightarrow> command_envelope \<Rightarrow> exchange \<times> command_outcome" where
  "cx_handle dbg x env =
     (if env_idempotency_key env = [] then (x, rejected (InvalidInput ''idempotency_key'' MustBeNonEmpty))
      else let intent = \<lparr>in_generation = env_generation env, in_command = env_command env\<rparr>;
               fp = fingerprint dbg intent
        in case map_of (cx_inbox x) (env_idempotency_key env) of
             Some record \<Rightarrow>
               (if ib_intent record = intent then (x, replay_receipt (ib_outcome record))
                else (x, rejected (IdempotencyConflict (env_idempotency_key env) (ib_fingerprint record) fp)))
           | None \<Rightarrow>
               (let outcome = (case check_generation x env of
                      Inr _ \<Rightarrow> decide (cx_aggregate x) (cx_policy x) (env_idempotency_key env) (env_command env) (env_generation env)
                    | Inl reason \<Rightarrow> rejected reason)
                in (x\<lparr>cx_aggregate := foldl evolve (cx_aggregate x) (outcome_events outcome),
                      cx_inbox := bt_insert (env_idempotency_key env)
                        \<lparr>ib_fingerprint = fp, ib_intent = intent, ib_outcome = outcome\<rparr> (cx_inbox x)\<rparr>,
                    outcome)))"

end
