(* ===== verification/Exchange_Safety.thy ===== *)
theory Exchange_Safety
  imports Exchange
begin

text \<open>
  What the compute exchange promises over every sequence of command envelopes: its aggregate
  invariant, consent before work, the accounting of sandboxes and credits, idempotent replay and
  the reconstruction of the aggregate from its events.
\<close>

section \<open>Runs\<close>

fun cx_run :: "(exchange_command \<Rightarrow> string) \<Rightarrow> exchange \<Rightarrow> command_envelope list \<Rightarrow> exchange \<times> command_outcome list" where
  "cx_run dbg x [] = (x, [])"
| "cx_run dbg x (env # envs) =
     (let (x', out) = cx_handle dbg x env; (x'', outs) = cx_run dbg x' envs in (x'', out # outs))"

definition cx_after :: "(exchange_command \<Rightarrow> string) \<Rightarrow> exchange \<Rightarrow> command_envelope list \<Rightarrow> exchange" where
  "cx_after dbg x envs = fst (cx_run dbg x envs)"

definition cx_outcomes :: "(exchange_command \<Rightarrow> string) \<Rightarrow> exchange \<Rightarrow> command_envelope list \<Rightarrow> command_outcome list" where
  "cx_outcomes dbg x envs = snd (cx_run dbg x envs)"

text \<open>The effects the shell is asked to perform, and the events it is told to persist: those of
  every outcome that is not a replay.\<close>

definition cx_effects :: "(exchange_command \<Rightarrow> string) \<Rightarrow> exchange \<Rightarrow> command_envelope list \<Rightarrow> exchange_effect list" where
  "cx_effects dbg x envs = concat (map outcome_effects (cx_outcomes dbg x envs))"

definition cx_journal :: "(exchange_command \<Rightarrow> string) \<Rightarrow> exchange \<Rightarrow> command_envelope list \<Rightarrow> exchange_event list" where
  "cx_journal dbg x envs =
     concat (map outcome_events (filter (\<lambda>out. \<not> outcome_replayed out) (cx_outcomes dbg x envs)))"

lemma cx_after_simps [simp]:
  "cx_after dbg x [] = x"
  "cx_after dbg x (env # envs) = cx_after dbg (fst (cx_handle dbg x env)) envs"
  by (simp_all add: cx_after_def split: prod.splits)

lemma cx_outcomes_simps [simp]:
  "cx_outcomes dbg x [] = []"
  "cx_outcomes dbg x (env # envs) = snd (cx_handle dbg x env) # cx_outcomes dbg (fst (cx_handle dbg x env)) envs"
  by (simp_all add: cx_outcomes_def split: prod.splits)

lemma cx_after_append: "cx_after dbg x (as @ bs) = cx_after dbg (cx_after dbg x as) bs"
  by (induction as arbitrary: x) simp_all

lemma cx_outcomes_append:
  "cx_outcomes dbg x (as @ bs) = cx_outcomes dbg x as @ cx_outcomes dbg (cx_after dbg x as) bs"
  by (induction as arbitrary: x) simp_all

lemma cx_effects_simps [simp]:
  "cx_effects dbg x [] = []"
  "cx_effects dbg x (env # envs) =
     outcome_effects (snd (cx_handle dbg x env)) @ cx_effects dbg (fst (cx_handle dbg x env)) envs"
  by (simp_all add: cx_effects_def)

section \<open>Resource bounds\<close>

definition caps_le :: "resource_caps \<Rightarrow> resource_caps \<Rightarrow> bool" where
  "caps_le a b \<longleftrightarrow> rc_workers a \<le> rc_workers b \<and> rc_duty_cycle_percent a \<le> rc_duty_cycle_percent b \<and>
     rc_memory_mib a \<le> rc_memory_mib b \<and> rc_network_bytes a \<le> rc_network_bytes b \<and> (rc_gpu a \<longrightarrow> rc_gpu b)"

lemma require_within_ok: "require_within c u = Inr () \<longleftrightarrow> caps_le c u"
  by (auto simp: require_within_def caps_le_def)

lemma caps_le_trans: "caps_le a b \<Longrightarrow> caps_le b c \<Longrightarrow> caps_le a c"
  by (auto simp: caps_le_def)

section \<open>The invariant of the aggregate\<close>

fun consent_ok :: "engine_policy \<Rightarrow> resource_grant option \<Rightarrow> u64 \<Rightarrow> consent_state \<Rightarrow> bool" where
  "consent_ok pol (Some g) t (ConsentActive gid) \<longleftrightarrow> gr_id g = gid \<and> validate_grant pol g = Inr () \<and> t < gr_expires_at_ms g"
| "consent_ok pol None t (ConsentActive gid) = False"
| "consent_ok pol g t _ = True"

fun lease_ok :: "engine_policy \<Rightarrow> consent_state \<Rightarrow> resource_grant option \<Rightarrow> u64 \<Rightarrow> lease_state \<Rightarrow> bool" where
  "lease_ok pol (ConsentActive _) (Some g) gen (LeaseActive l) \<longleftrightarrow>
     le_grant_id l = gr_id g \<and> le_generation l = gen \<and> validate_mode pol (le_mode l) = Inr () \<and>
     caps_le (le_resources l) (grant_caps g)"
| "lease_ok pol _ _ gen (LeaseActive l) = False"
| "lease_ok pol _ _ gen _ = True"

fun producer_ok :: "resource_grant option \<Rightarrow> attempt \<Rightarrow> submitted_result \<Rightarrow> bool" where
  "producer_ok None a r = False"
| "producer_ok (Some g) a r \<longleftrightarrow>
     at_producer a = gr_principal g \<and> sr_producer r = at_producer a \<and> caps_le (sr_usage r) (at_resources a)"

fun attempt_ok :: "engine_policy \<Rightarrow> lease_state \<Rightarrow> resource_grant option \<Rightarrow> attempt_state \<Rightarrow> bool" where
  "attempt_ok pol (LeaseActive l) g (AttemptOffered a) \<longleftrightarrow>
     as_lease_id a = le_id l \<and> validate_mode pol (as_mode a) = Inr () \<and> caps_le (as_resources a) (le_resources l)"
| "attempt_ok pol _ g (AttemptOffered a) = False"
| "attempt_ok pol (LeaseActive l) (Some g) (AttemptRunning a) \<longleftrightarrow>
     at_producer a = gr_principal g \<and> caps_le (at_resources a) (le_resources l)"
| "attempt_ok pol _ _ (AttemptRunning a) = False"
| "attempt_ok pol _ g (AttemptResultSubmitted a r) = producer_ok g a r"
| "attempt_ok pol _ g (AttemptVerified a r v) \<longleftrightarrow>
     producer_ok g a r \<and> vr_verifier v \<noteq> at_producer a \<and> vr_attempt_id v = at_id a \<and> vr_result_digest v = sr_result_digest r"
| "attempt_ok pol _ _ _ = True"

fun plan_ok :: "attempt_state \<Rightarrow> settlement_plan \<Rightarrow> bool" where
  "plan_ok (AttemptVerified a r v) p \<longleftrightarrow> sp_attempt_id p = at_id a \<and> sp_beneficiary p = at_producer a \<and>
     sp_verified_result_digest p = vr_result_digest v \<and> sp_service_credits p \<noteq> 0"
| "plan_ok _ p = False"

fun settlement_ok :: "attempt_state \<Rightarrow> settlement_state \<Rightarrow> bool" where
  "settlement_ok at SettlementNone = True"
| "settlement_ok at (SettlementPrepared p) = plan_ok at p"
| "settlement_ok at (SettlementPosted p rc) \<longleftrightarrow>
     plan_ok at p \<and> rcp_settlement_id rc = sp_id p \<and> rcp_service_credits rc = sp_service_credits p"

definition ex_inv :: "engine_policy \<Rightarrow> aggregate \<Rightarrow> bool" where
  "ex_inv pol st \<longleftrightarrow>
     consent_ok pol (ag_grant st) (ag_observed_at_ms st) (ag_consent st) \<and>
     lease_ok pol (ag_consent st) (ag_grant st) (ag_generation st) (ag_lease st) \<and>
     attempt_ok pol (ag_lease st) (ag_grant st) (ag_attempt st) \<and>
     settlement_ok (ag_attempt st) (ag_settlement st)"

lemma settlement_ok_unverified [simp]:
  "settlement_ok AttemptNone s \<longleftrightarrow> s = SettlementNone"
  "settlement_ok (AttemptOffered asg) s \<longleftrightarrow> s = SettlementNone"
  "settlement_ok (AttemptRunning a) s \<longleftrightarrow> s = SettlementNone"
  "settlement_ok (AttemptResultSubmitted a r) s \<longleftrightarrow> s = SettlementNone"
  "settlement_ok (AttemptFailed asid aid f) s \<longleftrightarrow> s = SettlementNone"
  by (cases s; simp)+

lemma attempt_ok_no_lease:
  "attempt_ok pol ls g at \<Longrightarrow> \<forall>l. ls \<noteq> LeaseActive l \<Longrightarrow> attempt_ok pol ls' g at"
  by (cases ls; cases at) auto

lemma producer_ok_same: "producer_ok g a r \<Longrightarrow> sr_producer r = at_producer a"
  by (cases g) auto

lemma ex_inv_new: "ex_inv pol (aggregate_new n)"
  by (simp add: ex_inv_def aggregate_new_def)

text \<open>What an active grant and lease are.\<close>

lemma active_grant_ok: "active_grant st = Inr g \<longleftrightarrow>
   (\<exists>gid. ag_consent st = ConsentActive gid) \<and> ag_grant st = Some g \<and> ag_observed_at_ms st < gr_expires_at_ms g"
  by (auto simp: active_grant_def not_le split: consent_state.splits option.splits if_splits)

lemma active_lease_ok: "active_lease st = Inr l \<longleftrightarrow> ag_lease st = LeaseActive l"
  by (auto simp: active_lease_def split: lease_state.splits)

lemmas decide_ok = rbind_eq_Inr active_grant_ok active_lease_ok require_within_ok

section \<open>The state machine of the accepted commands\<close>

text \<open>
  The transitions of the aggregate, one rule per accepted command and verdict, with the effects they
  request. The decisions of the code, applied by \<open>evolve\<close>, refine this relation.
\<close>

fun stopped_lease :: "stop_reason \<Rightarrow> lease_state \<Rightarrow> lease_state" where
  "stopped_lease reason (LeaseActive l) = LeaseStopped (le_id l) reason"
| "stopped_lease reason ls = ls"

fun stopped_attempt :: "stop_reason \<Rightarrow> attempt_state \<Rightarrow> attempt_state" where
  "stopped_attempt reason (AttemptOffered a) = AttemptFailed (as_id a) None (failure_of reason)"
| "stopped_attempt reason (AttemptRunning a) = AttemptFailed (at_assignment_id a) (Some (at_id a)) (failure_of reason)"
| "stopped_attempt reason at = at"

definition cx_stopped :: "stop_reason \<Rightarrow> u64 \<Rightarrow> consent_state \<Rightarrow> aggregate \<Rightarrow> aggregate" where
  "cx_stopped reason t c st = st\<lparr>ag_observed_at_ms := t, ag_consent := c,
     ag_lease := stopped_lease reason (ag_lease st), ag_attempt := stopped_attempt reason (ag_attempt st)\<rparr>"

inductive fsm :: "engine_policy \<Rightarrow> idempotency_key \<Rightarrow> u64 \<Rightarrow> exchange_command \<Rightarrow> aggregate \<Rightarrow> exchange_effect list \<Rightarrow> aggregate \<Rightarrow> bool"
  for pol key gen where
  fsm_grant: "fsm pol key gen (GrantConsent g) st []
      (st\<lparr>ag_generation := gen, ag_observed_at_ms := gr_issued_at_ms g, ag_consent := ConsentActive (gr_id g),
          ag_grant := Some g, ag_lease := LeaseClosed, ag_attempt := AttemptNone, ag_settlement := SettlementNone\<rparr>)"
  if "validate_grant pol g = Inr ()" "gr_issued_at_ms g < gr_expires_at_ms g" "\<not> has_outstanding_assignment st"
    "ag_observed_at_ms st \<le> gr_issued_at_ms g"
| fsm_tick: "fsm pol key gen (ObserveTime t) st [] (st\<lparr>ag_observed_at_ms := t\<rparr>)"
  if "ag_observed_at_ms st \<le> t"
    "\<And>gid g. ag_consent st = ConsentActive gid \<Longrightarrow> ag_grant st = Some g \<Longrightarrow> t < gr_expires_at_ms g"
| fsm_expire: "fsm pol key gen (ObserveTime t) st [stop_sandbox_effect st key SandboxConsentExpired]
      (cx_stopped StopConsentExpired t (ConsentExpired gid t) st)"
  if "ag_consent st = ConsentActive gid" "ag_observed_at_ms st \<le> t"
| fsm_revoke: "fsm pol key gen (RevokeConsent gid reason) st [stop_sandbox_effect st key SandboxConsentRevoked]
      (cx_stopped StopConsentRevoked (ag_observed_at_ms st) (ConsentRevoked gid (ag_observed_at_ms st)) st)"
| fsm_open: "fsm pol key gen (OpenLease l) st [] (st\<lparr>ag_lease := LeaseActive l\<rparr>)"
  if "ag_consent st = ConsentActive gid" "ag_grant st = Some g" "le_grant_id l = gr_id g" "le_generation l = ag_generation st"
    "validate_mode pol (le_mode l) = Inr ()" "caps_le (le_resources l) (grant_caps g)" "\<forall>l'. ag_lease st \<noteq> LeaseActive l'"
| fsm_offer: "fsm pol key gen (OfferAssignment a) st [] (st\<lparr>ag_attempt := AttemptOffered a, ag_settlement := SettlementNone\<rparr>)"
  if "ag_lease st = LeaseActive l" "as_lease_id a = le_id l" "validate_mode pol (as_mode a) = Inr ()"
    "caps_le (as_resources a) (le_resources l)" "\<not> has_outstanding_assignment st"
| fsm_start: "fsm pol key gen (StartAttempt aid (as_id a)) st
      [StartSandbox (effect_id_of key ''start-sandbox'') (ag_node_id st) (le_id l) (as_id a) aid (as_mode a) (as_resources a)
        (as_workload_digest a)]
      (st\<lparr>ag_attempt := AttemptRunning \<lparr>at_id = aid, at_assignment_id = as_id a, at_producer = gr_principal g,
          at_generation = ag_generation st, at_resources = as_resources a, at_workload_digest = as_workload_digest a\<rparr>\<rparr>)"
  if "ag_consent st = ConsentActive gid" "ag_grant st = Some g" "ag_observed_at_ms st < gr_expires_at_ms g"
    "ag_lease st = LeaseActive l" "ag_attempt st = AttemptOffered a"
| fsm_submit: "fsm pol key gen (SubmitResult (at_id a) r) st
      [StopSandbox (effect_id_of key ''stop-sandbox-result-submitted'') (ag_node_id st) (Some (le_id l)) (Some (at_id a))
        SandboxResultSubmitted]
      (st\<lparr>ag_attempt := AttemptResultSubmitted a r\<rparr>)"
  if "ag_grant st = Some g" "ag_lease st = LeaseActive l" "ag_attempt st = AttemptRunning a" "sr_producer r = gr_principal g"
    "sr_producer r = at_producer a" "caps_le (sr_usage r) (at_resources a)"
| fsm_verify: "fsm pol key gen (VerifyResult (at_id a) verifier cap VerdictAccept) st [] (st\<lparr>ag_attempt := AttemptVerified a r v\<rparr>)"
  if "ag_attempt st = AttemptResultSubmitted a r" "vr_verifier v = verifier" "verifier \<noteq> sr_producer r" "vr_attempt_id v = at_id a"
    "vr_result_digest v = sr_result_digest r"
| fsm_reject: "fsm pol key gen (VerifyResult (at_id a) verifier cap (VerdictReject code)) st []
      (st\<lparr>ag_attempt := AttemptFailed (at_assignment_id a) (Some (at_id a)) (FailVerificationRejected code)\<rparr>)"
  if "ag_attempt st = AttemptResultSubmitted a r"
| fsm_prepare: "fsm pol key gen (PrepareSettlement sid (at_id a) credits) st
      [PostServiceCredit (effect_id_of key ''post-service-credit'') plan] (st\<lparr>ag_settlement := SettlementPrepared plan\<rparr>)"
  if "ag_attempt st = AttemptVerified a r v" "ag_settlement st = SettlementNone" "ag_grant st = Some g" "credits \<noteq> 0"
    "plan = \<lparr>sp_id = sid, sp_attempt_id = at_id a, sp_beneficiary = gr_principal g,
             sp_service_credits = credits, sp_verified_result_digest = sr_result_digest r\<rparr>"
| fsm_receipt: "fsm pol key gen (RecordSettlementReceipt rc) st [] (st\<lparr>ag_settlement := SettlementPosted p rc\<rparr>)"
  if "ag_settlement st = SettlementPrepared p" "rcp_settlement_id rc = sp_id p" "rcp_service_credits rc = sp_service_credits p"

subsection \<open>What each decision does\<close>

lemma grant_step:
  assumes "decide_grant st pol g gen = Inr (evs, effs)"
  shows "evs = [EvConsentGranted gen g] \<and> effs = [] \<and> validate_grant pol g = Inr () \<and>
    gr_issued_at_ms g < gr_expires_at_ms g \<and> \<not> has_outstanding_assignment st \<and> ag_observed_at_ms st \<le> gr_issued_at_ms g"
  using assms by (auto simp: decide_grant_def rbind_eq_Inr validate_grant_def split: consent_state.splits if_splits)

lemma append_stop_events_append: "append_stop_events st evs reason = evs @ append_stop_events st [] reason"
  by (simp add: append_stop_events_def)

lemma stop_events_evolve:
  "foldl evolve (st\<lparr>ag_observed_at_ms := t, ag_consent := c\<rparr>) (append_stop_events st [] reason) = cx_stopped reason t c st"
  by (cases "ag_lease st"; cases "ag_attempt st") (simp_all add: append_stop_events_def cx_stopped_def)

lemma observe_fsm:
  assumes "decide_observe_time st key t = Inr (evs, effs)"
  shows "fsm pol key gen (ObserveTime t) st effs (foldl evolve st evs)"
proof (cases "\<exists>gid g. ag_consent st = ConsentActive gid \<and> ag_grant st = Some g \<and> t \<ge> gr_expires_at_ms g")
  case True
  then obtain gid where c: "ag_consent st = ConsentActive gid" by blast
  with True assms have "evs = [EvTimeObserved t, EvConsentExpired gid t] @ append_stop_events st [] StopConsentExpired"
      "effs = [stop_sandbox_effect st key SandboxConsentExpired]" "ag_observed_at_ms st \<le> t"
    by (auto simp: decide_observe_time_def append_stop_events_append [of st "[_, _]"] split: if_splits)
  with c show ?thesis by (simp add: stop_events_evolve fsm_expire)
next
  case False
  with assms have "evs = [EvTimeObserved t]" "effs = []" "ag_observed_at_ms st \<le> t"
    by (auto simp: decide_observe_time_def split: if_splits consent_state.splits option.splits)
  with False show ?thesis by (auto simp: not_le intro!: fsm_tick)
qed

lemma revoke_fsm:
  assumes "decide_revoke st key gid reason = Inr (evs, effs)"
  shows "fsm pol key gen (RevokeConsent gid reason) st effs (foldl evolve st evs)"
proof -
  have "evs = EvConsentRevoked gid (ag_observed_at_ms st) reason # append_stop_events st [] StopConsentRevoked"
    "effs = [stop_sandbox_effect st key SandboxConsentRevoked]"
    using assms by (auto simp: decide_revoke_def decide_ok append_stop_events_append [of st "[_]"] split: if_splits)
  then show ?thesis
    using fsm_revoke [of pol key gen gid reason st] stop_events_evolve [where t = "ag_observed_at_ms st" and st = st] by simp
qed

lemma lease_step:
  assumes "decide_open_lease st pol l = Inr (evs, effs)"
  obtains g gid where "evs = [EvLeaseOpened l]" "effs = []" "ag_consent st = ConsentActive gid" "ag_grant st = Some g"
    "le_grant_id l = gr_id g" "le_generation l = ag_generation st" "validate_mode pol (le_mode l) = Inr ()"
    "caps_le (le_resources l) (grant_caps g)" "\<forall>l'. ag_lease st \<noteq> LeaseActive l'"
  using assms by (auto simp: decide_open_lease_def decide_ok split: if_splits lease_state.splits)

lemma offer_step:
  assumes "decide_offer st pol a = Inr (evs, effs)"
  obtains l where "evs = [EvAssignmentOffered a]" "effs = []" "ag_lease st = LeaseActive l" "as_lease_id a = le_id l"
    "validate_mode pol (as_mode a) = Inr ()" "caps_le (as_resources a) (le_resources l)" "\<not> has_outstanding_assignment st"
  using assms by (auto simp: decide_offer_def decide_ok split: if_splits)

lemma start_step:
  assumes "decide_start st key aid asid = Inr (evs, effs)"
  obtains g l a where "ag_grant st = Some g" "ag_lease st = LeaseActive l" "ag_attempt st = AttemptOffered a"
    "\<exists>gid. ag_consent st = ConsentActive gid" "ag_observed_at_ms st < gr_expires_at_ms g" "as_id a = asid"
    "evs = [EvAttemptStarted \<lparr>at_id = aid, at_assignment_id = asid, at_producer = gr_principal g,
                        at_generation = ag_generation st, at_resources = as_resources a,
                        at_workload_digest = as_workload_digest a\<rparr>]"
    "effs = [StartSandbox (effect_id_of key ''start-sandbox'') (ag_node_id st) (le_id l) (as_id a) aid
                        (as_mode a) (as_resources a) (as_workload_digest a)]"
  using assms by (cases "ag_attempt st") (auto simp: decide_start_def decide_ok split: if_splits)

lemma submit_step:
  assumes "decide_submit_result st key aid r = Inr (evs, effs)"
  obtains g l a where "ag_grant st = Some g" "ag_lease st = LeaseActive l" "ag_attempt st = AttemptRunning a"
    "at_id a = aid" "sr_producer r = gr_principal g" "sr_producer r = at_producer a" "caps_le (sr_usage r) (at_resources a)"
    "evs = [EvResultSubmitted aid r]"
    "effs = [StopSandbox (effect_id_of key ''stop-sandbox-result-submitted'') (ag_node_id st)
                           (Some (le_id l)) (Some aid) SandboxResultSubmitted]"
  using assms by (cases "ag_attempt st") (auto simp: decide_submit_result_def decide_ok split: if_splits)

lemma verify_step:
  assumes "decide_verify st aid verifier cap verdict = Inr (evs, effs)"
  obtains a r v where "verdict = VerdictAccept" "ag_attempt st = AttemptResultSubmitted a r" "at_id a = aid" "effs = []"
      "evs = [EvResultVerified v]" "vr_verifier v = verifier" "verifier \<noteq> sr_producer r" "vr_attempt_id v = at_id a"
      "vr_result_digest v = sr_result_digest r"
  | a r code where "verdict = VerdictReject code" "ag_attempt st = AttemptResultSubmitted a r" "at_id a = aid" "effs = []"
      "evs = [EvResultRejected (at_id a) code]"
  using assms
  by (cases "ag_attempt st") (auto simp: decide_verify_def split: if_splits verification_verdict.splits)

lemma prepare_step:
  assumes "decide_prepare_settlement st key sid aid credits = Inr (evs, effs)"
  obtains a r v g where "ag_attempt st = AttemptVerified a r v" "ag_settlement st = SettlementNone" "ag_grant st = Some g"
    "at_id a = aid" "credits \<noteq> 0"
    "evs = [EvSettlementPrepared \<lparr>sp_id = sid, sp_attempt_id = at_id a, sp_beneficiary = gr_principal g,
                         sp_service_credits = credits, sp_verified_result_digest = sr_result_digest r\<rparr>]"
    "effs = [PostServiceCredit (effect_id_of key ''post-service-credit'')
       \<lparr>sp_id = sid, sp_attempt_id = at_id a, sp_beneficiary = gr_principal g,
                         sp_service_credits = credits, sp_verified_result_digest = sr_result_digest r\<rparr>]"
  using assms
  by (cases "ag_attempt st")
    (auto simp: decide_prepare_settlement_def rbind_eq_Inr Let_def split: if_splits option.splits)

lemma receipt_step:
  assumes "decide_record_receipt st rc = Inr (evs, effs)"
  obtains p where "ag_settlement st = SettlementPrepared p" "rcp_settlement_id rc = sp_id p"
    "rcp_service_credits rc = sp_service_credits p" "evs = [EvSettlementReceiptRecorded rc]" "effs = []"
  using assms by (auto simp: decide_record_receipt_def split: if_splits settlement_state.splits)

text \<open>The decisions of the code refine the state machine.\<close>

lemma decide_fsm:
  assumes "decide_command st pol key gen cmd = Inr (evs, effs)"
  shows "fsm pol key gen cmd st effs (foldl evolve st evs)"
proof (cases cmd)
  case (GrantConsent g)
  with assms grant_step [of st pol g gen evs effs] show ?thesis by (auto intro!: fsm_grant)
next
  case (OpenLease l)
  with assms have "decide_open_lease st pol l = Inr (evs, effs)" by simp
  then show ?thesis by (rule lease_step) (use OpenLease in \<open>auto intro: fsm_open\<close>)
next
  case (OfferAssignment a)
  with assms have "decide_offer st pol a = Inr (evs, effs)" by simp
  then show ?thesis by (rule offer_step) (use OfferAssignment in \<open>auto intro: fsm_offer\<close>)
next
  case (StartAttempt aid asid)
  with assms have "decide_start st key aid asid = Inr (evs, effs)" by simp
  then show ?thesis by (rule start_step) (use StartAttempt in \<open>auto intro: fsm_start\<close>)
next
  case (SubmitResult aid r)
  with assms have "decide_submit_result st key aid r = Inr (evs, effs)" by simp
  then show ?thesis by (rule submit_step) (use SubmitResult in \<open>auto intro: fsm_submit\<close>)
next
  case (VerifyResult aid v cap vd)
  with assms have "decide_verify st aid v cap vd = Inr (evs, effs)" by simp
  then show ?thesis by (rule verify_step) (use VerifyResult in \<open>auto intro: fsm_verify fsm_reject\<close>)
next
  case (PrepareSettlement sid aid c)
  with assms have "decide_prepare_settlement st key sid aid c = Inr (evs, effs)" by simp
  then show ?thesis by (rule prepare_step) (use PrepareSettlement in \<open>auto intro!: fsm_prepare\<close>)
next
  case (RecordSettlementReceipt rc)
  with assms have "decide_record_receipt st rc = Inr (evs, effs)" by simp
  then show ?thesis by (rule receipt_step) (use RecordSettlementReceipt in \<open>auto intro: fsm_receipt\<close>)
qed (use assms observe_fsm revoke_fsm in auto)

section \<open>The state machine keeps the invariant\<close>

lemma stopped_inv:
  assumes "ex_inv pol st" and "\<forall>gid. c \<noteq> ConsentActive gid"
  shows "ex_inv pol (cx_stopped reason t c st)"
  using assms
  by (cases c; cases "ag_lease st"; cases "ag_attempt st"; cases "ag_settlement st") (auto simp: ex_inv_def cx_stopped_def)

lemma fsm_inv: "fsm pol key gen cmd st effs st' \<Longrightarrow> ex_inv pol st \<Longrightarrow> ex_inv pol st'"
proof (induction rule: fsm.induct)
  case (fsm_tick st t)
  then show ?case by (cases "ag_consent st"; cases "ag_grant st") (auto simp: ex_inv_def)
next
  case (fsm_open st gid g l)
  then show ?case by (auto simp: ex_inv_def elim: attempt_ok_no_lease)
next
  case (fsm_verify st a r v verifier cap)
  then show ?case by (auto simp: ex_inv_def dest: producer_ok_same)
qed (auto simp: ex_inv_def stopped_inv [unfolded ex_inv_def])

section \<open>One command\<close>

lemma replay_receipt_effects [simp]:
  "outcome_effects (replay_receipt out) = []" "outcome_replayed (replay_receipt out)"
  "outcome_events (replay_receipt out) = outcome_events out"
  by (cases out; simp)+

text \<open>A command either changes nothing, is newly refused and only recorded, or is decided.\<close>

lemma cx_handle_cases:
  obtains (same) "fst (cx_handle dbg x env) = x" "outcome_effects (snd (cx_handle dbg x env)) = []"
      "outcome_replayed (snd (cx_handle dbg x env)) \<or> outcome_events (snd (cx_handle dbg x env)) = []"
  | (refused) ib where "map_of (cx_inbox x) (env_idempotency_key env) = None" "env_idempotency_key env \<noteq> []"
      "fst (cx_handle dbg x env) = x\<lparr>cx_inbox := bt_insert (env_idempotency_key env) ib (cx_inbox x)\<rparr>"
      "outcome_effects (snd (cx_handle dbg x env)) = []" "outcome_events (snd (cx_handle dbg x env)) = []"
  | (decided) ib evs effs where "map_of (cx_inbox x) (env_idempotency_key env) = None" "env_idempotency_key env \<noteq> []"
      "decide_command (cx_aggregate x) (cx_policy x) (env_idempotency_key env) (env_generation env) (env_command env) = Inr (evs, effs)"
      "fst (cx_handle dbg x env) = x\<lparr>cx_aggregate := foldl evolve (cx_aggregate x) evs,
         cx_inbox := bt_insert (env_idempotency_key env) ib (cx_inbox x)\<rparr>"
      "snd (cx_handle dbg x env) = accepted evs effs"
proof (cases "env_idempotency_key env = [] \<or> map_of (cx_inbox x) (env_idempotency_key env) \<noteq> None")
  case True
  then have "fst (cx_handle dbg x env) = x \<and> outcome_effects (snd (cx_handle dbg x env)) = [] \<and>
    (outcome_replayed (snd (cx_handle dbg x env)) \<or> outcome_events (snd (cx_handle dbg x env)) = [])"
    by (auto simp: cx_handle_def Let_def rejected_def replay_receipt_effects split: if_splits)
  then show ?thesis using same by blast
next
  case False
  define dec where "dec = (case check_generation x env of
      Inr _ \<Rightarrow> decide_command (cx_aggregate x) (cx_policy x) (env_idempotency_key env) (env_generation env) (env_command env)
    | Inl reason \<Rightarrow> Inl reason)"
  have handle: "cx_handle dbg x env =
      (let out = (case dec of Inr (evs, effs) \<Rightarrow> accepted evs effs | Inl reason \<Rightarrow> rejected reason) in
       (x\<lparr>cx_aggregate := foldl evolve (cx_aggregate x) (outcome_events out),
          cx_inbox := bt_insert (env_idempotency_key env)
            \<lparr>ib_fingerprint = fingerprint dbg \<lparr>in_generation = env_generation env, in_command = env_command env\<rparr>,
             ib_intent = \<lparr>in_generation = env_generation env, in_command = env_command env\<rparr>, ib_outcome = out\<rparr> (cx_inbox x)\<rparr>, out))"
    using False by (auto simp: cx_handle_def Let_def dec_def decide_def split: sum.splits)
  show ?thesis
  proof (cases dec)
    case (Inl reason)
    show ?thesis
      by (rule refused, use handle False Inl in \<open>simp_all add: rejected_def Let_def\<close>)
  next
    case (Inr d)
    obtain evs effs where d: "d = (evs, effs)" by force
    have dc: "decide_command (cx_aggregate x) (cx_policy x) (env_idempotency_key env) (env_generation env) (env_command env) = Inr (evs, effs)"
      using Inr d by (auto simp: dec_def split: sum.splits)
    show ?thesis
      by (rule decided, use handle False Inr d dc in \<open>simp_all add: accepted_def Let_def\<close>)
  qed
qed

lemma cx_handle_policy [simp]: "cx_policy (fst (cx_handle dbg x env)) = cx_policy x"
  by (rule cx_handle_cases [of dbg x env]) auto

lemma cx_after_policy [simp]: "cx_policy (cx_after dbg x envs) = cx_policy x"
  by (induction envs arbitrary: x) auto

lemma cx_handle_inv:
  "ex_inv (cx_policy x) (cx_aggregate x) \<Longrightarrow> ex_inv (cx_policy x) (cx_aggregate (fst (cx_handle dbg x env)))"
  by (rule cx_handle_cases [of dbg x env]) (auto intro: fsm_inv decide_fsm)

lemma cx_after_inv:
  "ex_inv (cx_policy x) (cx_aggregate x) \<Longrightarrow> ex_inv (cx_policy x) (cx_aggregate (cx_after dbg x envs))"
proof (induction envs arbitrary: x)
  case (Cons env envs)
  from Cons.IH [OF _ ] cx_handle_inv [OF Cons.prems, of dbg env] show ?case by (metis cx_after_simps(2) cx_handle_policy)
qed simp

lemma cx_new_inv: "ex_inv (cx_policy (cx_new n pol)) (cx_aggregate (cx_new n pol))"
  by (simp add: cx_new_def ex_inv_new)

section \<open>A run of the exchange\<close>

text \<open>A contributor consents, opens a lease, is offered an assignment, starts it, submits the result; a second
  principal verifies it and the exchange settles.\<close>

definition cx_demo_caps :: resource_caps where
  "cx_demo_caps = \<lparr>rc_workers = 2, rc_duty_cycle_percent = 25, rc_memory_mib = 256, rc_network_bytes = 0, rc_gpu = False\<rparr>"

definition cx_demo_grant :: resource_grant where
  "cx_demo_grant = \<lparr>gr_id = ''g'', gr_principal = ''p'', gr_issued_at_ms = 5, gr_expires_at_ms = 100, gr_browser_foreground_only = True,
     gr_max_workers = 4, gr_duty_cycle_percent = 50, gr_memory_mib = 512, gr_network_bytes = 0, gr_gpu_allowed = False,
     gr_policy_hash = BROWSER_ALPHA_V1_POLICY_HASH\<rparr>"

definition cx_demo_lease :: resource_lease where
  "cx_demo_lease = \<lparr>le_id = ''l'', le_grant_id = ''g'', le_generation = 1, le_mode = BrowserForeground, le_resources = cx_demo_caps\<rparr>"

definition cx_demo_assignment :: assignment where
  "cx_demo_assignment = \<lparr>as_id = ''s'', as_lease_id = ''l'', as_generation = 1, as_requester = ''q'', as_workload_digest = ''w'',
     as_mode = BrowserForeground, as_resources = cx_demo_caps\<rparr>"

definition cx_demo_result :: submitted_result where
  "cx_demo_result = \<lparr>sr_producer = ''p'', sr_result_digest = ''d'', sr_usage = cx_demo_caps, sr_compute_ms = 7\<rparr>"

definition cx_demo_capability :: verifier_capability where
  "cx_demo_capability = \<lparr>vcap_id = ''c'', vcap_subject = ''v'', vcap_node_id = ''n'', vcap_attempt_id = ''a'', vcap_not_before_ms = 0,
     vcap_expires_at_ms = 50\<rparr>"

definition cx_demo_env :: "idempotency_key \<Rightarrow> exchange_command \<Rightarrow> command_envelope" where
  "cx_demo_env key cmd = \<lparr>env_idempotency_key = key, env_generation = 1, env_command = cmd\<rparr>"

definition cx_demo_offered :: "command_envelope list" where
  "cx_demo_offered = [cx_demo_env ''1'' (GrantConsent cx_demo_grant), cx_demo_env ''2'' (OpenLease cx_demo_lease),
     cx_demo_env ''3'' (OfferAssignment cx_demo_assignment)]"

definition cx_demo_start :: command_envelope where
  "cx_demo_start = cx_demo_env ''4'' (StartAttempt ''a'' ''s'')"

definition cx_demo_verified :: "command_envelope list" where
  "cx_demo_verified = cx_demo_offered @ [cx_demo_start, cx_demo_env ''5'' (SubmitResult ''a'' cx_demo_result),
     cx_demo_env ''6'' (VerifyResult ''a'' ''v'' cx_demo_capability VerdictAccept)]"

definition cx_demo_settle :: command_envelope where
  "cx_demo_settle = cx_demo_env ''7'' (PrepareSettlement ''z'' ''a'' 3)"

lemmas cx_demo_defs = cx_demo_caps_def cx_demo_grant_def cx_demo_lease_def cx_demo_assignment_def cx_demo_result_def cx_demo_capability_def
  cx_demo_env_def cx_demo_offered_def cx_demo_start_def cx_demo_verified_def cx_demo_settle_def cx_new_def aggregate_new_def
  policy_browser_alpha_v1_def BROWSER_ALPHA_V1_POLICY_HASH_def

lemmas decide_defs = decide_def decide_grant_def decide_open_lease_def decide_offer_def decide_start_def
  decide_submit_result_def decide_verify_def decide_prepare_settlement_def has_outstanding_assignment_def validate_grant_def
  validate_mode_def validate_nonzero_def require_within_def grant_caps_def active_grant_def active_lease_def
  accepted_def rejected_def check_generation_def saturating_add_def

text \<open>The facts of a run that the next command depends on.\<close>

definition cx_at :: "exchange \<Rightarrow> engine_policy \<Rightarrow> aggregate \<Rightarrow> idempotency_key set \<Rightarrow> bool" where
  "cx_at x pol st K \<longleftrightarrow> cx_policy x = pol \<and> cx_aggregate x = st \<and> fst ` set (cx_inbox x) = K"

lemma cx_at_step:
  assumes "cx_at x pol st K" "key \<notin> K" "key \<noteq> []" "gen = (case cmd of GrantConsent _ \<Rightarrow> saturating_add (ag_generation st) 1 | _ \<Rightarrow> ag_generation st)"
    "decide_command st pol key gen cmd = Inr (evs, effs)" "env = \<lparr>env_idempotency_key = key, env_generation = gen, env_command = cmd\<rparr>"
  shows "cx_at (fst (cx_handle dbg x env)) pol (foldl evolve st evs) (insert key K)"
    and "outcome_effects (snd (cx_handle dbg x env)) = effs"
proof -
  have "map_of (cx_inbox x) key = None" using assms(1,2) by (auto simp: cx_at_def map_of_eq_None_iff)
  moreover have "check_generation x env = Inr ()"
    using assms(1,4,6) by (simp add: check_generation_def cx_at_def Let_def)
  ultimately have "cx_handle dbg x env =
      (x\<lparr>cx_aggregate := foldl evolve st evs,
         cx_inbox := bt_insert key \<lparr>ib_fingerprint = fingerprint dbg \<lparr>in_generation = gen, in_command = cmd\<rparr>,
           ib_intent = \<lparr>in_generation = gen, in_command = cmd\<rparr>, ib_outcome = accepted evs effs\<rparr> (cx_inbox x)\<rparr>, accepted evs effs)"
    using assms by (simp add: cx_handle_def cx_at_def decide_def accepted_def Let_def)
  then show "cx_at (fst (cx_handle dbg x env)) pol (foldl evolve st evs) (insert key K)"
      "outcome_effects (snd (cx_handle dbg x env)) = effs"
    using assms(1) by (simp_all add: cx_at_def accepted_def)
qed

definition cx_demo_attempt :: attempt where
  "cx_demo_attempt = \<lparr>at_id = ''a'', at_assignment_id = ''s'', at_producer = ''p'', at_generation = 1, at_resources = cx_demo_caps,
     at_workload_digest = ''w''\<rparr>"

definition cx_demo_verification :: verification_record where
  "cx_demo_verification = \<lparr>vr_attempt_id = ''a'', vr_verifier = ''v'', vr_capability_id = ''c'', vr_result_digest = ''d'', vr_verified_at_ms = 5\<rparr>"

definition cx_demo_state :: "attempt_state \<Rightarrow> lease_state \<Rightarrow> aggregate" where
  "cx_demo_state at ls = \<lparr>ag_node_id = ''n'', ag_generation = 1, ag_observed_at_ms = 5, ag_consent = ConsentActive ''g'',
     ag_grant = Some cx_demo_grant, ag_lease = ls, ag_attempt = at, ag_settlement = SettlementNone\<rparr>"

lemma cx_demo_at_offered:
  "cx_at (cx_after dbg (cx_new ''n'' policy_browser_alpha_v1) cx_demo_offered) policy_browser_alpha_v1
     (cx_demo_state (AttemptOffered cx_demo_assignment) (LeaseActive cx_demo_lease)) {''1'', ''2'', ''3''}"
proof -
  let ?pol = policy_browser_alpha_v1
  let ?x1 = "fst (cx_handle dbg (cx_new ''n'' ?pol) (cx_demo_env ''1'' (GrantConsent cx_demo_grant)))"
  let ?x2 = "fst (cx_handle dbg ?x1 (cx_demo_env ''2'' (OpenLease cx_demo_lease)))"
  have 0: "cx_at (cx_new ''n'' ?pol) ?pol (aggregate_new ''n'') {}"
    by (simp add: cx_at_def cx_new_def)
  have "cx_at ?x1 ?pol (foldl evolve (aggregate_new ''n'') [EvConsentGranted 1 cx_demo_grant]) {''1''}"
    by (rule cx_at_step(1) [OF 0, where gen = 1]) (simp_all add: cx_demo_defs decide_defs)
  then have 1: "cx_at ?x1 ?pol (cx_demo_state AttemptNone LeaseClosed) {''1''}"
    by (simp add: cx_demo_state_def cx_demo_defs)
  have "cx_at ?x2 ?pol (foldl evolve (cx_demo_state AttemptNone LeaseClosed) [EvLeaseOpened cx_demo_lease]) {''2'', ''1''}"
    by (rule cx_at_step(1) [OF 1, where gen = 1]) (simp_all add: cx_demo_defs cx_demo_state_def decide_defs)
  then have 2: "cx_at ?x2 ?pol (cx_demo_state AttemptNone (LeaseActive cx_demo_lease)) {''2'', ''1''}"
    by (simp add: cx_demo_state_def)
  have "cx_at (fst (cx_handle dbg ?x2 (cx_demo_env ''3'' (OfferAssignment cx_demo_assignment)))) ?pol
      (foldl evolve (cx_demo_state AttemptNone (LeaseActive cx_demo_lease)) [EvAssignmentOffered cx_demo_assignment]) {''3'', ''2'', ''1''}"
    by (rule cx_at_step(1) [OF 2, where gen = 1]) (simp_all add: cx_demo_defs cx_demo_state_def decide_defs)
  then show ?thesis by (simp add: cx_demo_state_def cx_demo_offered_def insert_commute)
qed

lemma cx_demo_start_decides:
  "decide_command (cx_demo_state (AttemptOffered cx_demo_assignment) (LeaseActive cx_demo_lease)) policy_browser_alpha_v1 ''4'' 1
     (StartAttempt ''a'' ''s'') =
   Inr ([EvAttemptStarted cx_demo_attempt],
     [StartSandbox (effect_id_of ''4'' ''start-sandbox'') ''n'' ''l'' ''s'' ''a'' BrowserForeground cx_demo_caps ''w''])"
  by (simp add: cx_demo_defs cx_demo_state_def decide_defs cx_demo_attempt_def)

lemmas cx_demo_started = cx_at_step(2) [OF cx_demo_at_offered _ _ _ cx_demo_start_decides, of cx_demo_start]

lemma cx_demo_at_verified:
  "cx_at (cx_after dbg (cx_new ''n'' policy_browser_alpha_v1) cx_demo_verified) policy_browser_alpha_v1
     (cx_demo_state (AttemptVerified cx_demo_attempt cx_demo_result cx_demo_verification) (LeaseActive cx_demo_lease)) {''1'', ''2'', ''3'', ''4'', ''5'', ''6''}"
proof -
  let ?pol = policy_browser_alpha_v1 and ?x3 = "cx_after dbg (cx_new ''n'' policy_browser_alpha_v1) cx_demo_offered"
  let ?st = "\<lambda>at. cx_demo_state at (LeaseActive cx_demo_lease)"
  let ?x4 = "fst (cx_handle dbg ?x3 cx_demo_start)"
  let ?x5 = "fst (cx_handle dbg ?x4 (cx_demo_env ''5'' (SubmitResult ''a'' cx_demo_result)))"
  have "cx_at ?x4 ?pol (foldl evolve (?st (AttemptOffered cx_demo_assignment)) [EvAttemptStarted cx_demo_attempt]) {''4'', ''1'', ''2'', ''3''}"
    by (rule cx_at_step(1) [OF cx_demo_at_offered _ _ _ cx_demo_start_decides]) (simp_all add: cx_demo_start_def cx_demo_env_def cx_demo_state_def)
  then have 4: "cx_at ?x4 ?pol (?st (AttemptRunning cx_demo_attempt)) {''4'', ''1'', ''2'', ''3''}"
    by (simp add: cx_demo_state_def)
  have "cx_at ?x5 ?pol (foldl evolve (?st (AttemptRunning cx_demo_attempt)) [EvResultSubmitted ''a'' cx_demo_result]) {''5'', ''4'', ''1'', ''2'', ''3''}"
    by (rule cx_at_step(1) [OF 4, where gen = 1]) (simp_all add: cx_demo_defs cx_demo_state_def cx_demo_attempt_def decide_defs)
  then have 5: "cx_at ?x5 ?pol (?st (AttemptResultSubmitted cx_demo_attempt cx_demo_result)) {''5'', ''4'', ''1'', ''2'', ''3''}"
    by (simp add: cx_demo_state_def)
  have "cx_at (fst (cx_handle dbg ?x5 (cx_demo_env ''6'' (VerifyResult ''a'' ''v'' cx_demo_capability VerdictAccept)))) ?pol
      (foldl evolve (?st (AttemptResultSubmitted cx_demo_attempt cx_demo_result)) [EvResultVerified cx_demo_verification]) {''6'', ''5'', ''4'', ''1'', ''2'', ''3''}"
    by (rule cx_at_step(1) [OF 5, where gen = 1])
      (simp_all add: cx_demo_defs cx_demo_state_def cx_demo_attempt_def cx_demo_verification_def decide_defs)
  then show ?thesis by (simp add: cx_demo_state_def cx_demo_verified_def cx_after_append insert_commute)
qed

lemma cx_demo_settle_decides:
  "decide_command (cx_demo_state (AttemptVerified cx_demo_attempt cx_demo_result cx_demo_verification) (LeaseActive cx_demo_lease))
     policy_browser_alpha_v1 ''7'' 1 (PrepareSettlement ''z'' ''a'' 3) =
   (let plan = \<lparr>sp_id = ''z'', sp_attempt_id = ''a'', sp_beneficiary = ''p'', sp_service_credits = 3, sp_verified_result_digest = ''d''\<rparr>
    in Inr ([EvSettlementPrepared plan], [PostServiceCredit (effect_id_of ''7'' ''post-service-credit'') plan]))"
  by (simp add: cx_demo_defs cx_demo_state_def cx_demo_attempt_def decide_defs)

lemmas cx_demo_credited = cx_at_step(2) [OF cx_demo_at_verified _ _ _ cx_demo_settle_decides [unfolded Let_def], of cx_demo_settle]

section \<open>Consent first\<close>

text \<open>Where the grant, the lease and the offered assignment of a state come from.\<close>

definition provenance :: "exchange_command set \<Rightarrow> aggregate \<Rightarrow> bool" where
  "provenance C st \<longleftrightarrow>
     (\<forall>g. ag_grant st = Some g \<longrightarrow> GrantConsent g \<in> C) \<and>
     (\<forall>l. ag_lease st = LeaseActive l \<longrightarrow> OpenLease l \<in> C) \<and>
     (\<forall>a. ag_attempt st = AttemptOffered a \<longrightarrow> OfferAssignment a \<in> C)"

lemma provenance_insert: "provenance C st \<Longrightarrow> provenance (insert cmd C) st"
  by (auto simp: provenance_def)

lemma stopped_provenance: "provenance C st \<Longrightarrow> provenance C (cx_stopped reason t c st)"
  by (cases "ag_lease st"; cases "ag_attempt st") (simp_all add: provenance_def cx_stopped_def)

lemma fsm_provenance: "fsm pol key gen cmd st effs st' \<Longrightarrow> provenance C st \<Longrightarrow> provenance (insert cmd C) st'"
  by (induction rule: fsm.induct)
    (simp_all add: provenance_insert stopped_provenance, simp_all add: provenance_def)

lemma cx_after_provenance:
  "provenance C (cx_aggregate x) \<Longrightarrow> provenance (C \<union> env_command ` set envs) (cx_aggregate (cx_after dbg x envs))"
proof (induction envs arbitrary: x C)
  case (Cons env envs)
  have "provenance (insert (env_command env) C) (cx_aggregate (fst (cx_handle dbg x env)))"
    by (rule cx_handle_cases [of dbg x env])
      (use Cons.prems in \<open>auto intro: provenance_insert fsm_provenance decide_fsm\<close>)
  from Cons.IH [OF this] show ?case by simp
qed simp

lemma fsm_node [simp]: "fsm pol key gen cmd st effs st' \<Longrightarrow> ag_node_id st' = ag_node_id st"
  by (induction rule: fsm.induct) (simp_all add: cx_stopped_def)

lemma cx_after_node: "ag_node_id (cx_aggregate (cx_after dbg x envs)) = ag_node_id (cx_aggregate x)"
proof (induction envs arbitrary: x)
  case (Cons env envs)
  have "ag_node_id (cx_aggregate (fst (cx_handle dbg x env))) = ag_node_id (cx_aggregate x)"
    by (rule cx_handle_cases [of dbg x env]) (auto dest: decide_fsm)
  with Cons.IH show ?case by simp
qed simp

text \<open>An effect of a handled command is an effect of a transition.\<close>

lemma effect_fsm:
  assumes "eff \<in> set (outcome_effects (snd (cx_handle dbg x env)))"
  obtains effs where "eff \<in> set effs" "map_of (cx_inbox x) (env_idempotency_key env) = None"
    "fsm (cx_policy x) (env_idempotency_key env) (env_generation env) (env_command env) (cx_aggregate x) effs
       (cx_aggregate (fst (cx_handle dbg x env)))"
  by (rule cx_handle_cases [of dbg x env]) (use assms in \<open>auto simp: accepted_def dest: decide_fsm\<close>)

lemma fsm_start_effect:
  assumes "fsm pol key gen cmd st effs st'" "StartSandbox eid nid lid asid aid mode caps digest \<in> set effs"
  obtains g l a where "cmd = StartAttempt aid asid" "ag_grant st = Some g"
    "\<exists>gid. ag_consent st = ConsentActive gid"
    "ag_observed_at_ms st < gr_expires_at_ms g" "ag_lease st = LeaseActive l" "ag_attempt st = AttemptOffered a"
    "nid = ag_node_id st" "lid = le_id l" "asid = as_id a" "mode = as_mode a" "caps = as_resources a" "digest = as_workload_digest a"
  using assms by (cases rule: fsm.cases) (auto simp: stop_sandbox_effect_def)

lemma validate_mode_ok: "validate_mode pol m = Inr () \<longleftrightarrow> (pol_browser_foreground_only pol \<longrightarrow> m = BrowserForeground)"
  by (simp add: validate_mode_def)

lemma validate_grant_ok:
  "validate_grant pol g = Inr () \<Longrightarrow> gr_policy_hash g = pol_policy_hash pol \<and> caps_le (grant_caps g) (pol_maximum pol)"
  by (auto simp: validate_grant_def rbind_eq_Inr require_within_ok split: if_splits)

text \<open>C24: A sandbox is started only by a \<open>StartAttempt\<close> command, on the exchange's own node, after a consent grant,
  a lease and an assignment that were commands before it. At that moment the consent is active and not expired, the
  grant is issued under the policy's hash, the lease names the grant and the assignment names the lease, and the
  resources of the sandbox are within those of the lease, these within the grant, these within the policy's maximum;
  where the policy says foreground only, the mode is browser foreground.\<close>

theorem sandbox_needs_consent:
  assumes x: "x = cx_after dbg (cx_new n pol) envs"
    and eff: "StartSandbox eid nid lid asid aid mode caps digest \<in> set (outcome_effects (snd (cx_handle dbg x env)))"
  shows "env_command env = StartAttempt aid asid \<and> nid = n \<and>
    (\<exists>g l a. {GrantConsent g, OpenLease l, OfferAssignment a} \<subseteq> env_command ` set envs \<and>
       ag_consent (cx_aggregate x) = ConsentActive (gr_id g) \<and> ag_observed_at_ms (cx_aggregate x) < gr_expires_at_ms g \<and>
       gr_policy_hash g = pol_policy_hash pol \<and> le_grant_id l = gr_id g \<and> le_id l = lid \<and> as_lease_id a = lid \<and>
       as_id a = asid \<and> as_mode a = mode \<and> as_resources a = caps \<and> as_workload_digest a = digest \<and>
       caps_le caps (le_resources l) \<and> caps_le (le_resources l) (grant_caps g) \<and> caps_le (grant_caps g) (pol_maximum pol) \<and>
       (pol_browser_foreground_only pol \<longrightarrow> mode = BrowserForeground))"
proof -
  obtain effs where e: "StartSandbox eid nid lid asid aid mode caps digest \<in> set effs"
    and f: "fsm (cx_policy x) (env_idempotency_key env) (env_generation env) (env_command env) (cx_aggregate x) effs
       (cx_aggregate (fst (cx_handle dbg x env)))"
    using eff by (rule effect_fsm)
  have pol: "cx_policy x = pol" by (simp add: x) (simp add: cx_new_def)
  have inv: "ex_inv pol (cx_aggregate x)"
    using cx_after_inv [OF cx_new_inv, of n pol dbg envs] pol by (simp add: x)
  have prov: "provenance (env_command ` set envs) (cx_aggregate x)"
    using cx_after_provenance [of "{}" "cx_new n pol" envs dbg] by (simp add: x provenance_def cx_new_def aggregate_new_def)
  have node: "ag_node_id (cx_aggregate x) = n"
    by (simp add: x cx_after_node) (simp add: cx_new_def aggregate_new_def)
  from f e show ?thesis
  proof (rule fsm_start_effect)
    fix g l a
    assume "env_command env = StartAttempt aid asid" "ag_grant (cx_aggregate x) = Some g"
      "\<exists>gid. ag_consent (cx_aggregate x) = ConsentActive gid" "ag_observed_at_ms (cx_aggregate x) < gr_expires_at_ms g"
      "ag_lease (cx_aggregate x) = LeaseActive l" "ag_attempt (cx_aggregate x) = AttemptOffered a" "nid = ag_node_id (cx_aggregate x)"
      "lid = le_id l" "asid = as_id a" "mode = as_mode a" "caps = as_resources a" "digest = as_workload_digest a"
    with inv prov node show ?thesis
      by (auto simp: ex_inv_def provenance_def validate_mode_ok dest: validate_grant_ok intro!: exI [of _ g] exI [of _ l] exI [of _ a])
  qed
qed

theorem sandbox_needs_consent_witness:
  "\<exists>g l a. {GrantConsent g, OpenLease l, OfferAssignment a} \<subseteq> env_command ` set cx_demo_offered \<and>
     caps_le cx_demo_caps (le_resources l) \<and> caps_le (grant_caps g) (pol_maximum policy_browser_alpha_v1)"
proof -
  let ?x = "cx_after (\<lambda>_. []) (cx_new ''n'' policy_browser_alpha_v1) cx_demo_offered"
  have "StartSandbox (effect_id_of ''4'' ''start-sandbox'') ''n'' ''l'' ''s'' ''a'' BrowserForeground cx_demo_caps ''w''
      \<in> set (outcome_effects (snd (cx_handle (\<lambda>_. []) ?x cx_demo_start)))"
    by (subst cx_demo_started) (simp_all add: cx_demo_start_def cx_demo_env_def cx_demo_state_def)
  from sandbox_needs_consent [OF refl this] show ?thesis by blast
qed

section \<open>Effect identifiers\<close>

fun eff_id :: "exchange_effect \<Rightarrow> effect_id" where
  "eff_id (StartSandbox eid _ _ _ _ _ _ _) = eid"
| "eff_id (StopSandbox eid _ _ _ _) = eid"
| "eff_id (PostServiceCredit eid _) = eid"

definition plain_suffix :: "string \<Rightarrow> bool" where
  "plain_suffix s \<longleftrightarrow> CHR '':'' \<notin> set s"

lemma split_at_first:
  "a @ c # b = a' @ c # b' \<Longrightarrow> c \<notin> set a \<Longrightarrow> c \<notin> set a' \<Longrightarrow> a = a' \<and> b = b'"
proof (induction a arbitrary: a')
  case Nil
  then show ?case by (cases a') auto
next
  case (Cons y ys)
  then show ?case by (cases a') auto
qed

lemma effect_id_of_inj:
  assumes "effect_id_of k s = effect_id_of k' s'" "plain_suffix s" "plain_suffix s'"
  shows "k = k' \<and> s = s'"
proof -
  have "rev s @ CHR '':'' # rev k = rev s' @ CHR '':'' # rev k'"
    using arg_cong [OF assms(1), of rev] by (simp add: effect_id_of_def)
  then show ?thesis
    using assms(2,3) by (auto simp: plain_suffix_def dest: split_at_first)
qed

lemma fsm_effect_ids:
  assumes "fsm pol key gen cmd st effs st'"
  shows "distinct (map eff_id effs) \<and> (\<forall>eff \<in> set effs. \<exists>s. plain_suffix s \<and> eff_id eff = effect_id_of key s)"
  using assms
  by (induction rule: fsm.induct)
    (simp_all add: stop_sandbox_effect_def, (rule exI, rule conjI, rule_tac [2] refl, simp add: plain_suffix_def)+)

lemma handle_effect_ids:
  "distinct (map eff_id (outcome_effects (snd (cx_handle dbg x env)))) \<and>
   (\<forall>eff \<in> set (outcome_effects (snd (cx_handle dbg x env))).
      map_of (cx_inbox x) (env_idempotency_key env) = None \<and>
      map_of (cx_inbox (fst (cx_handle dbg x env))) (env_idempotency_key env) \<noteq> None \<and>
      (\<exists>s. plain_suffix s \<and> eff_id eff = effect_id_of (env_idempotency_key env) s))"
proof (rule cx_handle_cases [of dbg x env])
  fix ib evs effs
  assume "map_of (cx_inbox x) (env_idempotency_key env) = None"
    "decide_command (cx_aggregate x) (cx_policy x) (env_idempotency_key env) (env_generation env) (env_command env) = Inr (evs, effs)"
    "fst (cx_handle dbg x env) = x\<lparr>cx_aggregate := foldl evolve (cx_aggregate x) evs,
         cx_inbox := bt_insert (env_idempotency_key env) ib (cx_inbox x)\<rparr>"
    "snd (cx_handle dbg x env) = accepted evs effs"
  with fsm_effect_ids [OF decide_fsm] show ?thesis by (fastforce simp: accepted_def)
qed simp_all

lemma cx_handle_inbox_le: "map_of (cx_inbox x) \<subseteq>\<^sub>m map_of (cx_inbox (fst (cx_handle dbg x env)))"
  by (rule cx_handle_cases [of dbg x env]) (auto simp: map_le_def)

lemma cx_after_inbox_le: "map_of (cx_inbox x) \<subseteq>\<^sub>m map_of (cx_inbox (cx_after dbg x envs))"
  by (induction envs arbitrary: x) (auto intro: map_le_trans cx_handle_inbox_le)

lemma cx_effects_ids:
  "distinct (map eff_id (cx_effects dbg x envs)) \<and>
   (\<forall>eff \<in> set (cx_effects dbg x envs). \<exists>k s. map_of (cx_inbox x) k = None \<and> plain_suffix s \<and> eff_id eff = effect_id_of k s)"
proof (induction envs arbitrary: x)
  case (Cons env envs)
  let ?x' = "fst (cx_handle dbg x env)" and ?effs = "outcome_effects (snd (cx_handle dbg x env))"
  have old: "map_of (cx_inbox x) k = None" if "map_of (cx_inbox ?x') k = None" for k
    using that cx_handle_inbox_le [of x dbg env] by (metis domIff map_le_def)
  have apart: "eff_id e \<noteq> eff_id e'" if "e \<in> set ?effs" "e' \<in> set (cx_effects dbg ?x' envs)" for e e'
    using that handle_effect_ids [of dbg x env] Cons.IH [of ?x'] effect_id_of_inj by metis
  show ?case
    using Cons.IH [of ?x'] handle_effect_ids [of dbg x env] old apart by (auto simp: image_iff) blast+
qed simp

text \<open>Over any sequence of commands, replays and conflicts included, no two requested effects carry the
  same effect identifier, so a shell that deduplicates by identifier performs each of them.\<close>

theorem effect_ids_unique: "distinct (map eff_id (cx_effects dbg (cx_new n pol) envs))"
  using cx_effects_ids by blast

section \<open>Sandboxes\<close>

text \<open>The sandboxes a shell that performs the effects in order keeps running.\<close>

fun sandbox_live :: "attempt_id set \<Rightarrow> exchange_effect \<Rightarrow> attempt_id set" where
  "sandbox_live S (StartSandbox _ _ _ _ aid _ _ _) = insert aid S"
| "sandbox_live S (StopSandbox _ _ _ (Some aid) _) = S - {aid}"
| "sandbox_live S _ = S"

fun running_attempt :: "attempt_state \<Rightarrow> attempt_id set" where
  "running_attempt (AttemptRunning a) = {at_id a}"
| "running_attempt _ = {}"

lemma fsm_live:
  assumes "fsm pol key gen cmd st effs st'" "ex_inv pol st"
  shows "foldl sandbox_live (running_attempt (ag_attempt st)) effs = running_attempt (ag_attempt st')"
  using assms
proof (induction rule: fsm.induct)
  case (fsm_grant g st)
  then show ?case by (cases "ag_attempt st") (auto simp: has_outstanding_assignment_def)
next
  case (fsm_offer st l a)
  then show ?case by (cases "ag_attempt st") (auto simp: has_outstanding_assignment_def)
qed (auto simp: stop_sandbox_effect_def active_attempt_id_def cx_stopped_def split: attempt_state.splits)

lemma cx_effects_live:
  "ex_inv (cx_policy x) (cx_aggregate x) \<Longrightarrow>
   foldl sandbox_live (running_attempt (ag_attempt (cx_aggregate x))) (cx_effects dbg x envs) =
   running_attempt (ag_attempt (cx_aggregate (cx_after dbg x envs)))"
proof (induction envs arbitrary: x)
  case (Cons env envs)
  have "foldl sandbox_live (running_attempt (ag_attempt (cx_aggregate x))) (outcome_effects (snd (cx_handle dbg x env))) =
      running_attempt (ag_attempt (cx_aggregate (fst (cx_handle dbg x env))))"
    by (rule cx_handle_cases [of dbg x env]) (use Cons.prems in \<open>simp_all add: accepted_def fsm_live [OF decide_fsm]\<close>)
  with Cons.IH [of "fst (cx_handle dbg x env)"] cx_handle_inv [OF Cons.prems, of dbg env] show ?case by simp
qed simp

lemma running_needs_consent:
  "ex_inv pol st \<Longrightarrow> aid \<in> running_attempt (ag_attempt st) \<Longrightarrow> \<exists>gid. ag_consent st = ConsentActive gid"
  by (cases "ag_attempt st"; cases "ag_lease st"; cases "ag_consent st"; cases "ag_grant st") (auto simp: ex_inv_def)

text \<open>The sandboxes started and not stopped by the requested effects are exactly the running attempt of the
  aggregate; there is at most one, and none once consent is revoked or expired.\<close>

theorem sandboxes_follow_consent:
  defines "live \<equiv> \<lambda>n pol dbg envs. foldl sandbox_live {} (cx_effects dbg (cx_new n pol) envs)"
    and "final \<equiv> \<lambda>n pol dbg envs. cx_aggregate (cx_after dbg (cx_new n pol) envs)"
  shows "live n pol dbg envs = running_attempt (ag_attempt (final n pol dbg envs)) \<and> card (live n pol dbg envs) \<le> 1 \<and>
    (live n pol dbg envs = {} \<or> (\<exists>gid. ag_consent (final n pol dbg envs) = ConsentActive gid))"
proof -
  have live: "live n pol dbg envs = running_attempt (ag_attempt (final n pol dbg envs))"
    using cx_effects_live [OF cx_new_inv, of n pol dbg envs] by (simp add: live_def final_def) (simp add: cx_new_def aggregate_new_def)
  moreover have "card (running_attempt at) \<le> 1" for at
    by (cases at) auto
  moreover have "ex_inv (cx_policy (cx_new n pol)) (final n pol dbg envs)"
    unfolding final_def by (rule cx_after_inv [OF cx_new_inv])
  ultimately show ?thesis using running_needs_consent by fastforce
qed

text \<open>C25: The kill switch always works: in every reachable state with an active consent, revoking that consent under
  a new key is accepted; afterwards consent is revoked, no lease is active, no attempt is offered or running, and the one
  effect requested stops the running attempt.\<close>

theorem revocation_always_works:
  assumes x: "x = cx_after dbg (cx_new n pol) envs"
    and active: "ag_consent (cx_aggregate x) = ConsentActive gid"
    and key: "key \<noteq> []" "map_of (cx_inbox x) key = None" and reason: "reason \<noteq> []"
    and env: "env = \<lparr>env_idempotency_key = key, env_generation = ag_generation (cx_aggregate x), env_command = RevokeConsent gid reason\<rparr>"
  shows "(let st = cx_aggregate x; st' = cx_aggregate (fst (cx_handle dbg x env)) in
      ag_consent st' = ConsentRevoked gid (ag_observed_at_ms st) \<and> (\<forall>l. ag_lease st' \<noteq> LeaseActive l) \<and>
      (\<forall>a. ag_attempt st' \<noteq> AttemptOffered a) \<and> (\<forall>a. ag_attempt st' \<noteq> AttemptRunning a) \<and>
      outcome_effects (snd (cx_handle dbg x env)) = [stop_sandbox_effect st key SandboxConsentRevoked] \<and>
      running_attempt (ag_attempt st) \<subseteq> set_option (active_attempt_id st))"
proof -
  let ?st = "cx_aggregate x"
  have inv: "ex_inv (cx_policy (cx_new n pol)) ?st"
    unfolding x by (rule cx_after_inv [OF cx_new_inv])
  then have "decide_command ?st (cx_policy x) key (ag_generation ?st) (RevokeConsent gid reason) =
      Inr (EvConsentRevoked gid (ag_observed_at_ms ?st) reason # append_stop_events ?st [] StopConsentRevoked,
        [stop_sandbox_effect ?st key SandboxConsentRevoked])"
    using active reason
    by (cases "ag_grant ?st")
      (auto simp: ex_inv_def decide_revoke_def active_grant_def not_le append_stop_events_append [of ?st "[_]"])
  moreover have "cx_at x (cx_policy x) ?st (fst ` set (cx_inbox x))" by (simp add: cx_at_def)
  moreover have "key \<notin> fst ` set (cx_inbox x)" using key(2) by (simp add: map_of_eq_None_iff)
  ultimately have "cx_aggregate (fst (cx_handle dbg x env)) =
      cx_stopped StopConsentRevoked (ag_observed_at_ms ?st) (ConsentRevoked gid (ag_observed_at_ms ?st)) ?st"
    and "outcome_effects (snd (cx_handle dbg x env)) = [stop_sandbox_effect ?st key SandboxConsentRevoked]"
    using cx_at_step [of x _ ?st _ key "ag_generation ?st" "RevokeConsent gid reason" _ _ env dbg] key(1) env
      stop_events_evolve [where t = "ag_observed_at_ms ?st" and st = ?st]
    by (auto simp: cx_at_def)
  then show ?thesis
    by (cases "ag_lease ?st"; cases "ag_attempt ?st") (simp_all add: Let_def cx_stopped_def active_attempt_id_def)
qed

theorem revocation_always_works_witness:
  "(let x = cx_after (\<lambda>_. []) (cx_new ''n'' policy_browser_alpha_v1) cx_demo_offered;
        x' = fst (cx_handle (\<lambda>_. []) x (cx_demo_env ''9'' (RevokeConsent ''g'' ''r'')))
    in ag_consent (cx_aggregate x) = ConsentActive ''g'' \<and> ag_consent (cx_aggregate x') = ConsentRevoked ''g'' 5)"
proof -
  let ?x = "cx_after (\<lambda>_. []) (cx_new ''n'' policy_browser_alpha_v1) cx_demo_offered"
  have st: "cx_aggregate ?x = cx_demo_state (AttemptOffered cx_demo_assignment) (LeaseActive cx_demo_lease)"
    and k: "fst ` set (cx_inbox ?x) = {''1'', ''2'', ''3''}"
    using cx_demo_at_offered [of "\<lambda>_. []"] by (simp_all add: cx_at_def)
  have a: "ag_consent (cx_aggregate ?x) = ConsentActive ''g''" and t: "ag_observed_at_ms (cx_aggregate ?x) = 5"
    by (simp_all add: st cx_demo_state_def)
  have f: "map_of (cx_inbox ?x) ''9'' = None"
    unfolding map_of_eq_None_iff k by simp
  have e: "cx_demo_env ''9'' (RevokeConsent ''g'' ''r'') =
      \<lparr>env_idempotency_key = ''9'', env_generation = ag_generation (cx_aggregate ?x), env_command = RevokeConsent ''g'' ''r''\<rparr>"
    by (simp add: cx_demo_env_def st cx_demo_state_def)
  have ne: "''9'' \<noteq> []" "''r'' \<noteq> []" by simp_all
  show ?thesis
    using revocation_always_works [OF refl a ne(1) f ne(2) e] a t by (simp add: Let_def)
qed

section \<open>Credits\<close>

fun starts_of :: "attempt_id \<Rightarrow> exchange_effect list \<Rightarrow> nat" where
  "starts_of aid [] = 0"
| "starts_of aid (StartSandbox _ _ _ _ aid' _ _ _ # effs) = (if aid' = aid then 1 else 0) + starts_of aid effs"
| "starts_of aid (_ # effs) = starts_of aid effs"

fun credits_of :: "attempt_id \<Rightarrow> exchange_effect list \<Rightarrow> nat" where
  "credits_of aid [] = 0"
| "credits_of aid (PostServiceCredit _ plan # effs) = (if sp_attempt_id plan = aid then 1 else 0) + credits_of aid effs"
| "credits_of aid (_ # effs) = credits_of aid effs"

lemma starts_of_append: "starts_of aid (xs @ ys) = starts_of aid xs + starts_of aid ys"
  by (induction aid xs rule: starts_of.induct) auto

lemma credits_of_append: "credits_of aid (xs @ ys) = credits_of aid xs + credits_of aid ys"
  by (induction aid xs rule: credits_of.induct) auto

text \<open>An attempt that may still be credited: started, not failed, not yet settled.\<close>

fun creditable :: "attempt_id \<Rightarrow> attempt_state \<Rightarrow> settlement_state \<Rightarrow> nat" where
  "creditable aid (AttemptRunning a) _ = (if at_id a = aid then 1 else 0)"
| "creditable aid (AttemptResultSubmitted a r) _ = (if at_id a = aid then 1 else 0)"
| "creditable aid (AttemptVerified a r v) SettlementNone = (if at_id a = aid then 1 else 0)"
| "creditable aid _ _ = 0"

lemma creditable_stopped:
  "creditable aid (stopped_attempt reason at) s \<le> creditable aid at s"
  by (cases at) auto

lemma fsm_credits:
  assumes "fsm pol key gen cmd st effs st'" "ex_inv pol st"
  shows "credits_of aid effs + creditable aid (ag_attempt st') (ag_settlement st')
    \<le> starts_of aid effs + creditable aid (ag_attempt st) (ag_settlement st)"
  using assms
proof (induction rule: fsm.induct)
  case (fsm_verify st a r v verifier cap)
  then show ?case by (simp add: ex_inv_def)
next
  case (fsm_receipt st p rc)
  then show ?case by (cases "ag_attempt st") simp_all
qed (simp_all add: creditable_stopped stop_sandbox_effect_def cx_stopped_def)

lemma cx_effects_credits:
  "ex_inv (cx_policy x) (cx_aggregate x) \<Longrightarrow>
   credits_of aid (cx_effects dbg x envs) \<le> starts_of aid (cx_effects dbg x envs)
     + creditable aid (ag_attempt (cx_aggregate x)) (ag_settlement (cx_aggregate x))"
proof (induction envs arbitrary: x)
  case (Cons env envs)
  let ?x' = "fst (cx_handle dbg x env)" and ?effs = "outcome_effects (snd (cx_handle dbg x env))"
  have "credits_of aid ?effs + creditable aid (ag_attempt (cx_aggregate ?x')) (ag_settlement (cx_aggregate ?x'))
      \<le> starts_of aid ?effs + creditable aid (ag_attempt (cx_aggregate x)) (ag_settlement (cx_aggregate x))"
    by (rule cx_handle_cases [of dbg x env]) (use Cons.prems in \<open>simp_all add: accepted_def fsm_credits [OF decide_fsm]\<close>)
  with Cons.IH [of ?x'] cx_handle_inv [OF Cons.prems, of dbg env] show ?case
    by (simp add: starts_of_append credits_of_append)
qed simp

text \<open>C26: Over any sequence of commands, the credits requested for an attempt are at most as many as the sandboxes
  started for it.\<close>

theorem credits_bounded_by_work:
  "credits_of aid (cx_effects dbg (cx_new n pol) envs) \<le> starts_of aid (cx_effects dbg (cx_new n pol) envs)"
  using cx_effects_credits [OF cx_new_inv, of aid dbg n pol envs] by (simp add: cx_new_def aggregate_new_def)

lemma fsm_post_effect:
  assumes "fsm pol key gen cmd st effs st'" "PostServiceCredit eid plan \<in> set effs"
  obtains a r v g sid where "ag_attempt st = AttemptVerified a r v" "ag_settlement st = SettlementNone" "ag_grant st = Some g"
    "sp_attempt_id plan = at_id a" "sp_beneficiary plan = gr_principal g" "sp_verified_result_digest plan = sr_result_digest r"
    "sp_service_credits plan \<noteq> 0"
  using assms by (cases rule: fsm.cases) (auto simp: stop_sandbox_effect_def)

text \<open>A service credit is requested only for an attempt whose submitted result was accepted by a verifier
  other than its producer and that has no settlement yet; it pays a positive amount to that producer, for the result digest
  the verifier accepted, and the usage reported is within what the attempt was allowed.\<close>

theorem credit_needs_verification:
  assumes x: "x = cx_after dbg (cx_new n pol) envs"
    and eff: "PostServiceCredit eid plan \<in> set (outcome_effects (snd (cx_handle dbg x env)))"
  shows "\<exists>a r v. ag_attempt (cx_aggregate x) = AttemptVerified a r v \<and> ag_settlement (cx_aggregate x) = SettlementNone \<and>
    sp_attempt_id plan = at_id a \<and> vr_attempt_id v = at_id a \<and> sp_beneficiary plan = at_producer a \<and>
    sr_producer r = at_producer a \<and> vr_verifier v \<noteq> at_producer a \<and> sp_verified_result_digest plan = vr_result_digest v \<and>
    caps_le (sr_usage r) (at_resources a) \<and> sp_service_credits plan \<noteq> 0"
proof -
  obtain effs where e: "PostServiceCredit eid plan \<in> set effs"
    and f: "fsm (cx_policy x) (env_idempotency_key env) (env_generation env) (env_command env) (cx_aggregate x) effs
       (cx_aggregate (fst (cx_handle dbg x env)))"
    using eff by (rule effect_fsm)
  have "ex_inv (cx_policy (cx_new n pol)) (cx_aggregate x)"
    unfolding x by (rule cx_after_inv [OF cx_new_inv])
  with f e show ?thesis by (elim fsm_post_effect) (auto simp: ex_inv_def)
qed

theorem credit_needs_verification_witness:
  "\<exists>a r v. ag_attempt (cx_aggregate (cx_after (\<lambda>_. []) (cx_new ''n'' policy_browser_alpha_v1) cx_demo_verified)) = AttemptVerified a r v \<and>
     vr_verifier v \<noteq> at_producer a \<and> at_producer a = ''p''"
proof -
  let ?x = "cx_after (\<lambda>_. []) (cx_new ''n'' policy_browser_alpha_v1) cx_demo_verified"
  let ?plan = "\<lparr>sp_id = ''z'', sp_attempt_id = ''a'', sp_beneficiary = ''p'', sp_service_credits = 3, sp_verified_result_digest = ''d''\<rparr>"
  have "PostServiceCredit (effect_id_of ''7'' ''post-service-credit'') ?plan
      \<in> set (outcome_effects (snd (cx_handle (\<lambda>_. []) ?x cx_demo_settle)))"
    by (subst cx_demo_credited) (simp_all add: cx_demo_settle_def cx_demo_env_def cx_demo_state_def)
  from credit_needs_verification [OF refl this] show ?thesis by auto
qed

section \<open>The journal of events\<close>

text \<open>Replaying a journal in a debug build: \<open>None\<close> is a failed assertion.\<close>

fun evolve_all :: "aggregate \<Rightarrow> exchange_event list \<Rightarrow> aggregate option" where
  "evolve_all st [] = Some st"
| "evolve_all st (ev # evs) = (if evolve_asserts st ev then evolve_all (evolve st ev) evs else None)"

lemma evolve_all_append:
  "evolve_all st (xs @ ys) = (case evolve_all st xs of None \<Rightarrow> None | Some st' \<Rightarrow> evolve_all st' ys)"
  by (induction xs arbitrary: st) auto

lemma evolve_all_stop: "evolve_all st' (append_stop_events st [] reason) = Some (foldl evolve st' (append_stop_events st [] reason))"
  by (cases "ag_lease st"; cases "ag_attempt st") (simp_all add: append_stop_events_def)

lemma decide_asserts:
  assumes "decide_command st pol key gen cmd = Inr (evs, effs)"
  shows "evolve_all st evs = Some (foldl evolve st evs)"
proof (cases cmd)
  case (GrantConsent g)
  with assms grant_step [of st pol g gen evs effs] show ?thesis by simp
next
  case (ObserveTime t)
  with assms show ?thesis
    by (auto simp: decide_observe_time_def append_stop_events_append [of st "[_, _]"] evolve_all_stop
        split: if_splits consent_state.splits option.splits)
next
  case (RevokeConsent gid reason)
  with assms show ?thesis
    by (auto simp: decide_revoke_def decide_ok append_stop_events_append [of st "[_]"] evolve_all_stop split: if_splits)
next
  case (OpenLease l)
  with assms have "decide_open_lease st pol l = Inr (evs, effs)" by simp
  then show ?thesis by (rule lease_step) simp
next
  case (OfferAssignment a)
  with assms have "decide_offer st pol a = Inr (evs, effs)" by simp
  then show ?thesis by (rule offer_step) simp
next
  case (StartAttempt aid asid)
  with assms have "decide_start st key aid asid = Inr (evs, effs)" by simp
  then show ?thesis by (rule start_step) simp
next
  case (SubmitResult aid r)
  with assms have "decide_submit_result st key aid r = Inr (evs, effs)" by simp
  then show ?thesis by (rule submit_step) simp
next
  case (VerifyResult aid v cap vd)
  with assms have "decide_verify st aid v cap vd = Inr (evs, effs)" by simp
  then show ?thesis by (rule verify_step) simp_all
next
  case (PrepareSettlement sid aid c)
  with assms have "decide_prepare_settlement st key sid aid c = Inr (evs, effs)" by simp
  then show ?thesis by (rule prepare_step) simp
next
  case (RecordSettlementReceipt rc)
  with assms have "decide_record_receipt st rc = Inr (evs, effs)" by simp
  then show ?thesis by (rule receipt_step) simp
qed

lemma cx_journal_replay: "evolve_all (cx_aggregate x) (cx_journal dbg x envs) = Some (cx_aggregate (cx_after dbg x envs))"
proof (induction envs arbitrary: x)
  case Nil
  then show ?case by (simp add: cx_journal_def)
next
  case (Cons env envs)
  let ?out = "snd (cx_handle dbg x env)" and ?x' = "fst (cx_handle dbg x env)"
  have "evolve_all (cx_aggregate x) (if outcome_replayed ?out then [] else outcome_events ?out) = Some (cx_aggregate ?x')"
    by (rule cx_handle_cases [of dbg x env]) (auto simp: accepted_def decide_asserts)
  moreover have "cx_journal dbg x (env # envs) = (if outcome_replayed ?out then [] else outcome_events ?out) @ cx_journal dbg ?x' envs"
    by (simp add: cx_journal_def)
  ultimately show ?case using Cons.IH [of ?x'] by (simp add: evolve_all_append)
qed

text \<open>C27: The events of the outcomes that are not replays are a complete journal: replaying them from the new
  aggregate, with the debug assertions of \<open>evolve\<close> checked, panics nowhere and gives the aggregate of the exchange.\<close>

theorem journal_rebuilds_aggregate:
  "evolve_all (aggregate_new n) (cx_journal dbg (cx_new n pol) envs) = Some (cx_aggregate (cx_after dbg (cx_new n pol) envs))"
  using cx_journal_replay [of "cx_new n pol" dbg envs] by (simp add: cx_new_def)

section \<open>Idempotency\<close>

lemma handle_records:
  assumes "map_of (cx_inbox x) (env_idempotency_key env) = None" "env_idempotency_key env \<noteq> []"
  shows "\<exists>ib. map_of (cx_inbox (fst (cx_handle dbg x env))) (env_idempotency_key env) = Some ib \<and>
    ib_intent ib = \<lparr>in_generation = env_generation env, in_command = env_command env\<rparr> \<and>
    ib_outcome ib = snd (cx_handle dbg x env)"
  using assms by (simp add: cx_handle_def Let_def)

text \<open>Once a command has been handled under a new key, handling it again after any further commands changes
  nothing and returns the recorded outcome without effects, marked as a replay; any other command or generation under that key
  changes nothing and is refused as a conflict.\<close>

theorem replay_is_idempotent:
  assumes fresh: "map_of (cx_inbox x) (env_idempotency_key env) = None" "env_idempotency_key env \<noteq> []"
    and later: "x' = cx_after dbg (fst (cx_handle dbg x env)) envs"
  shows "cx_handle dbg x' env = (x', replay_receipt (snd (cx_handle dbg x env))) \<and>
    (\<forall>env'. env_idempotency_key env' = env_idempotency_key env \<longrightarrow>
      (env_generation env', env_command env') \<noteq> (env_generation env, env_command env) \<longrightarrow>
      fst (cx_handle dbg x' env') = x' \<and>
      (\<exists>orig new. snd (cx_handle dbg x' env') = rejected (IdempotencyConflict (env_idempotency_key env) orig new)))"
proof -
  obtain ib where ib: "map_of (cx_inbox (fst (cx_handle dbg x env))) (env_idempotency_key env) = Some ib"
    "ib_intent ib = \<lparr>in_generation = env_generation env, in_command = env_command env\<rparr>"
    "ib_outcome ib = snd (cx_handle dbg x env)"
    using handle_records [OF fresh] by blast
  have kept: "map_of (cx_inbox x') (env_idempotency_key env) = Some ib"
    using cx_after_inbox_le [of "fst (cx_handle dbg x env)" dbg envs] ib(1) unfolding later
    by (metis domI map_le_def)
  have "cx_handle dbg x' env = (x', replay_receipt (snd (cx_handle dbg x env)))"
    using kept ib(2,3) fresh(2) by (simp add: cx_handle_def Let_def)
  moreover have "fst (cx_handle dbg x' env') = x' \<and>
      (\<exists>orig new. snd (cx_handle dbg x' env') = rejected (IdempotencyConflict (env_idempotency_key env) orig new))"
    if "env_idempotency_key env' = env_idempotency_key env"
      "(env_generation env', env_command env') \<noteq> (env_generation env, env_command env)" for env'
    using that kept ib(2) fresh(2) by (auto simp: cx_handle_def Let_def)
  ultimately show ?thesis by blast
qed

theorem replay_is_idempotent_witness:
  "(let x' = cx_after (\<lambda>_. []) (cx_new ''n'' policy_browser_alpha_v1) cx_demo_verified;
        env = cx_demo_env ''1'' (GrantConsent cx_demo_grant)
    in cx_handle (\<lambda>_. []) x' env = (x', replay_receipt (snd (cx_handle (\<lambda>_. []) (cx_new ''n'' policy_browser_alpha_v1) env))) \<and>
       fst (cx_handle (\<lambda>_. []) x' (cx_demo_env ''1'' (ObserveTime 9))) = x')"
proof -
  let ?x = "cx_new ''n'' policy_browser_alpha_v1" and ?env = "cx_demo_env ''1'' (GrantConsent cx_demo_grant)"
  have fresh: "map_of (cx_inbox ?x) (env_idempotency_key ?env) = None" "env_idempotency_key ?env \<noteq> []"
    by (simp_all add: cx_demo_env_def cx_new_def)
  have later: "cx_after (\<lambda>_. []) ?x cx_demo_verified = cx_after (\<lambda>_. []) (fst (cx_handle (\<lambda>_. []) ?x ?env)) (drop 1 cx_demo_verified)"
    by (simp add: cx_demo_verified_def cx_demo_offered_def)
  show ?thesis
    using replay_is_idempotent [OF fresh later] by (simp add: cx_demo_env_def)
qed

end
