(* ===== verification/Slot_Seal.thy ===== *)
theory Slot_Seal
  imports Quorum_Safety Anti_Entropy
begin

text \<open>
  Recovery of a contested slot (\<open>333-slotseal/src\<close>): the decree alphabet of \<open>lib.rs\<close>, the
  externally valid single-decree agreement of \<open>agreement.rs\<close> and the certificate predicate of
  \<open>finality.rs\<close>. A decree finalizes an order that has a certificate or voids a slot for which no
  certificate can form; the properties say when the two exclude each other.
\<close>

unbundle bit_operations_syntax

section \<open>Decrees\<close>

datatype seal_outcome = Finalize bytes | Void

record slot_seal =
  ss_account :: account_id
  ss_seq :: u64
  ss_committee_id :: bytes
  ss_outcome :: seal_outcome

definition seal_finalize :: "account_id \<Rightarrow> u64 \<Rightarrow> bytes \<Rightarrow> bytes \<Rightarrow> slot_seal" where
  "seal_finalize account sq cid oid = \<lparr>ss_account = account, ss_seq = sq, ss_committee_id = cid, ss_outcome = Finalize oid\<rparr>"

definition seal_void :: "account_id \<Rightarrow> u64 \<Rightarrow> bytes \<Rightarrow> slot_seal" where
  "seal_void account sq cid = \<lparr>ss_account = account, ss_seq = sq, ss_committee_id = cid, ss_outcome = Void\<rparr>"

definition is_final_cert_exists :: "crypto \<Rightarrow> certificate \<Rightarrow> committee \<Rightarrow> bool" where
  "is_final_cert_exists cr k c = (certificate_verify cr k c \<noteq> None)"

section \<open>Evidence\<close>

datatype seal_evidence = CertFor certificate | NoCertProof "vote list" nat

text \<open>One turn of the loop of \<open>no_cert_can_form\<close>: the tally per (recipient, amount), and who has voted.\<close>

definition tally_vote ::
    "crypto \<Rightarrow> committee \<Rightarrow> account_id \<Rightarrow> u64 \<Rightarrow>
      (account_id \<times> amount, authority_id set) btree \<times> authority_id set \<Rightarrow> vote \<Rightarrow>
      (account_id \<times> amount, authority_id set) btree \<times> authority_id set" where
  "tally_vote cr c account sq acc v =
     (if tr_from (vt_transfer v) \<noteq> account \<or> tr_from_seq (vt_transfer v) \<noteq> sq then acc
      else case committee_key_of c (vt_authority v) of
        None \<Rightarrow> acc
      | Some key \<Rightarrow>
          if \<not> ed_verify_strict cr key (vote_message v) (vt_signature v) then acc
          else let k = (tr_to (vt_transfer v), tr_amount (vt_transfer v));
                   old = (case map_of (fst acc) k of None \<Rightarrow> {} | Some s \<Rightarrow> s)
               in (bt_insert k (insert (vt_authority v) old) (fst acc), insert (vt_authority v) (snd acc)))"

definition no_cert_can_form :: "crypto \<Rightarrow> vote list \<Rightarrow> committee \<Rightarrow> account_id \<Rightarrow> u64 \<Rightarrow> bool" where
  "no_cert_can_form cr votes c account sq =
     (let n = committee_size c; f = (n - 1) div 3; q = committee_quorum c;
          (per_order, voted) = foldl (tally_vote cr c account sq) ([], {}) votes;
          unvoted = n - card voted
      in f + unvoted < q \<and> (\<forall>(k, auths) \<in> set per_order. card auths + f + unvoted < q))"

record seal_proposal =
  pr_seal :: slot_seal
  pr_evidence :: seal_evidence

definition is_externally_valid :: "crypto \<Rightarrow> seal_proposal \<Rightarrow> committee \<Rightarrow> vote list \<Rightarrow> bool" where
  "is_externally_valid cr p c own_votes =
     (case (ss_outcome (pr_seal p), pr_evidence p) of
        (Finalize oid, CertFor cert) \<Rightarrow>
          (case certificate_verify cr cert c of
             Some v \<Rightarrow> order_id cr (vf_order v) = oid \<and> tr_from (vf_transfer v) = ss_account (pr_seal p) \<and>
               tr_from_seq (vf_transfer v) = ss_seq (pr_seal p)
           | None \<Rightarrow> False)
      | (Void, NoCertProof votes csize) \<Rightarrow>
          (if csize \<noteq> committee_size c then False
           else no_cert_can_form cr (votes @ own_votes) c (ss_account (pr_seal p)) (ss_seq (pr_seal p)))
      | _ \<Rightarrow> False)"

section \<open>Agreement\<close>

datatype seal_msg = SealPropose seal_proposal | SealVote bytes string

definition xor_at :: "bytes \<Rightarrow> nat \<Rightarrow> u8 \<Rightarrow> bytes" where
  "xor_at out i b = out[i := (out ! i) XOR b]"

definition seal_digest :: "slot_seal \<Rightarrow> bytes" where
  "seal_digest s =
     (let out = (case ss_outcome s of Finalize oid \<Rightarrow> oid | Void \<Rightarrow> as_bytes ''VOID'' @ replicate 28 0);
          out = fold (\<lambda>(i, b) out. xor_at out (i mod 32) b) (List.enumerate 0 (as_bytes (ss_account s))) out
      in xor_at out 31 (ucast (ss_seq s)))"

record agreement_node =
  an_id :: string
  an_committee :: committee
  an_own_votes :: "vote list"
  an_voted_for :: "bytes option"
  an_votes :: "(bytes, string set) btree"
  an_proposal_seal :: "slot_seal option"
  an_decided :: "slot_seal option"

definition agreement_new :: "string \<Rightarrow> committee \<Rightarrow> vote list \<Rightarrow> agreement_node" where
  "agreement_new i c own_votes =
     \<lparr>an_id = i, an_committee = c, an_own_votes = own_votes, an_voted_for = None, an_votes = [], an_proposal_seal = None,
      an_decided = None\<rparr>"

definition record_vote :: "agreement_node \<Rightarrow> bytes \<Rightarrow> string \<Rightarrow> agreement_node" where
  "record_vote nd d voter =
     (let voters = insert voter (case map_of (an_votes nd) d of None \<Rightarrow> {} | Some s \<Rightarrow> s);
          nd = nd\<lparr>an_votes := bt_insert d voters (an_votes nd)\<rparr>
      in if an_decided nd = None \<and> an_voted_for nd = Some d \<and> card voters \<ge> committee_quorum (an_committee nd)
         then nd\<lparr>an_decided := an_proposal_seal nd\<rparr> else nd)"

fun agreement_process :: "crypto \<Rightarrow> agreement_node \<Rightarrow> seal_msg \<Rightarrow> agreement_node \<times> seal_msg option" where
  "agreement_process cr nd (SealPropose p) =
     (if an_voted_for nd = None \<and> is_externally_valid cr p (an_committee nd) (an_own_votes nd)
      then let d = seal_digest (pr_seal p)
           in (record_vote (nd\<lparr>an_voted_for := Some d, an_proposal_seal := Some (pr_seal p)\<rparr>) d (an_id nd),
               Some (SealVote d (an_id nd)))
      else (nd, None))"
| "agreement_process cr nd (SealVote d voter) =
     (if an_voted_for nd = Some d then (record_vote nd d voter, None) else (nd, None))"

definition process_all :: "crypto \<Rightarrow> agreement_node list \<Rightarrow> seal_msg \<Rightarrow> agreement_node list" where
  "process_all cr nodes m = map (\<lambda>nd. fst (agreement_process cr nd m)) nodes"

definition run_single_decree ::
    "crypto \<Rightarrow> committee \<Rightarrow> seal_proposal \<Rightarrow> (string \<times> vote list) list \<Rightarrow> nat list \<Rightarrow> seal_msg list \<Rightarrow> slot_seal option list" where
  "run_single_decree cr c p honest delivery byzantine_votes =
     (let nodes = map (\<lambda>(i, ev). agreement_new i c ev) honest;
          first = map (\<lambda>nd. agreement_process cr nd (SealPropose p)) nodes;
          nodes = map fst first;
          broadcast = List.map_filter snd first;
          nodes = foldl (\<lambda>nodes i. if i < length broadcast then process_all cr nodes (broadcast ! i) else nodes) nodes delivery;
          nodes = foldl (process_all cr) nodes byzantine_votes
      in map an_decided nodes)"

section \<open>The tally\<close>

definition counted :: "crypto \<Rightarrow> committee \<Rightarrow> account_id \<Rightarrow> u64 \<Rightarrow> vote \<Rightarrow> bool" where
  "counted cr c account sq v \<longleftrightarrow> tr_from (vt_transfer v) = account \<and> tr_from_seq (vt_transfer v) = sq \<and>
     (\<exists>key. committee_key_of c (vt_authority v) = Some key \<and> ed_verify_strict cr key (vote_message v) (vt_signature v))"

definition voters_of :: "crypto \<Rightarrow> committee \<Rightarrow> account_id \<Rightarrow> u64 \<Rightarrow> vote list \<Rightarrow> authority_id set" where
  "voters_of cr c account sq votes = vt_authority ` {v \<in> set votes. counted cr c account sq v}"

definition voters_for ::
    "crypto \<Rightarrow> committee \<Rightarrow> account_id \<Rightarrow> u64 \<Rightarrow> account_id \<times> amount \<Rightarrow> vote list \<Rightarrow> authority_id set" where
  "voters_for cr c account sq k votes =
     vt_authority ` {v \<in> set votes. counted cr c account sq v \<and> (tr_to (vt_transfer v), tr_amount (vt_transfer v)) = k}"

lemma tally_vote_eq:
  "tally_vote cr c account sq (per, voted) v =
     (if counted cr c account sq v
      then let k = (tr_to (vt_transfer v), tr_amount (vt_transfer v))
           in (bt_insert k (insert (vt_authority v) (case map_of per k of None \<Rightarrow> {} | Some s \<Rightarrow> s)) per, insert (vt_authority v) voted)
      else (per, voted))"
  by (auto simp: tally_vote_def counted_def Let_def split: option.splits)

lemma tally_result:
  assumes "foldl (tally_vote cr c account sq) ([], {}) votes = (per, voted)"
  shows "bt_wf per \<and> voted = voters_of cr c account sq votes \<and>
    (\<forall>k. (case map_of per k of None \<Rightarrow> {} | Some s \<Rightarrow> s) = voters_for cr c account sq k votes)"
  using assms
proof (induction votes arbitrary: per voted rule: rev_induct)
  case Nil
  then show ?case by (auto simp: voters_of_def voters_for_def)
next
  case (snoc v votes)
  obtain per0 voted0 where 0: "foldl (tally_vote cr c account sq) ([], {}) votes = (per0, voted0)" by force
  note IH = snoc.IH [OF 0]
  show ?case
  proof (cases "counted cr c account sq v")
    case True
    let ?k = "(tr_to (vt_transfer v), tr_amount (vt_transfer v))"
    have e: "per = bt_insert ?k (insert (vt_authority v) (case map_of per0 ?k of None \<Rightarrow> {} | Some s \<Rightarrow> s)) per0"
      "voted = insert (vt_authority v) voted0"
      using snoc.prems 0 True by (simp_all add: tally_vote_eq Let_def)
    have "voters_of cr c account sq (votes @ [v]) = insert (vt_authority v) (voters_of cr c account sq votes)"
      using True by (auto simp: voters_of_def)
    moreover have "voters_for cr c account sq k (votes @ [v]) =
        (if k = ?k then insert (vt_authority v) (voters_for cr c account sq k votes) else voters_for cr c account sq k votes)" for k
      using True by (auto simp: voters_for_def)
    ultimately show ?thesis using IH e by simp
  next
    case False
    then have "voters_of cr c account sq (votes @ [v]) = voters_of cr c account sq votes"
      "voters_for cr c account sq k (votes @ [v]) = voters_for cr c account sq k votes" for k
      by (auto simp: voters_of_def voters_for_def)
    then show ?thesis using IH snoc.prems 0 False by (simp add: tally_vote_eq)
  qed
qed

text \<open>The predicate bounds the voters of every order, whether it has votes or not.\<close>

lemma no_cert_bound:
  assumes "no_cert_can_form cr votes c account sq"
  shows "card (voters_for cr c account sq k votes) + fault_budget (committee_size c)
    + (committee_size c - card (voters_of cr c account sq votes)) < committee_quorum c"
proof -
  obtain per voted where t: "foldl (tally_vote cr c account sq) ([], {}) votes = (per, voted)" by force
  note r = tally_result [OF t]
  show ?thesis
  proof (cases "map_of per k")
    case None
    with r have "voters_for cr c account sq k votes = {}" by (metis option.simps(4))
    then show ?thesis using assms r t by (simp add: no_cert_can_form_def Let_def fault_budget_def)
  next
    case (Some s)
    with r have s: "s = voters_for cr c account sq k votes" by (metis option.simps(5))
    have "(k, s) \<in> set per" using Some by (rule map_of_SomeD)
    then show ?thesis using assms r t s by (auto simp: no_cert_can_form_def Let_def fault_budget_def)
  qed
qed

section \<open>Void and certificates\<close>

text \<open>Sizes that Rust's types guarantee of a vote.\<close>

definition vote_ok :: "vote \<Rightarrow> bool" where
  "vote_ok v \<longleftrightarrow> length (committee_bytes (vt_committee_id v)) = 32 \<and> length (policy_bytes (vt_policy_id v)) = 32 \<and>
     str_ok (network_str (vt_network_id v)) \<and> transfer_ok (vt_transfer v)"

lemma honest_vote_on_log:
  assumes "honest_voter cr cf n vs h" "v \<in> set vs" "vt_authority v = h" "vote_ok v"
  obtains g ord where "(g, vt_committee_id v, ord) \<in> set (nd_signed n)" "st_transfer ord = vt_transfer v"
    "st_round ord = vt_round v"
proof -
  from assms(1-3) obtain g cid ord where e: "(g, cid, ord) \<in> set (nd_signed n)"
    and m: "vote_message v = authority_signing_message h cid (st_policy_id ord) (st_network_id ord)
        (st_transfer ord) (st_round ord)"
    unfolding honest_voter_def votes_unforged_def by fastforce
  have t: "length (committee_bytes cid) = 32" "order_ok ord" "str_ok h"
    using assms(1) e by (auto simp: honest_voter_def log_typed_def)
  have "vt_committee_id v = cid \<and> vt_transfer v = st_transfer ord \<and> vt_round v = st_round ord"
    using authority_message_inj [of "vt_committee_id v" cid h h] m t assms(3,4)
    unfolding order_ok_def vote_ok_def vote_message_def by metis
  with e show ?thesis using that [of g ord] by auto
qed

text \<open>The evidence speaks about the committee and the round of the order.\<close>

definition evidence_current :: "crypto \<Rightarrow> committee \<Rightarrow> signed_transfer \<Rightarrow> vote list \<Rightarrow> bool" where
  "evidence_current cr c ord votes \<longleftrightarrow>
     (\<forall>v \<in> set votes. counted cr c (tr_from (st_transfer ord)) (tr_from_seq (st_transfer ord)) v \<longrightarrow>
        vt_committee_id v = cm_id c \<and> vt_round v = st_round ord \<and> vote_ok v)"

definition counted_votes :: "crypto \<Rightarrow> committee \<Rightarrow> signed_transfer \<Rightarrow> vote list \<Rightarrow> vote list" where
  "counted_votes cr c ord votes =
     filter (counted cr c (tr_from (st_transfer ord)) (tr_from_seq (st_transfer ord))) votes"

lemma honest_signer_counted:
  assumes k: "certificate_is_valid cr k c" "order_ok (ct_order k)" "length (committee_bytes (cm_id c)) = 32"
    and cur: "evidence_current cr c (ct_order k) votes"
    and hv: "honest_voter cr cf n (counted_votes cr c (ct_order k) votes @ ct_votes k) h" "one_epoch (cm_id c) n"
    and s: "h \<in> signers k"
    and w: "h \<in> voters_of cr c (tr_from (st_transfer (ct_order k))) (tr_from_seq (st_transfer (ct_order k))) votes"
  shows "h \<in> voters_for cr c (tr_from (st_transfer (ct_order k))) (tr_from_seq (st_transfer (ct_order k)))
    (tr_to (st_transfer (ct_order k)), tr_amount (st_transfer (ct_order k))) votes"
proof -
  let ?a = "tr_from (st_transfer (ct_order k))" and ?s = "tr_from_seq (st_transfer (ct_order k))"
  from w obtain v where v: "v \<in> set votes" "counted cr c ?a ?s v" "vt_authority v = h" by (auto simp: voters_of_def)
  have vc: "vt_committee_id v = cm_id c" "vt_round v = st_round (ct_order k)" "vote_ok v"
    using cur v(1,2) by (auto simp: evidence_current_def)
  from honest_vote_on_log [OF hv(1) _ v(3) vc(3)] v(1,2) obtain g1 o1 where
    o1: "(g1, cm_id c, o1) \<in> set (nd_signed n)" "st_transfer o1 = vt_transfer v" "st_round o1 = vt_round v"
    by (auto simp: counted_votes_def vc(1))
  from signer_vote [OF k(1) s] obtain v2 where v2: "v2 \<in> set (ct_votes k)" "vt_authority v2 = h"
    "vote_matches cr v2 (ct_order k) c" .
  from honest_vote_logged [OF hv(1) _ v2(2,3) k(2,3)] v2(1) obtain g2 o2 where
    o2: "(g2, cm_id c, o2) \<in> set (nd_signed n)" "st_transfer o2 = st_transfer (ct_order k)"
      "st_round o2 = st_round (ct_order k)" by auto
  have "g1 = g2" using hv(2) o1(1) o2(1) unfolding one_epoch_def by blast
  moreover have "slot_of o1 = slot_of o2" using o1 o2 v(2) vc(2) by (simp add: slot_of_def counted_def)
  moreover have "filej.node_inv cr cr cf n" using hv(1) file_life by (auto simp: honest_voter_def)
  ultimately have "o1 = o2" using filej.vote_once o1(1) o2(1) by blast
  then have "vt_transfer v = st_transfer (ct_order k)" using o1(2) o2(2) by simp
  with v show ?thesis by (auto simp: voters_for_def)
qed

lemma no_certificate_beside_void:
  assumes "no_cert_can_form cr votes c (tr_from (st_transfer (ct_order k))) (tr_from_seq (st_transfer (ct_order k)))"
    and "evidence_current cr c (ct_order k) votes"
    and "finite B" "card B \<le> fault_budget (committee_size c)"
    and "\<forall>h \<in> members c - B. honest_voter cr (cfg h) (nd h) (counted_votes cr c (ct_order k) votes @ ct_votes k) h"
    and "order_ok (ct_order k)" "length (committee_bytes (cm_id c)) = 32"
    and "\<forall>h \<in> members c - B. one_epoch (cm_id c) (nd h)"
  shows "\<not> certificate_is_valid cr k c"
proof
  assume valid: "certificate_is_valid cr k c"
  let ?a = "tr_from (st_transfer (ct_order k))" and ?s = "tr_from_seq (st_transfer (ct_order k))"
    and ?k = "(tr_to (st_transfer (ct_order k)), tr_amount (st_transfer (ct_order k)))"
  let ?W = "voters_of cr c ?a ?s votes" and ?F = "voters_for cr c ?a ?s ?k votes"
  have sub: "signers k \<subseteq> B \<union> ?F \<union> (members c - ?W)"
  proof
    fix h assume h: "h \<in> signers k"
    then have m: "h \<in> members c" using valid_signers(1) [OF valid] by (auto simp: members_def)
    have "h \<in> ?F" if "h \<notin> B" "h \<in> ?W"
      using honest_signer_counted [OF valid assms(6,7,2) _ _ h that(2)] assms(5,8) m that(1) by blast
    with m show "h \<in> B \<union> ?F \<union> (members c - ?W)" by blast
  qed
  have fin: "finite ?F" "finite (members c)" "finite ?W" by (simp_all add: voters_for_def voters_of_def members_def)
  have "?W \<subseteq> members c"
    by (force simp: voters_of_def counted_def members_def committee_key_of_def dest: map_of_SomeD)
  then have "card (members c - ?W) = card (members c) - card ?W" using fin by (simp add: card_Diff_subset)
  moreover have "card (members c) \<le> committee_size c"
    unfolding members_def committee_size_def by (metis card_length length_map)
  moreover have "card (signers k) \<le> card B + card ?F + card (members c - ?W)"
    using card_mono [OF _ sub] card_Un_le [of "B \<union> ?F" "members c - ?W"] card_Un_le [of B ?F] fin assms(3) by simp
  ultimately show False
    using no_cert_bound [OF assms(1), of ?k] valid_signers(2) [OF valid] assms(4) by simp
qed

section \<open>Decisions are externally valid\<close>

definition agreement_run :: "crypto \<Rightarrow> agreement_node \<Rightarrow> seal_msg list \<Rightarrow> agreement_node" where
  "agreement_run cr nd msgs = foldl (\<lambda>nd m. fst (agreement_process cr nd m)) nd msgs"

lemma record_vote_fields:
  "an_committee (record_vote nd d voter) = an_committee nd" "an_own_votes (record_vote nd d voter) = an_own_votes nd"
  "an_proposal_seal (record_vote nd d voter) = an_proposal_seal nd"
  "an_decided (record_vote nd d voter) \<in> {an_decided nd, an_proposal_seal nd}"
  by (simp_all add: record_vote_def Let_def)

definition decree_ok :: "crypto \<Rightarrow> seal_msg list \<Rightarrow> committee \<Rightarrow> vote list \<Rightarrow> agreement_node \<Rightarrow> bool" where
  "decree_ok cr msgs c own nd \<longleftrightarrow> an_committee nd = c \<and> an_own_votes nd = own \<and>
     (\<forall>s. an_proposal_seal nd = Some s \<or> an_decided nd = Some s \<longrightarrow>
        (\<exists>p. SealPropose p \<in> set msgs \<and> pr_seal p = s \<and> is_externally_valid cr p c own))"

lemma decree_ok_record_vote: "decree_ok cr msgs c own nd \<Longrightarrow> decree_ok cr msgs c own (record_vote nd d voter)"
  using record_vote_fields [of nd d voter] by (auto simp: decree_ok_def)

lemma decree_ok_step:
  assumes "decree_ok cr msgs c own nd"
  shows "decree_ok cr (msgs @ [m]) c own (fst (agreement_process cr nd m))"
proof -
  have more: "decree_ok cr (msgs @ [m]) c own nd" using assms by (auto simp: decree_ok_def)
  then show ?thesis
  proof (cases m)
    case (SealPropose p)
    show ?thesis
    proof (cases "an_voted_for nd = None \<and> is_externally_valid cr p (an_committee nd) (an_own_votes nd)")
      case True
      then have "decree_ok cr (msgs @ [m]) c own (nd\<lparr>an_voted_for := d, an_proposal_seal := Some (pr_seal p)\<rparr>)" for d
        using more SealPropose by (auto simp: decree_ok_def)
      then show ?thesis using True SealPropose by (simp add: Let_def decree_ok_record_vote)
    next
      case False
      then show ?thesis using more SealPropose by auto
    qed
  qed (use more in \<open>simp add: decree_ok_record_vote\<close>)
qed

lemma agreement_run_ok: "decree_ok cr msgs c own (agreement_run cr (agreement_new i c own) msgs)"
proof (induction msgs rule: rev_induct)
  case Nil
  then show ?case by (simp add: agreement_run_def agreement_new_def decree_ok_def)
next
  case (snoc m msgs)
  then show ?case using decree_ok_step [OF snoc.IH, of m] by (simp add: agreement_run_def)
qed

lemma decided_valid:
  assumes "an_decided (agreement_run cr (agreement_new i c own) msgs) = Some s"
  obtains p where "SealPropose p \<in> set msgs" "pr_seal p = s" "is_externally_valid cr p c own"
  using agreement_run_ok [of cr msgs c own i] assms by (auto simp: decree_ok_def)

text \<open>C28: the evidence for \<open>Void\<close> is sound within a round and an epoch. When \<open>no_cert_can_form\<close> holds of votes that,
  as far as they count, are of the committee and the round in question, at most \<open>(n - 1) / 3\<close> members are not honest, and no honest
  member has voted under the committee's identifier in two epochs, no valid certificate exists for any order of that slot
  and round, whatever votes it carries.\<close>

theorem void_excludes_certificate:
  assumes "no_cert_can_form cr votes c (tr_from (st_transfer (ct_order k))) (tr_from_seq (st_transfer (ct_order k)))"
    and "evidence_current cr c (ct_order k) votes"
    and "finite B" "card B \<le> fault_budget (committee_size c)"
    and "\<forall>h \<in> members c - B. honest_voter cr (cfg h) (nd h) (counted_votes cr c (ct_order k) votes @ ct_votes k) h"
    and "order_ok (ct_order k)" "length (committee_bytes (cm_id c)) = 32"
    and "\<forall>h \<in> members c - B. one_epoch (cm_id c) (nd h)"
  shows "\<not> certificate_is_valid cr k c"
  using no_certificate_beside_void [OF assms] .

section \<open>Agreement on the fate of a slot\<close>

text \<open>
  Honest members and genuine evidence: every vote that counts in the name of an honest member was signed by it, and the
  evidence of a proposal, together with the node's own votes, is about one round of the committee.
\<close>

definition honest_members :: "crypto \<Rightarrow> committee \<Rightarrow> authority_id set \<Rightarrow> (authority_id \<Rightarrow> config) \<Rightarrow> (authority_id \<Rightarrow> file_journal node) \<Rightarrow> bool" where
  "honest_members cr c B cfg nd \<longleftrightarrow> finite B \<and> card B \<le> fault_budget (committee_size c) \<and>
     length (committee_bytes (cm_id c)) = 32 \<and> (\<forall>h \<in> members c - B. honest_voter cr (cfg h) (nd h) [] h)"

definition genuine ::
    "crypto \<Rightarrow> committee \<Rightarrow> authority_id set \<Rightarrow> (authority_id \<Rightarrow> file_journal node) \<Rightarrow> u64 \<Rightarrow> vote list \<Rightarrow> seal_proposal \<Rightarrow> bool" where
  "genuine cr c B nd rnd own p =
     (case pr_evidence p of
        CertFor k \<Rightarrow> order_ok (ct_order k) \<and> st_round (ct_order k) = rnd \<and> (\<forall>h \<in> members c - B. votes_unforged h (nd h) (ct_votes k))
      | NoCertProof votes _ \<Rightarrow>
          (\<forall>v \<in> set (votes @ own). counted cr c (ss_account (pr_seal p)) (ss_seq (pr_seal p)) v \<longrightarrow>
             vt_committee_id v = cm_id c \<and> vt_round v = rnd \<and> vote_ok v) \<and>
          (\<forall>h \<in> members c - B. votes_unforged h (nd h)
             (filter (counted cr c (ss_account (pr_seal p)) (ss_seq (pr_seal p))) (votes @ own))))"

lemma honest_voter_split:
  "honest_voter cr cf n vs h \<longleftrightarrow> honest_voter cr cf n [] h \<and> votes_unforged h n vs"
  by (auto simp: honest_voter_def votes_unforged_def)

lemma votes_unforged_append: "votes_unforged h n (xs @ ys) \<longleftrightarrow> votes_unforged h n xs \<and> votes_unforged h n ys"
  by (auto simp: votes_unforged_def)

text \<open>What a valid proposal says.\<close>

lemma valid_finalize:
  assumes "is_externally_valid cr p c own" "ss_outcome (pr_seal p) = Finalize oid"
  obtains k where "pr_evidence p = CertFor k" "certificate_is_valid cr k c" "order_id cr (ct_order k) = oid"
    "tr_from (st_transfer (ct_order k)) = ss_account (pr_seal p)" "tr_from_seq (st_transfer (ct_order k)) = ss_seq (pr_seal p)"
  using assms
  by (auto simp: is_externally_valid_def certificate_verify_def vf_transfer_def split: seal_evidence.splits if_splits)

lemma valid_void:
  assumes "is_externally_valid cr p c own" "ss_outcome (pr_seal p) = Void"
  obtains votes sz where "pr_evidence p = NoCertProof votes sz"
    "no_cert_can_form cr (votes @ own) c (ss_account (pr_seal p)) (ss_seq (pr_seal p))"
  using assms by (auto simp: is_externally_valid_def split: seal_evidence.splits if_splits)

lemma finalize_void_exclusive:
  assumes H: "honest_members cr c B cfg nd" and E: "\<forall>h \<in> members c - B. one_epoch (cm_id c) (nd h)"
    and p: "is_externally_valid cr p c own" "ss_outcome (pr_seal p) = Finalize oid" "genuine cr c B nd rnd own p"
    and q: "is_externally_valid cr q c own'" "ss_outcome (pr_seal q) = Void" "genuine cr c B nd rnd own' q"
    and slot: "ss_account (pr_seal p) = ss_account (pr_seal q)" "ss_seq (pr_seal p) = ss_seq (pr_seal q)"
  shows False
proof -
  obtain k where k: "pr_evidence p = CertFor k" "certificate_is_valid cr k c" "order_id cr (ct_order k) = oid"
    "tr_from (st_transfer (ct_order k)) = ss_account (pr_seal p)" "tr_from_seq (st_transfer (ct_order k)) = ss_seq (pr_seal p)"
    using valid_finalize [OF p(1,2)] by blast
  obtain votes sz where v: "pr_evidence q = NoCertProof votes sz"
    "no_cert_can_form cr (votes @ own') c (ss_account (pr_seal q)) (ss_seq (pr_seal q))"
    using valid_void [OF q(1,2)] by blast
  have "\<not> certificate_is_valid cr k c"
  proof (rule no_certificate_beside_void)
    show "no_cert_can_form cr (votes @ own') c (tr_from (st_transfer (ct_order k))) (tr_from_seq (st_transfer (ct_order k)))"
      using v(2) k(4,5) slot by simp
    show "evidence_current cr c (ct_order k) (votes @ own')"
      using q(3) p(3) k v(1) slot by (simp add: genuine_def evidence_current_def)
    show "\<forall>h \<in> members c - B. honest_voter cr (cfg h) (nd h) (counted_votes cr c (ct_order k) (votes @ own') @ ct_votes k) h"
      using H q(3) p(3) k v(1) slot unfolding honest_voter_split [of cr _ _ "counted_votes _ _ _ _ @ _"]
      by (simp add: honest_members_def genuine_def votes_unforged_append counted_votes_def)
  qed (use H E p(3) k(1) in \<open>simp_all add: honest_members_def genuine_def\<close>)
  with k(2) show False by blast
qed

text \<open>Two certificates of one slot and round are for the same order, up to the owner's signature.\<close>

lemma certificates_same_order:
  assumes "certificate_is_valid cr k1 c" "certificate_is_valid cr k2 c"
    and "st_transfer (ct_order k1) = st_transfer (ct_order k2)" "st_round (ct_order k1) = st_round (ct_order k2)"
  shows "ct_order k2 = (ct_order k1)\<lparr>st_owner_signature := st_owner_signature (ct_order k2)\<rparr>"
proof -
  have "order_verify cr (ct_order k1) (cm_policy c) = Inr ()" "order_verify cr (ct_order k2) (cm_policy c) = Inr ()"
    using assms(1,2) by (simp_all add: certificate_valid_iff)
  then have "st_network_id (ct_order k1) = st_network_id (ct_order k2)" "st_policy_id (ct_order k1) = st_policy_id (ct_order k2)"
    by (simp_all add: order_verify_def policy_validate_ok)
  then show ?thesis using assms(3,4) by (intro signed_transfer.equality) simp_all
qed

text \<open>C29: agreement on the fate of a slot, within a round and an epoch. Let at most \<open>(n - 1) / 3\<close> members not be honest, let no
  honest member have voted under the committee's identifier in two epochs, and let the evidence of every proposal that reaches the
  two nodes, together with their own votes, be genuine and of one round of the committee. Then two nodes that decide the same slot, each
  on its own evidence and after any sequence of such proposals and of arbitrary (unauthenticated) agreement votes, either both
  void it or both finalize it, behind valid certificates for one order; the order identifiers they finalize can
  differ only through the owner's signature.\<close>

theorem seal_agreement:
  assumes d1: "an_decided (agreement_run cr (agreement_new i1 c own1) msgs1) = Some s1"
    and d2: "an_decided (agreement_run cr (agreement_new i2 c own2) msgs2) = Some s2"
    and slot: "ss_account s1 = ss_account s2" "ss_seq s1 = ss_seq s2"
    and H: "honest_members cr c B cfg nd" and E: "\<forall>h \<in> members c - B. one_epoch (cm_id c) (nd h)"
    and g1: "\<forall>p. SealPropose p \<in> set msgs1 \<longrightarrow> genuine cr c B nd rnd own1 p"
    and g2: "\<forall>p. SealPropose p \<in> set msgs2 \<longrightarrow> genuine cr c B nd rnd own2 p"
  shows "case (ss_outcome s1, ss_outcome s2) of
      (Void, Void) \<Rightarrow> True
    | (Finalize oid1, Finalize oid2) \<Rightarrow>
        (\<exists>k1 k2 sig. certificate_is_valid cr k1 c \<and> certificate_is_valid cr k2 c \<and> order_id cr (ct_order k1) = oid1 \<and>
           order_id cr (ct_order k2) = oid2 \<and> ct_order k2 = (ct_order k1)\<lparr>st_owner_signature := sig\<rparr>)
    | _ \<Rightarrow> False"
proof -
  obtain p1 where p1: "is_externally_valid cr p1 c own1" "pr_seal p1 = s1" "genuine cr c B nd rnd own1 p1"
    using decided_valid [OF d1] g1 by metis
  obtain p2 where p2: "is_externally_valid cr p2 c own2" "pr_seal p2 = s2" "genuine cr c B nd rnd own2 p2"
    using decided_valid [OF d2] g2 by metis
  show ?thesis
  proof (cases "ss_outcome s1"; cases "ss_outcome s2")
    fix oid1 oid2 assume o: "ss_outcome s1 = Finalize oid1" "ss_outcome s2 = Finalize oid2"
    obtain k1 where k1: "pr_evidence p1 = CertFor k1" "certificate_is_valid cr k1 c" "order_id cr (ct_order k1) = oid1"
      "tr_from (st_transfer (ct_order k1)) = ss_account s1" "tr_from_seq (st_transfer (ct_order k1)) = ss_seq s1"
      using valid_finalize [OF p1(1)] o(1) p1(2) by metis
    obtain k2 where k2: "pr_evidence p2 = CertFor k2" "certificate_is_valid cr k2 c" "order_id cr (ct_order k2) = oid2"
      "tr_from (st_transfer (ct_order k2)) = ss_account s2" "tr_from_seq (st_transfer (ct_order k2)) = ss_seq s2"
      using valid_finalize [OF p2(1)] o(2) p2(2) by metis
    have hv: "\<forall>h \<in> members c - B. honest_voter cr (cfg h) (nd h) (ct_votes k1 @ ct_votes k2) h"
      using H p1(3) p2(3) k1(1) k2(1) unfolding honest_voter_split [of cr _ _ "ct_votes _ @ _"]
      by (simp add: honest_members_def genuine_def votes_unforged_append)
    have rnd: "st_round (ct_order k1) = st_round (ct_order k2)" using p1(3) p2(3) k1(1) k2(1) by (simp add: genuine_def)
    then have "st_transfer (ct_order k1) = st_transfer (ct_order k2)"
      using certificates_agree [OF k1(2) k2(2) _ _ _ hv E] H p1(3) p2(3) k1 k2 slot
      by (simp add: honest_members_def genuine_def slot_of_def)
    from certificates_same_order [OF k1(2) k2(2) this rnd] show ?thesis using k1(2,3) k2(2,3) o by (simp; metis)
  next
    fix oid assume "ss_outcome s1 = Finalize oid" "ss_outcome s2 = Void"
    then show ?thesis using finalize_void_exclusive [OF H E p1(1) _ p1(3) p2(1) _ p2(3)] p1(2) p2(2) slot by auto
  next
    fix oid assume "ss_outcome s1 = Void" "ss_outcome s2 = Finalize oid"
    then show ?thesis using finalize_void_exclusive [OF H E p2(1) _ p2(3) p1(1) _ p1(3)] p1(2) p2(2) slot by auto
  qed simp_all
qed

section \<open>Decisions are reached\<close>

text \<open>A node that voted for the proposal, has the names \<open>S\<close> on record for it, and decides when they are a quorum.\<close>

definition committed_to :: "slot_seal \<Rightarrow> committee \<Rightarrow> string set \<Rightarrow> agreement_node \<Rightarrow> bool" where
  "committed_to s c S nd \<longleftrightarrow> an_committee nd = c \<and> an_voted_for nd = Some (seal_digest s) \<and> an_proposal_seal nd = Some s \<and>
     (\<exists>vs. map_of (an_votes nd) (seal_digest s) = Some vs \<and> finite vs \<and> S \<subseteq> vs \<and>
        (an_decided nd = Some s \<or> (an_decided nd = None \<and> card vs < committee_quorum c)))"

lemma committed_record:
  assumes "an_committee nd = c" "an_voted_for nd = Some (seal_digest s)" "an_proposal_seal nd = Some s"
    and "an_decided nd \<in> {None, Some s}"
    and "case map_of (an_votes nd) (seal_digest s) of None \<Rightarrow> S = {} | Some vs \<Rightarrow> finite vs \<and> S \<subseteq> vs"
  shows "committed_to s c (insert i S) (record_vote nd (seal_digest s) i)"
  using assms by (auto simp: committed_to_def record_vote_def Let_def split: option.splits)

lemma committed_step:
  assumes "committed_to s c S nd"
  shows "committed_to s c (S \<union> {i. m = SealVote (seal_digest s) i}) (fst (agreement_process cr nd m))"
proof (cases "\<exists>i. m = SealVote (seal_digest s) i")
  case True
  then obtain i where m: "m = SealVote (seal_digest s) i" by blast
  have "committed_to s c (insert i S) (record_vote nd (seal_digest s) i)"
    by (rule committed_record) (use assms in \<open>auto simp: committed_to_def\<close>)
  then show ?thesis using assms m by (simp add: committed_to_def)
next
  case False
  then have "fst (agreement_process cr nd m) = nd"
    using assms by (cases m) (auto simp: committed_to_def)
  moreover have "{i. m = SealVote (seal_digest s) i} = {}" using False by blast
  ultimately show ?thesis using assms by simp
qed

lemma committed_run:
  "committed_to s c S nd \<Longrightarrow>
   committed_to s c (S \<union> {i. SealVote (seal_digest s) i \<in> set msgs}) (foldl (\<lambda>nd m. fst (agreement_process cr nd m)) nd msgs)"
proof (induction msgs arbitrary: nd S)
  case (Cons m msgs)
  have "S \<union> {i. SealVote (seal_digest s) i \<in> set (m # msgs)} =
      S \<union> {i. m = SealVote (seal_digest s) i} \<union> {i. SealVote (seal_digest s) i \<in> set msgs}" by auto
  with Cons.IH [OF committed_step [OF Cons.prems, of m cr]] show ?case by simp
qed simp

lemma committed_decides:
  assumes "committed_to s c S nd" "committee_quorum c \<le> card S"
  shows "an_decided nd = Some s"
  using assms by (auto simp: committed_to_def dest: card_mono)

text \<open>A node that did not vote ignores votes.\<close>

lemma idle_run:
  "an_voted_for nd = None \<Longrightarrow> \<forall>m \<in> set msgs. \<exists>d i. m = SealVote d i \<Longrightarrow>
   foldl (\<lambda>nd m. fst (agreement_process cr nd m)) nd msgs = nd"
  by (induction msgs) auto

lemma process_all_fold:
  "foldl (process_all cr) nodes msgs = map (\<lambda>nd. foldl (\<lambda>nd m. fst (agreement_process cr nd m)) nd msgs) nodes"
  by (induction msgs arbitrary: nodes) (simp_all add: process_all_def comp_def)

lemma delivery_fold:
  "foldl (\<lambda>nodes i. if i < length bs then process_all cr nodes (bs ! i) else nodes) nodes delivery =
   foldl (process_all cr) nodes (map (nth bs) (filter (\<lambda>i. i < length bs) delivery))"
  by (induction delivery arbitrary: nodes) simp_all

lemma delivered_subset: "set (map (nth bs) (filter (\<lambda>i. i < length bs) delivery)) \<subseteq> set bs"
  by auto

lemma first_round:
  "agreement_process cr (agreement_new i c ev) (SealPropose p) =
     (if is_externally_valid cr p c ev
      then (record_vote ((agreement_new i c ev)\<lparr>an_voted_for := Some (seal_digest (pr_seal p)), an_proposal_seal := Some (pr_seal p)\<rparr>)
              (seal_digest (pr_seal p)) i, Some (SealVote (seal_digest (pr_seal p)) i))
      else (agreement_new i c ev, None))"
  by (simp add: Let_def agreement_new_def)

lemma broadcast_eq:
  "List.map_filter snd (map (\<lambda>nd. agreement_process cr nd (SealPropose p)) (map (\<lambda>(i, ev). agreement_new i c ev) honest)) =
   map (\<lambda>(i, ev). SealVote (seal_digest (pr_seal p)) i) (filter (\<lambda>(i, ev). is_externally_valid cr p c ev) honest)"
  by (induction honest) (auto simp: List.map_filter_def first_round simp del: agreement_process.simps split: if_splits)

lemma decree_node:
  assumes only: "\<forall>m \<in> set msgs. \<exists>d i. m = SealVote d i"
    and all: "W \<subseteq> {i. SealVote (seal_digest (pr_seal p)) i \<in> set msgs}" "committee_quorum c \<le> card W"
  shows "an_decided (foldl (\<lambda>nd m. fst (agreement_process cr nd m))
      (fst (agreement_process cr (agreement_new i c ev) (SealPropose p))) msgs) =
      (if is_externally_valid cr p c ev then Some (pr_seal p) else None)"
proof (cases "is_externally_valid cr p c ev")
  case True
  let ?S = "{i. SealVote (seal_digest (pr_seal p)) i \<in> set msgs}"
  have "committed_to (pr_seal p) c {i} (fst (agreement_process cr (agreement_new i c ev) (SealPropose p)))"
    unfolding first_round using True by (simp add: committed_record agreement_new_def)
  note c = committed_run [OF this, of msgs cr]
  have "finite ?S"
    by (rule finite_subset [of _ "(\<lambda>m. case m of SealVote _ i \<Rightarrow> i | _ \<Rightarrow> []) ` set msgs"]) force+
  then have "card W \<le> card ({i} \<union> ?S)"
    using all(1) by (intro card_mono) auto
  with all(2) have "committee_quorum c \<le> card ({i} \<union> ?S)" by linarith
  from committed_decides [OF c this] True show ?thesis by simp
next
  case False
  then have "fst (agreement_process cr (agreement_new i c ev) (SealPropose p)) = agreement_new i c ev"
    by (simp only: first_round) simp
  then show ?thesis using False idle_run [OF _ only, of "agreement_new i c ev" cr] by (simp add: agreement_new_def)
qed

text \<open>C30: the decree is reached. When the nodes for which the proposal is externally valid are a quorum with
  different names and every vote they cast is delivered, in any order and with any repetition, and only votes are injected,
  then exactly those nodes decide, and they decide the proposed seal.\<close>

theorem single_decree_decides:
  assumes quorum: "committee_quorum c \<le> card (fst ` set (filter (\<lambda>(i, ev). is_externally_valid cr p c ev) honest))"
    and delivered: "{..<length (filter (\<lambda>(i, ev). is_externally_valid cr p c ev) honest)} \<subseteq> set delivery"
    and votes: "\<forall>m \<in> set byzantine_votes. \<exists>d i. m = SealVote d i"
  shows "run_single_decree cr c p honest delivery byzantine_votes =
    map (\<lambda>(i, ev). if is_externally_valid cr p c ev then Some (pr_seal p) else None) honest"
proof -
  let ?V = "filter (\<lambda>(i, ev). is_externally_valid cr p c ev) honest" and ?d = "seal_digest (pr_seal p)"
  let ?bs = "map (\<lambda>(i, ev). SealVote ?d i) ?V"
  define msgs where "msgs = map (nth ?bs) (filter (\<lambda>i. i < length ?bs) delivery) @ byzantine_votes"
  let ?run = "\<lambda>nd. foldl (\<lambda>nd m. fst (agreement_process cr nd m)) nd msgs"
  have all: "fst ` set ?V \<subseteq> {i. SealVote ?d i \<in> set msgs}"
  proof
    fix i assume "i \<in> fst ` set ?V"
    then obtain e where e: "e \<in> set ?V" "fst e = i" by blast
    from e(1) [unfolded in_set_conv_nth] obtain j where j: "j < length ?V" "fst (?V ! j) = i" using e(2) by blast
    then have "j \<in> set (filter (\<lambda>i. i < length ?bs) delivery)" using delivered by auto
    moreover have "SealVote ?d i = ?bs ! j" using j by (simp add: case_prod_beta)
    ultimately have "SealVote ?d i \<in> set (map (nth ?bs) (filter (\<lambda>i. i < length ?bs) delivery))"
      unfolding list.set_map by (rule rev_image_eqI)
    then show "i \<in> {i. SealVote ?d i \<in> set msgs}" unfolding msgs_def by simp
  qed
  have only: "\<forall>m \<in> set msgs. \<exists>d i. m = SealVote d i"
  proof
    fix m assume "m \<in> set msgs"
    then have "m \<in> set ?bs \<or> m \<in> set byzantine_votes" using delivered_subset [of ?bs delivery] unfolding msgs_def by (auto simp only: set_append Un_iff)
    then show "\<exists>d i. m = SealVote d i" using votes by (auto simp: case_prod_beta)
  qed
  have "run_single_decree cr c p honest delivery byzantine_votes =
      map an_decided (map ?run (map fst (map (\<lambda>nd. agreement_process cr nd (SealPropose p)) (map (\<lambda>(i, ev). agreement_new i c ev) honest))))"
    unfolding run_single_decree_def Let_def broadcast_eq delivery_fold process_all_fold msgs_def by (simp add: comp_def del: agreement_process.simps)
  then show ?thesis
    using decree_node [OF only all quorum] by (simp add: comp_def case_prod_beta del: agreement_process.simps)
qed

section \<open>What the decree does not bind\<close>

text \<open>The committee identifier of a seal is neither checked nor part of its digest: replacing it in a
  proposal changes neither the proposal's external validity at any node nor the digest the votes are counted under.\<close>

theorem seal_committee_unchecked:
  "is_externally_valid cr (p\<lparr>pr_seal := (pr_seal p)\<lparr>ss_committee_id := cid\<rparr>\<rparr>) c own = is_externally_valid cr p c own \<and>
   seal_digest ((pr_seal p)\<lparr>ss_committee_id := cid\<rparr>) = seal_digest (pr_seal p)"
  by (cases "ss_outcome (pr_seal p)"; cases "pr_evidence p") (simp_all add: is_externally_valid_def seal_digest_def Let_def split: option.split)

lemma no_cert_if:
  assumes "fault_budget (committee_size c) + (committee_size c - card (voters_of cr c account sq votes)) < committee_quorum c"
    and "\<And>k. card (voters_for cr c account sq k votes) + fault_budget (committee_size c)
      + (committee_size c - card (voters_of cr c account sq votes)) < committee_quorum c"
  shows "no_cert_can_form cr votes c account sq"
proof -
  obtain per voted where t: "foldl (tally_vote cr c account sq) ([], {}) votes = (per, voted)" by force
  note r = tally_result [OF t]
  have "card s + fault_budget (committee_size c) + (committee_size c - card voted) < committee_quorum c"
    if "(k, s) \<in> set per" for k s
  proof -
    have "map_of per k = Some s" using that r by (simp add: bt_get_in_set)
    with r have "s = voters_for cr c account sq k votes" by (metis option.simps(5))
    then show ?thesis using assms(2) [of k] r by simp
  qed
  then show ?thesis using assms(1) r t by (fastforce simp: no_cert_can_form_def Let_def fault_budget_def)
qed

text \<open>One vote each for pairwise different orders of a slot: no order of that round can be certified.\<close>

lemma matches_counted:
  "vote_matches cr v ord c \<Longrightarrow> counted cr c (tr_from (st_transfer ord)) (tr_from_seq (st_transfer ord)) v"
  by (auto simp: vote_matches_def counted_def)

lemma split_votes_void:
  assumes m: "\<And>i. i < length vs \<Longrightarrow> vote_matches cr (vs ! i) (os ! i) c"
    and len: "length os = length vs" "length vs = committee_size c" "4 \<le> committee_size c"
    and slot: "\<forall>ord \<in> set os. tr_from (st_transfer ord) = account \<and> tr_from_seq (st_transfer ord) = sq"
    and diff: "distinct (map (\<lambda>ord. (tr_to (st_transfer ord), tr_amount (st_transfer ord))) os)"
    and who: "distinct (map vt_authority vs)"
  shows "no_cert_can_form cr vs c account sq"
proof (rule no_cert_if)
  have cnt: "counted cr c account sq (vs ! i)" "vt_transfer (vs ! i) = st_transfer (os ! i)" if "i < length vs" for i
    using matches_counted [OF m [OF that]] m [OF that] slot len(1) that by (auto simp: vote_matches_def)
  then have "\<forall>v \<in> set vs. counted cr c account sq v" by (auto simp: in_set_conv_nth)
  then have "voters_of cr c account sq vs = set (map vt_authority vs)" by (auto simp: voters_of_def)
  then have all: "card (voters_of cr c account sq vs) = committee_size c" using distinct_card [OF who] len(2) by simp
  have one: "card (voters_for cr c account sq k vs) \<le> 1" for k
  proof -
    have "i = j" if "i < length vs" "j < length vs" "(tr_to (vt_transfer (vs ! i)), tr_amount (vt_transfer (vs ! i))) = k"
      "(tr_to (vt_transfer (vs ! j)), tr_amount (vt_transfer (vs ! j))) = k" for i j
      using nth_eq_iff_index_eq [OF diff, of i j] that cnt(2) len(1) by auto
    then have "a = b" if "a \<in> voters_for cr c account sq k vs" "b \<in> voters_for cr c account sq k vs" for a b
      using that unfolding voters_for_def by (clarsimp simp: in_set_conv_nth) metis
    then have "is_singleton (voters_for cr c account sq k vs) \<or> voters_for cr c account sq k vs = {}"
      by (metis is_singletonI')
    then show ?thesis by (auto simp: is_singleton_altdef)
  qed
  have q: "1 + fault_budget (committee_size c) < committee_quorum c"
    using len(3) by (simp add: fault_budget_def committee_quorum_def quorum_def Let_def)
  show "fault_budget (committee_size c) + (committee_size c - card (voters_of cr c account sq vs)) < committee_quorum c"
    using all q by simp
  show "card (voters_for cr c account sq k vs) + fault_budget (committee_size c)
      + (committee_size c - card (voters_of cr c account sq vs)) < committee_quorum c" for k
    using all q one [of k] by linarith
qed

text \<open>C31: the evidence for \<open>Void\<close> ignores rounds, and across rounds it is not sound. When the owner of the slot
  signs one order per authority in one round and a further order in another, a committee of four or more authorities, all of
  them honest, votes first for the different orders and then for the further one; the first votes make \<open>Void\<close> externally
  valid and the second make \<open>Finalize\<close> externally valid, at every node that holds no votes of its own.\<close>

theorem void_and_finalize_across_rounds:
  assumes "crypto_ok cr" "distinct (map au_id as)" "length as = committee_size c" "4 \<le> committee_size c"
    and os: "length os = length as" "\<forall>(a, ord) \<in> set (zip as os). ready cr c ord a"
      "\<forall>ord \<in> set os. order_verify cr ord (cm_policy c) = Inr () \<and> tr_amount (st_transfer ord) \<noteq> 0 \<and>
         tr_from (st_transfer ord) = account \<and> tr_from_seq (st_transfer ord) = sq \<and> st_round ord \<noteq> st_round last_order"
      "distinct (map (\<lambda>ord. (tr_to (st_transfer ord), tr_amount (st_transfer ord))) os)"
    and last_order: "\<forall>a \<in> set as. ready cr c last_order a" "order_verify cr last_order (cm_policy c) = Inr ()"
      "tr_amount (st_transfer last_order) \<noteq> 0" "tr_from (st_transfer last_order) = account"
      "tr_from_seq (st_transfer last_order) = sq"
  shows "\<exists>as1 vs1 as2 vs2.
    map (\<lambda>(a, ord). handle cr mem_ops a ord) (zip as os) = map (\<lambda>(a, v). (a, Inr v)) (zip as1 vs1) \<and>
    collect_votes cr mem_ops last_order as1 = (as2, vs2, 0, False) \<and>
    is_externally_valid cr \<lparr>pr_seal = seal_void account sq cid, pr_evidence = NoCertProof vs1 (committee_size c)\<rparr> c [] \<and>
    is_externally_valid cr \<lparr>pr_seal = seal_finalize account sq cid (order_id cr last_order),
        pr_evidence = CertFor \<lparr>ct_order = last_order, ct_votes = vs2\<rparr>\<rparr> c []"
proof -
  let ?as1 = "map (\<lambda>(a, ord). locked_on ord a) (zip as os)" and ?vs1 = "map (\<lambda>(a, ord). sign_vote cr a ord) (zip as os)"
  have each: "ready cr c (os ! i) (as ! i)" "order_verify cr (os ! i) (cm_policy c) = Inr ()" "tr_amount (st_transfer (os ! i)) \<noteq> 0"
    "slot_of last_order \<noteq> slot_of (os ! i)" if "i < length as" for i
    using os(1-3) that last_order(4,5) by (auto simp: set_zip slot_of_def)
  have 1: "map (\<lambda>(a, ord). handle cr mem_ops a ord) (zip as os) = map (\<lambda>(a, v). (a, Inr v)) (zip ?as1 ?vs1)"
    using os(1) by (intro nth_equalityI) (simp_all add: ready_votes [OF each(1-3)])
  have r: "\<forall>a \<in> set ?as1. ready cr c last_order a"
    using last_order(1) each(4) os(1) by (auto simp: in_set_zip ready_locked_on)
  have ids: "map au_id ?as1 = map au_id as" using os(1) by (intro nth_equalityI) simp_all
  have 2: "collect_votes cr mem_ops last_order ?as1 = (map (locked_on last_order) ?as1, map (\<lambda>a. sign_vote cr a last_order) ?as1, 0, False)"
    by (rule collect_ready [OF r last_order(2,3)])
  have q: "committee_quorum c \<le> length ?as1" using assms(3,4) os(1) by (simp add: committee_quorum_def quorum_def Let_def)
  have d: "distinct (map au_id ?as1)" unfolding ids by (rule assms(2))
  have cert: "certificate_verify cr \<lparr>ct_order = last_order, ct_votes = map (\<lambda>a. sign_vote cr a last_order) ?as1\<rparr> c =
      Some \<lparr>vf_order = last_order, vf_committee_id = cm_id c\<rparr>"
    using ready_certificate [OF assms(1) r last_order(2) d q]
    by (simp add: certificate_assemble_def certificate_verify_def Let_def split: if_splits)
  have "vote_matches cr (?vs1 ! i) (os ! i) c" if "i < length ?vs1" for i
    using that os(1) each [of i] by (simp add: sign_vote_matches [OF assms(1)] order_verify_def policy_validate_ok)
  moreover have "map vt_authority ?vs1 = map au_id as" using os(1) by (intro nth_equalityI) (simp_all add: sign_vote_def)
  ultimately have "no_cert_can_form cr ?vs1 c account sq"
    using assms(2-4) os(1,3,4) by (intro split_votes_void [where os = os]) auto
  then have "is_externally_valid cr \<lparr>pr_seal = seal_void account sq cid, pr_evidence = NoCertProof ?vs1 (committee_size c)\<rparr> c []"
    by (simp add: is_externally_valid_def seal_void_def)
  moreover have "is_externally_valid cr \<lparr>pr_seal = seal_finalize account sq cid (order_id cr last_order),
        pr_evidence = CertFor \<lparr>ct_order = last_order, ct_votes = map (\<lambda>a. sign_vote cr a last_order) ?as1\<rparr>\<rparr> c []"
    using cert last_order(4,5) by (simp add: is_externally_valid_def seal_finalize_def vf_transfer_def)
  ultimately show ?thesis using 1 2 by blast
qed

theorem void_and_finalize_across_rounds_witness:
  "\<exists>votes k. is_externally_valid demo_crypto
      \<lparr>pr_seal = seal_void ''a'' 0 [], pr_evidence = NoCertProof votes (committee_size demo_committee)\<rparr> demo_committee [] \<and>
    is_externally_valid demo_crypto
      \<lparr>pr_seal = seal_finalize ''a'' 0 [] (order_id demo_crypto (demo_order_at 1 7)), pr_evidence = CertFor k\<rparr> demo_committee []"
proof -
  let ?os = "map (demo_order_at 0) [1, 2, 3, 4]"
  have 1: "length demo_authorities = committee_size demo_committee" "4 \<le> committee_size demo_committee"
    "length ?os = length demo_authorities" by (simp_all add: demo_roster(2) demo_sizes)
  have 2: "\<forall>(a, ord) \<in> set (zip demo_authorities ?os). ready demo_crypto demo_committee ord a"
  proof clarify
    fix a ord assume "(a, ord) \<in> set (zip demo_authorities ?os)"
    then have "a \<in> set demo_authorities" "ord \<in> set ?os" by (meson set_zip_leftD set_zip_rightD)+
    then show "ready demo_crypto demo_committee ord a" using demo_ready by auto
  qed
  have 3: "\<forall>ord \<in> set ?os. order_verify demo_crypto ord (cm_policy demo_committee) = Inr () \<and> tr_amount (st_transfer ord) \<noteq> 0 \<and>
      tr_from (st_transfer ord) = ''a'' \<and> tr_from_seq (st_transfer ord) = 0 \<and> st_round ord \<noteq> st_round (demo_order_at 1 7)"
    by (simp add: demo_order_at_verifies)
  have 4: "distinct (map (\<lambda>ord. (tr_to (st_transfer ord), tr_amount (st_transfer ord))) ?os)" by simp
  have 5: "\<forall>a \<in> set demo_authorities. ready demo_crypto demo_committee (demo_order_at 1 7) a" using demo_ready by simp
  show ?thesis
    using void_and_finalize_across_rounds [OF demo_crypto_ok demo_roster(1) 1 2 3 4 5 demo_order_at_verifies, of "[]"] by auto
qed

section \<open>The demonstration committee, split\<close>

text \<open>Four authorities on file journals, each of which voted for its own order of the slot in round 0.\<close>

definition split_node :: "authority_id \<Rightarrow> bytes \<Rightarrow> amount \<Rightarrow> file_journal node" where
  "split_node i sk x = (demo_start i sk)
     \<lparr>nd_auth := fst (handle demo_crypto (file_ops demo_crypto) (nd_auth (demo_start i sk)) (demo_order_at 0 x)),
      nd_signed := [(0, cm_id demo_committee, demo_order_at 0 x)]\<rparr>"

definition split_orders :: "(authority_id \<times> bytes \<times> amount) list" where
  "split_orders = [(''u'', [6], 1), (''v'', [7], 2), (''w'', [8], 3), (''x'', [9], 4)]"

definition split_votes :: "vote list" where
  "split_votes = map (\<lambda>(i, sk, x). sign_vote demo_crypto (nd_auth (demo_start i sk)) (demo_order_at 0 x)) split_orders"

lemma demo_order_at_ok: "order_ok (demo_order_at r x)"
  by (simp add: order_ok_def demo_order_at_def sign_at_round_def demo_policy_def transfer_policy_new_def
      policy_id_of_def crypto_lengths [OF demo_crypto_ok] transfer_ok_def str_ok_def utf8_ascii as_bytes_def)

lemma demo_order_at_fits: "record_fits demo_crypto (Locked (demo_order_at r x))"
proof -
  have w: "wire_order_ok (demo_order_at r x)"
    by (simp add: wire_order_ok_def demo_order_at_def sign_at_round_def demo_policy_def transfer_policy_new_def
        policy_id_of_def crypto_lengths [OF demo_crypto_ok] network_ok_def text_ok_def wire_transfer_ok_def
        utf8_ascii as_bytes_def MAX_NETWORK_ID_BYTES_def MAX_ACCOUNT_ID_BYTES_def)
  then have "length (encode_transfer (demo_order_at r x)) \<le> MAX_RECORD_BYTES"
    by (simp add: wire_order_ok_def encode_transfer_def put_signed_transfer_body_def put_transfer_body_def put_str_def
        put_bytes_def DOMAIN_TRANSFER_def domain_tag_def MAX_RECORD_BYTES_def)
      (simp add: demo_order_at_def sign_at_round_def demo_policy_def transfer_policy_new_def)
  with w show ?thesis by (simp add: record_fits_def)
qed

lemma split_reach:
  assumes "x \<in> {1, 2, 3, 4}"
  shows "file_reach demo_crypto (demo_config i sk) [] (split_node i sk x)"
proof -
  let ?ord = "demo_order_at 0 x"
  have pre: "preflight demo_genesis (st_transfer ?ord) = Inr ()" and nz: "tr_amount (st_transfer ?ord) \<noteq> 0"
    using assms by (auto simp: preflight_def demo_genesis_def checked_add_def ledger_balance_def)
  have "\<exists>a. handle demo_crypto (file_ops demo_crypto) (nd_auth (demo_start i sk)) ?ord =
      (a, Inr (sign_vote demo_crypto (nd_auth (demo_start i sk)) ?ord))"
    by (rule exI, rule handle_fresh)
      (use pre nz demo_order_at_verifies [of 0 x] in
        \<open>simp_all add: demo_start_fields demo_committee_fields file_ops_def file_append_def Let_def next_fault_def\<close>)
  then have h: "handle demo_crypto (file_ops demo_crypto) (nd_auth (demo_start i sk)) ?ord =
      (nd_auth (split_node i sk x), Inr (sign_vote demo_crypto (nd_auth (demo_start i sk)) ?ord))"
    by (auto simp: split_node_def)
  have "auth_step demo_crypto (file_ops demo_crypto) (record_fits demo_crypto) (file_reopen demo_crypto) (demo_config i sk) (demo_start i sk)
      ((demo_start i sk)\<lparr>nd_auth := nd_auth (split_node i sk x), nd_signed := (nd_gen (demo_start i sk), vt_committee_id (sign_vote demo_crypto (nd_auth (demo_start i sk)) ?ord), ?ord) # nd_signed (demo_start i sk)\<rparr>)"
    by (rule auth_step.vote [OF _ h]) (rule demo_order_at_fits)
  then show ?thesis
    by (simp add: file_reach_def auth_reach_def split_node_def demo_start_fields sign_vote_def r_into_rtranclp demo_start_def [symmetric])
qed

lemma split_honest:
  assumes "(h, sk, x) \<in> set split_orders"
  shows "honest_voter demo_crypto (demo_config h sk) (split_node h sk x) split_votes h"
proof -
  have "str_ok h" using assms by (auto simp: split_orders_def str_ok_def utf8_ascii as_bytes_def)
  moreover have "votes_unforged h (split_node h sk x) split_votes"
    using assms
    by (auto simp: votes_unforged_def split_votes_def split_orders_def vote_message_def split_node_def sign_vote_def demo_start_fields)
  moreover have "\<exists>fs. deployed demo_crypto (demo_config h sk) fs \<and> file_reach demo_crypto (demo_config h sk) fs (split_node h sk x)"
    using demo_deployed split_reach [of x h sk] assms by (auto simp: split_orders_def)
  ultimately show ?thesis
    using demo_order_at_ok by (simp add: honest_voter_def log_typed_def split_node_def demo_sizes)
qed

lemma split_one_epoch: "one_epoch cid (split_node h sk x)"
  by (simp add: one_epoch_def split_node_def)

lemma split_matches:
  assumes "(i, sk, x) \<in> set split_orders"
  shows "vote_matches demo_crypto (sign_vote demo_crypto (nd_auth (demo_start i sk)) (demo_order_at 0 x)) (demo_order_at 0 x) demo_committee"
  using assms crypto_complete(2) [OF demo_crypto_ok]
  by (auto simp: vote_matches_def sign_vote_def vote_message_def demo_start_fields committee_key_of_def demo_committee_fields
      split_orders_def demo_keys_def demo_order_at_def sign_at_round_def)

lemma split_void: "no_cert_can_form demo_crypto split_votes demo_committee ''a'' 0"
proof (rule split_votes_void [where os = "map (\<lambda>(i, sk, x). demo_order_at 0 x) split_orders"])
  show "vote_matches demo_crypto (split_votes ! i) (map (\<lambda>(i, sk, x). demo_order_at 0 x) split_orders ! i) demo_committee"
    if "i < length split_votes" for i
    using that split_matches [of "fst (split_orders ! i)"] nth_mem [of i split_orders]
    by (simp add: split_votes_def case_prod_beta del: nth_mem)
qed (simp_all add: split_votes_def split_orders_def demo_sizes sign_vote_def demo_start_fields)

lemma split_current: "evidence_current demo_crypto demo_committee (demo_order_at 0 x) split_votes"
  using demo_order_at_ok
  by (auto simp: evidence_current_def split_votes_def sign_vote_def demo_start_fields vote_ok_def demo_sizes order_ok_def)

theorem void_excludes_certificate_witness:
  "no_cert_can_form demo_crypto split_votes demo_committee ''a'' 0 \<and>
   \<not> certificate_is_valid demo_crypto \<lparr>ct_order = demo_order_at 0 1, ct_votes = split_votes\<rparr> demo_committee"
proof -
  let ?k = "\<lparr>ct_order = demo_order_at 0 1, ct_votes = split_votes\<rparr>"
  let ?x = "\<lambda>h. the (map_of [(''u'', 1), (''v'', 2), (''w'', 3), (''x'', 4)] h) :: amount"
  let ?sk = "\<lambda>h. the (map_of demo_keys h)"
  have "\<forall>h \<in> members demo_committee - {}. honest_voter demo_crypto (demo_config h (?sk h)) (split_node h (?sk h) (?x h))
      (counted_votes demo_crypto demo_committee (ct_order ?k) split_votes @ ct_votes ?k) h"
    using split_honest by (auto simp: demo_sizes demo_keys_def split_orders_def honest_voter_def votes_unforged_def counted_votes_def)
  then show ?thesis
    using void_excludes_certificate [of demo_crypto split_votes demo_committee ?k "{}" "\<lambda>h. demo_config h (?sk h)"
        "\<lambda>h. split_node h (?sk h) (?x h)"] split_void split_current split_one_epoch demo_order_at_ok demo_sizes by simp
qed

definition split_proposal :: seal_proposal where
  "split_proposal = \<lparr>pr_seal = seal_void ''a'' 0 (committee_bytes (cm_id demo_committee)), pr_evidence = NoCertProof split_votes 4\<rparr>"

lemma split_proposal_valid: "is_externally_valid demo_crypto split_proposal demo_committee []"
  using split_void by (simp add: split_proposal_def is_externally_valid_def seal_void_def demo_sizes)

lemma split_members:
  "honest_members demo_crypto demo_committee {} (\<lambda>h. demo_config h (the (map_of demo_keys h)))
     (\<lambda>h. split_node h (the (map_of demo_keys h)) (the (map_of [(''u'', 1), (''v'', 2), (''w'', 3), (''x'', 4)] h)))"
  using split_honest by (auto simp: honest_members_def demo_sizes demo_keys_def split_orders_def honest_voter_def votes_unforged_def)

lemma split_genuine:
  "genuine demo_crypto demo_committee {}
     (\<lambda>h. split_node h (the (map_of demo_keys h)) (the (map_of [(''u'', 1), (''v'', 2), (''w'', 3), (''x'', 4)] h))) 0 [] split_proposal"
  using split_current [of 1] split_honest
  by (auto simp: genuine_def split_proposal_def seal_void_def evidence_current_def demo_sizes demo_keys_def split_orders_def
      honest_voter_def votes_unforged_def)

theorem seal_agreement_witness:
  "let run = (\<lambda>i. agreement_run demo_crypto (agreement_new i demo_committee [])
        (SealPropose split_proposal # map (SealVote (seal_digest (pr_seal split_proposal))) [''u'', ''v'', ''w'']))
   in an_decided (run ''u'') = Some (pr_seal split_proposal) \<and>
      (case (ss_outcome (the (an_decided (run ''u''))), ss_outcome (the (an_decided (run ''v'')))) of
         (Void, Void) \<Rightarrow> True | _ \<Rightarrow> False)"
proof -
  let ?d = "seal_digest (pr_seal split_proposal)"
  let ?votes = "map (SealVote ?d) [''u'', ''v'', ''w'']"
  let ?run = "\<lambda>i. agreement_run demo_crypto (agreement_new i demo_committee []) (SealPropose split_proposal # ?votes)"
  have dec: "an_decided (?run i) = Some (pr_seal split_proposal)" for i
    using decree_node [of ?votes "{''u'', ''v'', ''w''}" split_proposal demo_committee demo_crypto i "[]"] split_proposal_valid
    by (simp add: agreement_run_def demo_sizes del: agreement_process.simps)
  have g: "\<forall>p. SealPropose p \<in> set (SealPropose split_proposal # ?votes) \<longrightarrow>
      genuine demo_crypto demo_committee {}
        (\<lambda>h. split_node h (the (map_of demo_keys h)) (the (map_of [(''u'', 1), (''v'', 2), (''w'', 3), (''x'', 4)] h))) 0 [] p"
    using split_genuine by auto
  show ?thesis
    using seal_agreement [OF dec [of "''u''"] dec [of "''v''"] refl refl split_members ballI [OF split_one_epoch] g g] dec
    by (simp add: Let_def split_proposal_def seal_void_def)
qed

theorem single_decree_decides_witness:
  "run_single_decree demo_crypto demo_committee split_proposal [(''u'', []), (''v'', []), (''w'', [])] [2, 0, 1, 0] [SealVote [] ''x''] =
     [Some (pr_seal split_proposal), Some (pr_seal split_proposal), Some (pr_seal split_proposal)]"
  using single_decree_decides [of demo_committee demo_crypto split_proposal "[(''u'', []), (''v'', []), (''w'', [])]" "[2, 0, 1, 0]"
      "[SealVote [] ''x'']"] split_proposal_valid
  by (simp add: demo_sizes lessThan_Suc eval_nat_numeral)

end
