(* ===== verification/HotStuff.thy ===== *)
theory HotStuff
  imports Bytes
begin

text \<open>
  The HotStuff engine of the platform (\<open>333-platform/src/bft\<close> and \<open>crypto_real.rs\<close>): types,
  signatures and keyring, leader election, the view-change tracker and the state machine of one
  validator, message by message. The Ed25519 library, its per-signature noise, the JSON text of a
  transaction list and the clock are parameters; the metrics counters are left out.
\<close>

unbundle bit_operations_syntax

section \<open>Identities and signed messages\<close>

record hs_crypto =
  hp_public :: "bytes \<Rightarrow> bytes"
  hp_sign :: "bytes \<Rightarrow> bytes \<Rightarrow> bytes \<Rightarrow> bytes"
  hp_pk_ok :: "bytes \<Rightarrow> bool"
  hp_sig_ok :: "bytes \<Rightarrow> bool"
  hp_verify :: "bytes \<Rightarrow> bytes \<Rightarrow> bytes \<Rightarrow> bool"

text \<open>Documented behaviour of \<open>ed25519-compact\<close>: lengths, and a signature verifies under its key, whatever the noise.\<close>

definition hs_crypto_ok :: "hs_crypto \<Rightarrow> bool" where
  "hs_crypto_ok cr \<longleftrightarrow>
     (\<forall>sk. hp_pk_ok cr (hp_public cr sk)) \<and>
     (\<forall>sk nz m. length (hp_sign cr sk nz m) = 64 \<and> hp_sig_ok cr (hp_sign cr sk nz m) \<and>
        hp_verify cr (hp_public cr sk) m (hp_sign cr sk nz m))"

record signed_message =
  sm_signer :: bytes
  sm_signature_hex :: string
  sm_message :: bytes

definition hex_string :: "bytes \<Rightarrow> string" where
  "hex_string bs = concat (map (\<lambda>b. [hex_digit (unat b div 16), hex_digit (unat b mod 16)]) bs)"

definition hex_value :: "char \<Rightarrow> nat option" where
  "hex_value ch =
     (let c = of_char ch in
      if 48 \<le> c \<and> c \<le> 57 then Some (c - 48)
      else if 97 \<le> c \<and> c \<le> 102 then Some (c - 87)
      else if 65 \<le> c \<and> c \<le> 70 then Some (c - 55)
      else None)"

text \<open>\<open>u8::from_str_radix\<close> of two characters, which also takes a leading plus sign.\<close>

definition parse_hex2 :: "char \<Rightarrow> char \<Rightarrow> u8 option" where
  "parse_hex2 a b =
     (case (hex_value a, hex_value b) of
        (Some x, Some y) \<Rightarrow> Some (of_nat (16 * x + y))
      | (None, Some y) \<Rightarrow> if a = CHR ''+'' then Some (of_nat y) else None
      | _ \<Rightarrow> None)"

text \<open>The pairs that parse; the text always comes from \<open>hex_string\<close> and has an even length.\<close>

fun hex_pairs :: "string \<Rightarrow> bytes" where
  "hex_pairs (a # b # s) = (case parse_hex2 a b of Some w \<Rightarrow> w # hex_pairs s | None \<Rightarrow> hex_pairs s)"
| "hex_pairs _ = []"

definition signature_bytes :: "signed_message \<Rightarrow> bytes option" where
  "signature_bytes m = (let bs = hex_pairs (sm_signature_hex m) in if length bs = 64 then Some bs else None)"

definition identity_sign :: "hs_crypto \<Rightarrow> bytes \<Rightarrow> bytes \<Rightarrow> bytes \<Rightarrow> signed_message" where
  "identity_sign cr sk nz msg =
     \<lparr>sm_signer = hp_public cr sk, sm_signature_hex = hex_string (hp_sign cr sk nz msg), sm_message = msg\<rparr>"

definition peer_verify :: "hs_crypto \<Rightarrow> bytes \<Rightarrow> signed_message \<Rightarrow> bool" where
  "peer_verify cr peer m =
     (if sm_signer m \<noteq> peer then False
      else if \<not> hp_pk_ok cr peer then False
      else case signature_bytes m of
        None \<Rightarrow> False
      | Some sb \<Rightarrow> if \<not> hp_sig_ok cr sb then False else hp_verify cr peer (sm_message m) sb)"

section \<open>Types\<close>

type_synonym hs_node_id = u32

datatype ordered_tx =
    TxTransfer hs_node_id hs_node_id u64 u64
  | TxAuctionBid hs_node_id u64 u64
  | TxRankedAction hs_node_id u32 bytes

datatype phase = PhPrepare | PhPreCommit | PhCommit | PhDecide

record hs_signature =
  sg_signer :: hs_node_id
  sg_bytes :: bytes

record quorum_cert =
  qc_block_hash :: u64
  qc_view :: u64
  qc_phase :: phase
  qc_signatures :: "hs_signature list"

definition qc_genesis :: quorum_cert where
  "qc_genesis = \<lparr>qc_block_hash = 0, qc_view = 0, qc_phase = PhPrepare, qc_signatures = []\<rparr>"

definition has_quorum :: "quorum_cert \<Rightarrow> nat \<Rightarrow> bool" where
  "has_quorum qc n = (let f = (n - 1) div 3; q = 2 * f + 1 in card (sg_signer ` set (qc_signatures qc)) \<ge> q)"

record hs_block =
  bk_hash :: u64
  bk_view :: u64
  bk_parent_hash :: u64
  bk_transactions :: "ordered_tx list"
  bk_justify :: quorum_cert
  bk_proposer :: hs_node_id

datatype hs_msg =
    MsgProposal hs_block phase hs_signature
  | MsgVote u64 u64 phase hs_signature
  | MsgNewView u64 quorum_cert hs_signature
  | MsgViewChange u64 hs_node_id quorum_cert hs_signature

datatype process_result =
    PRNone
  | PRSendToLeader hs_msg
  | PRBroadcast hs_msg
  | PRCommitted "ordered_tx list" hs_msg
  | PRViewChange u64 hs_msg

definition hash_block :: "u64 \<Rightarrow> u64 \<Rightarrow> bytes \<Rightarrow> u64" where
  "hash_block view parent payload =
     (let h = (0xcbf29ce484222325 :: u64) * 0x100000001b3;
          h = (h XOR view) * 0x100000001b3;
          h = h XOR parent
      in foldl (\<lambda>h b. (h XOR ucast b) * 0x100000001b3) h payload)"

section \<open>Validators, keyring, votes\<close>

record validator_set =
  vs_validators :: "hs_node_id list"
  vs_index :: "hs_node_id \<rightharpoonup> nat"

definition validator_set_new :: "hs_node_id list \<Rightarrow> validator_set" where
  "validator_set_new vs =
     \<lparr>vs_validators = vs, vs_index = foldl (\<lambda>m (i, v). m(v \<mapsto> i)) Map.empty (List.enumerate 0 vs)\<rparr>"

definition vs_n :: "validator_set \<Rightarrow> nat" where "vs_n vs = length (vs_validators vs)"
definition vs_f :: "validator_set \<Rightarrow> nat" where "vs_f vs = (vs_n vs - 1) div 3"
definition quorum_size :: "validator_set \<Rightarrow> nat" where "quorum_size vs = 2 * vs_f vs + 1"
definition vs_contains :: "validator_set \<Rightarrow> hs_node_id \<Rightarrow> bool" where "vs_contains vs v = (vs_index vs v \<noteq> None)"
definition vs_position :: "validator_set \<Rightarrow> hs_node_id \<Rightarrow> nat option" where "vs_position vs v = vs_index vs v"

definition leader_for_view :: "u64 \<Rightarrow> validator_set \<Rightarrow> hs_node_id" where
  "leader_for_view view vs = vs_validators vs ! (unat view mod vs_n vs)"

record keyring =
  kr_keys :: "hs_node_id \<rightharpoonup> bytes"
  kr_peer_ids :: "hs_node_id \<rightharpoonup> bytes"

definition keyring_new :: keyring where "keyring_new = \<lparr>kr_keys = Map.empty, kr_peer_ids = Map.empty\<rparr>"

definition register_identity :: "keyring \<Rightarrow> hs_node_id \<Rightarrow> bytes \<Rightarrow> keyring" where
  "register_identity kr i sk = kr\<lparr>kr_keys := (kr_keys kr)(i \<mapsto> sk)\<rparr>"

definition register_peer_id :: "keyring \<Rightarrow> hs_node_id \<Rightarrow> bytes \<Rightarrow> keyring" where
  "register_peer_id kr i peer = kr\<lparr>kr_peer_ids := (kr_peer_ids kr)(i \<mapsto> peer)\<rparr>"

definition keyring_peer_id :: "hs_crypto \<Rightarrow> keyring \<Rightarrow> hs_node_id \<Rightarrow> bytes option" where
  "keyring_peer_id cr kr i = (case kr_keys kr i of Some sk \<Rightarrow> Some (hp_public cr sk) | None \<Rightarrow> kr_peer_ids kr i)"

text \<open>The signature of a message, its hex text taken apart again.\<close>

definition sign_bytes :: "hs_crypto \<Rightarrow> bytes \<Rightarrow> hs_node_id \<Rightarrow> bytes \<Rightarrow> bytes \<Rightarrow> hs_signature" where
  "sign_bytes cr nz i msg sk =
     \<lparr>sg_signer = i, sg_bytes = (case signature_bytes (identity_sign cr sk nz msg) of Some b \<Rightarrow> b | None \<Rightarrow> [])\<rparr>"

definition verify_bytes :: "hs_crypto \<Rightarrow> hs_signature \<Rightarrow> bytes \<Rightarrow> keyring \<Rightarrow> bool" where
  "verify_bytes cr sg msg kr =
     (case keyring_peer_id cr kr (sg_signer sg) of
        None \<Rightarrow> False
      | Some peer \<Rightarrow> peer_verify cr peer \<lparr>sm_signer = peer, sm_signature_hex = hex_string (sg_bytes sg), sm_message = msg\<rparr>)"

definition sign_with_identity :: "hs_crypto \<Rightarrow> bytes \<Rightarrow> hs_node_id \<Rightarrow> u64 \<Rightarrow> bytes \<Rightarrow> hs_signature" where
  "sign_with_identity cr nz i bh sk = sign_bytes cr nz i (u64_be bh) sk"

definition verify_proposal :: "hs_crypto \<Rightarrow> hs_signature \<Rightarrow> u64 \<Rightarrow> keyring \<Rightarrow> bool" where
  "verify_proposal cr sg bh kr = verify_bytes cr sg (u64_be bh) kr"

fun phase_tag :: "phase \<Rightarrow> u8" where
  "phase_tag PhPrepare = 1"
| "phase_tag PhPreCommit = 2"
| "phase_tag PhCommit = 3"
| "phase_tag PhDecide = 4"

definition sign_vote_for :: "hs_crypto \<Rightarrow> bytes \<Rightarrow> hs_node_id \<Rightarrow> u64 \<Rightarrow> u8 \<Rightarrow> bytes \<Rightarrow> hs_signature" where
  "sign_vote_for cr nz i bh tag sk = sign_bytes cr nz i (u64_be bh @ [tag]) sk"

definition verify_vote :: "hs_crypto \<Rightarrow> hs_signature \<Rightarrow> u64 \<Rightarrow> u8 \<Rightarrow> keyring \<Rightarrow> bool" where
  "verify_vote cr sg bh tag kr = verify_bytes cr sg (u64_be bh @ [tag]) kr"

section \<open>View change\<close>

text \<open>Durations in milliseconds.\<close>

record view_change_config =
  vcc_base_timeout :: nat
  vcc_max_timeout :: nat

definition view_change_config_default :: view_change_config where
  "view_change_config_default = \<lparr>vcc_base_timeout = 3000, vcc_max_timeout = 30000\<rparr>"

record view_change_tracker =
  vct_config :: view_change_config
  vct_view_start_ms :: u64
  vct_current_timeout :: nat
  vct_consecutive_timeouts :: u32
  vct_pending :: "u64 \<rightharpoonup> (hs_node_id \<times> quorum_cert) list"

definition vct_new :: "view_change_config \<Rightarrow> u64 \<Rightarrow> view_change_tracker" where
  "vct_new config now = \<lparr>vct_config = config, vct_view_start_ms = now, vct_current_timeout = vcc_base_timeout config,
     vct_consecutive_timeouts = 0, vct_pending = Map.empty\<rparr>"

definition vct_reset :: "view_change_tracker \<Rightarrow> u64 \<Rightarrow> view_change_tracker" where
  "vct_reset t now = t\<lparr>vct_view_start_ms := now, vct_consecutive_timeouts := 0,
     vct_current_timeout := vcc_base_timeout (vct_config t), vct_pending := Map.empty\<rparr>"

definition saturating_sub :: "u64 \<Rightarrow> u64 \<Rightarrow> u64" where
  "saturating_sub a b = (if b \<le> a then a - b else 0)"

definition is_timed_out :: "view_change_tracker \<Rightarrow> u64 \<Rightarrow> bool" where
  "is_timed_out t now = (saturating_sub now (vct_view_start_ms t) \<ge> of_nat (vct_current_timeout t))"

definition on_timeout ::
    "hs_crypto \<Rightarrow> bytes \<Rightarrow> view_change_tracker \<Rightarrow> u64 \<Rightarrow> u64 \<Rightarrow> hs_node_id \<Rightarrow> quorum_cert \<Rightarrow> bytes \<Rightarrow> view_change_tracker \<times> hs_msg" where
  "on_timeout cr nz t now current_view i high_qc sk =
     (let k = vct_consecutive_timeouts t + 1;
          pow = min (2 ^ unat k) (2 ^ 32 - 1)
      in (t\<lparr>vct_consecutive_timeouts := k,
            vct_current_timeout := min (vcc_max_timeout (vct_config t)) (vcc_base_timeout (vct_config t) * pow),
            vct_view_start_ms := now\<rparr>,
          MsgViewChange (current_view + 1) i high_qc (sign_with_identity cr nz i (current_view + 1) sk)))"

text \<open>\<open>max_by_key\<close>: the last of the entries with the largest key.\<close>

fun max_qc :: "quorum_cert \<Rightarrow> (hs_node_id \<times> quorum_cert) list \<Rightarrow> quorum_cert" where
  "max_qc best [] = best"
| "max_qc best ((_, qc) # es) = max_qc (if qc_view qc \<ge> qc_view best then qc else best) es"

definition collect_view_change ::
    "view_change_tracker \<Rightarrow> u64 \<Rightarrow> hs_node_id \<Rightarrow> quorum_cert \<Rightarrow> validator_set \<Rightarrow> view_change_tracker \<times> (u64 \<times> quorum_cert) option" where
  "collect_view_change t new_view sender high_qc vs =
     (let entries = (case vct_pending t new_view of Some es \<Rightarrow> es | None \<Rightarrow> []) in
      if \<exists>e \<in> set entries. fst e = sender then (t\<lparr>vct_pending := (vct_pending t)(new_view \<mapsto> entries)\<rparr>, None)
      else let entries = entries @ [(sender, high_qc)];
               t = t\<lparr>vct_pending := (vct_pending t)(new_view \<mapsto> entries)\<rparr>
        in if length entries \<ge> quorum_size vs then (t, Some (new_view, max_qc (snd (hd entries)) entries))
           else (t, None))"

section \<open>The state of a validator\<close>

record hs_state =
  hs_node_id :: hs_node_id
  hs_identity :: bytes
  hs_keyring :: keyring
  hs_view :: u64
  hs_phase :: phase
  hs_validators :: validator_set
  hs_high_qc :: quorum_cert
  hs_pending_block :: "hs_block option"
  hs_votes :: "u64 \<times> phase \<rightharpoonup> hs_signature list"
  hs_vote_tracker :: "hs_node_id \<times> phase \<times> u64 \<rightharpoonup> u64"
  hs_committed :: "hs_block list"
  hs_blocks :: "u64 \<rightharpoonup> hs_block"
  hs_committed_view :: u64
  hs_locked_qc :: quorum_cert
  hs_tx_pool :: "ordered_tx list"
  hs_view_change_tracker :: view_change_tracker

definition hs_with_identity :: "hs_node_id \<Rightarrow> validator_set \<Rightarrow> bytes \<Rightarrow> u64 \<Rightarrow> hs_state" where
  "hs_with_identity i vs sk now =
     \<lparr>hs_node_id = i, hs_identity = sk, hs_keyring = register_identity keyring_new i sk, hs_view = 0, hs_phase = PhPrepare,
      hs_validators = vs, hs_high_qc = qc_genesis, hs_pending_block = None, hs_votes = Map.empty, hs_vote_tracker = Map.empty,
      hs_committed = [], hs_blocks = Map.empty, hs_committed_view = 0, hs_locked_qc = qc_genesis, hs_tx_pool = [],
      hs_view_change_tracker = vct_new view_change_config_default now\<rparr>"

definition current_leader :: "hs_state \<Rightarrow> hs_node_id" where
  "current_leader s = leader_for_view (hs_view s) (hs_validators s)"

definition is_leader :: "hs_state \<Rightarrow> bool" where
  "is_leader s = (leader_for_view (hs_view s) (hs_validators s) = hs_node_id s)"

definition register_peer_identity :: "hs_state \<Rightarrow> hs_node_id \<Rightarrow> bytes \<Rightarrow> hs_state" where
  "register_peer_identity s i sk = s\<lparr>hs_keyring := register_identity (hs_keyring s) i sk\<rparr>"

definition register_peer_key :: "hs_state \<Rightarrow> hs_node_id \<Rightarrow> bytes \<Rightarrow> hs_state" where
  "register_peer_key s i peer = s\<lparr>hs_keyring := register_peer_id (hs_keyring s) i peer\<rparr>"

definition MAX_POOL_SIZE :: nat where "MAX_POOL_SIZE = 10000"
definition BLOCK_EVICT_WINDOW :: u64 where "BLOCK_EVICT_WINDOW = 10"
definition MAX_COMMITTED_HISTORY :: nat where "MAX_COMMITTED_HISTORY = 16"

definition submit_tx :: "hs_state \<Rightarrow> ordered_tx \<Rightarrow> hs_state \<times> bool" where
  "submit_tx s tx =
     (if length (hs_tx_pool s) \<ge> MAX_POOL_SIZE then (s, False)
      else (s\<lparr>hs_tx_pool := hs_tx_pool s @ [tx]\<rparr>, True))"

text \<open>\<open>json\<close> is the text \<open>serde_json::to_vec\<close> gives for a transaction list.\<close>

definition propose ::
    "hs_crypto \<Rightarrow> (ordered_tx list \<Rightarrow> bytes) \<Rightarrow> bytes \<Rightarrow> hs_state \<Rightarrow> hs_state \<times> hs_msg option" where
  "propose cr json nz s =
     (if \<not> is_leader s \<or> hs_tx_pool s = [] then (s, None)
      else let txs = hs_tx_pool s;
               parent_hash = qc_block_hash (hs_high_qc s);
               h = hash_block (hs_view s) parent_hash (json txs);
               block = \<lparr>bk_hash = h, bk_view = hs_view s, bk_parent_hash = parent_hash, bk_transactions = txs,
                        bk_justify = hs_high_qc s, bk_proposer = hs_node_id s\<rparr>
           in (s\<lparr>hs_tx_pool := [], hs_blocks := (hs_blocks s)(h \<mapsto> block), hs_pending_block := Some block\<rparr>,
               Some (MsgProposal block PhPrepare (sign_with_identity cr nz (hs_node_id s) h (hs_identity s)))))"

definition justify_is_valid :: "hs_crypto \<Rightarrow> hs_state \<Rightarrow> quorum_cert \<Rightarrow> bool" where
  "justify_is_valid cr s justify =
     (if qc_signatures justify = [] \<and> qc_block_hash justify = 0 \<and> qc_view justify = 0 then True
      else if \<not> has_quorum justify (vs_n (hs_validators s)) then False
      else list_all (\<lambda>sg. vs_contains (hs_validators s) (sg_signer sg) \<and>
             verify_vote cr sg (qc_block_hash justify) (phase_tag (qc_phase justify)) (hs_keyring s)) (qc_signatures justify))"

definition on_proposal :: "hs_crypto \<Rightarrow> bytes \<Rightarrow> u64 \<Rightarrow> hs_state \<Rightarrow> hs_block \<Rightarrow> phase \<Rightarrow> hs_state \<times> process_result" where
  "on_proposal cr nz now s block ph =
     (if bk_proposer block \<noteq> current_leader s then (s, PRNone)
      else if \<not> justify_is_valid cr s (bk_justify block) then (s, PRNone)
      else if \<not> (qc_view (bk_justify block) \<ge> qc_view (hs_locked_qc s) \<or>
                 bk_parent_hash block = qc_block_hash (hs_locked_qc s) \<or>
                 bk_hash block = qc_block_hash (hs_locked_qc s)) then (s, PRNone)
      else let s = s\<lparr>hs_blocks := (hs_blocks s)(bk_hash block \<mapsto> block), hs_pending_block := Some block, hs_phase := ph\<rparr>;
               s = (if ph = PhPreCommit
                    then s\<lparr>hs_locked_qc := \<lparr>qc_block_hash = bk_hash block, qc_view = hs_view s,
                           qc_phase = qc_phase (bk_justify block), qc_signatures = qc_signatures (bk_justify block)\<rparr>\<rparr>
                    else s);
               vote = PRSendToLeader (MsgVote (bk_hash block) (hs_view s) ph
                        (sign_vote_for cr nz (hs_node_id s) (bk_hash block) (phase_tag ph) (hs_identity s)))
           in (if ph = PhCommit \<and> \<not> is_leader s
               then s\<lparr>hs_view := hs_view s + 1, hs_phase := PhPrepare, hs_pending_block := None, hs_votes := Map.empty,
                      hs_vote_tracker := Map.empty, hs_view_change_tracker := vct_reset (hs_view_change_tracker s) now\<rparr>
               else s, vote))"

text \<open>The quorum branches of \<open>on_vote\<close>: the next proposal, and the commit.\<close>

definition next_proposal :: "hs_crypto \<Rightarrow> bytes \<Rightarrow> hs_state \<Rightarrow> phase \<Rightarrow> process_result" where
  "next_proposal cr nz s ph =
     (case hs_pending_block s of
        Some block \<Rightarrow> PRBroadcast (MsgProposal block ph (sign_with_identity cr nz (hs_node_id s) (bk_hash block) (hs_identity s)))
      | None \<Rightarrow> PRNone)"

definition commit_pending :: "hs_state \<Rightarrow> hs_state \<times> ordered_tx list" where
  "commit_pending s =
     (case hs_pending_block s of
        Some block \<Rightarrow> (s\<lparr>hs_pending_block := None, hs_committed_view := bk_view block, hs_committed := hs_committed s @ [block]\<rparr>,
                       bk_transactions block)
      | None \<Rightarrow> (s, []))"

definition evict_blocks :: "hs_state \<Rightarrow> hs_state" where
  "evict_blocks s =
     (if hs_committed_view s \<ge> BLOCK_EVICT_WINDOW
      then let min_view = hs_committed_view s - BLOCK_EVICT_WINDOW
           in s\<lparr>hs_blocks := (\<lambda>h. case hs_blocks s h of
                  Some b \<Rightarrow> if bk_view b \<ge> min_view then Some b else None | None \<Rightarrow> None)\<rparr>
      else s)"

definition trim_committed :: "hs_state \<Rightarrow> hs_state" where
  "trim_committed s =
     (if length (hs_committed s) > MAX_COMMITTED_HISTORY
      then s\<lparr>hs_committed := drop (length (hs_committed s) - MAX_COMMITTED_HISTORY) (hs_committed s)\<rparr> else s)"

definition on_commit_quorum :: "hs_crypto \<Rightarrow> bytes \<Rightarrow> u64 \<Rightarrow> hs_state \<Rightarrow> quorum_cert \<Rightarrow> hs_state \<times> process_result" where
  "on_commit_quorum cr nz now s qc =
     (let s = s\<lparr>hs_high_qc := qc, hs_phase := PhDecide\<rparr>;
          (s, txs) = commit_pending s;
          s = trim_committed (evict_blocks s);
          s = s\<lparr>hs_view := hs_view s + 1, hs_phase := PhPrepare, hs_vote_tracker := Map.empty,
                hs_view_change_tracker := vct_reset (hs_view_change_tracker s) now, hs_locked_qc := hs_high_qc s\<rparr>;
          new_view = MsgNewView (hs_view s) (hs_high_qc s)
            (sign_with_identity cr nz (hs_node_id s) (hs_view s) (hs_identity s))
      in (s, if txs \<noteq> [] then PRCommitted txs new_view else PRBroadcast new_view))"

definition on_quorum :: "hs_crypto \<Rightarrow> bytes \<Rightarrow> u64 \<Rightarrow> hs_state \<Rightarrow> phase \<Rightarrow> quorum_cert \<Rightarrow> hs_state \<times> process_result" where
  "on_quorum cr nz now s ph qc =
     (case ph of
        PhPrepare \<Rightarrow> (let s = s\<lparr>hs_high_qc := qc, hs_phase := PhPreCommit\<rparr> in (s, next_proposal cr nz s PhPreCommit))
      | PhPreCommit \<Rightarrow>
          (let s = s\<lparr>hs_locked_qc := qc, hs_high_qc := qc, hs_phase := PhCommit\<rparr> in (s, next_proposal cr nz s PhCommit))
      | PhCommit \<Rightarrow> on_commit_quorum cr nz now s qc
      | PhDecide \<Rightarrow> (s, PRNone))"

definition on_vote ::
    "hs_crypto \<Rightarrow> bytes \<Rightarrow> u64 \<Rightarrow> hs_state \<Rightarrow> u64 \<Rightarrow> u64 \<Rightarrow> phase \<Rightarrow> hs_signature \<Rightarrow> hs_state \<times> process_result" where
  "on_vote cr nz now s bh view ph sg =
     (if \<not> is_leader s then (s, PRNone)
      else if view \<noteq> hs_view s then (s, PRNone)
      else if \<not> verify_vote cr sg bh (phase_tag ph) (hs_keyring s) then (s, PRNone)
      else if \<not> vs_contains (hs_validators s) (sg_signer sg) then (s, PRNone)
      else if (case hs_vote_tracker s (sg_signer sg, ph, view) of Some prev \<Rightarrow> prev \<noteq> bh | None \<Rightarrow> False) then (s, PRNone)
      else let s = s\<lparr>hs_vote_tracker := (hs_vote_tracker s)((sg_signer sg, ph, view) \<mapsto> bh)\<rparr>;
               sigs = (case hs_votes s (bh, ph) of Some sigs \<Rightarrow> sigs | None \<Rightarrow> [])
           in if \<exists>x \<in> set sigs. sg_signer x = sg_signer sg
              then (s\<lparr>hs_votes := (hs_votes s)((bh, ph) \<mapsto> sigs)\<rparr>, PRNone)
              else let s = s\<lparr>hs_votes := (hs_votes s)((bh, ph) \<mapsto> sigs @ [sg])\<rparr>;
                       qc = \<lparr>qc_block_hash = bh, qc_view = hs_view s, qc_phase = ph, qc_signatures = sigs @ [sg]\<rparr>
                   in if \<not> has_quorum qc (vs_n (hs_validators s)) then (s, PRNone)
                      else on_quorum cr nz now (s\<lparr>hs_votes := Map.empty\<rparr>) ph qc)"

definition on_new_view :: "hs_state \<Rightarrow> u64 \<Rightarrow> quorum_cert \<Rightarrow> hs_state \<times> process_result" where
  "on_new_view s view qc =
     (let s = (if qc_view qc > qc_view (hs_high_qc s) then s\<lparr>hs_high_qc := qc\<rparr> else s)
      in (if view > hs_view s
          then s\<lparr>hs_view := view, hs_phase := PhPrepare, hs_pending_block := None, hs_votes := Map.empty, hs_vote_tracker := Map.empty\<rparr>
          else s, PRNone))"

definition process_view_change_quorum ::
    "u64 \<Rightarrow> hs_state \<Rightarrow> u64 \<Rightarrow> hs_node_id \<Rightarrow> quorum_cert \<Rightarrow> hs_state \<times> process_result" where
  "process_view_change_quorum now s new_view sender high_qc =
     (let (t, agreed) = collect_view_change (hs_view_change_tracker s) new_view sender high_qc (hs_validators s);
          s = s\<lparr>hs_view_change_tracker := t\<rparr>
      in case agreed of
           None \<Rightarrow> (s, PRNone)
         | Some (agreed_view, highest_qc) \<Rightarrow>
            (let s = s\<lparr>hs_view := agreed_view, hs_phase := PhPrepare, hs_pending_block := None, hs_votes := Map.empty,
                       hs_vote_tracker := Map.empty\<rparr>;
                 s = (if qc_view highest_qc > qc_view (hs_high_qc s) then s\<lparr>hs_high_qc := highest_qc\<rparr> else s)
             in (s\<lparr>hs_view_change_tracker := vct_reset (hs_view_change_tracker s) now\<rparr>, PRNone)))"

fun hs_process :: "hs_crypto \<Rightarrow> bytes \<Rightarrow> u64 \<Rightarrow> hs_state \<Rightarrow> hs_msg \<Rightarrow> hs_state \<times> process_result" where
  "hs_process cr nz now s (MsgProposal block ph sg) =
     (if \<not> verify_proposal cr sg (bk_hash block) (hs_keyring s) then (s, PRNone) else on_proposal cr nz now s block ph)"
| "hs_process cr nz now s (MsgVote bh view ph sg) = on_vote cr nz now s bh view ph sg"
| "hs_process cr nz now s (MsgNewView view qc _) = on_new_view s view qc"
| "hs_process cr nz now s (MsgViewChange new_view sender high_qc _) = process_view_change_quorum now s new_view sender high_qc"

definition hs_tick :: "hs_crypto \<Rightarrow> bytes \<Rightarrow> u64 \<Rightarrow> hs_state \<Rightarrow> hs_state \<times> process_result" where
  "hs_tick cr nz now s =
     (if is_timed_out (hs_view_change_tracker s) now \<and> \<not> is_leader s
      then let (t, msg) = on_timeout cr nz (hs_view_change_tracker s) now (hs_view s) (hs_node_id s) (hs_high_qc s) (hs_identity s)
           in (s\<lparr>hs_view_change_tracker := t\<rparr>, PRViewChange (hs_view s + 1) msg)
      else (s, PRNone))"

text \<open>\<open>on_view_change\<close>, which no handler calls any more.\<close>

definition on_view_change :: "hs_state \<Rightarrow> u64 \<Rightarrow> quorum_cert \<Rightarrow> hs_state \<times> process_result" where
  "on_view_change s new_view high_qc =
     (if new_view > hs_view s
      then let s = s\<lparr>hs_view := new_view, hs_phase := PhPrepare, hs_pending_block := None, hs_votes := Map.empty\<rparr>
           in (if qc_view high_qc > qc_view (hs_high_qc s) then s\<lparr>hs_high_qc := high_qc\<rparr> else s, PRNone)
      else (s, PRNone))"

section \<open>The single-node driver\<close>

datatype bft_bridge_error = LockPoisoned | NotLeader | ConsensusTimeout nat | UnexpectedResult string

text \<open>
  \<open>drive_to_commit\<close> of the bridge: a FIFO queue, at most \<open>max_steps\<close> messages. \<open>nzs k\<close> is the noise of the \<open>k\<close>-th step.
\<close>

fun drive_loop ::
    "hs_crypto \<Rightarrow> (ordered_tx list \<Rightarrow> bytes) \<Rightarrow> (nat \<Rightarrow> bytes) \<Rightarrow> u64 \<Rightarrow> nat \<Rightarrow> nat \<Rightarrow> hs_state \<Rightarrow> hs_msg list \<Rightarrow>
      hs_state \<times> (bft_bridge_error + quorum_cert)" where
  "drive_loop cr json nzs now budget steps s [] = (s, Inl (ConsensusTimeout steps))"
| "drive_loop cr json nzs now 0 steps s (_ # _) = (s, Inl (ConsensusTimeout steps))"
| "drive_loop cr json nzs now (Suc budget) steps s (msg # queue) =
     (case hs_process cr (nzs steps) now s msg of
        (s, PRCommitted _ _) \<Rightarrow> (s, Inr (hs_high_qc s))
      | (s, PRSendToLeader vote) \<Rightarrow> drive_loop cr json nzs now budget (Suc steps) s (queue @ [vote])
      | (s, PRBroadcast bcast) \<Rightarrow> drive_loop cr json nzs now budget (Suc steps) s (queue @ [bcast])
      | (s, PRNone) \<Rightarrow> drive_loop cr json nzs now budget (Suc steps) s queue
      | (s, PRViewChange new_view _) \<Rightarrow>
          (let (s, retry) = propose cr json (nzs steps) (s\<lparr>hs_view := new_view, hs_phase := PhPrepare\<rparr>)
           in drive_loop cr json nzs now budget (Suc steps) s (queue @ (case retry of Some m \<Rightarrow> [m] | None \<Rightarrow> []))))"

definition drive_to_commit ::
    "hs_crypto \<Rightarrow> (ordered_tx list \<Rightarrow> bytes) \<Rightarrow> (nat \<Rightarrow> bytes) \<Rightarrow> u64 \<Rightarrow> nat \<Rightarrow> hs_state \<Rightarrow> hs_state \<times> (bft_bridge_error + quorum_cert)" where
  "drive_to_commit cr json nzs now max_steps s =
     (if \<not> is_leader s then (s, Inl NotLeader)
      else case propose cr json (nzs 0) s of
        (s, Some msg) \<Rightarrow> drive_loop cr json nzs now max_steps 0 s [msg]
      | (s, None) \<Rightarrow>
          (if hs_committed s \<noteq> [] then (s, Inr (hs_high_qc s))
           else (s, Inl (UnexpectedResult ''propose() returned None with non-empty tx pool''))))"

section \<open>Checkpoints\<close>

record checkpoint_handle =
  ck_frame_n :: u64
  ck_tactical_hash :: bytes

definition encode_handle :: "hs_node_id \<Rightarrow> checkpoint_handle \<Rightarrow> ordered_tx" where
  "encode_handle i h = TxRankedAction i 0xC0DE1000 (u64_le (ck_frame_n h) @ ck_tactical_hash h)"

fun bridge_error_string :: "bft_bridge_error \<Rightarrow> string" where
  "bridge_error_string LockPoisoned = ''BFT state lock poisoned''"
| "bridge_error_string NotLeader = ''not current leader; cannot drive checkpoint''"
| "bridge_error_string (ConsensusTimeout n) = ''consensus timeout after '' @ dec_string n @ '' steps''"
| "bridge_error_string (UnexpectedResult s) = ''unexpected BFT result: '' @ s"

text \<open>The provider's state behind its lock, which is never poisoned: no modelled operation panics under it.\<close>

definition propose_checkpoint ::
    "hs_crypto \<Rightarrow> (ordered_tx list \<Rightarrow> bytes) \<Rightarrow> (nat \<Rightarrow> bytes) \<Rightarrow> u64 \<Rightarrow> nat \<Rightarrow> hs_state \<Rightarrow> checkpoint_handle \<Rightarrow>
      hs_state \<times> (string + quorum_cert)" where
  "propose_checkpoint cr json nzs now max_steps s h =
     (case submit_tx s (encode_handle (hs_node_id s) h) of
        (s, False) \<Rightarrow> (s, Inl ''tx pool full; checkpoint proposal rejected'')
      | (s, True) \<Rightarrow>
          (case drive_to_commit cr json nzs now max_steps s of
             (s, Inr qc) \<Rightarrow> (s, Inr qc)
           | (s, Inl e) \<Rightarrow> (s, Inl (bridge_error_string e))))"

definition verify_checkpoint_qc :: "hs_crypto \<Rightarrow> hs_state \<Rightarrow> checkpoint_handle \<Rightarrow> quorum_cert \<Rightarrow> bool" where
  "verify_checkpoint_qc cr s h qc =
     (if qc_signatures qc = [] then False
      else if \<not> has_quorum qc (vs_n (hs_validators s)) then False
      else if qc_phase qc \<noteq> PhCommit then False
      else list_all (\<lambda>sg. verify_vote cr sg (qc_block_hash qc) (phase_tag (qc_phase qc)) (hs_keyring s)) (qc_signatures qc))"

end
