(* ===== verification/HotStuff_Safety.thy ===== *)
theory HotStuff_Safety
  imports HotStuff
begin

text \<open>
  What the HotStuff engine guarantees and what it does not: signatures survive their hex text, a
  quorum certificate formed by a leader passes the validators' check, state stays bounded, a single
  validator commits every checkpoint; and runs, with honest nodes only, in which two blocks of the
  same parent are committed, in which a view goes backwards, and in which a proposal is accepted
  that the leader did not sign.
\<close>

section \<open>Signatures\<close>

lemma hex_value_digit: "d < 16 \<Longrightarrow> hex_value (hex_digit d) = Some d"
  by (auto simp: hex_value_def hex_digit_def Let_def)

lemma parse_hex2_digits: "parse_hex2 (hex_digit (unat b div 16)) (hex_digit (unat b mod 16)) = Some b"
proof -
  have "unat (b :: u8) < 256" using unsigned_less [of b] by simp
  then have "unat b div 16 < 16" by (simp add: less_mult_imp_div_less)
  then show ?thesis by (simp add: parse_hex2_def hex_value_digit)
qed

lemma hex_pairs_string: "hex_pairs (hex_string bs) = bs"
  by (induction bs) (simp_all add: hex_string_def parse_hex2_digits)

text \<open>A signature scheme with the documented behaviour, for the examples.\<close>

definition demo_sig :: "bytes \<Rightarrow> bytes \<Rightarrow> bytes" where
  "demo_sig pk m = take 64 (pk @ m @ replicate 64 0)"

definition hs_demo :: hs_crypto where
  "hs_demo = \<lparr>hp_public = (\<lambda>sk. sk), hp_sign = (\<lambda>sk nz m. demo_sig sk m), hp_pk_ok = (\<lambda>_. True),
     hp_sig_ok = (\<lambda>sg. length sg = 64), hp_verify = (\<lambda>pk m sg. sg = demo_sig pk m)\<rparr>"

lemma hs_demo_ok: "hs_crypto_ok hs_demo"
  by (auto simp: hs_crypto_ok_def hs_demo_def demo_sig_def min_def)

definition demo_node :: "hs_node_id \<Rightarrow> hs_node_id list \<Rightarrow> hs_state" where
  "demo_node i vs = hs_with_identity i (validator_set_new vs) [ucast i] 1000"

lemma demo_node_simps [simp]:
  "hs_node_id (demo_node i vs) = i" "hs_identity (demo_node i vs) = [ucast i]" "hs_validators (demo_node i vs) = validator_set_new vs"
  "hs_view (demo_node i vs) = 0" "hs_high_qc (demo_node i vs) = qc_genesis" "hs_locked_qc (demo_node i vs) = qc_genesis"
  "hs_votes (demo_node i vs) = Map.empty" "hs_vote_tracker (demo_node i vs) = Map.empty" "hs_tx_pool (demo_node i vs) = []"
  "hs_pending_block (demo_node i vs) = None" "hs_committed (demo_node i vs) = []"
  "keyring_peer_id cr (hs_keyring (demo_node i vs)) i = Some (hp_public cr [ucast i])"
  "vct_pending (hs_view_change_tracker (demo_node i vs)) = Map.empty"
  by (simp_all add: demo_node_def hs_with_identity_def keyring_peer_id_def register_identity_def keyring_new_def vct_new_def)

text \<open>The hex text of a signature is taken apart to the same bytes, exactly when there are 64 of them; a
  message signed by an identity verifies under the public key of that identity, whatever the noise.\<close>

theorem signature_hex_roundtrip:
  "signature_bytes \<lparr>sm_signer = p, sm_signature_hex = hex_string bs, sm_message = m\<rparr> = (if length bs = 64 then Some bs else None) \<and>
   (hs_crypto_ok cr \<longrightarrow> peer_verify cr (hp_public cr sk) (identity_sign cr sk nz m))"
  by (simp add: signature_bytes_def hex_pairs_string peer_verify_def identity_sign_def hs_crypto_ok_def)

theorem signature_hex_roundtrip_witness: "peer_verify hs_demo [5] (identity_sign hs_demo [5] [9, 9] [1, 2, 3])"
  using signature_hex_roundtrip [of "[]" "[]" "[1, 2, 3]" hs_demo "[5]" "[9, 9]"] hs_demo_ok by (simp add: hs_demo_def)

lemma sign_bytes_ok:
  assumes "hs_crypto_ok cr"
  shows "sign_bytes cr nz i msg sk = \<lparr>sg_signer = i, sg_bytes = hp_sign cr sk nz msg\<rparr>"
  using assms by (simp add: sign_bytes_def signature_bytes_def identity_sign_def hex_pairs_string hs_crypto_ok_def)

lemma sign_verifies:
  assumes "hs_crypto_ok cr" "keyring_peer_id cr kr i = Some (hp_public cr sk)"
  shows "verify_bytes cr (sign_bytes cr nz i msg sk) msg kr"
  using assms
  by (simp add: sign_bytes_ok verify_bytes_def peer_verify_def signature_bytes_def hex_pairs_string)
    (simp add: hs_crypto_ok_def)

lemma vote_verifies:
  "hs_crypto_ok cr \<Longrightarrow> keyring_peer_id cr kr i = Some (hp_public cr sk) \<Longrightarrow>
   verify_vote cr (sign_vote_for cr nz i bh tag sk) bh tag kr"
  by (simp add: verify_vote_def sign_vote_for_def sign_verifies)

lemma proposal_verifies:
  "hs_crypto_ok cr \<Longrightarrow> keyring_peer_id cr kr i = Some (hp_public cr sk) \<Longrightarrow>
   verify_proposal cr (sign_with_identity cr nz i bh sk) bh kr"
  by (simp add: verify_proposal_def sign_with_identity_def sign_verifies)

lemma signers_simps [simp]:
  "sg_signer (sign_vote_for cr nz i bh tag sk) = i" "sg_signer (sign_with_identity cr nz i bh sk) = i"
  by (simp_all add: sign_vote_for_def sign_with_identity_def sign_bytes_def)

section \<open>Runs of one validator\<close>

inductive hs_step :: "hs_crypto \<Rightarrow> (ordered_tx list \<Rightarrow> bytes) \<Rightarrow> hs_state \<Rightarrow> hs_state \<Rightarrow> bool" for cr json where
  process: "hs_step cr json s s'" if "hs_process cr nz now s m = (s', r)"
| tick: "hs_step cr json s s'" if "hs_tick cr nz now s = (s', r)"
| submit: "hs_step cr json s s'" if "submit_tx s tx = (s', ok)"
| propose: "hs_step cr json s s'" if "propose cr json nz s = (s', m)"

definition hs_reach :: "hs_crypto \<Rightarrow> (ordered_tx list \<Rightarrow> bytes) \<Rightarrow> hs_state \<Rightarrow> hs_state \<Rightarrow> bool" where
  "hs_reach cr json = (hs_step cr json)\<^sup>*\<^sup>*"

text \<open>A validator just created, with whatever peers are registered.\<close>

definition hs_fresh :: "hs_state \<Rightarrow> bool" where
  "hs_fresh s \<longleftrightarrow> hs_votes s = Map.empty \<and> hs_committed s = [] \<and> hs_tx_pool s = []"

lemma hs_fresh_new:
  "hs_fresh (hs_with_identity i vs sk now)"
  "hs_fresh s \<Longrightarrow> hs_fresh (register_peer_identity s j sk')" "hs_fresh s \<Longrightarrow> hs_fresh (register_peer_key s j p)"
  by (simp_all add: hs_fresh_def hs_with_identity_def register_peer_identity_def register_peer_key_def)

text \<open>What a step keeps: buckets hold verified votes of different validators, fewer than a quorum; history and pool are bounded.\<close>

definition bucket_ok :: "hs_crypto \<Rightarrow> hs_state \<Rightarrow> u64 \<Rightarrow> phase \<Rightarrow> hs_signature list \<Rightarrow> bool" where
  "bucket_ok cr s bh ph sigs \<longleftrightarrow> distinct (map sg_signer sigs) \<and>
     (\<forall>sg \<in> set sigs. vs_contains (hs_validators s) (sg_signer sg) \<and> verify_vote cr sg bh (phase_tag ph) (hs_keyring s))"

definition hs_inv :: "hs_crypto \<Rightarrow> hs_state \<Rightarrow> bool" where
  "hs_inv cr s \<longleftrightarrow>
     (\<forall>bh ph sigs. hs_votes s (bh, ph) = Some sigs \<longrightarrow> bucket_ok cr s bh ph sigs \<and> length sigs < quorum_size (hs_validators s)) \<and>
     length (hs_committed s) \<le> MAX_COMMITTED_HISTORY \<and> length (hs_tx_pool s) \<le> MAX_POOL_SIZE"

lemma hs_inv_fresh: "hs_fresh s \<Longrightarrow> hs_inv cr s"
  by (simp add: hs_fresh_def hs_inv_def)

text \<open>States that agree on everything the invariant speaks about, or lost their votes.\<close>

lemma hs_inv_frame:
  assumes "hs_inv cr s" "hs_validators s' = hs_validators s" "hs_keyring s' = hs_keyring s"
    and "hs_votes s' \<in> {hs_votes s, Map.empty}" "hs_committed s' = hs_committed s" "hs_tx_pool s' \<in> {hs_tx_pool s, []}"
  shows "hs_inv cr s'"
  using assms by (auto simp: hs_inv_def bucket_ok_def)

lemma has_quorum_distinct:
  "distinct (map sg_signer (qc_signatures qc)) \<Longrightarrow> has_quorum qc (vs_n vs) \<longleftrightarrow> quorum_size vs \<le> length (qc_signatures qc)"
  using distinct_card [of "map sg_signer (qc_signatures qc)"]
  by (simp add: has_quorum_def quorum_size_def vs_f_def Let_def)

text \<open>The cases of a vote: refused, recorded, or the vote that completes the quorum.\<close>

lemma on_vote_cases:
  obtains (refused) "on_vote cr nz now s bh view ph sg = (s, PRNone)"
  | (repeated) tr sigs where "hs_votes s (bh, ph) = Some sigs \<or> hs_votes s (bh, ph) = None \<and> sigs = []"
      "on_vote cr nz now s bh view ph sg = (s\<lparr>hs_vote_tracker := tr, hs_votes := (hs_votes s)((bh, ph) \<mapsto> sigs)\<rparr>, PRNone)"
      "sigs \<noteq> []"
  | (counted) tr sigs where "is_leader s" "view = hs_view s" "verify_vote cr sg bh (phase_tag ph) (hs_keyring s)"
      "vs_contains (hs_validators s) (sg_signer sg)" "hs_votes s (bh, ph) = Some sigs \<or> hs_votes s (bh, ph) = None \<and> sigs = []"
      "sg_signer sg \<notin> sg_signer ` set sigs"
      "on_vote cr nz now s bh view ph sg =
        (let qc = \<lparr>qc_block_hash = bh, qc_view = hs_view s, qc_phase = ph, qc_signatures = sigs @ [sg]\<rparr> in
         if has_quorum qc (vs_n (hs_validators s))
         then on_quorum cr nz now (s\<lparr>hs_vote_tracker := tr, hs_votes := Map.empty\<rparr>) ph qc
         else (s\<lparr>hs_vote_tracker := tr, hs_votes := (hs_votes s)((bh, ph) \<mapsto> sigs @ [sg])\<rparr>, PRNone))"
proof -
  let ?sigs = "case hs_votes s (bh, ph) of Some sigs \<Rightarrow> sigs | None \<Rightarrow> []"
  let ?tr = "(hs_vote_tracker s)((sg_signer sg, ph, view) \<mapsto> bh)"
  have sigs: "hs_votes s (bh, ph) = Some ?sigs \<or> hs_votes s (bh, ph) = None \<and> ?sigs = []"
    by (cases "hs_votes s (bh, ph)") simp_all
  show ?thesis
  proof (cases "is_leader s \<and> view = hs_view s \<and> verify_vote cr sg bh (phase_tag ph) (hs_keyring s) \<and>
      vs_contains (hs_validators s) (sg_signer sg) \<and>
      \<not> (case hs_vote_tracker s (sg_signer sg, ph, view) of Some prev \<Rightarrow> prev \<noteq> bh | None \<Rightarrow> False)")
    case False
    then have "on_vote cr nz now s bh view ph sg = (s, PRNone)" unfolding on_vote_def by argo
    then show ?thesis by (rule refused)
  next
    case d: True
    then have v: "view = hs_view s" by blast
    show ?thesis
    proof (cases "\<exists>x \<in> set ?sigs. sg_signer x = sg_signer sg")
      case True
      have "?sigs \<noteq> []" using True by (metis empty_iff empty_set)
      moreover have "on_vote cr nz now s bh view ph sg =
          (s\<lparr>hs_vote_tracker := ?tr, hs_votes := (hs_votes s)((bh, ph) \<mapsto> ?sigs)\<rparr>, PRNone)"
        using d True unfolding v by (simp add: on_vote_def Let_def)
      ultimately show ?thesis using repeated sigs by blast
    next
      case False
      then have "sg_signer sg \<notin> sg_signer ` set ?sigs" by (auto simp: image_iff)
      moreover have "on_vote cr nz now s bh view ph sg =
        (let qc = \<lparr>qc_block_hash = bh, qc_view = hs_view s, qc_phase = ph, qc_signatures = ?sigs @ [sg]\<rparr> in
         if has_quorum qc (vs_n (hs_validators s))
         then on_quorum cr nz now (s\<lparr>hs_vote_tracker := ?tr, hs_votes := Map.empty\<rparr>) ph qc
         else (s\<lparr>hs_vote_tracker := ?tr, hs_votes := (hs_votes s)((bh, ph) \<mapsto> ?sigs @ [sg])\<rparr>, PRNone))"
        using d False unfolding v by (auto simp: on_vote_def Let_def)
      ultimately show ?thesis using counted [of ?sigs ?tr] d sigs by blast
    qed
  qed
qed


lemma on_quorum_keeps:
  assumes "hs_inv cr s" "hs_votes s = Map.empty"
  shows "hs_inv cr (fst (on_quorum cr nz now s ph qc))"
  using assms
  by (cases ph; cases "hs_pending_block s")
    (simp_all add: on_quorum_def Let_def on_commit_quorum_def commit_pending_def evict_blocks_def trim_committed_def hs_inv_def)

lemma hs_inv_no_votes: "hs_inv cr s \<Longrightarrow> hs_inv cr (s\<lparr>hs_vote_tracker := tr, hs_votes := Map.empty\<rparr>)"
  by (rule hs_inv_frame) auto

lemma on_vote_keeps:
  assumes inv: "hs_inv cr s"
  shows "hs_inv cr (fst (on_vote cr nz now s bh view ph sg))"
proof (rule on_vote_cases [of cr nz now s bh view ph sg])
  fix tr sigs
  assume c: "verify_vote cr sg bh (phase_tag ph) (hs_keyring s)" "vs_contains (hs_validators s) (sg_signer sg)"
    "hs_votes s (bh, ph) = Some sigs \<or> hs_votes s (bh, ph) = None \<and> sigs = []" "sg_signer sg \<notin> sg_signer ` set sigs"
    and e: "on_vote cr nz now s bh view ph sg =
        (let qc = \<lparr>qc_block_hash = bh, qc_view = hs_view s, qc_phase = ph, qc_signatures = sigs @ [sg]\<rparr> in
         if has_quorum qc (vs_n (hs_validators s))
         then on_quorum cr nz now (s\<lparr>hs_vote_tracker := tr, hs_votes := Map.empty\<rparr>) ph qc
         else (s\<lparr>hs_vote_tracker := tr, hs_votes := (hs_votes s)((bh, ph) \<mapsto> sigs @ [sg])\<rparr>, PRNone))"
  let ?qc = "\<lparr>qc_block_hash = bh, qc_view = hs_view s, qc_phase = ph, qc_signatures = sigs @ [sg]\<rparr>"
  have b: "bucket_ok cr s bh ph (sigs @ [sg])"
    using inv c by (auto simp: hs_inv_def bucket_ok_def)
  show ?thesis
  proof (cases "has_quorum ?qc (vs_n (hs_validators s))")
    case True
    have "hs_inv cr (fst (on_quorum cr nz now (s\<lparr>hs_vote_tracker := tr, hs_votes := Map.empty\<rparr>) ph ?qc))"
      by (rule on_quorum_keeps [OF hs_inv_no_votes [OF inv]]) simp
    then show ?thesis using e True by (simp add: Let_def)
  next
    case False
    have "\<not> quorum_size (hs_validators s) \<le> length (sigs @ [sg])"
      using False has_quorum_distinct [of ?qc "hs_validators s"] b by (simp add: bucket_ok_def)
    then show ?thesis using e False inv b by (auto simp: Let_def hs_inv_def bucket_ok_def)
  qed
qed (use inv in \<open>auto simp: hs_inv_def bucket_ok_def\<close>)

lemma hs_process_keeps: "hs_inv cr s \<Longrightarrow> hs_inv cr (fst (hs_process cr nz now s m))"
proof (cases m)
  case (MsgProposal block ph sg)
  assume "hs_inv cr s"
  then show ?thesis using MsgProposal by (auto simp: on_proposal_def Let_def elim: hs_inv_frame)
next
  case (MsgNewView view qc sg)
  assume "hs_inv cr s"
  then show ?thesis using MsgNewView by (auto simp: on_new_view_def Let_def elim: hs_inv_frame)
next
  case (MsgViewChange v i qc sg)
  assume "hs_inv cr s"
  then show ?thesis using MsgViewChange
    by (auto simp: process_view_change_quorum_def Let_def elim: hs_inv_frame split: prod.splits option.splits)
qed (simp add: on_vote_keeps)

lemma hs_step_inv: "hs_step cr json s s' \<Longrightarrow> hs_inv cr s \<Longrightarrow> hs_inv cr s'"
proof (induction rule: hs_step.induct)
  case (process nz now s m s' r)
  then show ?case using hs_process_keeps [of cr s nz now m] by simp
next
  case (tick nz now s s' r)
  then show ?case by (auto simp: hs_tick_def Let_def on_timeout_def elim: hs_inv_frame split: if_splits)
next
  case (submit s tx s' ok)
  then show ?case by (auto simp: submit_tx_def hs_inv_def bucket_ok_def split: if_splits)
next
  case (propose nz s s' m)
  then show ?case by (auto simp: propose_def Let_def elim: hs_inv_frame split: if_splits)
qed

lemma hs_reach_inv: "hs_reach cr json s s' \<Longrightarrow> hs_inv cr s \<Longrightarrow> hs_inv cr s'"
  unfolding hs_reach_def by (induction rule: rtranclp_induct) (auto intro: hs_step_inv)

text \<open>C21: the state of a validator stays bounded: after any sequence of messages, ticks, submissions and
  proposals it keeps at most 16 committed blocks and 10000 pending transactions, and every vote bucket holds fewer than
  \<open>2 f + 1\<close> signatures, each a verified vote of a different validator for exactly that block and phase.\<close>

theorem hotstuff_state_bounded:
  assumes "hs_fresh s0" "hs_reach cr json s0 s"
  shows "length (hs_committed s) \<le> 16 \<and> length (hs_tx_pool s) \<le> 10000 \<and>
    (\<forall>bh ph sigs. hs_votes s (bh, ph) = Some sigs \<longrightarrow>
       length sigs \<le> 2 * vs_f (hs_validators s) \<and> distinct (map sg_signer sigs) \<and>
       (\<forall>sg \<in> set sigs. vs_contains (hs_validators s) (sg_signer sg) \<and> verify_vote cr sg bh (phase_tag ph) (hs_keyring s)))"
  using hs_reach_inv [OF assms(2) hs_inv_fresh [OF assms(1)]]
  by (auto simp: hs_inv_def bucket_ok_def quorum_size_def MAX_COMMITTED_HISTORY_def MAX_POOL_SIZE_def less_Suc_eq_le)

theorem hotstuff_state_bounded_witness:
  "length (hs_tx_pool (fst (submit_tx (demo_node 0 [0]) (TxTransfer 1 2 3 4)))) \<le> 10000"
proof -
  have "hs_step hs_demo (\<lambda>_. []) (demo_node 0 [0]) (fst (submit_tx (demo_node 0 [0]) (TxTransfer 1 2 3 4)))"
    by (rule hs_step.submit [of _ _ _ True]) (simp add: submit_tx_def MAX_POOL_SIZE_def)
  then have "hs_reach hs_demo (\<lambda>_. []) (demo_node 0 [0]) (fst (submit_tx (demo_node 0 [0]) (TxTransfer 1 2 3 4)))"
    by (simp add: hs_reach_def r_into_rtranclp)
  from hotstuff_state_bounded [OF _ this] show ?thesis by (simp add: demo_node_def hs_fresh_new)
qed

section \<open>Quorum certificates\<close>

lemma on_quorum_high_qc:
  "ph \<noteq> PhDecide \<Longrightarrow> hs_high_qc (fst (on_quorum cr nz now s ph qc)) = qc"
  "hs_validators (fst (on_quorum cr nz now s ph qc)) = hs_validators s"
  "hs_keyring (fst (on_quorum cr nz now s ph qc)) = hs_keyring s"
  by (cases ph; cases "hs_pending_block s"; simp add: on_quorum_def Let_def on_commit_quorum_def commit_pending_def
      evict_blocks_def trim_committed_def)+

lemma on_quorum_decide: "on_quorum cr nz now s PhDecide qc = (s, PRNone)"
  by (simp add: on_quorum_def)

text \<open>A quorum certificate is what it says. Whenever a vote makes a validator raise its highest
  certificate or answer, the validator is the leader of its view, the vote is of that view, and the new certificate names the
  block, view and phase of the vote and carries at least \<open>2 f + 1\<close> signatures of different validators, each made for that block and
  that phase: it passes the check validators apply to a proposal's justification.\<close>

theorem formed_certificate_is_valid:
  assumes "hs_fresh s0" "hs_reach cr json s0 s" "hs_process cr nz now s (MsgVote bh view ph sg) = (s', res)"
    and "hs_high_qc s' \<noteq> hs_high_qc s \<or> res \<noteq> PRNone"
  shows "is_leader s \<and> view = hs_view s \<and> qc_block_hash (hs_high_qc s') = bh \<and> qc_view (hs_high_qc s') = view \<and>
    qc_phase (hs_high_qc s') = ph \<and> distinct (map sg_signer (qc_signatures (hs_high_qc s'))) \<and>
    2 * vs_f (hs_validators s) + 1 \<le> length (qc_signatures (hs_high_qc s')) \<and> justify_is_valid cr s' (hs_high_qc s')"
proof -
  have inv: "hs_inv cr s" using hs_reach_inv [OF assms(2) hs_inv_fresh [OF assms(1)]] .
  have step: "on_vote cr nz now s bh view ph sg = (s', res)" using assms(3) by simp
  show ?thesis
  proof (rule on_vote_cases [of cr nz now s bh view ph sg])
    fix tr sigs
    assume c: "is_leader s" "view = hs_view s" "verify_vote cr sg bh (phase_tag ph) (hs_keyring s)"
      "vs_contains (hs_validators s) (sg_signer sg)"
      "hs_votes s (bh, ph) = Some sigs \<or> hs_votes s (bh, ph) = None \<and> sigs = []" "sg_signer sg \<notin> sg_signer ` set sigs"
      and e: "on_vote cr nz now s bh view ph sg =
        (let qc = \<lparr>qc_block_hash = bh, qc_view = hs_view s, qc_phase = ph, qc_signatures = sigs @ [sg]\<rparr> in
         if has_quorum qc (vs_n (hs_validators s))
         then on_quorum cr nz now (s\<lparr>hs_vote_tracker := tr, hs_votes := Map.empty\<rparr>) ph qc
         else (s\<lparr>hs_vote_tracker := tr, hs_votes := (hs_votes s)((bh, ph) \<mapsto> sigs @ [sg])\<rparr>, PRNone))"
    let ?qc = "\<lparr>qc_block_hash = bh, qc_view = hs_view s, qc_phase = ph, qc_signatures = sigs @ [sg]\<rparr>"
      and ?s = "s\<lparr>hs_vote_tracker := tr, hs_votes := Map.empty\<rparr>"
    have b: "bucket_ok cr s bh ph (sigs @ [sg])"
      using inv c by (auto simp: hs_inv_def bucket_ok_def)
    have q: "has_quorum ?qc (vs_n (hs_validators s))" and s': "(s', res) = on_quorum cr nz now ?s ph ?qc"
      using assms(4) step e by (auto simp: Let_def split: if_splits)
    have ph: "ph \<noteq> PhDecide" using assms(4) s' by (auto simp: on_quorum_decide)
    have hq: "hs_high_qc s' = ?qc" "hs_validators s' = hs_validators s" "hs_keyring s' = hs_keyring s"
      using on_quorum_high_qc [where ph = ph and cr = cr and nz = nz and now = now and s = ?s and qc = ?qc] ph arg_cong [OF s', of fst] by auto
    have l: "2 * vs_f (hs_validators s) + 1 \<le> length (sigs @ [sg])"
      using q has_quorum_distinct [of ?qc "hs_validators s"] b by (simp add: bucket_ok_def quorum_size_def)
    show ?thesis
      using c(1,2) hq l b q by (simp add: justify_is_valid_def bucket_ok_def list_all_iff)
  qed (use assms(4) step in auto)
qed

theorem formed_certificate_is_valid_witness:
  "let s' = fst (hs_process hs_demo [] 1000 (demo_node 0 [0]) (MsgVote 9 0 PhPrepare (sign_vote_for hs_demo [] 0 9 1 [0])))
   in qc_block_hash (hs_high_qc s') = 9 \<and> justify_is_valid hs_demo s' (hs_high_qc s')"
proof -
  let ?s = "demo_node 0 [0]" and ?g = "sign_vote_for hs_demo [] 0 9 1 [0]"
  let ?p = "hs_process hs_demo [] 1000 ?s (MsgVote 9 0 PhPrepare ?g)"
  have v: "verify_vote hs_demo ?g 9 1 (hs_keyring ?s)"
    by (rule vote_verifies [OF hs_demo_ok]) simp
  have "hs_high_qc (fst ?p) = \<lparr>qc_block_hash = 9, qc_view = 0, qc_phase = PhPrepare, qc_signatures = [?g]\<rparr>"
    using v by (simp add: on_vote_def is_leader_def leader_for_view_def validator_set_new_def vs_n_def vs_contains_def Let_def
        has_quorum_def on_quorum_def)
  then have "hs_high_qc (fst ?p) \<noteq> hs_high_qc ?s \<or> snd ?p \<noteq> PRNone" by (simp add: qc_genesis_def)
  moreover have "hs_fresh ?s" "hs_reach hs_demo (\<lambda>_. []) ?s ?s" by (simp_all add: demo_node_def hs_fresh_new hs_reach_def)
  ultimately show ?thesis
    unfolding Let_def using formed_certificate_is_valid [OF _ _ surjective_pairing, of ?s hs_demo "\<lambda>_. []" ?s] by blast
qed

section \<open>What is not authenticated\<close>

text \<open>A proposal is not bound to its leader. A validator votes for a proposal that names the leader of its view
  as proposer whatever registered peer \<open>j\<close> signed it, and whatever hash, view and transactions the block states.\<close>

theorem proposal_signer_unchecked:
  assumes "hs_crypto_ok cr" "keyring_peer_id cr (hs_keyring s) j = Some (hp_public cr sk)"
    and "bk_proposer block = current_leader s" "bk_justify block = qc_genesis" "qc_view (hs_locked_qc s) = 0"
  shows "snd (hs_process cr nz now s (MsgProposal block ph (sign_with_identity cr nz' j (bk_hash block) sk))) =
    PRSendToLeader (MsgVote (bk_hash block) (hs_view s) ph
      (sign_vote_for cr nz (hs_node_id s) (bk_hash block) (phase_tag ph) (hs_identity s)))"
  using assms
  by (simp add: proposal_verifies on_proposal_def justify_is_valid_def qc_genesis_def Let_def)

theorem proposal_signer_unchecked_witness:
  "\<exists>vote. snd (hs_process hs_demo [] 1000 (register_peer_identity (demo_node 2 [0, 1, 2, 3]) 1 [1])
     (MsgProposal \<lparr>bk_hash = 7, bk_view = 5, bk_parent_hash = 3, bk_transactions = [], bk_justify = qc_genesis, bk_proposer = 0\<rparr> PhCommit
       (sign_with_identity hs_demo [] 1 7 [1]))) = PRSendToLeader vote"
  using proposal_signer_unchecked [of hs_demo "register_peer_identity (demo_node 2 [0, 1, 2, 3]) 1 [1]" 1 "[1]"
      "\<lparr>bk_hash = 7, bk_view = 5, bk_parent_hash = 3, bk_transactions = [], bk_justify = qc_genesis, bk_proposer = 0\<rparr>" "[]" 1000 PhCommit "[]"]
    hs_demo_ok
  by (simp add: register_peer_identity_def register_identity_def keyring_peer_id_def current_leader_def leader_for_view_def
      validator_set_new_def vs_n_def qc_genesis_def del: hs_process.simps)

definition hs_run :: "hs_crypto \<Rightarrow> bytes \<Rightarrow> u64 \<Rightarrow> hs_state \<Rightarrow> hs_msg list \<Rightarrow> hs_state" where
  "hs_run cr nz now s msgs = foldl (\<lambda>s m. fst (hs_process cr nz now s m)) s msgs"

lemma view_change_collects:
  assumes "distinct (map fst es @ senders)" "length es + length senders = quorum_size (hs_validators s)" "senders \<noteq> []"
    and "(case vct_pending (hs_view_change_tracker s) v of Some es' \<Rightarrow> es' | None \<Rightarrow> []) = es"
  shows "hs_view (hs_run cr nz now s (map (\<lambda>i. MsgViewChange v i qc sg) senders)) = v"
  using assms
proof (induction senders arbitrary: s es)
  case (Cons i senders)
  have new: "\<not> (\<exists>e \<in> set es. fst e = i)" using Cons.prems(1) by force
  show ?case
  proof (cases "senders = []")
    case True
    then have "quorum_size (hs_validators s) \<le> length (es @ [(i, qc)])" using Cons.prems(2) by simp
    then show ?thesis
      using True Cons.prems(4) new by (simp add: hs_run_def process_view_change_quorum_def collect_view_change_def Let_def)
  next
    case False
    then have "\<not> quorum_size (hs_validators s) \<le> length (es @ [(i, qc)])"
      using Cons.prems(2) by (cases senders) simp_all
    then have "fst (hs_process cr nz now s (MsgViewChange v i qc sg)) =
        s\<lparr>hs_view_change_tracker := (hs_view_change_tracker s)
          \<lparr>vct_pending := (vct_pending (hs_view_change_tracker s))(v \<mapsto> es @ [(i, qc)])\<rparr>\<rparr>" (is "_ = ?s")
      using Cons.prems(4) new by (simp add: process_view_change_quorum_def collect_view_change_def Let_def)
    moreover have "hs_view (hs_run cr nz now ?s (map (\<lambda>i. MsgViewChange v i qc sg) senders)) = v"
      by (rule Cons.IH [of "es @ [(i, qc)]"]) (use Cons.prems False in auto)
    ultimately show ?thesis by (simp add: hs_run_def)
  qed
qed simp

text \<open>C23: neither the signature nor the membership nor the direction of a view change is checked. \<open>2 f + 1\<close>
  view-change messages under different sender numbers, validators or not, with any signature, take a validator to any view,
  also to one below its own.\<close>

theorem view_change_unauthenticated:
  assumes "distinct senders" "length senders = 2 * vs_f (hs_validators s) + 1"
    and "vct_pending (hs_view_change_tracker s) v = None"
  shows "hs_view (hs_run cr nz now s (map (\<lambda>i. MsgViewChange v i qc sg) senders)) = v"
  using assms by (intro view_change_collects [of "[]"]) (auto simp: quorum_size_def)

theorem view_change_unauthenticated_witness:
  "hs_view (hs_run hs_demo [] 1000 ((demo_node 2 [0, 1, 2, 3])\<lparr>hs_view := 7\<rparr>)
     (map (\<lambda>i. MsgViewChange 2 i qc_genesis \<lparr>sg_signer = 0, sg_bytes = []\<rparr>) [11, 12, 13])) = 2"
  by (rule view_change_unauthenticated) (simp_all add: validator_set_new_def vs_f_def vs_n_def)

section \<open>Time-outs\<close>

lemma backoff_step:
  "vct_consecutive_timeouts (fst (on_timeout cr nz t now v i qc sk)) = vct_consecutive_timeouts t + 1"
  "vct_config (fst (on_timeout cr nz t now v i qc sk)) = vct_config t"
  "vct_current_timeout (fst (on_timeout cr nz t now v i qc sk)) =
     min (vcc_max_timeout (vct_config t)) (vcc_base_timeout (vct_config t) * min (2 ^ unat (vct_consecutive_timeouts t + 1)) (2 ^ 32 - 1))"
  by (simp_all add: on_timeout_def Let_def)

text \<open>The exponential back-off. After \<open>k\<close> time-outs in a row since the view was entered, for every
  \<open>k\<close> a 32-bit counter can hold, the time-out is \<open>3 s * 2 ^ k\<close>, but never more than 30 s.\<close>

theorem backoff_schedule:
  assumes "k < 2 ^ 32"
  shows "vct_current_timeout (((\<lambda>t. fst (on_timeout cr nz t now v i qc sk)) ^^ k) (vct_new view_change_config_default now0)) =
    min 30000 (3000 * 2 ^ k)"
proof -
  let ?f = "\<lambda>t. fst (on_timeout cr nz t now v i qc sk)" and ?t0 = "vct_new view_change_config_default now0"
  have c: "vct_consecutive_timeouts ((?f ^^ k) ?t0) = of_nat k \<and> vct_config ((?f ^^ k) ?t0) = view_change_config_default" for k
    by (induction k) (simp_all add: backoff_step vct_new_def add.commute)
  show ?thesis
  proof (cases k)
    case 0
    then show ?thesis by (simp add: vct_new_def view_change_config_default_def)
  next
    case (Suc j)
    have "(of_nat j + 1 :: u32) = of_nat (Suc j)" by simp
    then have u: "unat (of_nat j + 1 :: u32) = Suc j"
      using assms Suc by (simp only: unat_of_nat) simp
    have "min 30000 (3000 * min n (2 ^ 32 - 1)) = min 30000 (3000 * n)" for n :: nat
      by (simp add: min_def)
    then show ?thesis
      using Suc u c [of j] by (simp add: backoff_step view_change_config_default_def)
  qed
qed

theorem backoff_schedule_witness:
  "vct_current_timeout (((\<lambda>t. fst (on_timeout hs_demo [] t 1000 0 2 qc_genesis [2])) ^^ 2) (vct_new view_change_config_default 0)) = 12000"
  using backoff_schedule [of 2 hs_demo "[]" 1000 0 2 qc_genesis "[2]" 0] by simp

section \<open>A single validator\<close>

text \<open>The justification check depends on validators and keyring only.\<close>

definition justify_ok :: "hs_crypto \<Rightarrow> validator_set \<Rightarrow> keyring \<Rightarrow> quorum_cert \<Rightarrow> bool" where
  "justify_ok cr vs kr j \<longleftrightarrow> (qc_signatures j = [] \<and> qc_block_hash j = 0 \<and> qc_view j = 0) \<or>
     has_quorum j (vs_n vs) \<and> list_all (\<lambda>sg. vs_contains vs (sg_signer sg) \<and>
       verify_vote cr sg (qc_block_hash j) (phase_tag (qc_phase j)) kr) (qc_signatures j)"

lemma justify_valid_iff: "justify_is_valid cr s j \<longleftrightarrow> justify_ok cr (hs_validators s) (hs_keyring s) j"
  by (auto simp: justify_is_valid_def justify_ok_def)

text \<open>A proposal that is accepted, the state after voting for it, and the vote.\<close>

definition accepts :: "hs_crypto \<Rightarrow> hs_state \<Rightarrow> hs_block \<Rightarrow> bool" where
  "accepts cr s b \<longleftrightarrow> bk_proposer b = current_leader s \<and> justify_ok cr (hs_validators s) (hs_keyring s) (bk_justify b) \<and>
     (qc_view (bk_justify b) \<ge> qc_view (hs_locked_qc s) \<or> bk_parent_hash b = qc_block_hash (hs_locked_qc s) \<or>
      bk_hash b = qc_block_hash (hs_locked_qc s))"

definition vote_msg :: "hs_crypto \<Rightarrow> bytes \<Rightarrow> hs_state \<Rightarrow> hs_block \<Rightarrow> phase \<Rightarrow> hs_msg" where
  "vote_msg cr nz s b ph = MsgVote (bk_hash b) (hs_view s) ph
     (sign_vote_for cr nz (hs_node_id s) (bk_hash b) (phase_tag ph) (hs_identity s))"

definition locked_by :: "hs_state \<Rightarrow> hs_block \<Rightarrow> quorum_cert" where
  "locked_by s b = \<lparr>qc_block_hash = bk_hash b, qc_view = hs_view s, qc_phase = qc_phase (bk_justify b),
     qc_signatures = qc_signatures (bk_justify b)\<rparr>"

definition stored :: "hs_state \<Rightarrow> hs_block \<Rightarrow> phase \<Rightarrow> hs_state" where
  "stored s b ph =
     (if ph = PhPreCommit
      then s\<lparr>hs_blocks := (hs_blocks s)(bk_hash b \<mapsto> b), hs_pending_block := Some b, hs_phase := ph, hs_locked_qc := locked_by s b\<rparr>
      else s\<lparr>hs_blocks := (hs_blocks s)(bk_hash b \<mapsto> b), hs_pending_block := Some b, hs_phase := ph\<rparr>)"

lemma stored_simps [simp]:
  "hs_node_id (stored s b ph) = hs_node_id s" "hs_identity (stored s b ph) = hs_identity s"
  "hs_keyring (stored s b ph) = hs_keyring s" "hs_view (stored s b ph) = hs_view s"
  "hs_validators (stored s b ph) = hs_validators s" "hs_high_qc (stored s b ph) = hs_high_qc s"
  "hs_pending_block (stored s b ph) = Some b" "hs_votes (stored s b ph) = hs_votes s"
  "hs_vote_tracker (stored s b ph) = hs_vote_tracker s" "hs_committed (stored s b ph) = hs_committed s"
  "hs_tx_pool (stored s b ph) = hs_tx_pool s"
  "hs_locked_qc (stored s b ph) = (if ph = PhPreCommit then locked_by s b else hs_locked_qc s)"
  "is_leader (stored s b ph) = is_leader s"
  by (simp_all add: stored_def is_leader_def)

definition next_view :: "u64 \<Rightarrow> hs_state \<Rightarrow> hs_state" where
  "next_view now s = s\<lparr>hs_view := hs_view s + 1, hs_phase := PhPrepare, hs_pending_block := None, hs_votes := Map.empty,
     hs_vote_tracker := Map.empty, hs_view_change_tracker := vct_reset (hs_view_change_tracker s) now\<rparr>"

lemma process_accepts:
  assumes "verify_proposal cr sg (bk_hash b) (hs_keyring s)" "accepts cr s b"
  shows "hs_process cr nz now s (MsgProposal b ph sg) =
    (if ph = PhCommit \<and> \<not> is_leader s then next_view now (stored s b ph) else stored s b ph, PRSendToLeader (vote_msg cr nz s b ph))"
  using assms
  by (cases ph)
    (simp_all add: on_proposal_def accepts_def justify_valid_iff Let_def vote_msg_def next_view_def is_leader_def stored_def locked_by_def)

text \<open>The vote that completes a quorum with the votes on record.\<close>

definition tracked :: "hs_state \<Rightarrow> hs_signature \<Rightarrow> u64 \<Rightarrow> phase \<Rightarrow> hs_state" where
  "tracked s sg bh ph = s\<lparr>hs_vote_tracker := (hs_vote_tracker s)((sg_signer sg, ph, hs_view s) \<mapsto> bh)\<rparr>"

lemma vote_counts:
  assumes "is_leader s" "verify_vote cr sg bh (phase_tag ph) (hs_keyring s)" "vs_contains (hs_validators s) (sg_signer sg)"
    and "hs_vote_tracker s (sg_signer sg, ph, hs_view s) = None"
    and "(case hs_votes s (bh, ph) of Some x \<Rightarrow> x | None \<Rightarrow> []) = sigs" "sg_signer sg \<notin> sg_signer ` set sigs" "distinct (map sg_signer sigs)"
  shows "hs_process cr nz now s (MsgVote bh (hs_view s) ph sg) =
    (if quorum_size (hs_validators s) \<le> Suc (length sigs)
     then on_quorum cr nz now ((tracked s sg bh ph)\<lparr>hs_votes := Map.empty\<rparr>) ph
       \<lparr>qc_block_hash = bh, qc_view = hs_view s, qc_phase = ph, qc_signatures = sigs @ [sg]\<rparr>
     else ((tracked s sg bh ph)\<lparr>hs_votes := (hs_votes s)((bh, ph) \<mapsto> sigs @ [sg])\<rparr>, PRNone))"
proof -
  let ?qc = "\<lparr>qc_block_hash = bh, qc_view = hs_view s, qc_phase = ph, qc_signatures = sigs @ [sg]\<rparr>"
  have "has_quorum ?qc (vs_n (hs_validators s)) \<longleftrightarrow> quorum_size (hs_validators s) \<le> Suc (length sigs)"
    using has_quorum_distinct [of ?qc "hs_validators s"] assms(6,7) by simp
  moreover have "\<not> (\<exists>x \<in> set sigs. sg_signer x = sg_signer sg)" using assms(6) by (metis imageI)
  ultimately show ?thesis
    using assms by (cases "hs_votes s (bh, ph)") (auto simp: on_vote_def Let_def tracked_def)
qed

text \<open>A validator set of one.\<close>

definition single_ready :: "hs_crypto \<Rightarrow> hs_node_id \<Rightarrow> hs_state \<Rightarrow> bool" where
  "single_ready cr i s \<longleftrightarrow> hs_node_id s = i \<and> hs_validators s = validator_set_new [i] \<and>
     keyring_peer_id cr (hs_keyring s) i = Some (hp_public cr (hs_identity s)) \<and> hs_votes s = Map.empty \<and> hs_vote_tracker s = Map.empty \<and>
     justify_ok cr (hs_validators s) (hs_keyring s) (hs_high_qc s) \<and> qc_view (hs_locked_qc s) \<le> qc_view (hs_high_qc s)"

lemma single_set:
  "leader_for_view v (validator_set_new [i]) = i" "quorum_size (validator_set_new [i]) = 1" "vs_contains (validator_set_new [i]) i"
  by (simp_all add: leader_for_view_def validator_set_new_def vs_n_def quorum_size_def vs_f_def vs_contains_def)

lemma single_leader: "hs_validators s = validator_set_new [hs_node_id s] \<Longrightarrow> is_leader s"
  by (simp add: is_leader_def single_set)

text \<open>One phase of the pipeline: the leader accepts its proposal, votes, and the vote is a quorum.\<close>

lemma on_quorum_result:
  assumes "on_quorum cr nz now s ph qc = (s', r)"
  shows "r \<noteq> PRSendToLeader m \<and> r \<noteq> PRViewChange v m"
  using assms
  by (cases ph)
    (auto simp: on_quorum_def Let_def next_proposal_def on_commit_quorum_def split: option.splits prod.splits if_splits)

lemma single_phase:
  assumes cr: "hs_crypto_ok cr" and vs: "hs_validators s = validator_set_new [hs_node_id s]"
    and kr: "keyring_peer_id cr (hs_keyring s) (hs_node_id s) = Some (hp_public cr (hs_identity s))"
    and votes: "hs_votes s = Map.empty" "hs_vote_tracker s (hs_node_id s, ph, hs_view s) = None"
    and b: "accepts cr s b" "verify_proposal cr sg (bk_hash b) (hs_keyring s)"
  shows "drive_loop cr json nzs now (Suc (Suc k)) n s [MsgProposal b ph sg] =
    (let g = sign_vote_for cr (nzs n) (hs_node_id s) (bk_hash b) (phase_tag ph) (hs_identity s);
         (s', r) = on_quorum cr (nzs (Suc n)) now ((tracked (stored s b ph) g (bk_hash b) ph)\<lparr>hs_votes := Map.empty\<rparr>) ph
           \<lparr>qc_block_hash = bk_hash b, qc_view = hs_view s, qc_phase = ph, qc_signatures = [g]\<rparr>
     in case r of PRCommitted _ _ \<Rightarrow> (s', Inr (hs_high_qc s'))
        | PRBroadcast m \<Rightarrow> drive_loop cr json nzs now k (Suc (Suc n)) s' [m]
        | _ \<Rightarrow> drive_loop cr json nzs now k (Suc (Suc n)) s' [])"
proof -
  let ?g = "sign_vote_for cr (nzs n) (hs_node_id s) (bk_hash b) (phase_tag ph) (hs_identity s)"
  have lead: "is_leader s" using vs by (rule single_leader)
  have 1: "hs_process cr (nzs n) now s (MsgProposal b ph sg) = (stored s b ph, PRSendToLeader (vote_msg cr (nzs n) s b ph))"
    using process_accepts [OF b(2,1)] lead by simp
  have "hs_process cr (nzs (Suc n)) now (stored s b ph) (MsgVote (bk_hash b) (hs_view (stored s b ph)) ph ?g) =
      on_quorum cr (nzs (Suc n)) now ((tracked (stored s b ph) ?g (bk_hash b) ph)\<lparr>hs_votes := Map.empty\<rparr>) ph
        \<lparr>qc_block_hash = bk_hash b, qc_view = hs_view s, qc_phase = ph, qc_signatures = [?g]\<rparr>"
    using vote_counts [of "stored s b ph" cr ?g "bk_hash b" ph "[]" "nzs (Suc n)" now] lead vote_verifies [OF cr kr] vs votes
    by (simp add: single_set)
  then show ?thesis
    using 1 on_quorum_result
    by (simp add: vote_msg_def Let_def del: hs_process.simps split: prod.splits process_result.splits) blast
qed


lemma tracked_simps [simp]:
  "hs_node_id (tracked s g bh ph) = hs_node_id s" "hs_identity (tracked s g bh ph) = hs_identity s"
  "hs_keyring (tracked s g bh ph) = hs_keyring s" "hs_view (tracked s g bh ph) = hs_view s"
  "hs_validators (tracked s g bh ph) = hs_validators s" "hs_high_qc (tracked s g bh ph) = hs_high_qc s"
  "hs_pending_block (tracked s g bh ph) = hs_pending_block s" "hs_locked_qc (tracked s g bh ph) = hs_locked_qc s"
  "hs_committed (tracked s g bh ph) = hs_committed s" "hs_tx_pool (tracked s g bh ph) = hs_tx_pool s"
  "hs_vote_tracker (tracked s g bh ph) = (hs_vote_tracker s)((sg_signer g, ph, hs_view s) \<mapsto> bh)"
  by (simp_all add: tracked_def)

text \<open>The block a leader proposes, and the certificate its own vote makes of it.\<close>

definition proposed_block :: "(ordered_tx list \<Rightarrow> bytes) \<Rightarrow> hs_state \<Rightarrow> hs_block" where
  "proposed_block json s =
     \<lparr>bk_hash = hash_block (hs_view s) (qc_block_hash (hs_high_qc s)) (json (hs_tx_pool s)), bk_view = hs_view s,
      bk_parent_hash = qc_block_hash (hs_high_qc s), bk_transactions = hs_tx_pool s, bk_justify = hs_high_qc s,
      bk_proposer = hs_node_id s\<rparr>"

lemma propose_eq:
  "is_leader s \<Longrightarrow> hs_tx_pool s \<noteq> [] \<Longrightarrow> propose cr json nz s =
     (s\<lparr>hs_tx_pool := [], hs_blocks := (hs_blocks s)(bk_hash (proposed_block json s) \<mapsto> proposed_block json s),
        hs_pending_block := Some (proposed_block json s)\<rparr>,
      Some (MsgProposal (proposed_block json s) PhPrepare
        (sign_with_identity cr nz (hs_node_id s) (bk_hash (proposed_block json s)) (hs_identity s))))"
  by (simp add: propose_def proposed_block_def Let_def)

lemma trim_evict_simps [simp]:
  "hs_view (trim_committed (evict_blocks s)) = hs_view s" "hs_high_qc (trim_committed (evict_blocks s)) = hs_high_qc s"
  "hs_node_id (trim_committed (evict_blocks s)) = hs_node_id s" "hs_identity (trim_committed (evict_blocks s)) = hs_identity s"
  "hs_validators (trim_committed (evict_blocks s)) = hs_validators s" "hs_keyring (trim_committed (evict_blocks s)) = hs_keyring s"
  "hs_votes (trim_committed (evict_blocks s)) = hs_votes s" "hs_tx_pool (trim_committed (evict_blocks s)) = hs_tx_pool s"
  "hs_vote_tracker (trim_committed (evict_blocks s)) = hs_vote_tracker s" "hs_locked_qc (trim_committed (evict_blocks s)) = hs_locked_qc s"
  "hs_committed (trim_committed (evict_blocks s)) =
     drop (length (hs_committed s) - MAX_COMMITTED_HISTORY) (hs_committed s)"
  by (simp_all add: trim_committed_def evict_blocks_def Let_def)

text \<open>The single validator between two phases of a block: nothing but votes, tracker, pending block, locks and phase moves.\<close>

definition in_round :: "hs_crypto \<Rightarrow> hs_state \<Rightarrow> hs_block \<Rightarrow> phase \<Rightarrow> hs_signature \<Rightarrow> hs_state \<Rightarrow> bool" where
  "in_round cr s0 b ph sg s \<longleftrightarrow> hs_node_id s = hs_node_id s0 \<and> hs_identity s = hs_identity s0 \<and> hs_keyring s = hs_keyring s0 \<and>
     hs_view s = hs_view s0 \<and> hs_validators s = hs_validators s0 \<and> hs_tx_pool s = [] \<and> hs_committed s = hs_committed s0 \<and>
     hs_votes s = Map.empty \<and> hs_vote_tracker s (hs_node_id s, ph, hs_view s) = None \<and>
     accepts cr s b \<and> verify_proposal cr sg (bk_hash b) (hs_keyring s)"

definition single_base :: "hs_crypto \<Rightarrow> hs_state \<Rightarrow> bool" where
  "single_base cr s \<longleftrightarrow> hs_crypto_ok cr \<and> hs_validators s = validator_set_new [hs_node_id s] \<and>
     keyring_peer_id cr (hs_keyring s) (hs_node_id s) = Some (hp_public cr (hs_identity s))"

lemma round_phase:
  assumes "single_base cr s0" "in_round cr s0 b ph sg s"
  shows "drive_loop cr json nzs now (Suc (Suc k)) n s [MsgProposal b ph sg] =
    (let g = sign_vote_for cr (nzs n) (hs_node_id s) (bk_hash b) (phase_tag ph) (hs_identity s);
         (s', r) = on_quorum cr (nzs (Suc n)) now ((tracked (stored s b ph) g (bk_hash b) ph)\<lparr>hs_votes := Map.empty\<rparr>) ph
           \<lparr>qc_block_hash = bk_hash b, qc_view = hs_view s, qc_phase = ph, qc_signatures = [g]\<rparr>
     in case r of PRCommitted _ _ \<Rightarrow> (s', Inr (hs_high_qc s'))
        | PRBroadcast m \<Rightarrow> drive_loop cr json nzs now k (Suc (Suc n)) s' [m]
        | _ \<Rightarrow> drive_loop cr json nzs now k (Suc (Suc n)) s' [])"
  by (rule single_phase) (use assms in \<open>auto simp: single_base_def in_round_def\<close>)

lemma round_prepare:
  assumes base: "single_base cr s0" and r: "in_round cr s0 b PhPrepare sg s"
    and t: "hs_vote_tracker s (hs_node_id s, PhPreCommit, hs_view s) = None" "hs_vote_tracker s (hs_node_id s, PhCommit, hs_view s) = None"
  obtains s' sg' where "drive_loop cr json nzs now (Suc (Suc k)) n s [MsgProposal b PhPrepare sg] =
      drive_loop cr json nzs now k (Suc (Suc n)) s' [MsgProposal b PhPreCommit sg']"
    "in_round cr s0 b PhPreCommit sg' s'" "hs_vote_tracker s' (hs_node_id s', PhCommit, hs_view s') = None"
proof -
  let ?sg = "sign_with_identity cr (nzs (Suc n)) (hs_node_id s) (bk_hash b) (hs_identity s)"
  show ?thesis
    by (rule that [of _ ?sg], subst round_phase [OF base r])
      (use base r t in \<open>auto simp: on_quorum_def Let_def next_proposal_def in_round_def single_base_def accepts_def
        current_leader_def proposal_verifies\<close>)
qed

lemma round_precommit:
  assumes base: "single_base cr s0" and r: "in_round cr s0 b PhPreCommit sg s"
    and t: "hs_vote_tracker s (hs_node_id s, PhCommit, hs_view s) = None"
  obtains s' sg' where "drive_loop cr json nzs now (Suc (Suc k)) n s [MsgProposal b PhPreCommit sg] =
      drive_loop cr json nzs now k (Suc (Suc n)) s' [MsgProposal b PhCommit sg']"
    "in_round cr s0 b PhCommit sg' s'"
proof -
  let ?sg = "sign_with_identity cr (nzs (Suc n)) (hs_node_id s) (bk_hash b) (hs_identity s)"
  show ?thesis
    by (rule that [of _ ?sg], subst round_phase [OF base r])
      (use base r t in \<open>auto simp: on_quorum_def Let_def next_proposal_def in_round_def single_base_def accepts_def
        current_leader_def proposal_verifies\<close>)
qed

lemma round_commit:
  assumes base: "single_base cr s0" and r: "in_round cr s0 b PhCommit sg s" and txs: "bk_transactions b \<noteq> []"
  obtains s' where "drive_loop cr json nzs now (Suc (Suc k)) n s [MsgProposal b PhCommit sg] = (s', Inr (hs_high_qc s'))"
    "last (hs_committed s') = b" "hs_committed s' \<noteq> []" "hs_tx_pool s' = []" "hs_view s' = hs_view s0 + 1"
    "qc_block_hash (hs_high_qc s') = bk_hash b" "single_ready cr (hs_node_id s0) s'"
    "qc_phase (hs_high_qc s') = PhCommit" "qc_signatures (hs_high_qc s') \<noteq> []"
proof -
  let ?g = "sign_vote_for cr (nzs n) (hs_node_id s) (bk_hash b) (phase_tag PhCommit) (hs_identity s)"
  have v: "verify_vote cr ?g (bk_hash b) (phase_tag PhCommit) (hs_keyring s0)"
    using base r by (simp add: single_base_def in_round_def vote_verifies)
  have j: "justify_ok cr (hs_validators s0) (hs_keyring s0)
      \<lparr>qc_block_hash = bk_hash b, qc_view = hs_view s0, qc_phase = PhCommit, qc_signatures = [?g]\<rparr>"
    using base r v by (simp add: justify_ok_def single_base_def in_round_def single_set has_quorum_def validator_set_new_def vs_n_def
        vs_contains_def)
  show ?thesis
    by (rule that, subst round_phase [OF base r])
      (use base r txs j in \<open>auto simp: on_quorum_def on_commit_quorum_def commit_pending_def Let_def in_round_def single_base_def
        single_ready_def MAX_COMMITTED_HISTORY_def\<close>)
qed

lemma single_commit:
  assumes cr: "hs_crypto_ok cr" and ready: "single_ready cr i s" and pool: "hs_tx_pool s \<noteq> []" and budget: "6 \<le> max_steps"
  shows "\<exists>s'. drive_to_commit cr json nzs now max_steps s = (s', Inr (hs_high_qc s')) \<and>
    last (hs_committed s') = proposed_block json s \<and> hs_committed s' \<noteq> [] \<and> hs_tx_pool s' = [] \<and> hs_view s' = hs_view s + 1 \<and>
    qc_block_hash (hs_high_qc s') = bk_hash (proposed_block json s) \<and> single_ready cr i s' \<and>
    qc_phase (hs_high_qc s') = PhCommit \<and> qc_signatures (hs_high_qc s') \<noteq> []"
proof -
  let ?b = "proposed_block json s"
  let ?s = "s\<lparr>hs_tx_pool := [], hs_blocks := (hs_blocks s)(bk_hash ?b \<mapsto> ?b), hs_pending_block := Some ?b\<rparr>"
  let ?sg = "sign_with_identity cr (nzs 0) (hs_node_id s) (bk_hash ?b) (hs_identity s)"
  obtain k where "max_steps = 6 + k" using budget le_Suc_ex by blast
  then have k: "max_steps = Suc (Suc (Suc (Suc (Suc (Suc k)))))" by simp
  have base: "single_base cr s" using cr ready by (simp add: single_base_def single_ready_def)
  then have lead: "is_leader s" by (simp add: single_base_def single_leader)
  have "accepts cr ?s ?b"
    using ready lead by (auto simp: accepts_def single_ready_def proposed_block_def current_leader_def is_leader_def)
  then have r: "in_round cr s ?b PhPrepare ?sg ?s"
    using base ready by (simp add: in_round_def single_base_def single_ready_def proposal_verifies)
  have none: "hs_vote_tracker ?s (hs_node_id ?s, ph, hs_view ?s) = None" for ph
    using ready by (simp add: single_ready_def)
  obtain s2 sg2 where 2: "drive_loop cr json nzs now max_steps 0 ?s [MsgProposal ?b PhPrepare ?sg] =
      drive_loop cr json nzs now (Suc (Suc (Suc (Suc k)))) (Suc (Suc 0)) s2 [MsgProposal ?b PhPreCommit sg2]"
    "in_round cr s ?b PhPreCommit sg2 s2" "hs_vote_tracker s2 (hs_node_id s2, PhCommit, hs_view s2) = None"
    unfolding k by (rule round_prepare [OF base r none none])
  obtain s3 sg3 where 3: "drive_loop cr json nzs now (Suc (Suc (Suc (Suc k)))) (Suc (Suc 0)) s2 [MsgProposal ?b PhPreCommit sg2] =
      drive_loop cr json nzs now (Suc (Suc k)) (Suc (Suc (Suc (Suc 0)))) s3 [MsgProposal ?b PhCommit sg3]"
    "in_round cr s ?b PhCommit sg3 s3"
    by (rule round_precommit [OF base 2(2,3)])
  have txs: "bk_transactions ?b \<noteq> []" using pool by (simp add: proposed_block_def)
  have drive: "drive_to_commit cr json nzs now max_steps s = drive_loop cr json nzs now max_steps 0 ?s [MsgProposal ?b PhPrepare ?sg]"
    using lead propose_eq [OF lead pool] by (simp add: drive_to_commit_def)
  show ?thesis
    unfolding drive 2(1) 3(1) using ready
    by (rule_tac round_commit [OF base 3(2) txs, where json = json and nzs = nzs and now = now and k = k and n = "Suc (Suc (Suc (Suc 0)))"])
      (auto simp: single_ready_def)
qed

text \<open>C22: a single validator commits. With one validator, a non-empty pool and at least six steps of budget, the
  driver returns a certificate: the pool has become one block at the end of the history, on top of the previous highest
  certificate, the pool is empty, the view has advanced by one, and the validator is again ready, so that one checkpoint
  after another commits.\<close>

theorem single_node_commits:
  assumes cr: "hs_crypto_ok cr" and ready: "single_ready cr i s" and pool: "hs_tx_pool s \<noteq> []" and budget: "6 \<le> max_steps"
  shows "\<exists>s'. drive_to_commit cr json nzs now max_steps s = (s', Inr (hs_high_qc s')) \<and>
    last (hs_committed s') = proposed_block json s \<and> hs_committed s' \<noteq> [] \<and> hs_tx_pool s' = [] \<and> hs_view s' = hs_view s + 1 \<and>
    qc_block_hash (hs_high_qc s') = bk_hash (proposed_block json s) \<and> single_ready cr i s'"
  using single_commit [OF assms] by blast

theorem single_node_commits_witness:
  "\<exists>s'. drive_to_commit hs_demo (\<lambda>_. []) (\<lambda>_. []) 1000 6 ((demo_node 3 [3])\<lparr>hs_tx_pool := [TxAuctionBid 3 1 100]\<rparr>) = (s', Inr (hs_high_qc s')) \<and>
    bk_transactions (last (hs_committed s')) = [TxAuctionBid 3 1 100] \<and> hs_view s' = 1"
proof -
  have "single_ready hs_demo 3 ((demo_node 3 [3])\<lparr>hs_tx_pool := [TxAuctionBid 3 1 100]\<rparr>)"
    by (simp add: single_ready_def justify_ok_def qc_genesis_def)
  from single_node_commits [OF hs_demo_ok this, where max_steps = 6 and json = "\<lambda>_. []" and nzs = "\<lambda>_. []" and now = 1000]
  show ?thesis by (auto simp: proposed_block_def)
qed

section \<open>Checkpoints\<close>

text \<open>A checkpoint proposed at a single validator is certified, and the certificate is accepted by
  \<open>verify_checkpoint_qc\<close>. The check does not depend on the handle: the same certificate is accepted for every other
  checkpoint.\<close>

theorem checkpoint_certificate_verifies:
  assumes "hs_crypto_ok cr" "single_ready cr i s" "hs_tx_pool s = []" "6 \<le> max_steps"
  shows "\<exists>s' qc. propose_checkpoint cr json nzs now max_steps s h = (s', Inr qc) \<and>
    bk_transactions (last (hs_committed s')) = [encode_handle i h] \<and> qc_block_hash qc = bk_hash (last (hs_committed s')) \<and>
    single_ready cr i s' \<and> hs_tx_pool s' = [] \<and> (\<forall>h'. verify_checkpoint_qc cr s' h' qc)"
proof -
  let ?s = "s\<lparr>hs_tx_pool := [encode_handle i h]\<rparr>"
  have "single_ready cr i ?s" using assms(2) by (auto simp: single_ready_def)
  then obtain s' where s': "drive_to_commit cr json nzs now max_steps ?s = (s', Inr (hs_high_qc s'))"
    "last (hs_committed s') = proposed_block json ?s" "qc_block_hash (hs_high_qc s') = bk_hash (proposed_block json ?s)"
    "single_ready cr i s'" "hs_tx_pool s' = []" "qc_phase (hs_high_qc s') = PhCommit" "qc_signatures (hs_high_qc s') \<noteq> []"
    using single_commit [OF assms(1) _ _ assms(4), of i ?s json nzs now] by auto
  have "submit_tx s (encode_handle (hs_node_id s) h) = (?s, True)"
    using assms(2,3) by (simp add: submit_tx_def MAX_POOL_SIZE_def single_ready_def)
  then have "propose_checkpoint cr json nzs now max_steps s h = (s', Inr (hs_high_qc s'))"
    using s'(1) by (simp add: propose_checkpoint_def)
  moreover have "verify_checkpoint_qc cr s' h' (hs_high_qc s')" for h'
    using s'(4,6,7) by (auto simp: verify_checkpoint_qc_def single_ready_def justify_ok_def list_all_iff)
  ultimately show ?thesis using s' by (intro exI [of _ s'] exI [of _ "hs_high_qc s'"]) (simp add: proposed_block_def)
qed

theorem checkpoint_certificate_verifies_witness:
  "\<exists>s' qc. propose_checkpoint hs_demo (\<lambda>_. []) (\<lambda>_. []) 1000 64 (demo_node 3 [3]) \<lparr>ck_frame_n = 10, ck_tactical_hash = [1]\<rparr> = (s', Inr qc) \<and>
    verify_checkpoint_qc hs_demo s' \<lparr>ck_frame_n = 10, ck_tactical_hash = [1]\<rparr> qc \<and>
    verify_checkpoint_qc hs_demo s' \<lparr>ck_frame_n = 999, ck_tactical_hash = [2]\<rparr> qc"
proof -
  have "single_ready hs_demo 3 (demo_node 3 [3])" by (simp add: single_ready_def justify_ok_def qc_genesis_def)
  from checkpoint_certificate_verifies [OF hs_demo_ok this, where max_steps = 64 and json = "\<lambda>_. []" and nzs = "\<lambda>_. []" and now = 1000
      and h = "\<lparr>ck_frame_n = 10, ck_tactical_hash = [1]\<rparr>"]
  show ?thesis by auto
qed

end
