(* ===== verification/HotStuff_Net.thy ===== *)
theory HotStuff_Net
  imports HotStuff_Safety
begin

text \<open>
  Validators of the HotStuff engine on a network: one view of the protocol with honest nodes, from
  the proposal to the commit, and the run with honest nodes only in which two validators commit
  different blocks on the same parent.
\<close>

section \<open>A network of honest validators\<close>

text \<open>
  Every node runs the code; messages that were sent may be delivered to any node, at any time and any number of times.
  Nothing is forged.
\<close>

type_synonym hs_net = "(hs_node_id \<Rightarrow> hs_state) \<times> hs_msg set"

fun sent_by :: "process_result \<Rightarrow> hs_msg set" where
  "sent_by PRNone = {}"
| "sent_by (PRSendToLeader m) = {m}"
| "sent_by (PRBroadcast m) = {m}"
| "sent_by (PRCommitted _ m) = {m}"
| "sent_by (PRViewChange _ m) = {m}"

inductive net_step :: "hs_crypto \<Rightarrow> (ordered_tx list \<Rightarrow> bytes) \<Rightarrow> hs_net \<Rightarrow> hs_net \<Rightarrow> bool" for cr json where
  net_deliver: "net_step cr json (N, M) (N(i := s'), M \<union> sent_by r)" if "m \<in> M" "hs_process cr nz now (N i) m = (s', r)"
| net_submit: "net_step cr json (N, M) (N(i := fst (submit_tx (N i) tx)), M)"
| net_propose: "net_step cr json (N, M) (N(i := s'), M \<union> set_option m)" if "propose cr json nz (N i) = (s', m)"
| net_tick: "net_step cr json (N, M) (N(i := s'), M \<union> sent_by r)" if "hs_tick cr nz now (N i) = (s', r)"

definition net_reach :: "hs_crypto \<Rightarrow> (ordered_tx list \<Rightarrow> bytes) \<Rightarrow> hs_net \<Rightarrow> hs_net \<Rightarrow> bool" where
  "net_reach cr json = (net_step cr json)\<^sup>*\<^sup>*"

lemma net_reach_refl [simp]: "net_reach cr json n n"
  by (simp add: net_reach_def)

lemma net_reach_trans: "net_reach cr json a b \<Longrightarrow> net_reach cr json b c \<Longrightarrow> net_reach cr json a c"
  unfolding net_reach_def by (rule rtranclp_trans)

lemma net_reach_step: "net_step cr json a b \<Longrightarrow> net_reach cr json a b"
  by (simp add: net_reach_def r_into_rtranclp)

text \<open>A proposal delivered to a list of nodes.\<close>

lemma net_deliver_all:
  assumes "m \<in> M" "distinct ws"
  shows "\<exists>M'. net_reach cr json (N, M) (\<lambda>x. if x \<in> set ws then fst (hs_process cr nz now (N x) m) else N x, M') \<and>
    M \<union> (\<Union>x \<in> set ws. sent_by (snd (hs_process cr nz now (N x) m))) \<subseteq> M'"
  using assms
proof (induction ws arbitrary: N M)
  case Nil
  then show ?case by (auto intro: exI [of _ M])
next
  case (Cons w ws)
  let ?r = "hs_process cr nz now (N w) m"
  let ?N = "N(w := fst ?r)" and ?M = "M \<union> sent_by (snd ?r)"
  have "\<exists>M'. net_reach cr json (?N, ?M) (\<lambda>x. if x \<in> set ws then fst (hs_process cr nz now (?N x) m) else ?N x, M') \<and>
      ?M \<union> (\<Union>x \<in> set ws. sent_by (snd (hs_process cr nz now (?N x) m))) \<subseteq> M'"
    by (rule Cons.IH) (use Cons.prems in simp_all)
  then obtain M' where M': "net_reach cr json (?N, ?M) (\<lambda>x. if x \<in> set ws then fst (hs_process cr nz now (?N x) m) else ?N x, M')"
    "?M \<union> (\<Union>x \<in> set ws. sent_by (snd (hs_process cr nz now (?N x) m))) \<subseteq> M'"
    by blast
  have 1: "net_step cr json (N, M) (?N, ?M)"
    using Cons.prems(1) by (intro net_deliver [of m M cr nz now]) simp_all
  have fin: "(\<lambda>x. if x \<in> set ws then fst (hs_process cr nz now (?N x) m) else ?N x) =
      (\<lambda>x. if x \<in> set (w # ws) then fst (hs_process cr nz now (N x) m) else N x)"
    using Cons.prems(2) by (auto simp: fun_eq_iff)
  have "\<And>x. x \<in> set ws \<Longrightarrow> ?N x = N x" using Cons.prems(2) by auto
  then have "M \<union> (\<Union>x \<in> set (w # ws). sent_by (snd (hs_process cr nz now (N x) m))) \<subseteq> M'"
    using M'(2) by auto
  then show ?case using net_reach_trans [OF net_reach_step [OF 1] M'(1)] unfolding fin by blast
qed

text \<open>The votes of a quorum delivered to the leader.\<close>

definition track_all :: "hs_state \<Rightarrow> hs_signature list \<Rightarrow> u64 \<Rightarrow> phase \<Rightarrow> hs_state" where
  "track_all s gs bh ph = foldl (\<lambda>s g. tracked s g bh ph) s gs"

lemma track_all_fields:
  "hs_view (track_all s gs bh ph) = hs_view s" "hs_node_id (track_all s gs bh ph) = hs_node_id s"
  "hs_identity (track_all s gs bh ph) = hs_identity s" "hs_keyring (track_all s gs bh ph) = hs_keyring s"
  "hs_validators (track_all s gs bh ph) = hs_validators s" "hs_pending_block (track_all s gs bh ph) = hs_pending_block s"
  "hs_committed (track_all s gs bh ph) = hs_committed s" "hs_locked_qc (track_all s gs bh ph) = hs_locked_qc s"
  "hs_tx_pool (track_all s gs bh ph) = hs_tx_pool s"
  by (induction gs arbitrary: s) (simp_all add: track_all_def)

lemma tracked_votes: "tracked (s\<lparr>hs_votes := x\<rparr>) g bh ph = (tracked s g bh ph)\<lparr>hs_votes := x\<rparr>"
  by (cases s) (simp add: tracked_def)

lemma track_all_votes: "track_all (s\<lparr>hs_votes := x\<rparr>) gs bh ph = (track_all s gs bh ph)\<lparr>hs_votes := x\<rparr>"
  by (induction gs arbitrary: s) (simp_all add: track_all_def tracked_votes)

lemma track_all_Cons: "track_all s (g # gs) bh ph = track_all (tracked s g bh ph) gs bh ph"
  by (simp add: track_all_def)

lemma track_all_other: "ph' \<noteq> ph \<Longrightarrow> hs_vote_tracker (track_all s gs bh ph) (i, ph', v) = hs_vote_tracker s (i, ph', v)"
  by (induction gs arbitrary: s) (simp_all add: track_all_def)

lemma net_collect:
  assumes "\<forall>g \<in> set gs. MsgVote bh (hs_view (N L)) ph g \<in> M" "is_leader (N L)" "gs \<noteq> []"
    and "\<forall>g \<in> set gs. verify_vote cr g bh (phase_tag ph) (hs_keyring (N L)) \<and> vs_contains (hs_validators (N L)) (sg_signer g) \<and>
      hs_vote_tracker (N L) (sg_signer g, ph, hs_view (N L)) = None"
    and "(case hs_votes (N L) (bh, ph) of Some x \<Rightarrow> x | None \<Rightarrow> []) = sigs" "distinct (map sg_signer (sigs @ gs))"
    and "length sigs + length gs = quorum_size (hs_validators (N L))"
  shows "let r = on_quorum cr nz now ((track_all (N L) gs bh ph)\<lparr>hs_votes := Map.empty\<rparr>) ph
      \<lparr>qc_block_hash = bh, qc_view = hs_view (N L), qc_phase = ph, qc_signatures = sigs @ gs\<rparr>
    in net_reach cr json (N, M) (N(L := fst r), M \<union> sent_by (snd r))"
  using assms
proof (induction gs arbitrary: N M sigs)
  case (Cons g gs)
  let ?s = "N L"
  have step: "hs_process cr nz now ?s (MsgVote bh (hs_view ?s) ph g) =
    (if quorum_size (hs_validators ?s) \<le> Suc (length sigs)
     then on_quorum cr nz now ((tracked ?s g bh ph)\<lparr>hs_votes := Map.empty\<rparr>) ph
       \<lparr>qc_block_hash = bh, qc_view = hs_view ?s, qc_phase = ph, qc_signatures = sigs @ [g]\<rparr>
     else ((tracked ?s g bh ph)\<lparr>hs_votes := (hs_votes ?s)((bh, ph) \<mapsto> sigs @ [g])\<rparr>, PRNone))"
    by (rule vote_counts) (use Cons.prems in auto)
  have m: "MsgVote bh (hs_view ?s) ph g \<in> M" using Cons.prems(1) by simp
  show ?case
  proof (cases "gs = []")
    case True
    let ?r = "on_quorum cr nz now ((tracked ?s g bh ph)\<lparr>hs_votes := Map.empty\<rparr>) ph
       \<lparr>qc_block_hash = bh, qc_view = hs_view ?s, qc_phase = ph, qc_signatures = sigs @ [g]\<rparr>"
    have "hs_process cr nz now ?s (MsgVote bh (hs_view ?s) ph g) = ?r" using step True Cons.prems(7) by simp
    then have "hs_process cr nz now ?s (MsgVote bh (hs_view ?s) ph g) = (fst ?r, snd ?r)" by (metis prod.collapse)
    from net_reach_step [OF net_deliver [where N = N and i = L and json = json, OF m this]] True
    show ?thesis unfolding Let_def track_all_def by simp
  next
    case False
    let ?s' = "(tracked ?s g bh ph)\<lparr>hs_votes := (hs_votes ?s)((bh, ph) \<mapsto> sigs @ [g])\<rparr>"
    have "\<not> quorum_size (hs_validators ?s) \<le> Suc (length sigs)" using Cons.prems(7) False by (cases gs) simp_all
    then have p: "hs_process cr nz now ?s (MsgVote bh (hs_view ?s) ph g) = (?s', PRNone)" using step by simp
    have 1: "net_reach cr json (N, M) (N(L := ?s'), M)"
      using net_reach_step [OF net_deliver [where N = N and i = L and json = json, OF m p]] by simp
    have ne: "\<forall>g' \<in> set gs. sg_signer g' \<noteq> sg_signer g" using Cons.prems(6) by (auto simp: image_iff)
    have "let r = on_quorum cr nz now ((track_all ((N(L := ?s')) L) gs bh ph)\<lparr>hs_votes := Map.empty\<rparr>) ph
        \<lparr>qc_block_hash = bh, qc_view = hs_view ((N(L := ?s')) L), qc_phase = ph, qc_signatures = (sigs @ [g]) @ gs\<rparr>
      in net_reach cr json (N(L := ?s'), M) ((N(L := ?s'))(L := fst r), M \<union> sent_by (snd r))"
      by (rule Cons.IH) (use Cons.prems False ne in \<open>auto simp: is_leader_def\<close>)
    then have "let r = on_quorum cr nz now ((track_all ?s (g # gs) bh ph)\<lparr>hs_votes := Map.empty\<rparr>) ph
        \<lparr>qc_block_hash = bh, qc_view = hs_view ?s, qc_phase = ph, qc_signatures = sigs @ g # gs\<rparr>
      in net_reach cr json (N(L := ?s'), M) (N(L := fst r), M \<union> sent_by (snd r))"
      by (simp add: track_all_votes track_all_Cons)
    then show ?thesis unfolding Let_def by (rule net_reach_trans [OF 1])
  qed
qed simp

section \<open>One view of the protocol\<close>

text \<open>A leader and a quorum of other validators in the same view that know each other's keys.\<close>

definition view_ok ::
    "hs_crypto \<Rightarrow> validator_set \<Rightarrow> (hs_node_id \<Rightarrow> bytes) \<Rightarrow> u64 \<Rightarrow> hs_node_id \<Rightarrow> hs_node_id list \<Rightarrow> (hs_node_id \<Rightarrow> hs_state) \<Rightarrow> bool" where
  "view_ok cr vs sk V L ws N \<longleftrightarrow> hs_crypto_ok cr \<and> leader_for_view V vs = L \<and> L \<notin> set ws \<and> distinct ws \<and>
     length ws = quorum_size vs \<and> (\<forall>w \<in> set ws. vs_contains vs w) \<and>
     (\<forall>x \<in> insert L (set ws). hs_node_id (N x) = x \<and> hs_validators (N x) = vs \<and> hs_view (N x) = V \<and> hs_identity (N x) = sk x \<and>
        (\<forall>y \<in> insert L (set ws). keyring_peer_id cr (hs_keyring (N x)) y = Some (hp_public cr (sk y))))"

definition votes_of :: "hs_crypto \<Rightarrow> bytes \<Rightarrow> (hs_node_id \<Rightarrow> bytes) \<Rightarrow> hs_node_id list \<Rightarrow> u64 \<Rightarrow> phase \<Rightarrow> hs_signature list" where
  "votes_of cr nz sk ws bh ph = map (\<lambda>w. sign_vote_for cr nz w bh (phase_tag ph) (sk w)) ws"

definition leader_after :: "hs_crypto \<Rightarrow> bytes \<Rightarrow> u64 \<Rightarrow> (hs_node_id \<Rightarrow> bytes) \<Rightarrow> hs_node_id list \<Rightarrow> hs_block \<Rightarrow> phase \<Rightarrow> hs_state \<Rightarrow> hs_state \<times> process_result" where
  "leader_after cr nz now sk ws b ph s =
     on_quorum cr nz now ((track_all s (votes_of cr nz sk ws (bk_hash b) ph) (bk_hash b) ph)\<lparr>hs_votes := Map.empty\<rparr>) ph
       \<lparr>qc_block_hash = bk_hash b, qc_view = hs_view s, qc_phase = ph, qc_signatures = votes_of cr nz sk ws (bk_hash b) ph\<rparr>"

definition voter_after :: "u64 \<Rightarrow> hs_block \<Rightarrow> phase \<Rightarrow> hs_state \<Rightarrow> hs_state" where
  "voter_after now b ph s = (if ph = PhCommit then next_view now (stored s b ph) else stored s b ph)"

definition phase_after ::
    "hs_crypto \<Rightarrow> bytes \<Rightarrow> u64 \<Rightarrow> (hs_node_id \<Rightarrow> bytes) \<Rightarrow> hs_node_id \<Rightarrow> hs_node_id list \<Rightarrow> hs_block \<Rightarrow> phase \<Rightarrow>
      (hs_node_id \<Rightarrow> hs_state) \<Rightarrow> hs_node_id \<Rightarrow> hs_state" where
  "phase_after cr nz now sk L ws b ph N =
     (\<lambda>x. if x \<in> set ws then voter_after now b ph (N x) else if x = L then fst (leader_after cr nz now sk ws b ph (N L)) else N x)"

lemma net_phase:
  assumes ok: "view_ok cr vs sk V L ws N"
    and m: "MsgProposal b ph (sign_with_identity cr nz' L (bk_hash b) (sk L)) \<in> M" (is "?m \<in> M")
    and acc: "\<forall>w \<in> set ws. accepts cr (N w) b"
    and lead: "hs_votes (N L) = Map.empty" "\<forall>w. hs_vote_tracker (N L) (w, ph, V) = None"
  shows "\<exists>M'. net_reach cr json (N, M) (phase_after cr nz now sk L ws b ph N, M') \<and>
    M \<union> sent_by (snd (leader_after cr nz now sk ws b ph (N L))) \<subseteq> M'"
proof -
  let ?gs = "votes_of cr nz sk ws (bk_hash b) ph"
  let ?N1 = "\<lambda>x. if x \<in> set ws then fst (hs_process cr nz now (N x) ?m) else N x"
  have proc: "hs_process cr nz now (N w) ?m = (voter_after now b ph (N w), PRSendToLeader (vote_msg cr nz (N w) b ph))"
    if "w \<in> set ws" for w
  proof -
    have "\<not> is_leader (N w)" using ok that by (auto simp: view_ok_def is_leader_def)
    moreover have "verify_proposal cr (sign_with_identity cr nz' L (bk_hash b) (sk L)) (bk_hash b) (hs_keyring (N w))"
      using ok that by (intro proposal_verifies) (auto simp: view_ok_def)
    ultimately show ?thesis using process_accepts acc that by (simp add: voter_after_def del: hs_process.simps)
  qed
  obtain M1 where M1: "net_reach cr json (N, M) (?N1, M1)"
    "M \<union> (\<Union>x \<in> set ws. sent_by (snd (hs_process cr nz now (N x) ?m))) \<subseteq> M1"
    using net_deliver_all [OF m, of ws cr json N nz now] ok by (auto simp: view_ok_def simp del: hs_process.simps)
  have NL: "?N1 L = N L" using ok by (simp add: view_ok_def)
  have sent: "\<forall>g \<in> set ?gs. MsgVote (bk_hash b) (hs_view (?N1 L)) ph g \<in> M1"
  proof
    fix g assume "g \<in> set ?gs"
    then obtain w where w: "w \<in> set ws" "g = sign_vote_for cr nz w (bk_hash b) (phase_tag ph) (sk w)" by (auto simp: votes_of_def)
    have "MsgVote (bk_hash b) (hs_view (?N1 L)) ph g = vote_msg cr nz (N w) b ph"
      unfolding NL using ok w by (simp add: view_ok_def vote_msg_def)
    moreover have "sent_by (snd (hs_process cr nz now (N w) ?m)) \<subseteq> M1" using M1(2) w(1) by blast
    ultimately show "MsgVote (bk_hash b) (hs_view (?N1 L)) ph g \<in> M1" using proc [OF w(1)] by simp
  qed
  have "let r = on_quorum cr nz now ((track_all (?N1 L) ?gs (bk_hash b) ph)\<lparr>hs_votes := Map.empty\<rparr>) ph
      \<lparr>qc_block_hash = bk_hash b, qc_view = hs_view (?N1 L), qc_phase = ph, qc_signatures = [] @ ?gs\<rparr>
    in net_reach cr json (?N1, M1) (?N1(L := fst r), M1 \<union> sent_by (snd r))"
  proof (rule net_collect [where N = ?N1 and L = L and gs = ?gs and bh = "bk_hash b" and ph = ph and sigs = "[]" and M = M1,
        OF sent])
    show "\<forall>g \<in> set ?gs. verify_vote cr g (bk_hash b) (phase_tag ph) (hs_keyring (?N1 L)) \<and>
        vs_contains (hs_validators (?N1 L)) (sg_signer g) \<and> hs_vote_tracker (?N1 L) (sg_signer g, ph, hs_view (?N1 L)) = None"
      unfolding NL using ok lead(2) by (auto simp: view_ok_def votes_of_def intro!: vote_verifies)
    show "?gs \<noteq> []" using ok by (auto simp: view_ok_def votes_of_def quorum_size_def)
    show "distinct (map sg_signer ([] @ ?gs))" using ok by (simp add: view_ok_def votes_of_def comp_def)
  qed (use ok lead NL in \<open>auto simp: view_ok_def is_leader_def votes_of_def\<close>)
  then have 2: "net_reach cr json (?N1, M1) (?N1(L := fst (leader_after cr nz now sk ws b ph (N L))),
      M1 \<union> sent_by (snd (leader_after cr nz now sk ws b ph (N L))))"
    unfolding NL Let_def leader_after_def append.simps .
  have "?N1(L := fst (leader_after cr nz now sk ws b ph (N L))) = phase_after cr nz now sk L ws b ph N"
    using ok proc by (auto simp: fun_eq_iff phase_after_def view_ok_def simp del: hs_process.simps)
  then have "net_reach cr json (N, M) (phase_after cr nz now sk L ws b ph N,
      M1 \<union> sent_by (snd (leader_after cr nz now sk ws b ph (N L))))"
    using 2 net_reach_trans [OF M1(1)] by simp
  moreover have "M \<subseteq> M1" using M1(2) by blast
  ultimately show ?thesis by blast
qed

text \<open>The leader after a quorum of votes that does not commit yet.\<close>

lemma leader_after_early:
  assumes "ph \<in> {PhPrepare, PhPreCommit}"
  shows "hs_node_id (fst (leader_after cr nz now sk ws b ph s)) = hs_node_id s"
    "hs_identity (fst (leader_after cr nz now sk ws b ph s)) = hs_identity s"
    "hs_keyring (fst (leader_after cr nz now sk ws b ph s)) = hs_keyring s"
    "hs_view (fst (leader_after cr nz now sk ws b ph s)) = hs_view s"
    "hs_validators (fst (leader_after cr nz now sk ws b ph s)) = hs_validators s"
    "hs_committed (fst (leader_after cr nz now sk ws b ph s)) = hs_committed s"
    "hs_tx_pool (fst (leader_after cr nz now sk ws b ph s)) = hs_tx_pool s"
    "hs_pending_block (fst (leader_after cr nz now sk ws b ph s)) = hs_pending_block s"
    "hs_votes (fst (leader_after cr nz now sk ws b ph s)) = Map.empty"
    "ph' \<noteq> ph \<Longrightarrow> hs_vote_tracker (fst (leader_after cr nz now sk ws b ph s)) (i, ph', v) = hs_vote_tracker s (i, ph', v)"
  using assms by (auto simp: leader_after_def on_quorum_def Let_def track_all_fields track_all_other)

lemma leader_sends:
  assumes "hs_pending_block s = Some b" "hs_node_id s = L" "hs_identity s = sk L"
  shows "sent_by (snd (leader_after cr nz now sk ws b PhPrepare s)) =
      {MsgProposal b PhPreCommit (sign_with_identity cr nz L (bk_hash b) (sk L))}"
    "sent_by (snd (leader_after cr nz now sk ws b PhPreCommit s)) =
      {MsgProposal b PhCommit (sign_with_identity cr nz L (bk_hash b) (sk L))}"
  using assms by (simp_all add: leader_after_def on_quorum_def Let_def next_proposal_def track_all_fields)

lemma leader_commits:
  assumes "hs_pending_block s = Some b" "length (hs_committed s) < MAX_COMMITTED_HISTORY"
  shows "hs_committed (fst (leader_after cr nz now sk ws b PhCommit s)) = hs_committed s @ [b]"
    "hs_node_id (fst (leader_after cr nz now sk ws b PhCommit s)) = hs_node_id s"
    "hs_identity (fst (leader_after cr nz now sk ws b PhCommit s)) = hs_identity s"
    "hs_keyring (fst (leader_after cr nz now sk ws b PhCommit s)) = hs_keyring s"
    "hs_view (fst (leader_after cr nz now sk ws b PhCommit s)) = hs_view s + 1"
    "hs_validators (fst (leader_after cr nz now sk ws b PhCommit s)) = hs_validators s"
    "hs_tx_pool (fst (leader_after cr nz now sk ws b PhCommit s)) = hs_tx_pool s"
    "qc_view (hs_locked_qc (fst (leader_after cr nz now sk ws b PhCommit s))) = hs_view s"
  using assms
  by (simp_all add: leader_after_def on_quorum_def on_commit_quorum_def commit_pending_def Let_def track_all_fields)

lemma voter_after_early:
  "ph \<in> {PhPrepare, PhPreCommit} \<Longrightarrow> voter_after now b ph s = stored s b ph"
  by (auto simp: voter_after_def)

lemma view_ok_leader: "view_ok cr vs sk V L ws N \<Longrightarrow> hs_node_id (N L) = L \<and> hs_identity (N L) = sk L \<and> hs_view (N L) = V \<and> L \<notin> set ws"
  by (simp add: view_ok_def)

lemma view_ok_phase:
  assumes "view_ok cr vs sk V L ws N" "ph \<in> {PhPrepare, PhPreCommit}"
  shows "view_ok cr vs sk V L ws (phase_after cr nz now sk L ws b ph N)"
  using assms by (simp add: view_ok_def phase_after_def voter_after_early leader_after_early)

lemma accepts_stored: "accepts cr s b \<Longrightarrow> accepts cr (stored s b ph) b"
  by (simp add: accepts_def current_leader_def locked_by_def)

lemma phase_after_leader: "L \<notin> set ws \<Longrightarrow> phase_after cr nz now sk L ws b ph N L = fst (leader_after cr nz now sk ws b ph (N L))"
  by (simp add: phase_after_def)

lemma phase_after_voter: "w \<in> set ws \<Longrightarrow> phase_after cr nz now sk L ws b ph N w = voter_after now b ph (N w)"
  by (simp add: phase_after_def)

lemma phase_after_other: "x \<notin> insert L (set ws) \<Longrightarrow> phase_after cr nz now sk L ws b ph N x = N x"
  by (simp add: phase_after_def)

text \<open>What a committed view leaves behind at the leader, at the voters and elsewhere.\<close>

definition view_done ::
    "u64 \<Rightarrow> hs_node_id \<Rightarrow> hs_node_id list \<Rightarrow> hs_block \<Rightarrow> (hs_node_id \<Rightarrow> hs_state) \<Rightarrow> (hs_node_id \<Rightarrow> hs_state) \<Rightarrow> bool" where
  "view_done V L ws b N N' \<longleftrightarrow>
     hs_committed (N' L) = hs_committed (N L) @ [b] \<and>
     (\<forall>x. x \<notin> insert L (set ws) \<longrightarrow> N' x = N x) \<and>
     (\<forall>x \<in> insert L (set ws). hs_node_id (N' x) = hs_node_id (N x) \<and> hs_identity (N' x) = hs_identity (N x) \<and>
        hs_keyring (N' x) = hs_keyring (N x) \<and> hs_validators (N' x) = hs_validators (N x) \<and> hs_tx_pool (N' x) = hs_tx_pool (N x) \<and>
        hs_view (N' x) = V + 1 \<and> qc_view (hs_locked_qc (N' x)) = V) \<and>
     (\<forall>w \<in> set ws. hs_committed (N' w) = hs_committed (N w) \<and> hs_high_qc (N' w) = hs_high_qc (N w) \<and>
        hs_votes (N' w) = Map.empty \<and> hs_vote_tracker (N' w) = Map.empty)"

lemma net_view_commits:
  assumes ok: "view_ok cr vs sk V L ws N"
    and m: "MsgProposal b PhPrepare (sign_with_identity cr nz L (bk_hash b) (sk L)) \<in> M"
    and acc: "\<forall>w \<in> set ws. accepts cr (N w) b"
    and lead: "hs_votes (N L) = Map.empty" "hs_vote_tracker (N L) = Map.empty" "hs_pending_block (N L) = Some b"
      "length (hs_committed (N L)) < MAX_COMMITTED_HISTORY"
  obtains N' M' where "net_reach cr json (N, M) (N', M')" "M \<subseteq> M'" "view_done V L ws b N N'"
proof -
  let ?N1 = "phase_after cr nz now sk L ws b PhPrepare N"
  let ?N2 = "phase_after cr nz now sk L ws b PhPreCommit ?N1"
  let ?N3 = "phase_after cr nz now sk L ws b PhCommit ?N2"
  note L = view_ok_leader [OF ok]
  have ok1: "view_ok cr vs sk V L ws ?N1" using ok by (rule view_ok_phase) simp
  have ok2: "view_ok cr vs sk V L ws ?N2" using ok1 by (rule view_ok_phase) simp
  have acc1: "\<forall>w \<in> set ws. accepts cr (?N1 w) b"
    using acc by (simp add: phase_after_voter voter_after_early accepts_stored)
  have acc2: "\<forall>w \<in> set ws. accepts cr (?N2 w) b"
    using acc1 by (simp add: phase_after_voter voter_after_early accepts_stored)
  have L1: "?N1 L = fst (leader_after cr nz now sk ws b PhPrepare (N L))" using L by (simp add: phase_after_leader)
  have L2: "?N2 L = fst (leader_after cr nz now sk ws b PhPreCommit (?N1 L))" using L by (simp add: phase_after_leader)
  have L3: "?N3 L = fst (leader_after cr nz now sk ws b PhCommit (?N2 L))" using L by (simp add: phase_after_leader)
  obtain M1 where 1: "net_reach cr json (N, M) (?N1, M1)" "M \<union> sent_by (snd (leader_after cr nz now sk ws b PhPrepare (N L))) \<subseteq> M1"
    using net_phase [OF ok m acc lead(1)] lead(2) by fastforce
  have m1: "MsgProposal b PhPreCommit (sign_with_identity cr nz L (bk_hash b) (sk L)) \<in> M1"
    using 1(2) leader_sends(1) [of "N L" b L sk] lead(3) L by auto
  have l1: "hs_votes (?N1 L) = Map.empty" "\<forall>w. hs_vote_tracker (?N1 L) (w, PhPreCommit, V) = None" "hs_pending_block (?N1 L) = Some b"
    unfolding L1 using lead by (simp_all add: leader_after_early)
  obtain M2 where 2: "net_reach cr json (?N1, M1) (?N2, M2)"
    "M1 \<union> sent_by (snd (leader_after cr nz now sk ws b PhPreCommit (?N1 L))) \<subseteq> M2"
    using net_phase [OF ok1 m1 acc1 l1(1,2)] by blast
  have m2: "MsgProposal b PhCommit (sign_with_identity cr nz L (bk_hash b) (sk L)) \<in> M2"
    using 2(2) leader_sends(2) [of "?N1 L" b L sk] l1(3) view_ok_leader [OF ok1] by auto
  have l2: "hs_votes (?N2 L) = Map.empty" "\<forall>w. hs_vote_tracker (?N2 L) (w, PhCommit, V) = None" "hs_pending_block (?N2 L) = Some b"
      "hs_committed (?N2 L) = hs_committed (N L)" "hs_tx_pool (?N2 L) = hs_tx_pool (N L)" "hs_keyring (?N2 L) = hs_keyring (N L)"
      "hs_node_id (?N2 L) = hs_node_id (N L)" "hs_identity (?N2 L) = hs_identity (N L)" "hs_validators (?N2 L) = hs_validators (N L)"
    unfolding L2 L1 using lead by (simp_all add: leader_after_early)
  obtain M3 where 3: "net_reach cr json (?N2, M2) (?N3, M3)" "M2 \<subseteq> M3"
    using net_phase [OF ok2 m2 acc2 l2(1,2)] by blast
  have "hs_view (?N2 L) = V" using view_ok_leader [OF ok2] by blast
  then have dL: "hs_committed (?N3 L) = hs_committed (N L) @ [b]" "hs_node_id (?N3 L) = hs_node_id (N L)"
      "hs_identity (?N3 L) = hs_identity (N L)" "hs_keyring (?N3 L) = hs_keyring (N L)" "hs_validators (?N3 L) = hs_validators (N L)"
      "hs_tx_pool (?N3 L) = hs_tx_pool (N L)" "hs_view (?N3 L) = V + 1" "qc_view (hs_locked_qc (?N3 L)) = V"
    unfolding L3 using leader_commits [OF l2(3), of cr nz now sk ws] l2(4-9) lead(4) by simp_all
  have dw: "?N3 w = next_view now (stored (stored (stored (N w) b PhPrepare) b PhPreCommit) b PhCommit)" "hs_view (N w) = V"
    if "w \<in> set ws" for w
    using that ok by (simp_all add: phase_after_voter voter_after_early view_ok_def) (simp add: voter_after_def)
  have "view_done V L ws b N ?N3"
    unfolding view_done_def using dL L
    by (auto simp: dw phase_after_other) (simp_all add: next_view_def locked_by_def dw(2))
  moreover have "net_reach cr json (N, M) (?N3, M3)"
    using net_reach_trans [OF 1(1) net_reach_trans [OF 2(1) 3(1)]] .
  ultimately show ?thesis using that 1(2) 2(2) 3(2) by blast
qed

section \<open>A fork\<close>

text \<open>Validators just created that know each other's identities.\<close>

definition hs_net_init :: "hs_node_id list \<Rightarrow> (hs_node_id \<Rightarrow> bytes) \<Rightarrow> u64 \<Rightarrow> hs_node_id \<Rightarrow> hs_state" where
  "hs_net_init vs sk now i =
     foldl (\<lambda>s j. register_peer_identity s j (sk j)) (hs_with_identity i (validator_set_new vs) (sk i) now) vs"

lemma register_all:
  "foldl (\<lambda>s j. register_peer_identity s j (sk j)) s vs =
   s\<lparr>hs_keyring := (hs_keyring s)\<lparr>kr_keys := (\<lambda>j. if j \<in> set vs then Some (sk j) else kr_keys (hs_keyring s) j)\<rparr>\<rparr>"
  by (induction vs arbitrary: s) (auto simp: register_peer_identity_def register_identity_def fun_eq_iff)

lemma hs_net_init_simps [simp]:
  "hs_node_id (hs_net_init vs sk now i) = i" "hs_identity (hs_net_init vs sk now i) = sk i"
  "hs_validators (hs_net_init vs sk now i) = validator_set_new vs" "hs_view (hs_net_init vs sk now i) = 0"
  "hs_high_qc (hs_net_init vs sk now i) = qc_genesis" "hs_locked_qc (hs_net_init vs sk now i) = qc_genesis"
  "hs_votes (hs_net_init vs sk now i) = Map.empty" "hs_vote_tracker (hs_net_init vs sk now i) = Map.empty"
  "hs_committed (hs_net_init vs sk now i) = []" "hs_tx_pool (hs_net_init vs sk now i) = []"
  by (simp_all add: hs_net_init_def register_all hs_with_identity_def)

lemma hs_net_init_keys:
  "j \<in> set vs \<Longrightarrow> keyring_peer_id cr (hs_keyring (hs_net_init vs sk now i)) j = Some (hp_public cr (sk j))"
  by (simp add: hs_net_init_def register_all hs_with_identity_def keyring_peer_id_def)

lemma validator_index: "vs_index (validator_set_new vs) i \<noteq> None \<longleftrightarrow> i \<in> set vs"
proof -
  have "foldl (\<lambda>m (k, v). m(v \<mapsto> k)) m (List.enumerate n vs) i \<noteq> None \<longleftrightarrow> i \<in> set vs \<or> m i \<noteq> None" for m :: "hs_node_id \<rightharpoonup> nat" and n
    by (induction vs arbitrary: m n) auto
  then show ?thesis by (simp add: validator_set_new_def)
qed

lemma four_validators:
  "vs_contains (validator_set_new [0, 1, 2, 3]) i \<longleftrightarrow> i \<in> set [0, 1, 2, 3]" "quorum_size (validator_set_new [0, 1, 2, 3]) = 3"
  "leader_for_view 0 (validator_set_new [0, 1, 2, 3]) = 0" "leader_for_view 1 (validator_set_new [0, 1, 2, 3]) = 1"
  unfolding vs_contains_def validator_index
  by (simp_all add: validator_set_new_def quorum_size_def vs_f_def vs_n_def leader_for_view_def)

text \<open>A transaction handed to a leader and proposed.\<close>

definition proposing :: "(ordered_tx list \<Rightarrow> bytes) \<Rightarrow> hs_state \<Rightarrow> ordered_tx \<Rightarrow> hs_state" where
  "proposing json s tx =
     (let b = proposed_block json (s\<lparr>hs_tx_pool := [tx]\<rparr>)
      in s\<lparr>hs_tx_pool := [], hs_blocks := (hs_blocks s)(bk_hash b \<mapsto> b), hs_pending_block := Some b\<rparr>)"

lemma net_submit_propose:
  assumes "is_leader (N L)" "hs_tx_pool (N L) = []"
  shows "net_reach cr json (N, M) (N(L := proposing json (N L) tx),
    M \<union> {MsgProposal (proposed_block json ((N L)\<lparr>hs_tx_pool := [tx]\<rparr>)) PhPrepare
      (sign_with_identity cr nz (hs_node_id (N L)) (bk_hash (proposed_block json ((N L)\<lparr>hs_tx_pool := [tx]\<rparr>))) (hs_identity (N L)))})"
proof -
  let ?s = "(N L)\<lparr>hs_tx_pool := [tx]\<rparr>"
  have 1: "net_reach cr json (N, M) (N(L := ?s), M)"
    using net_reach_step [OF net_submit [of cr json N M L tx]] assms(2) by (simp add: submit_tx_def MAX_POOL_SIZE_def)
  have "is_leader ?s" using assms(1) by (simp add: is_leader_def)
  then have "propose cr json nz ((N(L := ?s)) L) = (proposing json (N L) tx, Some (MsgProposal (proposed_block json ?s) PhPrepare
      (sign_with_identity cr nz (hs_node_id (N L)) (bk_hash (proposed_block json ?s)) (hs_identity (N L)))))"
    by (simp add: propose_eq proposing_def Let_def)
  from net_reach_trans [OF 1 net_reach_step [OF net_propose [where N = "N(L := ?s)" and i = L, OF this]]] show ?thesis by simp
qed

lemma proposing_simps [simp]:
  "hs_node_id (proposing json s tx) = hs_node_id s" "hs_identity (proposing json s tx) = hs_identity s"
  "hs_keyring (proposing json s tx) = hs_keyring s" "hs_view (proposing json s tx) = hs_view s"
  "hs_validators (proposing json s tx) = hs_validators s" "hs_high_qc (proposing json s tx) = hs_high_qc s"
  "hs_locked_qc (proposing json s tx) = hs_locked_qc s" "hs_votes (proposing json s tx) = hs_votes s"
  "hs_vote_tracker (proposing json s tx) = hs_vote_tracker s" "hs_committed (proposing json s tx) = hs_committed s"
  "hs_tx_pool (proposing json s tx) = []"
  "hs_pending_block (proposing json s tx) = Some (proposed_block json (s\<lparr>hs_tx_pool := [tx]\<rparr>))"
  by (simp_all add: proposing_def Let_def)

text \<open>One view in which a leader that still knows only the genesis certificate proposes, and validators locked at view 0 follow.\<close>

lemma genesis_view_commits:
  assumes ok: "view_ok cr vs sk V L ws N"
    and lead: "hs_votes (N L) = Map.empty" "hs_vote_tracker (N L) = Map.empty" "hs_tx_pool (N L) = []" "hs_high_qc (N L) = qc_genesis"
      "hs_committed (N L) = []"
    and locks: "\<forall>w \<in> set ws. qc_view (hs_locked_qc (N w)) = 0"
  obtains N' M' where "net_reach cr json (N, M) (N', M')"
    "view_done V L ws (proposed_block json ((N L)\<lparr>hs_tx_pool := [tx]\<rparr>)) (N(L := proposing json (N L) tx)) N'"
proof -
  let ?b = "proposed_block json ((N L)\<lparr>hs_tx_pool := [tx]\<rparr>)" and ?N = "N(L := proposing json (N L) tx)"
  let ?m = "MsgProposal ?b PhPrepare (sign_with_identity cr [] (hs_node_id (N L)) (bk_hash ?b) (hs_identity (N L)))"
  note L = view_ok_leader [OF ok]
  have "is_leader (N L)" using ok by (simp add: view_ok_def is_leader_def)
  then have 1: "net_reach cr json (N, M) (?N, M \<union> {?m})" using lead(3) by (rule net_submit_propose)
  have ok': "view_ok cr vs sk V L ws ?N" using ok by (simp add: view_ok_def)
  have acc: "\<forall>w \<in> set ws. accepts cr (?N w) ?b"
    using ok locks lead(4)
    by (auto simp: accepts_def view_ok_def current_leader_def proposed_block_def justify_ok_def qc_genesis_def)
  have m: "MsgProposal ?b PhPrepare (sign_with_identity cr [] L (bk_hash ?b) (sk L)) \<in> M \<union> {?m}" using L by simp
  have l: "hs_votes (?N L) = Map.empty" "hs_vote_tracker (?N L) = Map.empty" "hs_pending_block (?N L) = Some ?b"
    "length (hs_committed (?N L)) < MAX_COMMITTED_HISTORY"
    using lead by (simp_all add: MAX_COMMITTED_HISTORY_def)
  obtain N' M' where "net_reach cr json (?N, M \<union> {?m}) (N', M')" "view_done V L ws ?b ?N N'"
    by (rule net_view_commits [OF ok' m acc l])
  then show ?thesis using that net_reach_trans [OF 1] by blast
qed

text \<open>C20: agreement fails with honest validators only. Of four validators that know each other's keys, the
  leader of view 0 commits a block with \<open>tx0\<close>, and the leader of view 1, which has not been told, commits a block with \<open>tx1\<close>
  on the same parent: a lock of view 0 does not refuse a proposal justified by the genesis certificate, whose view is 0 as well.\<close>

theorem hotstuff_forks:
  assumes cr: "hs_crypto_ok cr"
  shows "\<exists>N M b0 b1. net_reach cr json (hs_net_init [0, 1, 2, 3] sk now, {}) (N, M) \<and>
    hs_committed (N 0) = [b0] \<and> hs_committed (N 1) = [b1] \<and> bk_parent_hash b0 = 0 \<and> bk_parent_hash b1 = 0 \<and>
    bk_view b0 = 0 \<and> bk_view b1 = 1 \<and> bk_transactions b0 = [tx0] \<and> bk_transactions b1 = [tx1]"
proof -
  let ?I = "hs_net_init [0, 1, 2, 3] sk now" and ?vs = "validator_set_new [0, 1, 2, 3]"
  let ?b0 = "proposed_block json ((?I 0)\<lparr>hs_tx_pool := [tx0]\<rparr>)"
  have ok0: "view_ok cr ?vs sk 0 0 [1, 2, 3] ?I"
    using cr by (auto simp: view_ok_def four_validators hs_net_init_keys)
  obtain N M where 1: "net_reach cr json (?I, {}) (N, M)"
    "view_done 0 0 [1, 2, 3] ?b0 (?I(0 := proposing json (?I 0) tx0)) N"
    by (rule genesis_view_commits [OF ok0, where json = json and tx = tx0 and M = "{}"]) (simp_all add: qc_genesis_def)
  let ?b1 = "proposed_block json ((N 1)\<lparr>hs_tx_pool := [tx1]\<rparr>)"
  have ok1: "view_ok cr ?vs sk 1 1 [0, 2, 3] N"
    using cr 1(2) by (auto simp: view_ok_def view_done_def four_validators hs_net_init_keys)
  obtain N' M' where 2: "net_reach cr json (N, M) (N', M')" "view_done 1 1 [0, 2, 3] ?b1 (N(1 := proposing json (N 1) tx1)) N'"
    by (rule genesis_view_commits [OF ok1, where json = json and tx = tx1 and M = M]) (use 1(2) in \<open>auto simp: view_done_def\<close>)
  have "hs_committed (N' 0) = [?b0]" "hs_committed (N' 1) = [?b1]" "hs_high_qc (N 1) = qc_genesis" "hs_view (N 1) = 1"
    using 1(2) 2(2) by (simp_all add: view_done_def)
  then show ?thesis
    using net_reach_trans [OF 1(1) 2(1)] by (intro exI [of _ N'] exI [of _ M'] exI [of _ ?b0] exI [of _ ?b1])
      (simp add: proposed_block_def qc_genesis_def)
qed

theorem hotstuff_forks_witness:
  "\<exists>N M. net_reach hs_demo (\<lambda>_. []) (hs_net_init [0, 1, 2, 3] (\<lambda>i. [ucast i]) 1000, {}) (N, M) \<and>
    concat (map bk_transactions (hs_committed (N 0))) = [TxAuctionBid 0 1 100] \<and>
    concat (map bk_transactions (hs_committed (N 1))) = [TxAuctionBid 1 1 90]"
proof -
  obtain N M b0 b1 where "net_reach hs_demo (\<lambda>_. []) (hs_net_init [0, 1, 2, 3] (\<lambda>i. [ucast i]) 1000, {}) (N, M)"
    "hs_committed (N 0) = [b0]" "hs_committed (N 1) = [b1]"
    "bk_transactions b0 = [TxAuctionBid 0 1 100]" "bk_transactions b1 = [TxAuctionBid 1 1 90]"
    using hotstuff_forks [OF hs_demo_ok, of "\<lambda>_. []" "\<lambda>i. [ucast i]" 1000 "TxAuctionBid 0 1 100" "TxAuctionBid 1 1 90"] by blast
  then show ?thesis by (intro exI [of _ N] exI [of _ M]) simp
qed

end
