(* ===== verification/Saga.thy ===== *)
theory Saga
  imports CRDT Bytes
begin

text \<open>
  The saga coordinator (\<open>333-orchestration/src/lib.rs\<close>): workflow validation with Kahn's algorithm,
  the step and workflow state machines, journaled execution, and compensation in reverse order with
  bounded retries. Executors, compensators, the journal and the message bus are trait objects; they
  act on a world of any type, and a panic is \<open>None\<close>.
\<close>

section \<open>Data\<close>

type_synonym workflow_id = string
type_synonym step_id = string

datatype step_state = StPending | StRunning | StCommitted | StFailed | StCompensated

datatype workflow_state = WfRunning | WfSucceeded | WfFailed | WfCompensating | WfCompensated

text \<open>The order of the derived \<open>Ord\<close>, under which a workflow state is an \<open>AutoCrdt\<close>.\<close>

fun wf_rank :: "workflow_state \<Rightarrow> nat" where
  "wf_rank WfRunning = 0"
| "wf_rank WfSucceeded = 1"
| "wf_rank WfFailed = 2"
| "wf_rank WfCompensating = 3"
| "wf_rank WfCompensated = 4"

instantiation workflow_state :: linorder
begin

definition less_eq_workflow_state :: "workflow_state \<Rightarrow> workflow_state \<Rightarrow> bool" where
  "less_eq_workflow_state a b = (wf_rank a \<le> wf_rank b)"

definition less_workflow_state :: "workflow_state \<Rightarrow> workflow_state \<Rightarrow> bool" where
  "less_workflow_state a b = (wf_rank a < wf_rank b)"

instance
proof
  fix a b :: workflow_state
  assume "a \<le> b" "b \<le> a"
  then show "a = b" by (cases a; cases b) (simp_all add: less_eq_workflow_state_def)
qed (auto simp: less_eq_workflow_state_def less_workflow_state_def)

end

datatype orch_error =
    UnknownWorkflow workflow_id
  | UnknownStep workflow_id step_id
  | NoExecutor string
  | StepTerminal workflow_id step_id step_state
  | WorkflowTerminal workflow_id workflow_state
  | WorkflowTransition workflow_id workflow_state workflow_state
  | CompensateFailed step_id string
  | ExecError string
  | JournalError string
  | InvalidWorkflow string

fun step_state_name :: "step_state \<Rightarrow> string" where
  "step_state_name StPending = ''Pending''"
| "step_state_name StRunning = ''Running''"
| "step_state_name StCommitted = ''Committed''"
| "step_state_name StFailed = ''Failed''"
| "step_state_name StCompensated = ''Compensated''"

fun workflow_state_name :: "workflow_state \<Rightarrow> string" where
  "workflow_state_name WfRunning = ''Running''"
| "workflow_state_name WfSucceeded = ''Succeeded''"
| "workflow_state_name WfFailed = ''Failed''"
| "workflow_state_name WfCompensating = ''Compensating''"
| "workflow_state_name WfCompensated = ''Compensated''"

fun orch_error_string :: "orch_error \<Rightarrow> string" where
  "orch_error_string (UnknownWorkflow wid) = ''unknown workflow: '' @ wid"
| "orch_error_string (UnknownStep wid st) = ''unknown step: wf='' @ wid @ '' step='' @ st"
| "orch_error_string (NoExecutor k) = ''step executor missing for kind: '' @ k"
| "orch_error_string (StepTerminal wid st s) =
     ''step '' @ st @ '' in workflow '' @ wid @ '' is terminal ('' @ step_state_name s @ ''); cannot transition''"
| "orch_error_string (WorkflowTerminal wid s) =
     ''workflow '' @ wid @ '' is already terminal ('' @ workflow_state_name s @ ''); cannot re-execute''"
| "orch_error_string (WorkflowTransition wid a b) =
     ''workflow '' @ wid @ '': illegal state transition '' @ workflow_state_name a @ '' -> '' @ workflow_state_name b"
| "orch_error_string (CompensateFailed st m) = ''compensation failed at step '' @ st @ '': '' @ m"
| "orch_error_string (ExecError m) = ''step execution failed: '' @ m"
| "orch_error_string (JournalError m) = ''journal: '' @ m"
| "orch_error_string (InvalidWorkflow m) = ''invalid workflow: '' @ m"

record step_spec =
  sp_id :: step_id
  sp_kind :: string
  sp_input :: bytes
  sp_depends_on :: "step_id list"

record workflow_def =
  wd_id :: workflow_id
  wd_steps :: "step_spec list"

definition step_is_terminal :: "step_state \<Rightarrow> bool" where
  "step_is_terminal s = (s \<in> {StCommitted, StFailed, StCompensated})"

definition step_can_transition_to :: "step_state \<Rightarrow> step_state \<Rightarrow> bool" where
  "step_can_transition_to s t = (s = t \<or>
     (s, t) \<in> {(StPending, StRunning), (StRunning, StCommitted), (StRunning, StFailed), (StCommitted, StCompensated)})"

definition workflow_is_terminal :: "workflow_state \<Rightarrow> bool" where
  "workflow_is_terminal s = (s \<in> {WfSucceeded, WfFailed, WfCompensated})"

definition workflow_can_transition_to :: "workflow_state \<Rightarrow> workflow_state \<Rightarrow> bool" where
  "workflow_can_transition_to s t = (s = t \<or>
     (s, t) \<in> {(WfRunning, WfSucceeded), (WfRunning, WfFailed), (WfRunning, WfCompensating),
       (WfCompensating, WfCompensated), (WfCompensating, WfFailed)})"

record step_event =
  ev_wf :: workflow_id
  ev_step :: step_id
  ev_state :: step_state
  ev_output :: bytes
  ev_seq :: u64

definition merge_state :: "workflow_state lww \<Rightarrow> workflow_state lww \<Rightarrow> workflow_state lww" where
  "merge_state a b = lww_merge auto_merge a b"

section \<open>The in-memory journal\<close>

type_synonym event_journal = "(workflow_id, step_event list) btree"

definition event_append :: "event_journal \<Rightarrow> step_event \<Rightarrow> event_journal" where
  "event_append j ev = bt_insert (ev_wf ev) ((case map_of j (ev_wf ev) of None \<Rightarrow> [] | Some evs \<Rightarrow> evs) @ [ev]) j"

definition event_replay :: "event_journal \<Rightarrow> workflow_id \<Rightarrow> step_event list" where
  "event_replay j wid = (case map_of j wid of None \<Rightarrow> [] | Some evs \<Rightarrow> evs)"

section \<open>Workflows\<close>

record workflow =
  wf_def :: workflow_def
  wf_index :: "step_id \<rightharpoonup> nat"

fun index_steps :: "nat \<Rightarrow> step_spec list \<Rightarrow> (step_id \<rightharpoonup> nat) \<Rightarrow> orch_error + (step_id \<rightharpoonup> nat)" where
  "index_steps i [] ix = Inr ix"
| "index_steps i (s # ss) ix =
     (if ix (sp_id s) \<noteq> None then Inl (InvalidWorkflow (''duplicate step id '' @ sp_id s))
      else index_steps (Suc i) ss (ix(sp_id s \<mapsto> i)))"

definition check_deps :: "(step_id \<rightharpoonup> nat) \<Rightarrow> step_spec list \<Rightarrow> orch_error + unit" where
  "check_deps ix ss =
     (case find (\<lambda>(s, d). ix d = None) (concat (map (\<lambda>s. map (Pair s) (sp_depends_on s)) ss)) of
        Some (s, d) \<Rightarrow> Inl (InvalidWorkflow (''step '' @ sp_id s @ '' depends on unknown '' @ d))
      | None \<Rightarrow> Inr ())"

text \<open>The edges \<open>(j, i)\<close>, step \<open>i\<close> depending on step \<open>j\<close>, in the order of the loops; \<open>index[d]\<close> panics on a missing key.\<close>

definition dep_edges :: "(step_id \<rightharpoonup> nat) \<Rightarrow> step_spec list \<Rightarrow> (nat option \<times> nat) list" where
  "dep_edges ix ss = concat (map (\<lambda>(i, s). map (\<lambda>d. (ix d, i)) (sp_depends_on s)) (List.enumerate 0 ss))"

text \<open>Each edge in turn; a missing key and an index out of range panic.\<close>

fun add_edges :: "(nat option \<times> nat) list \<Rightarrow> nat list \<Rightarrow> nat list list \<Rightarrow> (nat list \<times> nat list list) option" where
  "add_edges [] indeg adj = Some (indeg, adj)"
| "add_edges ((jo, i) # es) indeg adj =
     (case jo of
        None \<Rightarrow> None
      | Some j \<Rightarrow>
          if j < length adj \<and> i < length indeg
          then add_edges es (indeg[i := Suc (indeg ! i)]) (adj[j := adj ! j @ [i]])
          else None)"

text \<open>The successors of one step; an index out of range or a count below zero panics. The stack has its top first.\<close>

fun kahn_visit :: "nat list \<Rightarrow> nat list \<Rightarrow> nat list \<Rightarrow> (nat list \<times> nat list) option" where
  "kahn_visit [] indeg q = Some (indeg, q)"
| "kahn_visit (v # vs) indeg q =
     (if v < length indeg \<and> indeg ! v \<noteq> 0
      then kahn_visit vs (indeg[v := indeg ! v - 1]) (if indeg ! v = 1 then v # q else q)
      else None)"

lemma kahn_visit_measure:
  "kahn_visit vs indeg q = Some (indeg', q') \<Longrightarrow> length q' + 2 * sum_list indeg' \<le> length q + 2 * sum_list indeg"
proof (induction vs arbitrary: indeg q)
  case (Cons v vs)
  then have v: "v < length indeg" "indeg ! v \<noteq> 0" by (auto split: if_splits)
  have "indeg ! v \<le> sum_list indeg" using v(1) by (rule elem_le_sum_list)
  then have "sum_list (indeg[v := indeg ! v - 1]) + 1 = sum_list indeg"
    using v by (simp add: sum_list_update)
  moreover have "length q' + 2 * sum_list indeg' \<le>
      length (if indeg ! v = 1 then v # q else q) + 2 * sum_list (indeg[v := indeg ! v - 1])"
    by (rule Cons.IH) (use Cons.prems v in simp)
  ultimately show ?case by (simp split: if_splits)
qed simp

function kahn_loop :: "nat list list \<Rightarrow> nat list \<Rightarrow> nat \<Rightarrow> nat list \<Rightarrow> nat option" where
  "kahn_loop adj indeg seen [] = Some seen"
| "kahn_loop adj indeg seen (u # q) =
     (if u < length adj
      then case kahn_visit (adj ! u) indeg q of
             None \<Rightarrow> None
           | Some (indeg', q') \<Rightarrow> kahn_loop adj indeg' (Suc seen) q'
      else None)"
  by pat_completeness auto
termination
  by (relation "measure (\<lambda>(adj, indeg, seen, q). length q + 2 * sum_list indeg)")
    (auto dest!: kahn_visit_measure)

definition assert_acyclic :: "(step_id \<rightharpoonup> nat) \<Rightarrow> step_spec list \<Rightarrow> (orch_error + unit) option" where
  "assert_acyclic ix ss =
     (let n = length ss in
      case add_edges (dep_edges ix ss) (replicate n 0) (replicate n []) of
        None \<Rightarrow> None
      | Some (indeg, adj) \<Rightarrow>
         (case kahn_loop adj indeg 0 (rev (filter (\<lambda>i. indeg ! i = 0) [0..<n])) of
            None \<Rightarrow> None
          | Some seen \<Rightarrow> Some (if seen \<noteq> n then Inl (InvalidWorkflow ''workflow has a cycle'') else Inr ())))"

definition workflow_new :: "workflow_def \<Rightarrow> (orch_error + workflow) option" where
  "workflow_new df =
     (if wd_steps df = [] then Some (Inl (InvalidWorkflow ''workflow has no steps''))
      else case index_steps 0 (wd_steps df) Map.empty of
        Inl e \<Rightarrow> Some (Inl e)
      | Inr ix \<Rightarrow>
         (case check_deps ix (wd_steps df) of
            Inl e \<Rightarrow> Some (Inl e)
          | Inr _ \<Rightarrow>
             (case assert_acyclic ix (wd_steps df) of
                None \<Rightarrow> None
              | Some (Inl e) \<Rightarrow> Some (Inl e)
              | Some (Inr _) \<Rightarrow> Some (Inr \<lparr>wf_def = df, wf_index = ix\<rparr>))))"

definition wf_id :: "workflow \<Rightarrow> workflow_id" where "wf_id wk = wd_id (wf_def wk)"
definition wf_steps :: "workflow \<Rightarrow> step_spec list" where "wf_steps wk = wd_steps (wf_def wk)"

definition wf_step :: "workflow \<Rightarrow> step_id \<Rightarrow> step_spec option" where
  "wf_step wk i = (case wf_index wk i of None \<Rightarrow> None | Some k \<Rightarrow> Some (wf_steps wk ! k))"

section \<open>The coordinator\<close>

definition DEFAULT_COMPENSATION_ATTEMPTS :: u32 where "DEFAULT_COMPENSATION_ATTEMPTS = 3"

text \<open>The trait objects a coordinator holds, over a world \<open>'w\<close>.\<close>

record 'w saga_env =
  se_executors :: "string \<rightharpoonup> (workflow_id \<Rightarrow> step_spec \<Rightarrow> 'w \<Rightarrow> 'w \<times> (orch_error + bytes))"
  se_compensators :: "string \<rightharpoonup> (workflow_id \<Rightarrow> step_spec \<Rightarrow> bytes \<Rightarrow> 'w \<Rightarrow> 'w \<times> (orch_error + unit))"
  se_append :: "step_event \<Rightarrow> 'w \<Rightarrow> 'w \<times> (orch_error + unit)"
  se_publish :: "string \<Rightarrow> bytes \<Rightarrow> 'w \<Rightarrow> 'w"
  se_compensation_attempts :: u32

record coord_state =
  co_seq :: u64
  co_step_state :: "workflow_id \<times> step_id \<rightharpoonup> step_state"
  co_step_output :: "workflow_id \<times> step_id \<rightharpoonup> bytes"
  co_wf_state :: "workflow_id \<rightharpoonup> workflow_state"
  co_committed_order :: "workflow_id \<rightharpoonup> step_id list"

definition saga_new ::
    "(step_event \<Rightarrow> 'w \<Rightarrow> 'w \<times> (orch_error + unit)) \<Rightarrow> (string \<Rightarrow> bytes \<Rightarrow> 'w \<Rightarrow> 'w) \<Rightarrow> 'w saga_env \<times> coord_state" where
  "saga_new journal bus =
     (\<lparr>se_executors = Map.empty, se_compensators = Map.empty, se_append = journal, se_publish = bus,
       se_compensation_attempts = DEFAULT_COMPENSATION_ATTEMPTS\<rparr>,
      \<lparr>co_seq = 0, co_step_state = Map.empty, co_step_output = Map.empty, co_wf_state = Map.empty,
       co_committed_order = Map.empty\<rparr>)"

definition set_compensation_attempts :: "'w saga_env \<Rightarrow> u32 \<Rightarrow> 'w saga_env" where
  "set_compensation_attempts env n = env\<lparr>se_compensation_attempts := max n 1\<rparr>"

definition register_executor ::
    "'w saga_env \<Rightarrow> string \<Rightarrow> (workflow_id \<Rightarrow> step_spec \<Rightarrow> 'w \<Rightarrow> 'w \<times> (orch_error + bytes)) \<Rightarrow> 'w saga_env" where
  "register_executor env k f = env\<lparr>se_executors := (se_executors env)(k \<mapsto> f)\<rparr>"

definition register_compensator ::
    "'w saga_env \<Rightarrow> string \<Rightarrow> (workflow_id \<Rightarrow> step_spec \<Rightarrow> bytes \<Rightarrow> 'w \<Rightarrow> 'w \<times> (orch_error + unit)) \<Rightarrow> 'w saga_env" where
  "register_compensator env k f = env\<lparr>se_compensators := (se_compensators env)(k \<mapsto> f)\<rparr>"

definition workflow_state_of :: "coord_state \<Rightarrow> workflow_id \<Rightarrow> workflow_state" where
  "workflow_state_of c wid = (case co_wf_state c wid of Some s \<Rightarrow> s | None \<Rightarrow> WfRunning)"

definition step_state_of :: "coord_state \<Rightarrow> workflow_id \<Rightarrow> step_id \<Rightarrow> orch_error + step_state" where
  "step_state_of c wid i = (case co_step_state c (wid, i) of Some s \<Rightarrow> Inr s | None \<Rightarrow> Inl (UnknownStep wid i))"

definition publish_event :: "'w saga_env \<Rightarrow> step_event \<Rightarrow> 'w \<Rightarrow> 'w" where
  "publish_event env ev =
     se_publish env (''orch.'' @ ev_wf ev @ ''.'' @ ev_step ev)
       (as_bytes (step_state_name (ev_state ev) @ ''#'' @ dec_string (unat (ev_seq ev))))"

definition note_step :: "coord_state \<Rightarrow> workflow_id \<Rightarrow> step_id \<Rightarrow> step_state \<Rightarrow> bytes \<Rightarrow> coord_state" where
  "note_step c wid i s out =
     (let c = c\<lparr>co_seq := co_seq c + 1, co_step_state := (co_step_state c)((wid, i) \<mapsto> s)\<rparr>;
          c = (if out \<noteq> [] then c\<lparr>co_step_output := (co_step_output c)((wid, i) \<mapsto> out)\<rparr> else c)
      in if s = StCommitted
         then c\<lparr>co_committed_order := (co_committed_order c)(wid \<mapsto>
                  (case co_committed_order c wid of Some is \<Rightarrow> is | None \<Rightarrow> []) @ [i])\<rparr>
         else c)"

definition record_step ::
    "'w saga_env \<Rightarrow> workflow_id \<Rightarrow> step_id \<Rightarrow> step_state \<Rightarrow> bytes \<Rightarrow> coord_state \<times> 'w \<Rightarrow>
      (coord_state \<times> 'w) \<times> (orch_error + step_event)" where
  "record_step env wid i s out cw =
     (let (c, w) = cw in
      case (case co_step_state c (wid, i) of
              Some current \<Rightarrow> if step_can_transition_to current s then None else Some current | None \<Rightarrow> None) of
        Some current \<Rightarrow> ((c, w), Inl (StepTerminal wid i current))
      | None \<Rightarrow>
          (let c = note_step c wid i s out;
               ev = \<lparr>ev_wf = wid, ev_step = i, ev_state = s, ev_output = out, ev_seq = co_seq c\<rparr>
           in case se_append env ev w of
                (w, Inl e) \<Rightarrow> ((c, w), Inl e)
              | (w, Inr _) \<Rightarrow> ((c, publish_event env ev w), Inr ev)))"

definition set_wf_state :: "workflow_id \<Rightarrow> workflow_state \<Rightarrow> coord_state \<Rightarrow> coord_state \<times> (orch_error + unit)" where
  "set_wf_state wid s c =
     (case co_wf_state c wid of
        Some current \<Rightarrow>
          (if \<not> workflow_can_transition_to current s then (c, Inl (WorkflowTransition wid current s))
           else (c\<lparr>co_wf_state := (co_wf_state c)(wid \<mapsto> s)\<rparr>, Inr ()))
      | None \<Rightarrow> (c\<lparr>co_wf_state := (co_wf_state c)(wid \<mapsto> s)\<rparr>, Inr ()))"

text \<open>Up to \<open>n\<close> attempts; the last error, if all of them fail.\<close>

fun compensate_retry :: "('w \<Rightarrow> 'w \<times> (orch_error + unit)) \<Rightarrow> nat \<Rightarrow> string \<Rightarrow> 'w \<Rightarrow> 'w \<times> (string + unit)" where
  "compensate_retry act 0 last_err w = (w, Inl last_err)"
| "compensate_retry act (Suc n) last_err w =
     (case act w of
        (w, Inr _) \<Rightarrow> (w, Inr ())
      | (w, Inl e) \<Rightarrow> compensate_retry act n (orch_error_string e) w)"

fun compensate_steps ::
    "'w saga_env \<Rightarrow> workflow \<Rightarrow> step_id list \<Rightarrow> coord_state \<times> 'w \<Rightarrow> (coord_state \<times> 'w) \<times> (orch_error + unit)" where
  "compensate_steps env wk [] cw = (cw, Inr ())"
| "compensate_steps env wk (i # is) (c, w) =
     (if co_step_state c (wf_id wk, i) = Some StCompensated then compensate_steps env wk is (c, w)
      else case wf_step wk i of
        None \<Rightarrow> ((c, w), Inl (UnknownStep (wf_id wk) i))
      | Some spec \<Rightarrow>
         (let out = (case co_step_output c (wf_id wk, i) of Some b \<Rightarrow> b | None \<Rightarrow> []) in
          case se_compensators env (sp_kind spec) of
            None \<Rightarrow> ((c, w), Inl (NoExecutor (sp_kind spec)))
          | Some act \<Rightarrow>
             (case compensate_retry (act (wf_id wk) spec out) (unat (se_compensation_attempts env)) [] w of
                (w, Inl m) \<Rightarrow> ((c, w), Inl (CompensateFailed i m))
              | (w, Inr _) \<Rightarrow>
                 (case record_step env (wf_id wk) i StCompensated [] (c, w) of
                    (cw, Inl e) \<Rightarrow> (cw, Inl e)
                  | (cw, Inr _) \<Rightarrow> compensate_steps env wk is cw))))"

definition compensate_committed ::
    "'w saga_env \<Rightarrow> workflow \<Rightarrow> coord_state \<times> 'w \<Rightarrow> (coord_state \<times> 'w) \<times> (orch_error + unit)" where
  "compensate_committed env wk cw =
     compensate_steps env wk (rev (case co_committed_order (fst cw) (wf_id wk) of Some is \<Rightarrow> is | None \<Rightarrow> [])) cw"

text \<open>The rollback and the final state, shared by \<open>execute\<close> and \<open>resume_compensation\<close>.\<close>

definition roll_back ::
    "'w saga_env \<Rightarrow> workflow \<Rightarrow> coord_state \<times> 'w \<Rightarrow> (coord_state \<times> 'w) \<times> (orch_error + workflow_state)" where
  "roll_back env wk cw =
     (case compensate_committed env wk cw of
        (cw, Inl e) \<Rightarrow> (cw, Inl e)
      | ((c, w), Inr _) \<Rightarrow>
         (case set_wf_state (wf_id wk) WfCompensated c of
            (c, Inl e) \<Rightarrow> ((c, w), Inl e)
          | (c, Inr _) \<Rightarrow> ((c, w), Inr WfCompensated)))"

definition resume_compensation ::
    "'w saga_env \<Rightarrow> workflow \<Rightarrow> coord_state \<times> 'w \<Rightarrow> (coord_state \<times> 'w) \<times> (orch_error + workflow_state)" where
  "resume_compensation env wk cw =
     (let current = workflow_state_of (fst cw) (wf_id wk) in
      if current \<noteq> WfCompensating then (cw, Inl (WorkflowTransition (wf_id wk) current WfCompensated))
      else roll_back env wk cw)"

definition step_ready :: "workflow \<Rightarrow> step_id set \<Rightarrow> coord_state \<Rightarrow> step_spec \<Rightarrow> bool" where
  "step_ready wk committed c s \<longleftrightarrow> sp_id s \<notin> committed \<and> (\<forall>d \<in> set (sp_depends_on s). d \<in> committed) \<and>
     co_step_state c (wf_id wk, sp_id s) \<in> {Some StPending, None}"

fun init_steps ::
    "'w saga_env \<Rightarrow> workflow_id \<Rightarrow> step_spec list \<Rightarrow> coord_state \<times> 'w \<Rightarrow> (coord_state \<times> 'w) \<times> (orch_error + unit)" where
  "init_steps env wid [] cw = (cw, Inr ())"
| "init_steps env wid (s # ss) cw =
     (case record_step env wid (sp_id s) StPending [] cw of
        (cw, Inl e) \<Rightarrow> (cw, Inl e)
      | (cw, Inr _) \<Rightarrow> init_steps env wid ss cw)"

text \<open>After the loop: all committed, or a dead end.\<close>

definition finish_run ::
    "workflow \<Rightarrow> step_id set \<Rightarrow> coord_state \<times> 'w \<Rightarrow> (coord_state \<times> 'w) \<times> (orch_error + workflow_state)" where
  "finish_run wk committed cw =
     (let s = (if card committed \<noteq> length (wf_steps wk) then WfFailed else WfSucceeded);
          (c, w) = cw
      in case set_wf_state (wf_id wk) s c of
           (c, Inl e) \<Rightarrow> ((c, w), Inl e)
         | (c, Inr _) \<Rightarrow> ((c, w), Inr s))"

definition fail_run ::
    "'w saga_env \<Rightarrow> workflow \<Rightarrow> step_id \<Rightarrow> orch_error \<Rightarrow> coord_state \<times> 'w \<Rightarrow>
      (coord_state \<times> 'w) \<times> (orch_error + workflow_state)" where
  "fail_run env wk i e cw =
     (case record_step env (wf_id wk) i StFailed (as_bytes (orch_error_string e)) cw of
        (cw, Inl e) \<Rightarrow> (cw, Inl e)
      | ((c, w), Inr _) \<Rightarrow>
         (case set_wf_state (wf_id wk) WfCompensating c of
            (c, Inl e) \<Rightarrow> ((c, w), Inl e)
          | (c, Inr _) \<Rightarrow> roll_back env wk (c, w)))"

text \<open>How many steps of a workflow have not been started: the measure of the loop.\<close>

definition unstarted :: "workflow \<Rightarrow> coord_state \<Rightarrow> nat" where
  "unstarted wk c = card {i \<in> sp_id ` set (wf_steps wk). co_step_state c (wf_id wk, i) \<in> {Some StPending, None}}"

lemma note_step_state [simp]: "co_step_state (note_step c wid i s out) = (co_step_state c)((wid, i) \<mapsto> s)"
  by (simp add: note_step_def Let_def)

lemma record_step_Inr:
  assumes "record_step env wid i s out (c, w) = ((c', w'), Inr ev)"
  shows "c' = note_step c wid i s out"
  using assms by (auto simp: record_step_def Let_def split: option.splits if_splits prod.splits sum.splits)

lemma unstarted_less:
  assumes "find (step_ready wk committed c) (wf_steps wk) = Some sp"
    and "record_step env (wf_id wk) (sp_id sp) StRunning [] (c, w) = ((c1, w1), Inr ev1)"
    and "record_step env (wf_id wk) (sp_id sp) StCommitted out (c1, w2) = ((c2, w3), Inr ev2)"
  shows "unstarted wk c2 < unstarted wk c"
proof -
  have sp: "sp \<in> set (wf_steps wk)" "step_ready wk committed c sp" using assms(1) by (auto simp: find_Some_iff)
  have c2: "co_step_state c2 = (co_step_state c)((wf_id wk, sp_id sp) \<mapsto> StCommitted)"
    using record_step_Inr [OF assms(2)] record_step_Inr [OF assms(3)] by simp
  have "{i \<in> sp_id ` set (wf_steps wk). co_step_state c2 (wf_id wk, i) \<in> {Some StPending, None}} \<subset>
      {i \<in> sp_id ` set (wf_steps wk). co_step_state c (wf_id wk, i) \<in> {Some StPending, None}}"
    using sp unfolding c2 step_ready_def by auto
  then show ?thesis unfolding unstarted_def by (intro psubset_card_mono) auto
qed

function exec_loop ::
    "'w saga_env \<Rightarrow> workflow \<Rightarrow> step_id set \<Rightarrow> coord_state \<times> 'w \<Rightarrow> (coord_state \<times> 'w) \<times> (orch_error + workflow_state)" where
  "exec_loop env wk committed (c, w) =
     (case find (step_ready wk committed c) (wf_steps wk) of
        None \<Rightarrow> finish_run wk committed (c, w)
      | Some sp \<Rightarrow>
         (case record_step env (wf_id wk) (sp_id sp) StRunning [] (c, w) of
            (cw, Inl e) \<Rightarrow> (cw, Inl e)
          | ((c1, w1), Inr _) \<Rightarrow>
             (case se_executors env (sp_kind sp) of
                None \<Rightarrow> ((c1, w1), Inl (NoExecutor (sp_kind sp)))
              | Some run \<Rightarrow>
                 (case run (wf_id wk) sp w1 of
                    (w2, Inl e) \<Rightarrow> fail_run env wk (sp_id sp) e (c1, w2)
                  | (w2, Inr out) \<Rightarrow>
                     (case record_step env (wf_id wk) (sp_id sp) StCommitted out (c1, w2) of
                        (cw, Inl e) \<Rightarrow> (cw, Inl e)
                      | (cw, Inr _) \<Rightarrow> exec_loop env wk (insert (sp_id sp) committed) cw)))))"
  by pat_completeness auto
termination
  by (relation "measure (\<lambda>(env, wk, committed, c, w). unstarted wk c)") (auto intro: unstarted_less [OF _ sym sym])

declare exec_loop.simps [simp del]

definition saga_execute ::
    "'w saga_env \<Rightarrow> workflow \<Rightarrow> coord_state \<times> 'w \<Rightarrow> (coord_state \<times> 'w) \<times> (orch_error + workflow_state)" where
  "saga_execute env wk cw =
     (let current = workflow_state_of (fst cw) (wf_id wk) in
      if workflow_is_terminal current then (cw, Inl (WorkflowTerminal (wf_id wk) current))
      else case set_wf_state (wf_id wk) WfRunning (fst cw) of
        (c, Inl e) \<Rightarrow> ((c, snd cw), Inl e)
      | (c, Inr _) \<Rightarrow>
         (case init_steps env (wf_id wk) (wf_steps wk) (c, snd cw) of
            (cw, Inl e) \<Rightarrow> (cw, Inl e)
          | (cw, Inr _) \<Rightarrow> exec_loop env wk {} cw))"

end
