(* ===== verification/Saga_Safety.thy ===== *)
theory Saga_Safety
  imports Saga
begin

text \<open>
  What the saga coordinator guarantees: validation accepts exactly the workflows whose dependencies
  are known and acyclic; a run commits every step in dependency order or compensates what was
  committed, most recent first; a halted rollback can be resumed. And one gap: a run that ends in an
  error outside a rollback leaves committed steps that nothing can compensate any more.
\<close>

section \<open>Validation\<close>

lemma index_steps_cases:
  obtains (dup) e where "index_steps k ss ix0 = Inl e" "\<not> (distinct (map sp_id ss) \<and> (\<forall>s \<in> set ss. ix0 (sp_id s) = None))"
  | (ok) ix where "index_steps k ss ix0 = Inr ix" "distinct (map sp_id ss)" "\<forall>s \<in> set ss. ix0 (sp_id s) = None"
      "\<And>m. m < length ss \<Longrightarrow> ix (sp_id (ss ! m)) = Some (k + m)" "\<And>i. i \<notin> sp_id ` set ss \<Longrightarrow> ix i = ix0 i"
proof (induction ss arbitrary: k ix0 thesis)
  case Nil
  then show ?case by simp
next
  case (Cons s ss)
  show ?case
  proof (cases "ix0 (sp_id s) = None")
    case False
    then show ?thesis by (intro Cons.prems(1)) auto
  next
    case True
    show ?thesis
    proof (rule Cons.IH [of "Suc k" "ix0(sp_id s \<mapsto> k)"])
      fix e assume "index_steps (Suc k) ss (ix0(sp_id s \<mapsto> k)) = Inl e"
        "\<not> (distinct (map sp_id ss) \<and> (\<forall>t \<in> set ss. (ix0(sp_id s \<mapsto> k)) (sp_id t) = None))"
      then show ?thesis using True by (intro Cons.prems(1)) (simp, metis fun_upd_other image_eqI list.set_map list.simps(9) distinct.simps(2) list.set_intros(2))
    next
      fix ix assume a: "index_steps (Suc k) ss (ix0(sp_id s \<mapsto> k)) = Inr ix" "distinct (map sp_id ss)"
        "\<forall>t \<in> set ss. (ix0(sp_id s \<mapsto> k)) (sp_id t) = None"
        "\<And>m. m < length ss \<Longrightarrow> ix (sp_id (ss ! m)) = Some (Suc k + m)"
        "\<And>i. i \<notin> sp_id ` set ss \<Longrightarrow> ix i = (ix0(sp_id s \<mapsto> k)) i"
      have ne: "\<forall>t \<in> set ss. sp_id t \<noteq> sp_id s" using a(3) by (auto split: if_splits)
      show ?thesis
      proof (rule Cons.prems(2))
        show "index_steps k (s # ss) ix0 = Inr ix" using True a(1) by simp
        show "distinct (map sp_id (s # ss))" using a(2) ne by auto
        show "\<forall>t \<in> set (s # ss). ix0 (sp_id t) = None" using True a(3) ne by auto
        show "ix (sp_id ((s # ss) ! m)) = Some (k + m)" if "m < length (s # ss)" for m
          using that a(4) a(5) [of "sp_id s"] ne by (cases m) (simp_all add: image_iff, metis)
        show "ix i = ix0 i" if "i \<notin> sp_id ` set (s # ss)" for i using that a(5) by auto
      qed
    qed
  qed
qed

lemma check_deps_ok: "check_deps ix ss = Inr () \<longleftrightarrow> (\<forall>s \<in> set ss. \<forall>d \<in> set (sp_depends_on s). ix d \<noteq> None)"
proof -
  have "find (\<lambda>(s, d). ix d = None) (concat (map (\<lambda>s. map (Pair s) (sp_depends_on s)) ss)) = None \<longleftrightarrow>
      (\<forall>s \<in> set ss. \<forall>d \<in> set (sp_depends_on s). ix d \<noteq> None)"
    unfolding find_None_iff by fastforce
  then show ?thesis unfolding check_deps_def by (auto split: option.splits)
qed

subsection \<open>Kahn's algorithm\<close>

lemma add_edges_spec:
  assumes "\<forall>(j, i) \<in> set es. j < n \<and> i < n" "length indeg = n" "length adj = n"
  shows "\<exists>indeg' adj'. add_edges (map (\<lambda>(j, i). (Some j, i)) es) indeg adj = Some (indeg', adj') \<and>
    length indeg' = n \<and> length adj' = n \<and>
    (\<forall>v < n. indeg' ! v = indeg ! v + length (filter (\<lambda>e. snd e = v) es)) \<and>
    (\<forall>u < n. adj' ! u = adj ! u @ map snd (filter (\<lambda>e. fst e = u) es))"
  using assms
proof (induction es arbitrary: indeg adj)
  case (Cons e es)
  obtain j i where e: "e = (j, i)" by force
  have "\<exists>indeg' adj'. add_edges (map (\<lambda>(j, i). (Some j, i)) es) (indeg[i := Suc (indeg ! i)]) (adj[j := adj ! j @ [i]]) = Some (indeg', adj') \<and>
    length indeg' = n \<and> length adj' = n \<and>
    (\<forall>v < n. indeg' ! v = indeg[i := Suc (indeg ! i)] ! v + length (filter (\<lambda>e. snd e = v) es)) \<and>
    (\<forall>u < n. adj' ! u = adj[j := adj ! j @ [i]] ! u @ map snd (filter (\<lambda>e. fst e = u) es))"
    by (rule Cons.IH) (use Cons.prems e in auto)
  then obtain indeg' adj' where "add_edges (map (\<lambda>(j, i). (Some j, i)) es) (indeg[i := Suc (indeg ! i)]) (adj[j := adj ! j @ [i]]) = Some (indeg', adj')"
    "length indeg' = n" "length adj' = n"
    "\<forall>v < n. indeg' ! v = indeg[i := Suc (indeg ! i)] ! v + length (filter (\<lambda>e. snd e = v) es)"
    "\<forall>u < n. adj' ! u = adj[j := adj ! j @ [i]] ! u @ map snd (filter (\<lambda>e. fst e = u) es)" by blast
  then show ?case using Cons.prems e by (intro exI [of _ indeg'] exI [of _ adj']) (auto simp: nth_list_update)
qed simp

text \<open>The edges into \<open>v\<close> whose source has not been visited.\<close>

definition open_edges :: "(nat \<times> nat) list \<Rightarrow> nat set \<Rightarrow> nat \<Rightarrow> nat" where
  "open_edges E P v = length (filter (\<lambda>(j, i). i = v \<and> j \<notin> P) E)"

lemma open_edges_zero: "open_edges E P v = 0 \<longleftrightarrow> (\<forall>j. (j, v) \<in> set E \<longrightarrow> j \<in> P)"
  by (auto simp: open_edges_def filter_empty_conv)

lemma open_edges_none: "open_edges E {} v = length (filter (\<lambda>e. snd e = v) E)"
  by (simp add: open_edges_def case_prod_unfold)

lemma open_edges_insert:
  assumes "u \<notin> P"
  shows "open_edges E P v = open_edges E (insert u P) v + count_list (map snd (filter (\<lambda>e. fst e = u) E)) v"
  using assms by (induction E) (auto simp: open_edges_def)

lemma kahn_visit_ok:
  assumes "\<forall>v \<in> set vs. v < length indeg" "\<forall>v < length indeg. indeg ! v = base v + count_list vs v"
    and "\<forall>v < length indeg. v \<in> S \<or> v \<in> set q \<longleftrightarrow> indeg ! v = 0" "distinct q" "set q \<inter> S = {}" "set q \<subseteq> {..<length indeg}"
  shows "\<exists>indeg' q'. kahn_visit vs indeg q = Some (indeg', q') \<and> length indeg' = length indeg \<and>
    (\<forall>v < length indeg. indeg' ! v = base v) \<and> (\<forall>v < length indeg. v \<in> S \<or> v \<in> set q' \<longleftrightarrow> base v = 0) \<and>
    distinct q' \<and> set q' \<inter> S = {} \<and> set q' \<subseteq> {..<length indeg}"
  using assms
proof (induction vs arbitrary: indeg q)
  case (Cons v vs)
  let ?indeg = "indeg[v := indeg ! v - 1]" and ?q = "if indeg ! v = 1 then v # q else q"
  have v: "v < length indeg" "indeg ! v = base v + count_list vs v + 1" using Cons.prems(1,2) by auto
  have new: "v \<notin> S" "v \<notin> set q" using Cons.prems(3) v by auto
  have "\<exists>indeg' q'. kahn_visit vs ?indeg ?q = Some (indeg', q') \<and> length indeg' = length ?indeg \<and>
    (\<forall>v < length ?indeg. indeg' ! v = base v) \<and> (\<forall>v < length ?indeg. v \<in> S \<or> v \<in> set q' \<longleftrightarrow> base v = 0) \<and>
    distinct q' \<and> set q' \<inter> S = {} \<and> set q' \<subseteq> {..<length ?indeg}"
  proof (rule Cons.IH)
    show "\<forall>w < length ?indeg. ?indeg ! w = base w + count_list vs w"
      using Cons.prems(2) v by (auto simp: nth_list_update)
    show "\<forall>w < length ?indeg. w \<in> S \<or> w \<in> set ?q \<longleftrightarrow> ?indeg ! w = 0"
      using Cons.prems(3) v new by (auto simp: nth_list_update)
  qed (use Cons.prems new v in auto)
  then show ?case using v by simp
qed auto

definition kahn_inv :: "(nat \<times> nat) list \<Rightarrow> nat \<Rightarrow> nat set \<Rightarrow> (nat \<Rightarrow> nat) \<Rightarrow> nat list \<Rightarrow> nat \<Rightarrow> nat list \<Rightarrow> bool" where
  "kahn_inv E n P r indeg seen q \<longleftrightarrow> length indeg = n \<and> distinct q \<and> set q \<inter> P = {} \<and> set q \<subseteq> {..<n} \<and> P \<subseteq> {..<n} \<and>
     seen = card P \<and> (\<forall>v < n. indeg ! v = open_edges E P v) \<and> (\<forall>v < n. v \<in> P \<or> v \<in> set q \<longleftrightarrow> indeg ! v = 0) \<and>
     (\<forall>(j, i) \<in> set E. i \<in> P \<longrightarrow> j \<in> P \<and> r j < r i) \<and> (\<forall>v \<in> P. r v < seen)"

lemma kahn_inv_step:
  assumes inv: "kahn_inv E n P r indeg seen (u # q)" and adj: "adj ! u = map snd (filter (\<lambda>e. fst e = u) E)"
    and E: "\<forall>(j, i) \<in> set E. j < n \<and> i < n"
  obtains indeg' q' where "kahn_visit (adj ! u) indeg q = Some (indeg', q')"
    "kahn_inv E n (insert u P) (r(u := seen)) indeg' (Suc seen) q'"
proof -
  have u: "u \<notin> P" "u < n" "u \<notin> set q" "finite P" using inv by (auto simp: kahn_inv_def finite_subset)
  have "indeg ! u = 0" using inv u(2) unfolding kahn_inv_def by (metis list.set_intros(1))
  then have pre: "\<forall>j. (j, u) \<in> set E \<longrightarrow> j \<in> P" using inv u(2) open_edges_zero [of E P u] by (simp add: kahn_inv_def)
  have "\<exists>indeg' q'. kahn_visit (adj ! u) indeg q = Some (indeg', q') \<and> length indeg' = length indeg \<and>
    (\<forall>v < length indeg. indeg' ! v = open_edges E (insert u P) v) \<and>
    (\<forall>v < length indeg. v \<in> insert u P \<or> v \<in> set q' \<longleftrightarrow> open_edges E (insert u P) v = 0) \<and>
    distinct q' \<and> set q' \<inter> insert u P = {} \<and> set q' \<subseteq> {..<length indeg}"
  proof (rule kahn_visit_ok)
    show "\<forall>v \<in> set (adj ! u). v < length indeg" using adj E inv by (auto simp: kahn_inv_def)
    show "\<forall>v < length indeg. indeg ! v = open_edges E (insert u P) v + count_list (adj ! u) v"
      using inv open_edges_insert [OF u(1)] unfolding adj by (simp add: kahn_inv_def)
    show "\<forall>v < length indeg. v \<in> insert u P \<or> v \<in> set q \<longleftrightarrow> indeg ! v = 0" using inv by (auto simp: kahn_inv_def)
  qed (use inv u in \<open>auto simp: kahn_inv_def\<close>)
  then obtain indeg' q' where v: "kahn_visit (adj ! u) indeg q = Some (indeg', q')" "length indeg' = length indeg"
    "\<forall>v < length indeg. indeg' ! v = open_edges E (insert u P) v"
    "\<forall>v < length indeg. v \<in> insert u P \<or> v \<in> set q' \<longleftrightarrow> open_edges E (insert u P) v = 0"
    "distinct q'" "set q' \<inter> insert u P = {}" "set q' \<subseteq> {..<length indeg}"
    by blast
  have e: "j \<in> insert u P \<and> (r(u := seen)) j < (r(u := seen)) i" if "(j, i) \<in> set E" "i \<in> insert u P" for j i
    using inv pre u(1) that unfolding kahn_inv_def by (cases "i = u") fastforce+
  have "kahn_inv E n (insert u P) (r(u := seen)) indeg' (Suc seen) q'"
    unfolding kahn_inv_def
  proof (intro conjI)
    show "\<forall>(j, i) \<in> set E. i \<in> insert u P \<longrightarrow> j \<in> insert u P \<and> (r(u := seen)) j < (r(u := seen)) i" using e by blast
    show "\<forall>v \<in> insert u P. (r(u := seen)) v < Suc seen" using inv by (auto simp: kahn_inv_def less_Suc_eq)
  qed (use inv u v in \<open>simp_all add: kahn_inv_def\<close>)
  with v(1) that show ?thesis by blast
qed

lemma kahn_loop_ok:
  assumes "kahn_inv E n P r indeg seen q" "\<forall>u < n. adj ! u = map snd (filter (\<lambda>e. fst e = u) E)" "\<forall>(j, i) \<in> set E. j < n \<and> i < n"
    and "length adj = n"
  shows "\<exists>P' r' indeg'. kahn_loop adj indeg seen q = Some (card P') \<and> kahn_inv E n P' r' indeg' (card P') []"
  using assms
proof (induction adj indeg seen q arbitrary: P r rule: kahn_loop.induct)
  case (1 adj indeg seen)
  then show ?case by (auto simp: kahn_inv_def)
next
  case (2 adj indeg seen u q)
  have u: "u < n" using "2.prems"(1) by (simp add: kahn_inv_def)
  then obtain indeg' q' where v: "kahn_visit (adj ! u) indeg q = Some (indeg', q')"
    "kahn_inv E n (insert u P) (r(u := seen)) indeg' (Suc seen) q'"
    using kahn_inv_step [OF "2.prems"(1)] "2.prems"(2,3) by metis
  have "u < length adj" using u "2.prems"(4) by simp
  with "2.IH" [OF this v(1) refl v(2) "2.prems"(2-4)] v(1) show ?case by simp
qed

lemma kahn_complete:
  assumes "kahn_inv E n P r indeg (card P) []" "\<forall>(j, i) \<in> set E. j < n \<and> i < n"
  shows "card P = n \<longleftrightarrow> wf (set E)"
proof -
  have k: "P \<subseteq> {..<n}" "\<And>j i. (j, i) \<in> set E \<Longrightarrow> i \<in> P \<Longrightarrow> r j < r i" "\<And>v. v < n \<Longrightarrow> v \<in> P \<longleftrightarrow> open_edges E P v = 0"
    using assms(1) unfolding kahn_inv_def by fastforce+
  have "P = {..<n}" if wf: "wf (set E)"
  proof (rule ccontr)
    assume "P \<noteq> {..<n}"
    then have "{..<n} - P \<noteq> {}" using k(1) by blast
    then obtain z where z: "z \<in> {..<n} - P" "\<And>y. (y, z) \<in> set E \<Longrightarrow> y \<notin> {..<n} - P" using wfE_min' [OF wf] by metis
    have "j \<in> P" if "(j, z) \<in> set E" for j using z(2) [OF that] assms(2) that by auto
    then have "open_edges E P z = 0" unfolding open_edges_zero by blast
    then show False using z(1) k(3) by blast
  qed
  moreover have "wf (set E)" if "card P = n"
  proof -
    have "P = {..<n}" using that k(1) by (intro card_subset_eq) simp_all
    then have "set E \<subseteq> measure r" using assms(2) k(2) by fastforce
    then show ?thesis by (rule wf_subset [OF wf_measure])
  qed
  ultimately show ?thesis by (metis card_lessThan)
qed

text \<open>The dependency relation of a list of steps.\<close>

definition depends :: "step_spec list \<Rightarrow> (step_id \<times> step_id) set" where
  "depends ss = {(d, sp_id s) | s d. s \<in> set ss \<and> d \<in> set (sp_depends_on s)}"

lemma finite_depends: "finite (depends ss)"
proof -
  have "depends ss = (\<Union>s \<in> set ss. (\<lambda>d. (d, sp_id s)) ` set (sp_depends_on s))" by (auto simp: depends_def)
  then show ?thesis by simp
qed

definition indexes :: "(step_id \<rightharpoonup> nat) \<Rightarrow> step_spec list \<Rightarrow> bool" where
  "indexes ix ss \<longleftrightarrow> (\<forall>m < length ss. ix (sp_id (ss ! m)) = Some m) \<and> (\<forall>i. i \<notin> sp_id ` set ss \<longrightarrow> ix i = None)"

lemma indexes_known: "indexes ix ss \<Longrightarrow> ix d \<noteq> None \<longleftrightarrow> d \<in> sp_id ` set ss"
  unfolding indexes_def by (metis (no_types, lifting) image_iff in_set_conv_nth option.distinct(1))

text \<open>The edges between indices, when every dependency is known.\<close>

definition edges :: "(step_id \<rightharpoonup> nat) \<Rightarrow> step_spec list \<Rightarrow> (nat \<times> nat) list" where
  "edges ix ss = map (\<lambda>(j, i). (the j, i)) (dep_edges ix ss)"

lemma set_dep_edges: "set (dep_edges ix ss) = {(ix d, i) | i d. i < length ss \<and> d \<in> set (sp_depends_on (ss ! i))}"
  by (force simp: dep_edges_def in_set_enumerate_eq)

lemma set_edges: "set (edges ix ss) = {(the (ix d), i) | i d. i < length ss \<and> d \<in> set (sp_depends_on (ss ! i))}"
  by (force simp: edges_def set_dep_edges)

lemma the_index:
  assumes ix: "indexes ix ss" and known: "\<forall>s \<in> set ss. \<forall>d \<in> set (sp_depends_on s). d \<in> sp_id ` set ss"
    and "k < length ss" "d \<in> set (sp_depends_on (ss ! k))"
  shows "the (ix d) < length ss \<and> sp_id (ss ! the (ix d)) = d"
proof -
  have "d \<in> sp_id ` set ss" using known assms(3,4) nth_mem by blast
  then obtain m where "m < length ss" "d = sp_id (ss ! m)" by (metis imageE in_set_conv_nth)
  then show ?thesis using ix by (simp add: indexes_def)
qed

lemma edges_in_range:
  assumes ix: "indexes ix ss" and known: "\<forall>s \<in> set ss. \<forall>d \<in> set (sp_depends_on s). d \<in> sp_id ` set ss"
  shows "\<forall>(j, i) \<in> set (edges ix ss). j < length ss \<and> i < length ss"
  using the_index [OF ix known] by (auto simp: set_edges)

lemma wf_edges:
  assumes ix: "indexes ix ss" and known: "\<forall>s \<in> set ss. \<forall>d \<in> set (sp_depends_on s). d \<in> sp_id ` set ss"
  shows "wf (set (edges ix ss)) \<longleftrightarrow> acyclic (depends ss)"
proof
  assume "wf (set (edges ix ss))"
  moreover have "depends ss \<subseteq> inv_image (set (edges ix ss)) (\<lambda>d. the (ix d))"
    using ix by (fastforce simp: depends_def set_edges in_set_conv_nth indexes_def)
  ultimately show "acyclic (depends ss)" by (meson wf_acyclic wf_inv_image wf_subset)
next
  assume "acyclic (depends ss)"
  then have "wf (depends ss)" using finite_depends by (rule finite_acyclic_wf [rotated])
  moreover have "set (edges ix ss) \<subseteq> inv_image (depends ss) (\<lambda>k. sp_id (ss ! k))"
  proof
    fix e assume "e \<in> set (edges ix ss)"
    then obtain k d where e: "e = (the (ix d), k)" "k < length ss" "d \<in> set (sp_depends_on (ss ! k))" by (auto simp: set_edges)
    then have "(d, sp_id (ss ! k)) \<in> depends ss" by (auto simp: depends_def)
    then show "e \<in> inv_image (depends ss) (\<lambda>k. sp_id (ss ! k))" using the_index [OF ix known e(2,3)] e(1) by simp
  qed
  ultimately show "wf (set (edges ix ss))" by (meson wf_inv_image wf_subset)
qed

lemma dep_edges_known:
  assumes "indexes ix ss" "\<forall>s \<in> set ss. \<forall>d \<in> set (sp_depends_on s). d \<in> sp_id ` set ss"
  shows "dep_edges ix ss = map (\<lambda>(j, i). (Some j, i)) (edges ix ss)"
proof -
  have "ix d \<noteq> None" if "i < length ss" "d \<in> set (sp_depends_on (ss ! i))" for i d
    using that assms(2) nth_mem indexes_known [OF assms(1)] by blast
  then show ?thesis
    by (auto simp: edges_def comp_def case_prod_beta set_dep_edges intro!: map_idI [symmetric])
qed

lemma assert_acyclic_exact:
  assumes ix: "indexes ix ss" and known: "\<forall>s \<in> set ss. \<forall>d \<in> set (sp_depends_on s). d \<in> sp_id ` set ss"
  shows "assert_acyclic ix ss = Some (if acyclic (depends ss) then Inr () else Inl (InvalidWorkflow ''workflow has a cycle''))"
proof -
  let ?n = "length ss" and ?E = "edges ix ss"
  note range = edges_in_range [OF ix known]
  obtain indeg adj where a: "add_edges (dep_edges ix ss) (replicate ?n 0) (replicate ?n []) = Some (indeg, adj)"
    and s: "length indeg = ?n" "length adj = ?n" "\<forall>v < ?n. indeg ! v = length (filter (\<lambda>e. snd e = v) ?E)"
      "\<forall>u < ?n. adj ! u = map snd (filter (\<lambda>e. fst e = u) ?E)"
    using add_edges_spec [OF range, of "replicate ?n 0" "replicate ?n []"] dep_edges_known [OF ix known] by auto
  let ?q = "rev (filter (\<lambda>i. indeg ! i = 0) [0..<?n])"
  have "kahn_inv ?E ?n {} (\<lambda>_. 0) indeg 0 ?q"
    using s by (auto simp: kahn_inv_def open_edges_none)
  then obtain P r indeg' where "kahn_loop adj indeg 0 ?q = Some (card P)" "kahn_inv ?E ?n P r indeg' (card P) []"
    using kahn_loop_ok [OF _ s(4) range s(2)] by blast
  then show ?thesis using kahn_complete [OF _ range] wf_edges [OF ix known] by (auto simp: assert_acyclic_def a Let_def)
qed

lemma workflow_new_cases:
  "\<exists>r. workflow_new df = Some r \<and>
    ((\<exists>wk. r = Inr wk \<and> wf_def wk = df) \<longleftrightarrow>
       wd_steps df \<noteq> [] \<and> distinct (map sp_id (wd_steps df)) \<and> fst ` depends (wd_steps df) \<subseteq> sp_id ` set (wd_steps df) \<and>
       acyclic (depends (wd_steps df))) \<and>
    (\<forall>wk. r = Inr wk \<longrightarrow> indexes (wf_index wk) (wd_steps df))"
proof (cases "wd_steps df = []")
  case True
  then show ?thesis by (simp add: workflow_new_def)
next
  case False
  let ?ss = "wd_steps df"
  have deps: "fst ` depends ?ss \<subseteq> sp_id ` set ?ss \<longleftrightarrow> (\<forall>s \<in> set ?ss. \<forall>d \<in> set (sp_depends_on s). d \<in> sp_id ` set ?ss)"
    by (fastforce simp: depends_def image_subset_iff)
  show ?thesis
  proof (rule index_steps_cases [of 0 ?ss Map.empty])
    fix e assume "index_steps 0 ?ss Map.empty = Inl e" "\<not> (distinct (map sp_id ?ss) \<and> (\<forall>s \<in> set ?ss. Map.empty (sp_id s) = None))"
    then show ?thesis using False by (auto simp: workflow_new_def)
  next
    fix ix assume i: "index_steps 0 ?ss Map.empty = Inr ix" "distinct (map sp_id ?ss)"
      "\<And>m. m < length ?ss \<Longrightarrow> ix (sp_id (?ss ! m)) = Some (0 + m)" "\<And>i. i \<notin> sp_id ` set ?ss \<Longrightarrow> ix i = Map.empty i"
    have ix: "indexes ix ?ss" using i(3,4) by (simp add: indexes_def)
    show ?thesis
    proof (cases "check_deps ix ?ss")
      case (Inl e)
      then have "\<not> fst ` depends ?ss \<subseteq> sp_id ` set ?ss"
        unfolding deps using check_deps_ok [of ix ?ss] indexes_known [OF ix] by force
      then show ?thesis using False i(1) Inl by (simp add: workflow_new_def)
    next
      case (Inr u)
      then have k: "\<forall>s \<in> set ?ss. \<forall>d \<in> set (sp_depends_on s). d \<in> sp_id ` set ?ss"
        using check_deps_ok [of ix ?ss] indexes_known [OF ix] by simp
      then show ?thesis
        using False i(1,2) Inr assert_acyclic_exact [OF ix k] deps ix by (simp add: workflow_new_def)
    qed
  qed
qed

text \<open>C37: validation is exact. \<open>Workflow::new\<close> never panics, and it accepts a definition, unchanged, exactly when it
  has a step, no two steps share an id, every dependency names a step, and the dependency relation has no cycle.\<close>

theorem workflow_new_exact:
  "\<exists>r. workflow_new df = Some r \<and>
    ((\<exists>wk. r = Inr wk \<and> wf_def wk = df) \<longleftrightarrow>
       wd_steps df \<noteq> [] \<and> distinct (map sp_id (wd_steps df)) \<and> fst ` depends (wd_steps df) \<subseteq> sp_id ` set (wd_steps df) \<and>
       acyclic (depends (wd_steps df)))"
  using workflow_new_cases [of df] by blast

section \<open>Recording\<close>

definition valid_workflow :: "workflow \<Rightarrow> bool" where
  "valid_workflow wk \<longleftrightarrow> workflow_new (wf_def wk) = Some (Inr wk)"

definition ids :: "workflow \<Rightarrow> step_id set" where
  "ids wk = sp_id ` set (wf_steps wk)"

lemma finite_ids [simp]: "finite (ids wk)" by (simp add: ids_def)

lemma valid_workflow_facts:
  assumes "valid_workflow wk"
  shows "distinct (map sp_id (wf_steps wk))" "\<And>s. s \<in> set (wf_steps wk) \<Longrightarrow> wf_step wk (sp_id s) = Some s"
    "\<And>s d. s \<in> set (wf_steps wk) \<Longrightarrow> d \<in> set (sp_depends_on s) \<Longrightarrow> d \<in> ids wk" "wf (depends (wf_steps wk))"
    "card (ids wk) = length (wf_steps wk)"
proof -
  note v = workflow_new_cases [of "wf_def wk"]
  have n: "workflow_new (wf_def wk) = Some (Inr wk)" using assms by (simp add: valid_workflow_def)
  with v have ok: "distinct (map sp_id (wf_steps wk))" "fst ` depends (wf_steps wk) \<subseteq> ids wk" "acyclic (depends (wf_steps wk))"
    and ix: "indexes (wf_index wk) (wf_steps wk)"
    by (auto simp: wf_steps_def ids_def)
  show "distinct (map sp_id (wf_steps wk))" by (rule ok(1))
  show "wf_step wk (sp_id s) = Some s" if "s \<in> set (wf_steps wk)" for s
    using ix that by (auto simp: indexes_def wf_step_def in_set_conv_nth)
  show "d \<in> ids wk" if "s \<in> set (wf_steps wk)" "d \<in> set (sp_depends_on s)" for s d
    using ok(2) that by (force simp: depends_def)
  show "wf (depends (wf_steps wk))" using ok(3) finite_depends by (rule finite_acyclic_wf [rotated])
  show "card (ids wk) = length (wf_steps wk)" using ok(1) distinct_card by (fastforce simp: ids_def)
qed

text \<open>A journal that takes every event.\<close>

definition append_ok :: "'w saga_env \<Rightarrow> bool" where
  "append_ok env \<longleftrightarrow> (\<forall>ev w. \<exists>w'. se_append env ev w = (w', Inr ()))"

lemma record_step_ok:
  assumes "append_ok env" "case co_step_state c (wid, i) of Some s0 \<Rightarrow> step_can_transition_to s0 s | None \<Rightarrow> True"
  obtains w' ev where "record_step env wid i s out (c, w) = ((note_step c wid i s out, w'), Inr ev)"
proof -
  let ?c = "note_step c wid i s out"
  let ?ev = "\<lparr>ev_wf = wid, ev_step = i, ev_state = s, ev_output = out, ev_seq = co_seq ?c\<rparr>"
  obtain w' where "se_append env ?ev w = (w', Inr ())" using assms(1) by (meson append_ok_def)
  then have "record_step env wid i s out (c, w) = ((?c, publish_event env ?ev w'), Inr ?ev)"
    using assms(2) by (auto simp: record_step_def Let_def split: option.splits)
  then show ?thesis by (rule that)
qed

definition commit_order :: "coord_state \<Rightarrow> workflow_id \<Rightarrow> step_id list" where
  "commit_order c wid = (case co_committed_order c wid of Some is \<Rightarrow> is | None \<Rightarrow> [])"

lemma note_step_fields [simp]:
  "co_wf_state (note_step c wid i s out) = co_wf_state c"
  "commit_order (note_step c wid i s out) wid = commit_order c wid @ (if s = StCommitted then [i] else [])"
  by (simp_all add: note_step_def Let_def commit_order_def)

text \<open>The errors a rollback stops with at step \<open>i\<close>.\<close>

definition rollback_error :: "workflow \<Rightarrow> step_id \<Rightarrow> orch_error \<Rightarrow> bool" where
  "rollback_error wk i e \<longleftrightarrow> (\<exists>m. e = CompensateFailed i m) \<or> (\<exists>s \<in> set (wf_steps wk). sp_id s = i \<and> e = NoExecutor (sp_kind s))"

section \<open>Compensation\<close>

lemma compensate_steps_result:
  assumes "valid_workflow wk" "append_ok env" "set is \<subseteq> ids wk" "distinct is"
    and "\<forall>i \<in> set is. co_step_state c (wf_id wk, i) \<in> {Some StCommitted, Some StCompensated}"
    and "compensate_steps env wk is (c, w) = ((c', w'), r)"
  shows "\<exists>dn rest. is = dn @ rest \<and> co_wf_state c' = co_wf_state c \<and> commit_order c' (wf_id wk) = commit_order c (wf_id wk) \<and>
    (\<forall>j. co_step_state c' j = (if j \<in> Pair (wf_id wk) ` set dn then Some StCompensated else co_step_state c j)) \<and>
    (r = Inr () \<and> rest = [] \<or> (\<exists>e. r = Inl e \<and> rest \<noteq> [] \<and> co_step_state c (wf_id wk, hd rest) = Some StCommitted \<and>
       rollback_error wk (hd rest) e))"
  using assms(3-)
proof (induction "is" arbitrary: c w)
  case Nil
  then show ?case by simp
next
  case (Cons i "is")
  let ?k = "(wf_id wk, i)"
  obtain s where s: "s \<in> set (wf_steps wk)" "sp_id s = i" using Cons.prems(1) by (auto simp: ids_def)
  then have spec: "wf_step wk i = Some s" using valid_workflow_facts(2) [OF assms(1)] by blast
  show ?case
  proof (cases "co_step_state c ?k = Some StCompensated")
    case True
    then obtain dn rest where IH: "is = dn @ rest" "co_wf_state c' = co_wf_state c" "commit_order c' (wf_id wk) = commit_order c (wf_id wk)"
      "\<forall>j. co_step_state c' j = (if j \<in> Pair (wf_id wk) ` set dn then Some StCompensated else co_step_state c j)"
      "r = Inr () \<and> rest = [] \<or> (\<exists>e. r = Inl e \<and> rest \<noteq> [] \<and> co_step_state c (wf_id wk, hd rest) = Some StCommitted \<and>
         rollback_error wk (hd rest) e)"
      using Cons.IH [of c w] Cons.prems by auto
    then show ?thesis using True by (intro exI [of _ "i # dn"] exI [of _ rest]) auto
  next
    case False
    then have st: "co_step_state c ?k = Some StCommitted" using Cons.prems(3) by auto
    let ?out = "case co_step_output c ?k of Some b \<Rightarrow> b | None \<Rightarrow> []"
    have halt: ?thesis if "(c', w', r) = (c, w1, Inl e)" "rollback_error wk i e" for w1 e
      using that st by (intro exI [of _ "[]"] exI [of _ "i # is"]) simp
    show ?thesis
    proof (cases "se_compensators env (sp_kind s)")
      case None
      then have "(c', w', r) = (c, w, Inl (NoExecutor (sp_kind s)))" using Cons.prems(4) spec st by simp
      then show ?thesis by (rule halt) (use s in \<open>auto simp: rollback_error_def\<close>)
    next
      case (Some act)
      obtain w1 r1 where retry: "compensate_retry (act (wf_id wk) s ?out) (unat (se_compensation_attempts env)) [] w = (w1, r1)" by force
      show ?thesis
      proof (cases r1)
        case (Inl m)
        then have "(c', w', r) = (c, w1, Inl (CompensateFailed i m))" using Cons.prems(4) spec st Some retry by simp
        then show ?thesis by (rule halt) (simp add: rollback_error_def)
      next
        case (Inr u)
        obtain w2 ev where rec: "record_step env (wf_id wk) i StCompensated [] (c, w1) = ((note_step c (wf_id wk) i StCompensated [], w2), Inr ev)"
          by (rule record_step_ok [OF assms(2)]) (use st in \<open>auto simp: step_can_transition_to_def\<close>)
        let ?c = "note_step c (wf_id wk) i StCompensated []"
        have go: "compensate_steps env wk is (?c, w2) = ((c', w'), r)" using Cons.prems(4) spec st Some retry Inr rec by simp
        have ne: "i \<notin> set is" using Cons.prems(2) by simp
        have pre: "set is \<subseteq> ids wk" "distinct is"
          "\<forall>j \<in> set is. co_step_state ?c (wf_id wk, j) \<in> {Some StCommitted, Some StCompensated}"
          using Cons.prems(1-3) by auto
        obtain dn rest where IH: "is = dn @ rest" "co_wf_state c' = co_wf_state ?c" "commit_order c' (wf_id wk) = commit_order ?c (wf_id wk)"
          "\<forall>j. co_step_state c' j = (if j \<in> Pair (wf_id wk) ` set dn then Some StCompensated else co_step_state ?c j)"
          "r = Inr () \<and> rest = [] \<or> (\<exists>e. r = Inl e \<and> rest \<noteq> [] \<and> co_step_state ?c (wf_id wk, hd rest) = Some StCommitted \<and>
             rollback_error wk (hd rest) e)"
          using Cons.IH [OF pre go] by blast
        have "hd rest \<noteq> i" if "rest \<noteq> []" using ne IH(1) that by (metis Un_iff list.set_sel(1) set_append)
        then show ?thesis using IH by (intro exI [of _ "i # dn"] exI [of _ rest]) auto
      qed
    qed
  qed
qed

section \<open>Runs\<close>

text \<open>Every step of a commit order comes after the steps it depends on.\<close>

definition deps_first :: "workflow \<Rightarrow> step_id list \<Rightarrow> bool" where
  "deps_first wk ord \<longleftrightarrow> (\<forall>k < length ord. \<forall>s \<in> set (wf_steps wk). sp_id s = ord ! k \<longrightarrow> set (sp_depends_on s) \<subseteq> set (take k ord))"

definition steps_are :: "workflow \<Rightarrow> coord_state \<Rightarrow> (step_id \<Rightarrow> step_state) \<Rightarrow> bool" where
  "steps_are wk c g \<longleftrightarrow> (\<forall>i \<in> ids wk. co_step_state c (wf_id wk, i) = Some (g i))"

definition ordered :: "workflow \<Rightarrow> coord_state \<Rightarrow> step_id list \<Rightarrow> bool" where
  "ordered wk c ord \<longleftrightarrow> commit_order c (wf_id wk) = ord \<and> distinct ord \<and> set ord \<subseteq> ids wk \<and> deps_first wk ord"

lemma deps_first_snoc:
  assumes "deps_first wk ord" "distinct (map sp_id (wf_steps wk))" "s \<in> set (wf_steps wk)" "set (sp_depends_on s) \<subseteq> set ord"
  shows "deps_first wk (ord @ [sp_id s])"
proof -
  have "s' = s" if "s' \<in> set (wf_steps wk)" "sp_id s' = sp_id s" for s'
    using assms(2,3) that by (metis distinct_map inj_onD)
  then have "set (sp_depends_on s') \<subseteq> set ord" if "s' \<in> set (wf_steps wk)" "sp_id s' = sp_id s" for s'
    using assms(4) that by metis
  then show ?thesis using assms(1) by (auto simp: deps_first_def nth_append less_Suc_eq)
qed

text \<open>The three ways a run ends when the journal takes every event.\<close>

definition saga_succeeded :: "workflow \<Rightarrow> coord_state \<Rightarrow> step_id list \<Rightarrow> orch_error + workflow_state \<Rightarrow> bool" where
  "saga_succeeded wk c ord r \<longleftrightarrow> r = Inr WfSucceeded \<and> co_wf_state c (wf_id wk) = Some WfSucceeded \<and> set ord = ids wk \<and>
     steps_are wk c (\<lambda>_. StCommitted)"

definition saga_rolled_back :: "workflow \<Rightarrow> coord_state \<Rightarrow> step_id list \<Rightarrow> step_id \<Rightarrow> orch_error + workflow_state \<Rightarrow> bool" where
  "saga_rolled_back wk c ord f r \<longleftrightarrow> f \<in> ids wk - set ord \<and> (\<exists>kept undone. ord = kept @ undone \<and>
     steps_are wk c (\<lambda>i. if i = f then StFailed else if i \<in> set kept then StCommitted else if i \<in> set undone then StCompensated else StPending) \<and>
     (r = Inr WfCompensated \<and> kept = [] \<and> co_wf_state c (wf_id wk) = Some WfCompensated \<or>
      (\<exists>e. r = Inl e \<and> kept \<noteq> [] \<and> rollback_error wk (last kept) e \<and> co_wf_state c (wf_id wk) = Some WfCompensating)))"

definition saga_stranded :: "workflow \<Rightarrow> coord_state \<Rightarrow> step_id list \<Rightarrow> step_id \<Rightarrow> orch_error + workflow_state \<Rightarrow> bool" where
  "saga_stranded wk c ord f r \<longleftrightarrow> f \<in> ids wk - set ord \<and> co_wf_state c (wf_id wk) = Some WfRunning \<and> (\<exists>k. r = Inl (NoExecutor k)) \<and>
     steps_are wk c (\<lambda>i. if i = f then StRunning else if i \<in> set ord then StCommitted else StPending)"

lemma set_wf_state_ok:
  assumes "co_wf_state c wid = Some cur" "workflow_can_transition_to cur s"
  shows "set_wf_state wid s c = (c\<lparr>co_wf_state := (co_wf_state c)(wid \<mapsto> s)\<rparr>, Inr ())"
  using assms by (simp add: set_wf_state_def)

lemma roll_back_result:
  assumes valid: "valid_workflow wk" and env: "append_ok env" and ord: "ordered wk c (kept @ undone)" and f: "f \<in> ids wk - set (kept @ undone)"
    and st: "steps_are wk c (\<lambda>i. if i = f then StFailed else if i \<in> set kept then StCommitted else if i \<in> set undone then StCompensated else StPending)"
    and wf: "co_wf_state c (wf_id wk) = Some WfCompensating"
    and rb: "roll_back env wk (c, w) = ((c', w'), r)"
  shows "ordered wk c' (kept @ undone) \<and> saga_rolled_back wk c' (kept @ undone) f r"
proof -
  let ?ord = "kept @ undone"
  obtain c1 w1 r1 where comp: "compensate_steps env wk (rev ?ord) (c, w) = ((c1, w1), r1)" by (metis prod.collapse)
  have cc: "compensate_committed env wk (c, w) = ((c1, w1), r1)"
    using comp ord by (simp add: compensate_committed_def ordered_def commit_order_def)
  have in_ids: "set ?ord \<subseteq> ids wk" and d: "distinct ?ord" using ord by (simp_all add: ordered_def)
  have stc: "co_step_state c (wf_id wk, i) = Some (if i \<in> set kept then StCommitted else StCompensated)" if "i \<in> set ?ord" for i
    using st in_ids f that by (auto simp: steps_are_def)
  have pre: "\<forall>i \<in> set (rev ?ord). co_step_state c (wf_id wk, i) \<in> {Some StCommitted, Some StCompensated}"
    using stc by (auto split: if_splits)
  have "set (rev ?ord) \<subseteq> ids wk" "distinct (rev ?ord)" using in_ids d by auto
  then obtain dn rest where R: "rev ?ord = dn @ rest" "co_wf_state c1 = co_wf_state c" "commit_order c1 (wf_id wk) = commit_order c (wf_id wk)"
    "\<forall>j. co_step_state c1 j = (if j \<in> Pair (wf_id wk) ` set dn then Some StCompensated else co_step_state c j)"
    "r1 = Inr () \<and> rest = [] \<or> (\<exists>e. r1 = Inl e \<and> rest \<noteq> [] \<and> co_step_state c (wf_id wk, hd rest) = Some StCommitted \<and> rollback_error wk (hd rest) e)"
    using compensate_steps_result [OF valid env _ _ pre comp] by blast
  have split: "?ord = rev rest @ rev dn" using R(1) by (metis rev_append rev_rev_ident)
  have ord1: "ordered wk c1 ?ord" using ord R(3) by (simp add: ordered_def)
  have states: "steps_are wk c1 (\<lambda>i. if i = f then StFailed else if i \<in> set (rev rest) then StCommitted
      else if i \<in> set (rev dn) then StCompensated else StPending)" if "set rest \<subseteq> set kept"
    unfolding steps_are_def
  proof
    fix i assume i: "i \<in> ids wk"
    have u: "set ?ord = set rest \<union> set dn" "set rest \<inter> set dn = {}" using split d by (metis set_append set_rev, metis distinct_append set_rev)
    show "co_step_state c1 (wf_id wk, i) = Some (if i = f then StFailed else if i \<in> set (rev rest) then StCommitted
        else if i \<in> set (rev dn) then StCompensated else StPending)"
    proof (cases "i \<in> set ?ord")
      case True
      then have "i \<noteq> f" using f by auto
      then show ?thesis using True u that stc [OF True] R(4) by (auto simp: image_iff)
    next
      case False
      then have "i \<notin> set dn" "i \<notin> set rest" using u by auto
      moreover have "co_step_state c (wf_id wk, i) = Some (if i = f then StFailed else StPending)"
        using st i False by (auto simp: steps_are_def)
      ultimately show ?thesis using R(4) by (auto simp: image_iff)
    qed
  qed
  show ?thesis
  proof (cases r1)
    case (Inl e)
    then have rest: "rest \<noteq> []" "co_step_state c (wf_id wk, hd rest) = Some StCommitted" "rollback_error wk (hd rest) e" using R(5) by auto
    have hd: "hd rest \<in> set kept" using stc [of "hd rest"] rest(1,2) split by (auto split: if_splits)
    have "set rest \<subseteq> set kept"
      using split [unfolded append_eq_append_conv2] hd d rest(1)
    proof (elim exE disjE conjE)
      fix us assume us: "kept @ us = rev rest" "undone = us @ rev dn"
      have "hd rest = last (kept @ us)" using us(1) rest(1) by (simp add: last_rev)
      then have "us = []" using us(2) hd d last_in_set [of us] by (cases "us = []") auto
      then show ?thesis using us(1) by (metis append_Nil2 set_rev order_refl)
    qed (metis set_append set_rev sup_ge1)
    moreover have "(c', w', r) = (c1, w1, Inl e)" using rb cc Inl by (simp add: roll_back_def)
    moreover have "last (rev rest) = hd rest" using rest(1) by (simp add: last_rev)
    ultimately show ?thesis
      using ord1 states f rest R(2) wf split unfolding saga_rolled_back_def by (intro conjI exI [of _ "rev rest"] exI [of _ "rev dn"]) auto
  next
    case (Inr u)
    then have rest: "rest = []" using R(5) by auto
    have "set_wf_state (wf_id wk) WfCompensated c1 = (c1\<lparr>co_wf_state := (co_wf_state c1)(wf_id wk \<mapsto> WfCompensated)\<rparr>, Inr ())"
      by (rule set_wf_state_ok [of _ _ WfCompensating]) (use R(2) wf in \<open>simp_all add: workflow_can_transition_to_def\<close>)
    then have e: "c' = c1\<lparr>co_wf_state := (co_wf_state c1)(wf_id wk \<mapsto> WfCompensated)\<rparr>" "r = Inr WfCompensated"
      using rb cc Inr by (simp_all add: roll_back_def)
    have "ordered wk c' ?ord" using ord1 by (simp add: ordered_def e(1) commit_order_def)
    moreover have "steps_are wk c' (\<lambda>i. if i = f then StFailed else if i \<in> set [] then StCommitted
        else if i \<in> set ?ord then StCompensated else StPending)"
      using states rest split by (simp add: steps_are_def e(1))
    ultimately show ?thesis using f e unfolding saga_rolled_back_def by (intro conjI exI [of _ "[]"] exI [of _ ?ord]) auto
  qed
qed

text \<open>While a run goes forward: the committed steps in their order, everything else pending.\<close>

definition running :: "workflow \<Rightarrow> coord_state \<Rightarrow> step_id list \<Rightarrow> bool" where
  "running wk c ord \<longleftrightarrow> ordered wk c ord \<and> co_wf_state c (wf_id wk) = Some WfRunning \<and>
     steps_are wk c (\<lambda>i. if i \<in> set ord then StCommitted else StPending)"

lemma no_ready_step:
  assumes "valid_workflow wk" "running wk c ord" "find (step_ready wk (set ord) c) (wf_steps wk) = None"
  shows "set ord = ids wk"
proof (rule ccontr)
  assume "set ord \<noteq> ids wk"
  then have "ids wk - set ord \<noteq> {}" using assms(2) by (auto simp: running_def ordered_def)
  then obtain z where z: "z \<in> ids wk - set ord" "\<And>y. (y, z) \<in> depends (wf_steps wk) \<Longrightarrow> y \<notin> ids wk - set ord"
    using wfE_min' [OF valid_workflow_facts(4) [OF assms(1)]] by metis
  obtain s where s: "s \<in> set (wf_steps wk)" "sp_id s = z" using z(1) by (auto simp: ids_def)
  have "d \<in> set ord" if "d \<in> set (sp_depends_on s)" for d
  proof -
    have "(d, z) \<in> depends (wf_steps wk)" using s that by (auto simp: depends_def)
    then show ?thesis using z(2) valid_workflow_facts(3) [OF assms(1) s(1) that] by blast
  qed
  then have "step_ready wk (set ord) c s" using assms(2) z(1) s by (auto simp: step_ready_def running_def steps_are_def)
  then show False using assms(3) s(1) by (auto simp: find_None_iff)
qed

lemma run_ends:
  assumes valid: "valid_workflow wk" and env: "append_ok env"
  shows "running wk c ord \<Longrightarrow> exec_loop env wk (set ord) (c, w) = ((c', w'), r) \<Longrightarrow>
    \<exists>ord' f. ordered wk c' ord' \<and> (saga_succeeded wk c' ord' r \<or> saga_rolled_back wk c' ord' f r \<or> saga_stranded wk c' ord' f r)"
proof (induction "unstarted wk c" arbitrary: c w ord rule: less_induct)
  case less
  note run = less.prems(1) and loop = less.prems(2) [unfolded exec_loop.simps]
  have o: "ordered wk c ord" "distinct ord" "set ord \<subseteq> ids wk" "co_wf_state c (wf_id wk) = Some WfRunning"
    and st: "steps_are wk c (\<lambda>i. if i \<in> set ord then StCommitted else StPending)"
    using run by (simp_all add: running_def ordered_def)
  show ?case
  proof (cases "find (step_ready wk (set ord) c) (wf_steps wk)")
    case None
    have all: "set ord = ids wk" by (rule no_ready_step [OF valid run None])
    have "set_wf_state (wf_id wk) WfSucceeded c = (c\<lparr>co_wf_state := (co_wf_state c)(wf_id wk \<mapsto> WfSucceeded)\<rparr>, Inr ())"
      by (rule set_wf_state_ok [OF o(4)]) (simp add: workflow_can_transition_to_def)
    then have e: "c' = c\<lparr>co_wf_state := (co_wf_state c)(wf_id wk \<mapsto> WfSucceeded)\<rparr>" "r = Inr WfSucceeded"
      using loop None all valid_workflow_facts(5) [OF valid] by (simp_all add: finish_run_def)
    then have "ordered wk c' ord \<and> saga_succeeded wk c' ord r"
      using o(1) st all by (simp add: saga_succeeded_def ordered_def commit_order_def steps_are_def)
    then show ?thesis by blast
  next
    case (Some sp)
    let ?i = "sp_id sp" and ?c1 = "note_step c (wf_id wk) (sp_id sp) StRunning []"
    have sp: "sp \<in> set (wf_steps wk)" "step_ready wk (set ord) c sp" using Some by (auto simp: find_Some_iff)
    then have i: "?i \<in> ids wk - set ord" "set (sp_depends_on sp) \<subseteq> set ord" by (auto simp: ids_def step_ready_def)
    obtain w1 ev1 where r1: "record_step env (wf_id wk) ?i StRunning [] (c, w) = ((?c1, w1), Inr ev1)"
      by (rule record_step_ok [where c = c and wid = "wf_id wk" and i = ?i and s = StRunning, OF env])
        (use st i(1) in \<open>auto simp: steps_are_def step_can_transition_to_def\<close>)
    have c1: "ordered wk ?c1 ord" "co_wf_state ?c1 (wf_id wk) = Some WfRunning"
        "steps_are wk ?c1 (\<lambda>i. if i = ?i then StRunning else if i \<in> set ord then StCommitted else StPending)"
      using o st by (auto simp: ordered_def steps_are_def)
    show ?thesis
    proof (cases "se_executors env (sp_kind sp)")
      case None
      then have "c' = ?c1" "r = Inl (NoExecutor (sp_kind sp))" using loop Some r1 by simp_all
      then show ?thesis using c1 i by (auto simp: saga_stranded_def)
    next
      case act: (Some act)
      obtain w2 r2 where r2: "act (wf_id wk) sp w1 = (w2, r2)" by force
      show ?thesis
      proof (cases r2)
        case (Inl e)
        let ?c2 = "note_step ?c1 (wf_id wk) ?i StFailed (as_bytes (orch_error_string e))"
        let ?c3 = "?c2\<lparr>co_wf_state := (co_wf_state ?c2)(wf_id wk \<mapsto> WfCompensating)\<rparr>"
        obtain w3 ev2 where "record_step env (wf_id wk) ?i StFailed (as_bytes (orch_error_string e)) (?c1, w2) = ((?c2, w3), Inr ev2)"
          by (rule record_step_ok [where c = ?c1 and wid = "wf_id wk" and i = ?i and s = StFailed, OF env])
            (simp_all add: step_can_transition_to_def)
        moreover have "set_wf_state (wf_id wk) WfCompensating ?c2 = (?c3, Inr ())"
          by (rule set_wf_state_ok [where cur = WfRunning]) (use c1(2) in \<open>simp_all add: workflow_can_transition_to_def\<close>)
        ultimately have rb: "roll_back env wk (?c3, w3) = ((c', w'), r)"
          using loop Some r1 act r2 Inl by (simp add: fail_run_def)
        have "ordered wk ?c3 (ord @ [])" using c1(1) by (simp add: ordered_def commit_order_def note_step_def Let_def)
        moreover have "steps_are wk ?c3 (\<lambda>i. if i = ?i then StFailed else if i \<in> set ord then StCommitted
            else if i \<in> set [] then StCompensated else StPending)"
          using c1(3) by (auto simp: steps_are_def)
        ultimately show ?thesis using roll_back_result [OF valid env _ _ _ _ rb, of ord "[]" ?i] i(1) by auto
      next
        case (Inr out)
        let ?c2 = "note_step ?c1 (wf_id wk) ?i StCommitted out"
        obtain w3 ev2 where r3: "record_step env (wf_id wk) ?i StCommitted out (?c1, w2) = ((?c2, w3), Inr ev2)"
          by (rule record_step_ok [where c = ?c1 and wid = "wf_id wk" and i = ?i and s = StCommitted, OF env])
            (simp_all add: step_can_transition_to_def)
        have "running wk ?c2 (ord @ [?i])"
          using c1 i o deps_first_snoc [OF _ valid_workflow_facts(1) [OF valid] sp(1) i(2)]
          by (auto simp: running_def ordered_def steps_are_def)
        moreover have "exec_loop env wk (set (ord @ [?i])) (?c2, w3) = ((c', w'), r)"
          using loop Some r1 act r2 Inr r3 by simp
        ultimately show ?thesis using less.hyps [OF unstarted_less [OF Some r1 r3]] by blast
      qed
    qed
  qed
qed

text \<open>A workflow the coordinator has not seen.\<close>

definition unseen :: "coord_state \<Rightarrow> workflow_id \<Rightarrow> bool" where
  "unseen c wid \<longleftrightarrow> co_wf_state c wid = None \<and> co_committed_order c wid = None \<and> (\<forall>i. co_step_state c (wid, i) = None)"

lemma init_steps_ok:
  assumes "append_ok env" "\<forall>s \<in> set ss. co_step_state c (wid, sp_id s) \<in> {None, Some StPending}"
  shows "\<exists>c' w'. init_steps env wid ss (c, w) = ((c', w'), Inr ()) \<and> co_wf_state c' = co_wf_state c \<and> commit_order c' wid = commit_order c wid \<and>
    (\<forall>j. co_step_state c' j = (if j \<in> Pair wid ` sp_id ` set ss then Some StPending else co_step_state c j))"
  using assms(2)
proof (induction ss arbitrary: c w)
  case Nil
  then show ?case by simp
next
  case (Cons s ss)
  let ?c = "note_step c wid (sp_id s) StPending []"
  obtain w1 ev where 1: "record_step env wid (sp_id s) StPending [] (c, w) = ((?c, w1), Inr ev)"
    by (rule record_step_ok [where c = c and wid = wid and i = "sp_id s" and s = StPending, OF assms(1)])
      (use Cons.prems in \<open>auto simp: step_can_transition_to_def\<close>)
  have "\<forall>s \<in> set ss. co_step_state ?c (wid, sp_id s) \<in> {None, Some StPending}" using Cons.prems by auto
  then obtain c' w' where "init_steps env wid ss (?c, w1) = ((c', w'), Inr ())" "co_wf_state c' = co_wf_state ?c"
      "commit_order c' wid = commit_order ?c wid"
      "\<forall>j. co_step_state c' j = (if j \<in> Pair wid ` sp_id ` set ss then Some StPending else co_step_state ?c j)"
    using Cons.IH [of ?c w1] by blast
  then show ?case using 1 by (intro exI [of _ c'] exI [of _ w']) auto
qed

lemma execute_starts:
  assumes "append_ok env" "unseen c (wf_id wk)"
  shows "\<exists>c1 w1. running wk c1 [] \<and> saga_execute env wk (c, w) = exec_loop env wk (set []) (c1, w1)"
proof -
  let ?c = "c\<lparr>co_wf_state := (co_wf_state c)(wf_id wk \<mapsto> WfRunning)\<rparr>"
  obtain c1 w1 where 1: "init_steps env (wf_id wk) (wf_steps wk) (?c, w) = ((c1, w1), Inr ())" "co_wf_state c1 = co_wf_state ?c"
    "commit_order c1 (wf_id wk) = commit_order ?c (wf_id wk)"
    "\<forall>j. co_step_state c1 j = (if j \<in> Pair (wf_id wk) ` sp_id ` set (wf_steps wk) then Some StPending else co_step_state ?c j)"
    using init_steps_ok [OF assms(1), of "wf_steps wk" ?c "wf_id wk" w] assms(2) by (auto simp: unseen_def)
  have "running wk c1 []"
    using 1 assms(2) by (auto simp: running_def ordered_def steps_are_def unseen_def commit_order_def deps_first_def ids_def image_iff)
  moreover have "saga_execute env wk (c, w) = exec_loop env wk (set []) (c1, w1)"
    using 1(1) assms(2)
    by (simp add: saga_execute_def workflow_state_of_def unseen_def workflow_is_terminal_def set_wf_state_def)
  ultimately show ?thesis by blast
qed

lemma saga_ends:
  assumes "valid_workflow wk" "append_ok env" "unseen c (wf_id wk)" "saga_execute env wk (c, w) = ((c', w'), r)"
  shows "\<exists>ord f. ordered wk c' ord \<and> (saga_succeeded wk c' ord r \<or> saga_rolled_back wk c' ord f r \<or> saga_stranded wk c' ord f r)"
  using execute_starts [OF assms(2,3), of w] run_ends [OF assms(1,2)] assms(4) by metis

text \<open>An example: a payment, then a shipment for which there is no executor or whose executor fails.\<close>

definition pay_ship :: workflow where
  "pay_ship = \<lparr>wf_def = \<lparr>wd_id = ''order'', wd_steps =
       [\<lparr>sp_id = ''pay'', sp_kind = ''pay'', sp_input = [], sp_depends_on = []\<rparr>,
        \<lparr>sp_id = ''ship'', sp_kind = ''ship'', sp_input = [], sp_depends_on = [''pay'']\<rparr>]\<rparr>,
     wf_index = [''pay'' \<mapsto> 0, ''ship'' \<mapsto> 1]\<rparr>"

definition pay_env :: "unit saga_env" where
  "pay_env = register_compensator (register_executor (fst (saga_new (\<lambda>_ w. (w, Inr ())) (\<lambda>_ _ w. w)))
     ''pay'' (\<lambda>_ _ w. (w, Inr [1]))) ''pay'' (\<lambda>_ _ _ w. (w, Inr ()))"

definition ship_env :: "unit saga_env" where
  "ship_env = register_compensator (register_executor pay_env ''ship'' (\<lambda>_ _ w. (w, Inl (ExecError ''no truck''))))
     ''ship'' (\<lambda>_ _ _ w. (w, Inr ()))"

definition saga_start :: coord_state where
  "saga_start = snd (saga_new (\<lambda>_ w :: unit. (w, Inr ())) (\<lambda>_ _ w. w))"

lemmas saga_demo_defs = pay_ship_def pay_env_def ship_env_def saga_start_def saga_new_def register_executor_def register_compensator_def
  DEFAULT_COMPENSATION_ATTEMPTS_def

lemma pay_ship_valid: "valid_workflow pay_ship"
  by (simp add: valid_workflow_def workflow_new_def pay_ship_def check_deps_def assert_acyclic_def dep_edges_def)

lemma demo_envs_ok: "append_ok pay_env" "append_ok ship_env" "unseen saga_start (wf_id pay_ship)"
  by (simp_all add: append_ok_def saga_demo_defs unseen_def)

lemma pay_ship_ids: "ids pay_ship = {''pay'', ''ship''}" "wf_id pay_ship = ''order''"
  by (auto simp: ids_def wf_steps_def wf_id_def pay_ship_def)

text \<open>C36: the outcome of a run. A validated workflow that is executed for the first time, with a journal that takes every event,
  ends in one of three ways, and its steps were committed one after another, each after all its dependencies. Either every step is
  committed and the workflow succeeded. Or one step failed, the steps never started are pending, and of the committed steps the most
  recent ones are compensated: all of them, and the workflow is compensated, or all after a step at which compensation failed, and
  it is compensating. Or a step found no executor, and the workflow is left running. It is never reported as failed.\<close>

theorem saga_outcome:
  assumes "valid_workflow wk" "append_ok env" "unseen c (wf_id wk)" "saga_execute env wk (c, w) = ((c', w'), r)"
  shows "\<exists>ord f. ordered wk c' ord \<and> (saga_succeeded wk c' ord r \<or> saga_rolled_back wk c' ord f r \<or> saga_stranded wk c' ord f r)"
  using saga_ends [OF assms] .

theorem saga_outcome_witness:
  "\<exists>ord f. let x = saga_execute ship_env pay_ship (saga_start, ()) in ordered pay_ship (fst (fst x)) ord \<and>
     (saga_succeeded pay_ship (fst (fst x)) ord (snd x) \<or> saga_rolled_back pay_ship (fst (fst x)) ord f (snd x) \<or>
      saga_stranded pay_ship (fst (fst x)) ord f (snd x))"
  using saga_outcome [OF pay_ship_valid demo_envs_ok(2,3), of "()"] unfolding Let_def by (metis prod.collapse)

section \<open>Resuming a rollback\<close>

text \<open>The compensator of a step is registered and succeeds within its attempts.\<close>

definition compensator_works :: "'w saga_env \<Rightarrow> workflow \<Rightarrow> step_spec \<Rightarrow> bool" where
  "compensator_works env wk s \<longleftrightarrow> (\<exists>act. se_compensators env (sp_kind s) = Some act \<and>
     (\<forall>out w. \<exists>w'. compensate_retry (act (wf_id wk) s out) (unat (se_compensation_attempts env)) [] w = (w', Inr ())))"

lemma compensate_steps_ok:
  assumes "valid_workflow wk" "append_ok env" "set is \<subseteq> ids wk"
    and "\<forall>i \<in> set is. co_step_state c (wf_id wk, i) \<in> {Some StCommitted, Some StCompensated}"
    and "\<forall>s \<in> set (wf_steps wk). co_step_state c (wf_id wk, sp_id s) = Some StCommitted \<longrightarrow> compensator_works env wk s"
  shows "\<exists>cw. compensate_steps env wk is (c, w) = (cw, Inr ())"
  using assms(3-)
proof (induction "is" arbitrary: c w)
  case (Cons i "is")
  obtain s where s: "s \<in> set (wf_steps wk)" "sp_id s = i" using Cons.prems(1) by (auto simp: ids_def)
  then have spec: "wf_step wk i = Some s" using valid_workflow_facts(2) [OF assms(1)] by blast
  let ?out = "case co_step_output c (wf_id wk, i) of Some b \<Rightarrow> b | None \<Rightarrow> []"
  show ?case
  proof (cases "co_step_state c (wf_id wk, i) = Some StCompensated")
    case True
    then show ?thesis using Cons.IH [of c w] Cons.prems by simp
  next
    case False
    then have st: "co_step_state c (wf_id wk, i) = Some StCommitted" using Cons.prems(2) by auto
    let ?c = "note_step c (wf_id wk) i StCompensated []"
    obtain act w1 where act: "se_compensators env (sp_kind s) = Some act"
      "compensate_retry (act (wf_id wk) s ?out) (unat (se_compensation_attempts env)) [] w = (w1, Inr ())"
      using Cons.prems(3) s st unfolding compensator_works_def by blast
    obtain w2 ev where "record_step env (wf_id wk) i StCompensated [] (c, w1) = ((?c, w2), Inr ev)"
      by (rule record_step_ok [where c = c and wid = "wf_id wk" and i = i and s = StCompensated, OF assms(2)])
        (use st in \<open>auto simp: step_can_transition_to_def\<close>)
    moreover have "\<exists>cw. compensate_steps env wk is (?c, w2) = (cw, Inr ())"
      by (rule Cons.IH) (use Cons.prems in auto)
    ultimately show ?thesis using False spec act by simp
  qed
qed simp

text \<open>
  What a rollback may depend on. Two sets of compensators that do the same at the steps of \<open>S\<close> give the same rollback, in the
  coordinator and in the world, when every step to undo outside \<open>S\<close> is compensated already: those steps are not touched.
\<close>

definition same_compensators ::
    "workflow \<Rightarrow> step_spec set \<Rightarrow> (string \<rightharpoonup> (workflow_id \<Rightarrow> step_spec \<Rightarrow> bytes \<Rightarrow> 'w \<Rightarrow> 'w \<times> (orch_error + unit))) \<Rightarrow>
      (string \<rightharpoonup> (workflow_id \<Rightarrow> step_spec \<Rightarrow> bytes \<Rightarrow> 'w \<Rightarrow> 'w \<times> (orch_error + unit))) \<Rightarrow> bool" where
  "same_compensators wk S f g \<longleftrightarrow>
     (\<forall>s \<in> S. map_option (\<lambda>act. act (wf_id wk) s) (f (sp_kind s)) = map_option (\<lambda>act. act (wf_id wk) s) (g (sp_kind s)))"

text \<open>The steps of a workflow whose effect still stands.\<close>

definition standing :: "workflow \<Rightarrow> coord_state \<Rightarrow> step_spec set" where
  "standing wk c = {s \<in> set (wf_steps wk). co_step_state c (wf_id wk, sp_id s) = Some StCommitted}"

lemma record_step_env: "record_step (env\<lparr>se_compensators := f\<rparr>) = record_step env"
  by (intro ext) (simp add: record_step_def publish_event_def Let_def split: prod.splits option.splits sum.splits)

lemma compensate_steps_same:
  assumes "valid_workflow wk" "set is \<subseteq> ids wk"
    and "\<forall>i \<in> set is. co_step_state c (wf_id wk, i) \<in> {Some StCommitted, Some StCompensated}"
    and "same_compensators wk (standing wk c) f (se_compensators env)"
  shows "compensate_steps (env\<lparr>se_compensators := f\<rparr>) wk is (c, w) = compensate_steps env wk is (c, w)"
  using assms(2-)
proof (induction "is" arbitrary: c w)
  case (Cons i "is")
  obtain s where s: "s \<in> set (wf_steps wk)" "sp_id s = i" using Cons.prems(1) by (auto simp: ids_def)
  then have spec: "wf_step wk i = Some s" using valid_workflow_facts(2) [OF assms(1)] by blast
  show ?case
  proof (cases "co_step_state c (wf_id wk, i) = Some StCompensated")
    case True
    then show ?thesis using Cons by simp
  next
    case False
    then have "s \<in> standing wk c" using s Cons.prems(2) by (auto simp: standing_def)
    then have "map_option (\<lambda>act. act (wf_id wk) s) (f (sp_kind s)) = map_option (\<lambda>act. act (wf_id wk) s) (se_compensators env (sp_kind s))"
      using Cons.prems(3) by (simp add: same_compensators_def)
    then have act: "f (sp_kind s) = None \<and> se_compensators env (sp_kind s) = None \<or>
        (\<exists>a b. f (sp_kind s) = Some a \<and> se_compensators env (sp_kind s) = Some b \<and> a (wf_id wk) s = b (wf_id wk) s)"
      by (cases "f (sp_kind s)"; cases "se_compensators env (sp_kind s)") simp_all
    have rest: "compensate_steps (env\<lparr>se_compensators := f\<rparr>) wk is (c1, w1) = compensate_steps env wk is (c1, w1)"
      if "record_step env (wf_id wk) i StCompensated [] (c, w0) = ((c1, w1), Inr ev)" for c1 w0 w1 ev
    proof (rule Cons.IH)
      note c1 = record_step_Inr [OF that]
      show "\<forall>j \<in> set is. co_step_state c1 (wf_id wk, j) \<in> {Some StCommitted, Some StCompensated}"
        using c1 Cons.prems(2) by auto
      show "same_compensators wk (standing wk c1) f (se_compensators env)"
        using c1 Cons.prems(3) by (auto simp: same_compensators_def standing_def split: if_splits)
    qed (use Cons.prems(1) in simp)
    show ?thesis
      using act spec False rest by (auto simp: Let_def record_step_env split: prod.splits sum.splits)
  qed
qed simp

text \<open>C38: a halted rollback is not a dead end, and nothing is undone twice. From every state in which a run left the workflow
  compensating, \<open>resume_compensation\<close> finishes the rollback when the compensators of the steps that are still committed work and the
  journal takes every event: every committed step is compensated, the others stay as they were, and the workflow is compensated.
  The steps compensated before are skipped: replacing their compensators, by failing ones or none, changes neither the
  coordinator's state nor anything in the world.\<close>

theorem resume_completes:
  assumes "valid_workflow wk" "append_ok env" "ordered wk c ord" "saga_rolled_back wk c ord f (Inl e)"
    and "\<forall>s \<in> standing wk c. compensator_works env wk s"
  shows "\<exists>c' w'. resume_compensation env wk (c, w) = ((c', w'), Inr WfCompensated) \<and> ordered wk c' ord \<and>
    saga_rolled_back wk c' ord f (Inr WfCompensated) \<and>
    (\<forall>comps. same_compensators wk (standing wk c) comps (se_compensators env) \<longrightarrow>
       resume_compensation (env\<lparr>se_compensators := comps\<rparr>) wk (c, w) = ((c', w'), Inr WfCompensated))"
proof -
  obtain kept undone where k: "ord = kept @ undone" "f \<in> ids wk - set ord" "co_wf_state c (wf_id wk) = Some WfCompensating"
    "steps_are wk c (\<lambda>i. if i = f then StFailed else if i \<in> set kept then StCommitted else if i \<in> set undone then StCompensated else StPending)"
    using assms(4) by (auto simp: saga_rolled_back_def)
  have sub: "set ord \<subseteq> ids wk" using assms(3) by (simp add: ordered_def)
  have "co_step_state c (wf_id wk, i) = Some (if i \<in> set kept then StCommitted else StCompensated)" if "i \<in> set ord" for i
    using k that sub by (auto simp: steps_are_def)
  then have st: "set (rev ord) \<subseteq> ids wk" "\<forall>i \<in> set (rev ord). co_step_state c (wf_id wk, i) \<in> {Some StCommitted, Some StCompensated}"
    using sub by (auto split: if_splits)
  then obtain c1 w1 where "compensate_steps env wk (rev ord) (c, w) = ((c1, w1), Inr ())"
    using compensate_steps_ok [OF assms(1,2) st, of w] assms(5) unfolding standing_def by (metis (mono_tags, lifting) mem_Collect_eq prod.collapse)
  then have cc: "compensate_committed env wk (c, w) = ((c1, w1), Inr ())"
    using assms(3) by (simp add: compensate_committed_def ordered_def commit_order_def)
  obtain c' w' r where rb: "roll_back env wk (c, w) = ((c', w'), r)" by (metis prod.collapse)
  have res: "ordered wk c' ord \<and> saga_rolled_back wk c' ord f r"
    using roll_back_result [OF assms(1,2) _ _ k(4,3) rb] assms(3) k(1,2) by simp
  have r: "r = Inr WfCompensated"
  proof (rule ccontr)
    assume "r \<noteq> Inr WfCompensated"
    then obtain x where "set_wf_state (wf_id wk) WfCompensated c1 = (c', Inl x)"
      using rb cc by (auto simp: roll_back_def split: prod.splits sum.splits)
    then have "c' = c1" "co_wf_state c1 (wf_id wk) \<noteq> Some WfCompensating"
      by (auto simp: set_wf_state_def workflow_can_transition_to_def split: option.splits if_splits)
    then show False using res \<open>r \<noteq> Inr WfCompensated\<close> by (auto simp: saga_rolled_back_def)
  qed
  have same: "roll_back (env\<lparr>se_compensators := comps\<rparr>) wk (c, w) = ((c', w'), r)"
    if "same_compensators wk (standing wk c) comps (se_compensators env)" for comps
    using compensate_steps_same [OF assms(1) st that, of w] rb assms(3)
    by (simp add: roll_back_def compensate_committed_def ordered_def commit_order_def)
  show ?thesis using rb res r same k(3) by (simp add: resume_compensation_def workflow_state_of_def)
qed

theorem resume_completes_witness:
  "let c = \<lparr>co_seq = 6, co_step_state = [(''order'', ''pay'') \<mapsto> StCommitted, (''order'', ''ship'') \<mapsto> StFailed], co_step_output = Map.empty,
        co_wf_state = [''order'' \<mapsto> WfCompensating], co_committed_order = [''order'' \<mapsto> [''pay'']]\<rparr>
   in \<exists>c' w'. resume_compensation ship_env pay_ship (c, ()) = ((c', w'), Inr WfCompensated) \<and>
        co_step_state c' (''order'', ''pay'') = Some StCompensated"
proof -
  let ?c = "\<lparr>co_seq = 6, co_step_state = [(''order'', ''pay'') \<mapsto> StCommitted, (''order'', ''ship'') \<mapsto> StFailed], co_step_output = Map.empty,
        co_wf_state = [''order'' \<mapsto> WfCompensating], co_committed_order = [''order'' \<mapsto> [''pay'']]\<rparr>"
  have "compensate_retry (\<lambda>w. ((), Inr ())) 3 [] () = ((), Inr ())" by (simp add: numeral_3_eq_3)
  then have work: "\<forall>s \<in> standing pay_ship ?c. compensator_works ship_env pay_ship s"
    unfolding compensator_works_def standing_def saga_demo_defs by (simp add: wf_steps_def)
  have "deps_first pay_ship [''pay'']" by (simp add: deps_first_def wf_steps_def pay_ship_def)
  then have o: "ordered pay_ship ?c [''pay'']" by (simp add: ordered_def pay_ship_ids commit_order_def)
  have "rollback_error pay_ship ''pay'' (CompensateFailed ''pay'' ''bank closed'')" by (simp add: rollback_error_def)
  then have rb: "saga_rolled_back pay_ship ?c [''pay''] ''ship'' (Inl (CompensateFailed ''pay'' ''bank closed''))"
    unfolding saga_rolled_back_def by (intro conjI exI [of _ "[''pay'']"] exI [of _ "[]"]) (auto simp: pay_ship_ids steps_are_def)
  from resume_completes [OF pay_ship_valid demo_envs_ok(2) o rb work, of "()"] show ?thesis
    unfolding Let_def by (auto simp: saga_rolled_back_def steps_are_def pay_ship_ids)
qed

section \<open>Runs that end outside a rollback\<close>

datatype 'w saga_op = OpExecute "'w saga_env" | OpResume "'w saga_env"

fun saga_op_run :: "workflow \<Rightarrow> 'w saga_op \<Rightarrow> coord_state \<times> 'w \<Rightarrow> (coord_state \<times> 'w) \<times> (orch_error + workflow_state)" where
  "saga_op_run wk (OpExecute env) cw = saga_execute env wk cw"
| "saga_op_run wk (OpResume env) cw = resume_compensation env wk cw"

definition saga_stuck :: "workflow \<Rightarrow> coord_state \<Rightarrow> bool" where
  "saga_stuck wk c \<longleftrightarrow> co_wf_state c (wf_id wk) = Some WfRunning \<and> (\<exists>i \<in> ids wk. co_step_state c (wf_id wk, i) \<notin> {None, Some StPending})"

lemma record_pending:
  assumes "record_step env wid i StPending [] (c, w) = ((c', w'), r)"
  shows "co_wf_state c' = co_wf_state c \<and> (\<forall>j x. co_step_state c j = Some x \<longrightarrow> co_step_state c' j = Some x) \<and>
    (co_step_state c (wid, i) \<notin> {None, Some StPending} \<longrightarrow> (\<exists>e. r = Inl e))"
  using assms
  by (auto simp: record_step_def Let_def step_can_transition_to_def split: option.splits if_splits prod.splits sum.splits)

lemma init_steps_blocked:
  assumes "init_steps env wid ss (c, w) = ((c', w'), r)"
  shows "co_wf_state c' = co_wf_state c \<and> (\<forall>j x. co_step_state c j = Some x \<longrightarrow> co_step_state c' j = Some x) \<and>
    ((\<exists>s \<in> set ss. co_step_state c (wid, sp_id s) \<notin> {None, Some StPending}) \<longrightarrow> (\<exists>e. r = Inl e))"
  using assms
proof (induction ss arbitrary: c w)
  case (Cons s ss)
  obtain c1 w1 r1 where 1: "record_step env wid (sp_id s) StPending [] (c, w) = ((c1, w1), r1)" by (metis prod.collapse)
  note p = record_pending [OF 1]
  show ?case
  proof (cases r1)
    case (Inl e)
    then show ?thesis using Cons.prems 1 p by auto
  next
    case (Inr ev)
    then have "init_steps env wid ss (c1, w1) = ((c', w'), r)" using Cons.prems 1 by simp
    note IH = Cons.IH [OF this]
    have "co_step_state c1 (wid, sp_id t) \<notin> {None, Some StPending}" if "co_step_state c (wid, sp_id t) \<notin> {None, Some StPending}" for t
      using p that by (cases "co_step_state c (wid, sp_id t)") auto
    then show ?thesis using IH p Inr by (metis set_ConsD sum.distinct(1))
  qed
qed simp

lemma stuck_op:
  assumes "saga_stuck wk c" "saga_op_run wk op (c, w) = ((c', w'), r)"
  shows "(\<exists>e. r = Inl e) \<and> saga_stuck wk c' \<and> (\<forall>j x. co_step_state c j = Some x \<longrightarrow> co_step_state c' j = Some x)"
proof (cases op)
  case (OpResume env)
  then show ?thesis using assms by (auto simp: resume_compensation_def workflow_state_of_def saga_stuck_def)
next
  case (OpExecute env)
  have st: "set_wf_state (wf_id wk) WfRunning c = (c, Inr ())" "workflow_state_of c (wf_id wk) = WfRunning"
    using assms(1) by (auto simp: set_wf_state_def workflow_can_transition_to_def saga_stuck_def workflow_state_of_def fun_upd_idem)
  obtain c1 w1 r1 where i: "init_steps env (wf_id wk) (wf_steps wk) (c, w) = ((c1, w1), r1)" by (metis prod.collapse)
  note b = init_steps_blocked [OF i]
  then obtain e where e: "r1 = Inl e" using assms(1) by (force simp: saga_stuck_def ids_def)
  then have "c' = c1" "r = Inl e"
    using assms(2) OpExecute st i by (auto simp: saga_execute_def workflow_is_terminal_def)
  moreover have "saga_stuck wk c1"
  proof -
    obtain k where k: "k \<in> ids wk" "co_step_state c (wf_id wk, k) \<notin> {None, Some StPending}" using assms(1) by (auto simp: saga_stuck_def)
    then have "co_step_state c1 (wf_id wk, k) = co_step_state c (wf_id wk, k)" using b by (cases "co_step_state c (wf_id wk, k)") auto
    then show ?thesis using k b assms(1) unfolding saga_stuck_def by metis
  qed
  ultimately show ?thesis using b by simp
qed

text \<open>Once a step has been started its state never goes back to pending.\<close>

definition started :: "workflow \<Rightarrow> coord_state \<Rightarrow> bool" where
  "started wk c \<longleftrightarrow> (\<exists>i \<in> ids wk. co_step_state c (wf_id wk, i) \<notin> {None, Some StPending})"

lemma record_started:
  assumes "record_step env wid i s out (c, w) = ((c', w'), r)" "s \<noteq> StPending"
  shows "\<forall>j. co_step_state c j \<notin> {None, Some StPending} \<longrightarrow> co_step_state c' j \<notin> {None, Some StPending}"
    and "co_step_state c (wid, i) \<in> {None, Some StPending} \<and> s = StRunning \<longrightarrow> co_step_state c' (wid, i) \<notin> {None, Some StPending}"
  using assms
  by (auto simp: record_step_def Let_def step_can_transition_to_def split: option.splits if_splits prod.splits sum.splits)

lemma started_mono:
  "started wk c \<Longrightarrow> \<forall>j. co_step_state c j \<notin> {None, Some StPending} \<longrightarrow> co_step_state c' j \<notin> {None, Some StPending} \<Longrightarrow> started wk c'"
  by (fastforce simp: started_def)

lemma started_record:
  assumes "started wk c" "record_step env wid i s out (c, w) = ((c', w'), r)" "s \<noteq> StPending"
  shows "started wk c'"
  using started_mono [OF assms(1) record_started(1) [OF assms(2,3)]] .

lemma started_compensate:
  "started wk c \<Longrightarrow> compensate_steps env wk is (c, w) = ((c', w'), r) \<Longrightarrow> started wk c'"
proof (induction "is" arbitrary: c w)
  case (Cons i "is")
  have rec: "started wk c1" if "record_step env (wf_id wk) i StCompensated [] (c, w0) = ((c1, w1), r1)" for w0 c1 w1 r1
    using started_record [OF Cons.prems(1) that] by simp
  show ?case
    using Cons.prems Cons.IH rec
    by (fastforce simp: Let_def split: if_splits option.splits prod.splits sum.splits)
qed simp

lemma started_set_wf_state: "set_wf_state wid s c = (c', r) \<Longrightarrow> started wk c' = started wk c"
proof -
  assume "set_wf_state wid s c = (c', r)"
  then have "co_step_state c' = co_step_state c" by (auto simp: set_wf_state_def split: option.splits if_splits)
  then show ?thesis by (simp add: started_def)
qed

lemma started_fail_run:
  assumes "started wk c" "fail_run env wk i e (c, w) = ((c', w'), r)"
  shows "started wk c'"
proof -
  obtain c1 w1 r1 where 1: "record_step env (wf_id wk) i StFailed (as_bytes (orch_error_string e)) (c, w) = ((c1, w1), r1)"
    by (metis prod.collapse)
  have s1: "started wk c1" using started_record [OF assms(1) 1] by simp
  obtain c2 r2 where 2: "set_wf_state (wf_id wk) WfCompensating c1 = (c2, r2)" by force
  have s2: "started wk c2" using s1 started_set_wf_state [OF 2] by simp
  obtain c3 w3 r3 where 3: "compensate_committed env wk (c2, w1) = ((c3, w3), r3)" by (metis prod.collapse)
  have s3: "started wk c3" using started_compensate [OF s2] 3 by (simp add: compensate_committed_def)
  show ?thesis
    using assms(2) 1 2 3 s1 s2 s3 started_set_wf_state [of "wf_id wk" WfCompensated c3]
    by (auto simp: fail_run_def roll_back_def split: sum.splits prod.splits)
qed

lemma exec_loop_started:
  "started wk c \<or> co_wf_state c (wf_id wk) = Some WfRunning \<and> snd (exec_loop env wk committed (c, w)) = Inl e \<Longrightarrow>
   started wk (fst (fst (exec_loop env wk committed (c, w))))"
proof (induction "unstarted wk c" arbitrary: c w committed rule: less_induct)
  case less
  show ?case
  proof (cases "find (step_ready wk committed c) (wf_steps wk)")
    case None
    let ?s = "if card committed \<noteq> length (wf_steps wk) then WfFailed else WfSucceeded"
    obtain c' r where f: "set_wf_state (wf_id wk) ?s c = (c', r)" by force
    have x: "exec_loop env wk committed (c, w) = ((c', w), case r of Inl e \<Rightarrow> Inl e | Inr _ \<Rightarrow> Inr ?s)"
      using None f by (simp add: exec_loop.simps finish_run_def Let_def split: sum.splits)
    have "r = Inr ()" if "co_wf_state c (wf_id wk) = Some WfRunning"
      using f that by (auto simp: set_wf_state_def workflow_can_transition_to_def split: if_splits)
    then have "started wk c" using less.prems x by auto
    then show ?thesis using x started_set_wf_state [OF f] by simp
  next
    case (Some sp)
    have sp: "sp_id sp \<in> ids wk" "co_step_state c (wf_id wk, sp_id sp) \<in> {None, Some StPending}"
      using Some by (auto simp: find_Some_iff ids_def step_ready_def)
    obtain c1 w1 r1 where 1: "record_step env (wf_id wk) (sp_id sp) StRunning [] (c, w) = ((c1, w1), r1)" by (metis prod.collapse)
    have s1: "started wk c1" using record_started(2) [OF 1] sp by (auto simp: started_def)
    show ?thesis
    proof (cases "\<exists>ev act w2 out. r1 = Inr ev \<and> se_executors env (sp_kind sp) = Some act \<and> act (wf_id wk) sp w1 = (w2, Inr out)")
      case False
      have fr: "started wk (fst (fst (fail_run env wk i x (c1, w2))))" for i x w2
        using started_fail_run [OF s1] by (metis prod.collapse)
      show ?thesis
        using False Some 1 s1 fr
        by (auto simp: exec_loop.simps [of env wk committed c w] split: sum.splits option.splits prod.splits)
    next
      case True
      then obtain ev act w2 out where t: "r1 = Inr ev" "se_executors env (sp_kind sp) = Some act" "act (wf_id wk) sp w1 = (w2, Inr out)" by blast
      obtain c2 w3 r3 where 3: "record_step env (wf_id wk) (sp_id sp) StCommitted out (c1, w2) = ((c2, w3), r3)" by (metis prod.collapse)
      have s2: "started wk c2" using started_record [OF s1 3] by simp
      show ?thesis
      proof (cases r3)
        case (Inl e')
        then show ?thesis using Some 1 t 3 s2 by (simp add: exec_loop.simps [of env wk committed c w])
      next
        case (Inr ev2)
        have "unstarted wk c2 < unstarted wk c"
          using unstarted_less [OF Some 1 [unfolded t(1)] 3 [unfolded Inr]] .
        then show ?thesis
          using less.hyps [of c2 "insert (sp_id sp) committed" w3] s2 Some 1 t 3 Inr by (simp add: exec_loop.simps [of env wk committed c w])
      qed
    qed
  qed
qed

lemma run_stuck:
  assumes "saga_execute env wk (c, w) = ((c1, w1), Inl e)" "co_wf_state c1 (wf_id wk) = Some WfRunning"
    and "init_steps env (wf_id wk) (wf_steps wk) (c\<lparr>co_wf_state := (co_wf_state c)(wf_id wk \<mapsto> WfRunning)\<rparr>, w) = (cw0, Inr ())"
  shows "saga_stuck wk c1"
proof -
  let ?c = "c\<lparr>co_wf_state := (co_wf_state c)(wf_id wk \<mapsto> WfRunning)\<rparr>"
  obtain c0 w0 where 0: "cw0 = (c0, w0)" by force
  have r0: "co_wf_state c0 (wf_id wk) = Some WfRunning" using init_steps_blocked [OF assms(3) [unfolded 0]] by simp
  have "co_wf_state c (wf_id wk) \<in> {None, Some WfRunning}"
    using assms(1,2)
    by (auto simp: saga_execute_def Let_def workflow_state_of_def workflow_is_terminal_def set_wf_state_def workflow_can_transition_to_def
        split: if_splits option.splits)
  then have "saga_execute env wk (c, w) = exec_loop env wk {} (c0, w0)"
    using assms(3) 0
    by (auto simp: saga_execute_def Let_def workflow_state_of_def workflow_is_terminal_def set_wf_state_def workflow_can_transition_to_def)
  then have "exec_loop env wk {} (c0, w0) = ((c1, w1), Inl e)" using assms(1) by simp
  then have "started wk c1" using exec_loop_started [of wk c0 env "{}" w0 e] r0 by simp
  then show ?thesis using assms(2) by (simp add: saga_stuck_def started_def)
qed

text \<open>C39: an error outside a rollback strands what was committed. When a run has recorded its steps as pending and then returns an
  error while the workflow still counts as running, as it does when a step has no executor or when the journal fails on the record of
  a started, committed or failed step, then whatever is tried afterwards, with whatever executors, compensators and journals:
  every further \<open>execute\<close> and every \<open>resume_compensation\<close> is refused, the workflow stays running, and the steps
  that were committed stay committed and are never compensated.\<close>

theorem stranded_saga:
  assumes "saga_execute env wk (c, w) = ((c1, w1), Inl e)" "co_wf_state c1 (wf_id wk) = Some WfRunning"
    and "init_steps env (wf_id wk) (wf_steps wk) (c\<lparr>co_wf_state := (co_wf_state c)(wf_id wk \<mapsto> WfRunning)\<rparr>, w) = (cw0, Inr ())"
    and "foldl (\<lambda>cw op. fst (saga_op_run wk op cw)) (c1, w1) ops = (c2, w2)"
  shows "(\<exists>e'. snd (saga_op_run wk op (c2, w2)) = Inl e') \<and> co_wf_state c2 (wf_id wk) = Some WfRunning \<and>
    (\<forall>i. co_step_state c1 (wf_id wk, i) = Some StCommitted \<longrightarrow> co_step_state c2 (wf_id wk, i) = Some StCommitted)"
proof -
  have stuck: "saga_stuck wk c1" by (rule run_stuck [OF assms(1-3)])
  have run: "saga_stuck wk c2 \<and> (\<forall>j x. co_step_state c1 j = Some x \<longrightarrow> co_step_state c2 j = Some x)"
    using assms(4)
  proof (induction ops arbitrary: c2 w2 rule: rev_induct)
    case Nil
    then show ?case using stuck by simp
  next
    case (snoc op ops)
    obtain c3 w3 where 3: "foldl (\<lambda>cw op. fst (saga_op_run wk op cw)) (c1, w1) ops = (c3, w3)" by force
    obtain c4 w4 r where 4: "saga_op_run wk op (c3, w3) = ((c4, w4), r)" by (metis prod.collapse)
    then show ?case using snoc.IH [OF 3] snoc.prems 3 stuck_op [OF _ 4] by auto
  qed
  obtain c4 w4 r where "saga_op_run wk op (c2, w2) = ((c4, w4), r)" by (metis prod.collapse)
  then show ?thesis using run stuck_op [of wk c2 op w2 c4 w4 r] by (auto simp: saga_stuck_def)
qed

theorem stranded_saga_witness:
  "let x = saga_execute pay_env pay_ship (saga_start, ()) in
    co_step_state (fst (fst x)) (''order'', ''pay'') = Some StCommitted \<and>
    (\<exists>e. snd (resume_compensation ship_env pay_ship (fst (saga_execute ship_env pay_ship (fst x)))) = Inl e)"
proof -
  let ?x = "saga_execute pay_env pay_ship (saga_start, ())"
  have x: "snd ?x = Inl (NoExecutor ''ship'')" "co_wf_state (fst (fst ?x)) (wf_id pay_ship) = Some WfRunning"
    "co_step_state (fst (fst ?x)) (''order'', ''pay'') = Some StCommitted"
    by (simp_all add: saga_execute_def workflow_state_of_def workflow_is_terminal_def set_wf_state_def workflow_can_transition_to_def
        exec_loop.simps record_step_def note_step_def step_can_transition_to_def step_ready_def publish_event_def Let_def saga_demo_defs
        wf_id_def wf_steps_def)
  obtain c1 w1 where 1: "?x = ((c1, w1), Inl (NoExecutor ''ship''))" using x(1) by (metis prod.collapse)
  obtain c2 w2 where 2: "foldl (\<lambda>cw op. fst (saga_op_run pay_ship op cw)) (c1, w1) [OpExecute ship_env] = (c2, w2)"
    by (metis prod.collapse)
  have "\<exists>cw0. init_steps pay_env (wf_id pay_ship) (wf_steps pay_ship)
      (saga_start\<lparr>co_wf_state := (co_wf_state saga_start)(wf_id pay_ship \<mapsto> WfRunning)\<rparr>, ()) = (cw0, Inr ())"
    using init_steps_ok [OF demo_envs_ok(1), of "wf_steps pay_ship"
        "saga_start\<lparr>co_wf_state := (co_wf_state saga_start)(wf_id pay_ship \<mapsto> WfRunning)\<rparr>" "wf_id pay_ship" "()"] demo_envs_ok(3)
    unfolding unseen_def by auto
  then obtain cw0 where i: "init_steps pay_env (wf_id pay_ship) (wf_steps pay_ship)
      (saga_start\<lparr>co_wf_state := (co_wf_state saga_start)(wf_id pay_ship \<mapsto> WfRunning)\<rparr>, ()) = (cw0, Inr ())" by blast
  have "\<exists>e. snd (saga_op_run pay_ship (OpResume ship_env) (c2, w2)) = Inl e"
    using stranded_saga [OF 1 _ i 2, of "OpResume ship_env"] x(2) 1 by simp
  then show ?thesis using x(3) 1 2 by (simp add: Let_def)
qed

end
