(* ===== verification/Plumtree.thy ===== *)
theory Plumtree
  imports Bytes
begin

text \<open>
  The Plumtree broadcaster of \<open>333-gossip/src/lib.rs\<close>: one node's eager and lazy views, the messages it has
  seen and the announcements it has not answered, and the events each call emits. The state behind the
  mutex is the record that every call takes and returns. The views are sets; the order in which a
  \<open>HashSet\<close> is iterated is a parameter, a function that lists a set.
\<close>

section \<open>State and events\<close>

type_synonym gnode = bytes
type_synonym msg_id = bytes
type_synonym hash_order = "gnode \<Rightarrow> gnode set \<Rightarrow> gnode list"

definition hash_order_ok :: "hash_order \<Rightarrow> bool" where
  "hash_order_ok ho \<longleftrightarrow> (\<forall>me S. finite S \<longrightarrow> set (ho me S) = S \<and> distinct (ho me S))"

record gossip_msg =
  gm_id :: msg_id
  gm_payload :: bytes
  gm_sender :: gnode

datatype gossip_event =
    Eager gnode gossip_msg
  | IHave gnode msg_id gnode
  | Graft gnode msg_id
  | Prune gnode

record plumtree =
  pt_me :: gnode
  pt_eager :: "gnode set"
  pt_lazy :: "gnode set"
  pt_seen :: "msg_id \<rightharpoonup> bytes"
  pt_pending :: "(gnode \<times> msg_id \<times> gnode) list"

section \<open>Operations\<close>

definition plumtree_new :: "gnode \<Rightarrow> plumtree" where
  "plumtree_new me = \<lparr>pt_me = me, pt_eager = {}, pt_lazy = {}, pt_seen = Map.empty, pt_pending = []\<rparr>"

definition pt_add_peer :: "plumtree \<Rightarrow> gnode \<Rightarrow> plumtree" where
  "pt_add_peer g p = g\<lparr>pt_lazy := pt_lazy g - {p}, pt_eager := insert p (pt_eager g)\<rparr>"

definition pt_remove_peer :: "plumtree \<Rightarrow> gnode \<Rightarrow> plumtree" where
  "pt_remove_peer g p = g\<lparr>pt_eager := pt_eager g - {p}, pt_lazy := pt_lazy g - {p}\<rparr>"

definition pt_eager_peers :: "hash_order \<Rightarrow> plumtree \<Rightarrow> gnode list" where
  "pt_eager_peers ho g = ho (pt_me g) (pt_eager g)"

definition pt_lazy_peers :: "hash_order \<Rightarrow> plumtree \<Rightarrow> gnode list" where
  "pt_lazy_peers ho g = ho (pt_me g) (pt_lazy g)"

definition pending_ihaves :: "plumtree \<Rightarrow> nat" where
  "pending_ihaves g = length (pt_pending g)"

definition pt_tick :: "plumtree \<Rightarrow> plumtree \<times> gossip_event list" where
  "pt_tick g =
     (let items = pt_pending g; g = g\<lparr>pt_pending := []\<rparr>
      in (g, map (\<lambda>(fr, i, origin). Graft fr i) (filter (\<lambda>(fr, i, origin). pt_seen g i = None) items)))"

definition pt_broadcast :: "hash_order \<Rightarrow> plumtree \<Rightarrow> bytes \<Rightarrow> msg_id \<Rightarrow> plumtree \<times> gossip_event list" where
  "pt_broadcast ho g payload i =
     (let old = pt_seen g i; g = g\<lparr>pt_seen := (pt_seen g)(i \<mapsto> payload)\<rparr>
      in if old \<noteq> None then (g, [])
         else (let msg = \<lparr>gm_id = i, gm_payload = payload, gm_sender = pt_me g\<rparr>
           in (g, map (\<lambda>p. Eager p msg) (ho (pt_me g) (pt_eager g)) @
                  map (\<lambda>p. IHave p i (pt_me g)) (ho (pt_me g) (pt_lazy g)))))"

definition on_receive :: "hash_order \<Rightarrow> plumtree \<Rightarrow> gossip_msg \<Rightarrow> plumtree \<times> gossip_event list" where
  "on_receive ho g msg =
     (if pt_seen g (gm_id msg) \<noteq> None
      then (if gm_sender msg \<in> pt_eager g
            then (g\<lparr>pt_eager := pt_eager g - {gm_sender msg}, pt_lazy := insert (gm_sender msg) (pt_lazy g)\<rparr>,
                  [Prune (gm_sender msg)])
            else (g, []))
      else (let g = g\<lparr>pt_seen := (pt_seen g)(gm_id msg \<mapsto> gm_payload msg)\<rparr>; origin = gm_sender msg
        in (g, map (\<lambda>p. Eager p (msg\<lparr>gm_sender := pt_me g\<rparr>)) (filter (\<lambda>p. p \<noteq> origin) (ho (pt_me g) (pt_eager g))) @
               map (\<lambda>p. IHave p (gm_id msg) (pt_me g)) (filter (\<lambda>p. p \<noteq> origin) (ho (pt_me g) (pt_lazy g))))))"

definition on_ihave :: "plumtree \<Rightarrow> gnode \<Rightarrow> msg_id \<Rightarrow> gnode \<Rightarrow> plumtree \<times> gossip_event list" where
  "on_ihave g fr i origin =
     (if pt_seen g i \<noteq> None then (g, []) else (g\<lparr>pt_pending := pt_pending g @ [(fr, i, origin)]\<rparr>, []))"

definition on_graft :: "plumtree \<Rightarrow> gnode \<Rightarrow> msg_id \<Rightarrow> plumtree \<times> gossip_event list" where
  "on_graft g fr i =
     (let g = g\<lparr>pt_lazy := pt_lazy g - {fr}, pt_eager := insert fr (pt_eager g)\<rparr>
      in case pt_seen g i of
           Some payload \<Rightarrow> (g, [Eager fr \<lparr>gm_id = i, gm_payload = payload, gm_sender = pt_me g\<rparr>])
         | None \<Rightarrow> (g, []))"

definition on_prune :: "plumtree \<Rightarrow> gnode \<Rightarrow> plumtree" where
  "on_prune g fr =
     (if fr \<in> pt_eager g then g\<lparr>pt_eager := pt_eager g - {fr}, pt_lazy := insert fr (pt_lazy g)\<rparr> else g)"

definition pt_get :: "plumtree \<Rightarrow> msg_id \<Rightarrow> bytes option" where
  "pt_get g i = pt_seen g i"

end
