(* ===== verification/Epidemic.thy ===== *)
theory Epidemic
  imports Net Plumtree
begin

text \<open>
  Epidemic dissemination over the authority mesh (\<open>333-transfer/src/epidemic.rs\<close>): endpoints that run
  \<open>Plumtree\<close> and carry its events as mesh messages and control messages. An operation takes and returns
  the endpoint and the network it shares with the others. The helpers over slices of endpoint references
  take a store of endpoints, by peer id, and the list of ids.
\<close>

unbundle bit_operations_syntax

section \<open>Identifiers\<close>

definition mix64 :: "u64 \<Rightarrow> u64" where
  "mix64 x =
     (let x = x XOR drop_bit 30 x; x = x * 0xbf58476d1ce4e5b9;
          x = x XOR drop_bit 27 x; x = x * 0x94d049bb133111eb
      in x XOR drop_bit 31 x)"

fun mix_input :: "nat \<Rightarrow> bytes \<Rightarrow> bytes \<Rightarrow> bytes" where
  "mix_input i [] out = out"
| "mix_input i (b # bs) out =
     (let out = out[i mod 32 := out ! (i mod 32) XOR (b * 31 + of_nat i)];
          j = (i * 7 + 13) mod 32
      in mix_input (Suc i) bs (out[j := out ! j + b * 3]))"

definition stable_hash32 :: "bytes \<Rightarrow> bytes" where
  "stable_hash32 input =
     (let h = foldl (\<lambda>h b. (h XOR ucast b) * 0x100000001b3) (0xcbf29ce484222325 :: u64) input;
          h = (h XOR of_nat (length input)) * 0x100000001b3
      in mix_input 0 input (concat (map (\<lambda>i. u64_le (mix64 (h + of_nat i * 0x9e3779b97f4a7c15))) [0..<4])))"

definition peer_node_id :: "peer_id \<Rightarrow> gnode" where
  "peer_node_id p = stable_hash32 (as_bytes p)"

definition msg_id_of :: "bytes \<Rightarrow> msg_id" where
  "msg_id_of payload = stable_hash32 payload"

section \<open>The network\<close>

datatype control_msg =
    CtlIHave peer_id msg_id peer_id
  | CtlGraft peer_id msg_id
  | CtlPrune peer_id

record epi_net =
  en_mesh :: mesh
  en_control :: "(peer_id, control_msg list) btree"

record endpoint =
  ep_me :: peer_id
  ep_plumtree :: plumtree
  ep_peers :: "gnode \<rightharpoonup> peer_id"
  ep_app_inbox :: "authority_msg list"
  ep_deliver_counts :: "msg_id \<rightharpoonup> nat"

definition epi_new :: epi_net where
  "epi_new = \<lparr>en_mesh = mesh_new, en_control = []\<rparr>"

definition epi_join :: "epi_net \<Rightarrow> peer_id \<Rightarrow> epi_net \<times> endpoint" where
  "epi_join n p =
     (n\<lparr>en_mesh := mesh_join (en_mesh n) p,
        en_control := (case map_of (en_control n) p of None \<Rightarrow> bt_insert p [] (en_control n) | Some _ \<Rightarrow> en_control n)\<rparr>,
      \<lparr>ep_me = p, ep_plumtree = plumtree_new (peer_node_id p), ep_peers = Map.empty, ep_app_inbox = [],
       ep_deliver_counts = Map.empty\<rparr>)"

definition control_deliver :: "epi_net \<Rightarrow> peer_id \<Rightarrow> control_msg \<Rightarrow> epi_net \<times> (net_error + unit)" where
  "control_deliver n p c =
     (case map_of (en_control n) p of
        None \<Rightarrow> (n, Inl (UnknownPeer p))
      | Some mb \<Rightarrow> (n\<lparr>en_control := bt_insert p (mb @ [c]) (en_control n)\<rparr>, Inr ()))"

definition control_drain :: "epi_net \<Rightarrow> peer_id \<Rightarrow> epi_net \<times> control_msg list" where
  "control_drain n me =
     (case map_of (en_control n) me of
        None \<Rightarrow> (n, [])
      | Some q \<Rightarrow> (n\<lparr>en_control := bt_insert me [] (en_control n)\<rparr>, q))"

section \<open>Endpoints\<close>

text \<open>What an endpoint gets from outside: signature parsing, the iteration order of its sets, and the base58 text of a node.\<close>

record epi_env =
  ee_crypto :: crypto
  ee_order :: hash_order
  ee_base58 :: "gnode \<Rightarrow> string"

definition has_msg :: "endpoint \<Rightarrow> msg_id \<Rightarrow> bool" where
  "has_msg e i = (pt_get (ep_plumtree e) i \<noteq> None)"

definition ep_add_peer :: "endpoint \<Rightarrow> peer_id \<Rightarrow> endpoint" where
  "ep_add_peer e p =
     (if p = ep_me e then e
      else e\<lparr>ep_peers := (ep_peers e)(peer_node_id p \<mapsto> p), ep_plumtree := pt_add_peer (ep_plumtree e) (peer_node_id p)\<rparr>)"

definition ep_remove_peer :: "endpoint \<Rightarrow> peer_id \<Rightarrow> endpoint" where
  "ep_remove_peer e p =
     e\<lparr>ep_peers := (ep_peers e)(peer_node_id p := None), ep_plumtree := pt_remove_peer (ep_plumtree e) (peer_node_id p)\<rparr>"

text \<open>\<open>peers.entry(n).or_insert_with(|| peer)\<close>\<close>

definition learn_peer :: "endpoint \<Rightarrow> peer_id \<Rightarrow> endpoint" where
  "learn_peer e p =
     (case ep_peers e (peer_node_id p) of
        None \<Rightarrow> e\<lparr>ep_peers := (ep_peers e)(peer_node_id p \<mapsto> p)\<rparr> | Some _ \<Rightarrow> e)"

definition remove_eager_edge :: "epi_env \<Rightarrow> endpoint \<Rightarrow> peer_id \<Rightarrow> endpoint" where
  "remove_eager_edge env e p =
     (let n = peer_node_id p; e = learn_peer e p; t = ep_plumtree e;
          t = (if n \<notin> set (pt_eager_peers (ee_order env) t) \<and> n \<notin> set (pt_lazy_peers (ee_order env) t) then pt_add_peer t n else t)
      in e\<lparr>ep_plumtree := on_prune t n\<rparr>)"

definition ep_eager_peers :: "epi_env \<Rightarrow> endpoint \<Rightarrow> peer_id list" where
  "ep_eager_peers env e = List.map_filter (ep_peers e) (pt_eager_peers (ee_order env) (ep_plumtree e))"

definition ep_lazy_peers :: "epi_env \<Rightarrow> endpoint \<Rightarrow> peer_id list" where
  "ep_lazy_peers env e = List.map_filter (ep_peers e) (pt_lazy_peers (ee_order env) (ep_plumtree e))"

definition deliver_count :: "endpoint \<Rightarrow> msg_id \<Rightarrow> nat" where
  "deliver_count e i = (case ep_deliver_counts e i of Some k \<Rightarrow> k | None \<Rightarrow> 0)"

definition resolve_peer :: "epi_env \<Rightarrow> endpoint \<Rightarrow> gnode \<Rightarrow> net_error + peer_id" where
  "resolve_peer env e n = ok_or (UnknownPeer (''node:'' @ ee_base58 env n)) (ep_peers e n)"

fun wire_error_debug :: "wire_error \<Rightarrow> string" where
  "wire_error_debug Truncated = ''Truncated''"
| "wire_error_debug BadDomain = ''BadDomain''"
| "wire_error_debug BadUtf8 = ''BadUtf8''"
| "wire_error_debug BadNetworkId = ''BadNetworkId''"
| "wire_error_debug BadSignature = ''BadSignature''"
| "wire_error_debug (LengthOverflow f l) =
     ''LengthOverflow { field: '' @ [char_of (34::nat)] @ f @ [char_of (34::nat)] @ '', length: '' @ dec_string (unat l) @ '' }''"
| "wire_error_debug (FieldTooLong f l k) =
     ''FieldTooLong { field: '' @ [char_of (34::nat)] @ f @ [char_of (34::nat)] @ '', length: '' @ dec_string (unat l) @
     '', max: '' @ dec_string k @ '' }''"
| "wire_error_debug (TooManyVotes c k) =
     ''TooManyVotes { count: '' @ dec_string (unat c) @ '', max: '' @ dec_string k @ '' }''"
| "wire_error_debug (UnknownTag t) = ''UnknownTag('' @ dec_string (unat t) @ '')''"

fun dispatch_event :: "epi_env \<Rightarrow> endpoint \<Rightarrow> epi_net \<Rightarrow> gossip_event \<Rightarrow> epi_net \<times> (net_error + unit)" where
  "dispatch_event env e n (Eager t msg) =
     (case resolve_peer env e t of
        Inl x \<Rightarrow> (n, Inl x)
      | Inr peer \<Rightarrow>
         (case decode_authority_msg (ee_crypto env) (gm_payload msg) of
            Inl x \<Rightarrow> (n, Inl (NetIo (''epidemic eager payload decode: '' @ wire_error_debug x)))
          | Inr auth \<Rightarrow>
             (case deliver_to_from (en_mesh n) peer (Some (ep_me e)) auth of (g, r) \<Rightarrow> (n\<lparr>en_mesh := g\<rparr>, r))))"
| "dispatch_event env e n (IHave t i sender) =
     (case resolve_peer env e t of
        Inl x \<Rightarrow> (n, Inl x)
      | Inr peer \<Rightarrow>
         (let origin = (case resolve_peer env e sender of Inr q \<Rightarrow> q | Inl _ \<Rightarrow> ep_me e)
          in control_deliver n peer (CtlIHave (ep_me e) i origin)))"
| "dispatch_event env e n (Graft t i) =
     (case resolve_peer env e t of Inl x \<Rightarrow> (n, Inl x) | Inr peer \<Rightarrow> control_deliver n peer (CtlGraft (ep_me e) i))"
| "dispatch_event env e n (Prune t) =
     (case resolve_peer env e t of Inl x \<Rightarrow> (n, Inl x) | Inr peer \<Rightarrow> control_deliver n peer (CtlPrune (ep_me e)))"

fun dispatch_events :: "epi_env \<Rightarrow> endpoint \<Rightarrow> epi_net \<Rightarrow> gossip_event list \<Rightarrow> epi_net \<times> (net_error + unit)" where
  "dispatch_events env e n [] = (n, Inr ())"
| "dispatch_events env e n (ev # evs) =
     (case dispatch_event env e n ev of
        (n, Inl x) \<Rightarrow> (n, Inl x)
      | (n, Inr _) \<Rightarrow> dispatch_events env e n evs)"

definition push_app :: "endpoint \<Rightarrow> authority_msg \<Rightarrow> msg_id \<Rightarrow> endpoint" where
  "push_app e m i =
     e\<lparr>ep_deliver_counts := (ep_deliver_counts e)(i \<mapsto> (case ep_deliver_counts e i of Some k \<Rightarrow> k | None \<Rightarrow> 0) + 1),
       ep_app_inbox := ep_app_inbox e @ [m]\<rparr>"

definition on_eager_payload ::
    "epi_env \<Rightarrow> endpoint \<Rightarrow> epi_net \<Rightarrow> peer_id \<Rightarrow> authority_msg \<Rightarrow> endpoint \<times> epi_net \<times> (net_error + unit)" where
  "on_eager_payload env e n fr m =
     (let e = learn_peer e fr;
          payload = encode_authority_msg m;
          i = msg_id_of payload;
          already = (pt_get (ep_plumtree e) i \<noteq> None);
          (t, events) = on_receive (ee_order env) (ep_plumtree e) \<lparr>gm_id = i, gm_payload = payload, gm_sender = peer_node_id fr\<rparr>;
          e = e\<lparr>ep_plumtree := t\<rparr>;
          e = (if \<not> already then push_app e m i else e)
      in (e, dispatch_events env e n events))"

fun on_control :: "epi_env \<Rightarrow> endpoint \<Rightarrow> epi_net \<Rightarrow> control_msg \<Rightarrow> endpoint \<times> epi_net \<times> (net_error + unit)" where
  "on_control env e n (CtlIHave fr i origin) =
     (let e = learn_peer e fr;
          (t, events) = on_ihave (ep_plumtree e) (peer_node_id fr) i (peer_node_id origin);
          e = e\<lparr>ep_plumtree := t\<rparr>
      in (e, dispatch_events env e n events))"
| "on_control env e n (CtlGraft fr i) =
     (let e = learn_peer e fr;
          (t, events) = on_graft (ep_plumtree e) (peer_node_id fr) i;
          e = e\<lparr>ep_plumtree := t\<rparr>
      in (e, dispatch_events env e n events))"
| "on_control env e n (CtlPrune fr) =
     (e\<lparr>ep_plumtree := on_prune (ep_plumtree e) (peer_node_id fr)\<rparr>, n, Inr ())"

fun process_hops ::
    "epi_env \<Rightarrow> endpoint \<Rightarrow> epi_net \<Rightarrow> (peer_id option \<times> authority_msg) list \<Rightarrow> endpoint \<times> epi_net \<times> (net_error + unit)" where
  "process_hops env e n [] = (e, n, Inr ())"
| "process_hops env e n ((fr, m) # hops) =
     (case on_eager_payload env e n (case fr of Some p \<Rightarrow> p | None \<Rightarrow> ep_me e) m of
        (e, n, Inl x) \<Rightarrow> (e, n, Inl x)
      | (e, n, Inr _) \<Rightarrow> process_hops env e n hops)"

fun process_control ::
    "epi_env \<Rightarrow> endpoint \<Rightarrow> epi_net \<Rightarrow> control_msg list \<Rightarrow> endpoint \<times> epi_net \<times> (net_error + unit)" where
  "process_control env e n [] = (e, n, Inr ())"
| "process_control env e n (c # cs) =
     (case on_control env e n c of
        (e, n, Inl x) \<Rightarrow> (e, n, Inl x)
      | (e, n, Inr _) \<Rightarrow> process_control env e n cs)"

definition epi_process :: "epi_env \<Rightarrow> endpoint \<Rightarrow> epi_net \<Rightarrow> endpoint \<times> epi_net \<times> (net_error + unit)" where
  "epi_process env e n =
     (case drain_with_hops (en_mesh n) (ep_me e) of
        (g, hops) \<Rightarrow>
         (case process_hops env e (n\<lparr>en_mesh := g\<rparr>) hops of
            (e, n, Inl x) \<Rightarrow> (e, n, Inl x)
          | (e, n, Inr _) \<Rightarrow>
             (case control_drain n (ep_me e) of (n, cs) \<Rightarrow> process_control env e n cs)))"

definition epi_tick :: "epi_env \<Rightarrow> endpoint \<Rightarrow> epi_net \<Rightarrow> endpoint \<times> epi_net \<times> (net_error + unit)" where
  "epi_tick env e n =
     (case pt_tick (ep_plumtree e) of
        (t, events) \<Rightarrow> (let e = e\<lparr>ep_plumtree := t\<rparr> in (e, dispatch_events env e n events)))"

definition process_and_tick :: "epi_env \<Rightarrow> endpoint \<Rightarrow> epi_net \<Rightarrow> endpoint \<times> epi_net \<times> (net_error + unit)" where
  "process_and_tick env e n =
     (case epi_process env e n of
        (e, n, Inl x) \<Rightarrow> (e, n, Inl x)
      | (e, n, Inr _) \<Rightarrow> epi_tick env e n)"

definition broadcast_msg :: "epi_env \<Rightarrow> endpoint \<Rightarrow> epi_net \<Rightarrow> authority_msg \<Rightarrow> endpoint \<times> epi_net \<times> (net_error + unit)" where
  "broadcast_msg env e n m =
     (let payload = encode_authority_msg m;
          i = msg_id_of payload;
          already = (pt_get (ep_plumtree e) i \<noteq> None);
          (t, events) = pt_broadcast (ee_order env) (ep_plumtree e) payload i;
          e = e\<lparr>ep_plumtree := t\<rparr>;
          e = (if \<not> already then push_app e m i else e)
      in (e, dispatch_events env e n events))"

definition epi_poll :: "epi_env \<Rightarrow> endpoint \<Rightarrow> epi_net \<Rightarrow> endpoint \<times> epi_net \<times> authority_msg list" where
  "epi_poll env e n =
     (case epi_process env e n of (e, n, r) \<Rightarrow> (e\<lparr>ep_app_inbox := []\<rparr>, n, ep_app_inbox e))"

section \<open>Networks of endpoints\<close>

type_synonym ep_store = "peer_id \<Rightarrow> endpoint"

text \<open>\<open>EpidemicEndpoint\<close> as an \<open>AuthorityNet\<close>: the state of a network is the store and the shared network.\<close>

definition epidemic_net :: "epi_env \<Rightarrow> (ep_store \<times> epi_net) authority_net" where
  "epidemic_net env =
     \<lparr>net_broadcast = (\<lambda>(st, n) p m. case broadcast_msg env (st p) n m of (e, n, r) \<Rightarrow> ((st(p := e), n), r)),
      net_poll = (\<lambda>(st, n) p. case epi_poll env (st p) n of (e, n, ms) \<Rightarrow> ((st(p := e), n), ms))\<rparr>"

definition mesh_all_eager :: "peer_id list \<Rightarrow> ep_store \<Rightarrow> ep_store" where
  "mesh_all_eager ps st =
     fold (\<lambda>p st. fold (\<lambda>q st. if ep_me (st p) \<noteq> ep_me (st q) then st(p := ep_add_peer (st p) (ep_me (st q))) else st) ps st) ps st"

definition mesh_with_dropped_eager_edge :: "epi_env \<Rightarrow> peer_id list \<Rightarrow> peer_id \<Rightarrow> ep_store \<Rightarrow> ep_store" where
  "mesh_with_dropped_eager_edge env ps t st =
     (let ids = map (\<lambda>p. ep_me (st p)) ps
      in fold (\<lambda>p st. fold (\<lambda>q st.
           if ep_me (st p) = q then st
           else if q = t \<and> ep_me (st p) \<noteq> t
           then st(p := remove_eager_edge env (ep_add_peer (st p) q) q)
           else st(p := ep_add_peer (st p) q)) ids st) ps st)"

definition turn :: "epi_env \<Rightarrow> peer_id \<Rightarrow> ep_store \<times> epi_net \<Rightarrow> ep_store \<times> epi_net" where
  "turn env p = (\<lambda>(st, n). case process_and_tick env (st p) n of (e, n, r) \<Rightarrow> (st(p := e), n))"

definition pump :: "epi_env \<Rightarrow> peer_id list \<Rightarrow> nat \<Rightarrow> ep_store \<times> epi_net \<Rightarrow> ep_store \<times> epi_net" where
  "pump env ps rounds = (fold (turn env) ps ^^ rounds)"

end
