(* ===== verification/Epidemic_Safety.thy ===== *)
theory Epidemic_Safety
  imports Epidemic
begin

text \<open>
  What epidemic dissemination promises on every network: a message reaches the application of an endpoint
  at most once, whatever is lost, repeated or invented and whatever fails.
\<close>

section \<open>At most once\<close>

definition mid :: "authority_msg \<Rightarrow> msg_id" where
  "mid m = msg_id_of (encode_authority_msg m)"

abbreviation ep_seen :: "endpoint \<Rightarrow> msg_id \<rightharpoonup> bytes" where
  "ep_seen e \<equiv> pt_seen (ep_plumtree e)"

abbreviation ep_views :: "endpoint \<Rightarrow> gnode set" where
  "ep_views e \<equiv> pt_eager (ep_plumtree e) \<union> pt_lazy (ep_plumtree e)"

text \<open>The messages handed to the application so far are \<open>tk\<close> and those in the inbox.\<close>

definition once_ok :: "authority_msg list \<Rightarrow> endpoint \<Rightarrow> bool" where
  "once_ok tk e \<longleftrightarrow>
     distinct (map mid (tk @ ep_app_inbox e)) \<and> mid ` set (tk @ ep_app_inbox e) = dom (ep_seen e) \<and>
     (\<forall>i. deliver_count e i = (if ep_seen e i = None then 0 else 1)) \<and>
     pt_eager (ep_plumtree e) \<inter> pt_lazy (ep_plumtree e) = {}"

lemmas pt_defs = plumtree_new_def pt_add_peer_def pt_remove_peer_def pt_tick_def pt_broadcast_def on_receive_def on_ihave_def
  on_graft_def on_prune_def pt_get_def

lemma learn_peer_fields [simp]:
  "ep_plumtree (learn_peer e p) = ep_plumtree e" "ep_app_inbox (learn_peer e p) = ep_app_inbox e"
  "ep_deliver_counts (learn_peer e p) = ep_deliver_counts e" "ep_me (learn_peer e p) = ep_me e"
  by (auto simp: learn_peer_def split: option.splits)

lemma once_ok_views:
  assumes "once_ok tk e" "ep_app_inbox e' = ep_app_inbox e" "dom (ep_seen e') = dom (ep_seen e)" "ep_deliver_counts e' = ep_deliver_counts e"
    "pt_eager (ep_plumtree e') \<inter> pt_lazy (ep_plumtree e') = {}"
  shows "once_ok tk e'"
proof -
  have "(ep_seen e' i = None) = (ep_seen e i = None)" for i using assms(3) by blast
  then show ?thesis using assms by (simp add: once_ok_def deliver_count_def)
qed

lemma once_ok_disjoint: "once_ok tk e \<Longrightarrow> pt_eager (ep_plumtree e) \<inter> pt_lazy (ep_plumtree e) = {}"
  by (simp add: once_ok_def)

lemma once_ok_deliver:
  assumes "once_ok tk e" "ep_seen e (mid m) = None" "ep_seen t = (ep_seen e)(mid m \<mapsto> pl)"
    "ep_app_inbox t = ep_app_inbox e" "ep_deliver_counts t = ep_deliver_counts e"
    "pt_eager (ep_plumtree t) = pt_eager (ep_plumtree e)" "pt_lazy (ep_plumtree t) = pt_lazy (ep_plumtree e)"
  shows "once_ok tk (push_app t m (mid m))"
proof -
  have f: "ep_seen (push_app t m (mid m)) = (ep_seen e)(mid m \<mapsto> pl)" "ep_app_inbox (push_app t m (mid m)) = ep_app_inbox e @ [m]"
    using assms(3,4) by (simp_all add: push_app_def)
  have "mid m \<notin> mid ` set (tk @ ep_app_inbox e)" using assms(1,2) unfolding once_ok_def by blast
  then have d: "distinct (map mid (tk @ ep_app_inbox e @ [m]))" using assms(1) by (auto simp: once_ok_def)
  have i: "mid ` set (tk @ ep_app_inbox e @ [m]) = dom ((ep_seen e)(mid m \<mapsto> pl))"
    using assms(1) by (simp add: once_ok_def)
  have "deliver_count (push_app t m (mid m)) i = (if ((ep_seen e)(mid m \<mapsto> pl)) i = None then 0 else 1)" for i
    using assms(1,2,5) by (simp add: once_ok_def push_app_def deliver_count_def)
  moreover have "pt_eager (ep_plumtree (push_app t m (mid m))) \<inter> pt_lazy (ep_plumtree (push_app t m (mid m))) = {}"
    using assms(6,7) once_ok_disjoint [OF assms(1)] by (simp add: push_app_def)
  ultimately show ?thesis using d i unfolding once_ok_def f by blast
qed

lemma once_ok_eager:
  assumes "once_ok tk e" "on_eager_payload env e n fr m = (e', r)"
  shows "once_ok tk e'"
proof (cases "ep_seen e (mid m)")
  case None
  have "e' = push_app ((learn_peer e fr)\<lparr>ep_plumtree := (ep_plumtree e)\<lparr>pt_seen := (ep_seen e)(mid m \<mapsto> encode_authority_msg m)\<rparr>\<rparr>) m (mid m)"
    using assms(2) None by (simp add: on_eager_payload_def pt_defs mid_def [symmetric] Let_def)
  then show ?thesis by (auto intro!: once_ok_deliver [OF assms(1) None])
next
  case (Some pl)
  have "e' = (learn_peer e fr)\<lparr>ep_plumtree := fst (on_receive (ee_order env) (ep_plumtree e)
      \<lparr>gm_id = mid m, gm_payload = encode_authority_msg m, gm_sender = peer_node_id fr\<rparr>)\<rparr>"
    using Some assms(2) by (simp add: on_eager_payload_def mid_def [symmetric] Let_def pt_get_def split: prod.splits)
  then show ?thesis
    using Some once_ok_disjoint [OF assms(1)] by (auto intro!: once_ok_views [OF assms(1)] simp: on_receive_def)
qed

lemma once_ok_control:
  assumes "once_ok tk e" "on_control env e n c = (e', r)"
  shows "once_ok tk e'"
proof (rule once_ok_views [OF assms(1)])
  show "pt_eager (ep_plumtree e') \<inter> pt_lazy (ep_plumtree e') = {}"
    using assms(2) once_ok_disjoint [OF assms(1)]
    by (cases c) (auto simp: pt_defs Let_def split: if_splits option.splits)
qed (use assms(2) in \<open>cases c; auto simp: pt_defs Let_def split: if_splits option.splits\<close>)+

lemma once_ok_hops:
  "once_ok tk e \<Longrightarrow> process_hops env e n hops = (e', r) \<Longrightarrow> once_ok tk e'"
proof (induction env e n hops arbitrary: e' r rule: process_hops.induct)
  case (2 env e n fr m hops)
  obtain e1 n1 r1 where o: "on_eager_payload env e n (case fr of Some p \<Rightarrow> p | None \<Rightarrow> ep_me e) m = (e1, n1, r1)"
    by (metis prod.collapse)
  note 1 = once_ok_eager [OF 2(2) o]
  show ?case using 2(3) o 1 2(1) [OF o [symmetric] refl] by (cases r1) auto
qed simp

lemma once_ok_controls:
  "once_ok tk e \<Longrightarrow> process_control env e n cs = (e', r) \<Longrightarrow> once_ok tk e'"
proof (induction env e n cs arbitrary: e' r rule: process_control.induct)
  case (2 env e n c cs)
  obtain e1 n1 r1 where o: "on_control env e n c = (e1, n1, r1)" by (metis prod.collapse)
  note 1 = once_ok_control [OF 2(2) o]
  show ?case using 2(3) o 1 2(1) [OF o [symmetric] refl] by (cases r1) auto
qed simp

lemma once_ok_process:
  assumes "once_ok tk e" "epi_process env e n = (e', r)"
  shows "once_ok tk e'"
proof -
  obtain g hops where d: "drain_with_hops (en_mesh n) (ep_me e) = (g, hops)" by force
  obtain e1 n1 r1 where h: "process_hops env e (n\<lparr>en_mesh := g\<rparr>) hops = (e1, n1, r1)" by (metis prod.collapse)
  obtain n2 cs where c: "control_drain n1 (ep_me e1) = (n2, cs)" by force
  show ?thesis
    using assms(2) d h c once_ok_hops [OF assms(1) h] once_ok_controls [of tk e1 env n2 cs e' r]
    by (cases r1) (auto simp: epi_process_def)
qed

lemma once_ok_tick:
  assumes "once_ok tk e" "epi_tick env e n = (e', r)"
  shows "once_ok tk e'"
  using assms(2) once_ok_disjoint [OF assms(1)] by (auto intro!: once_ok_views [OF assms(1)] simp: epi_tick_def pt_tick_def Let_def)

lemma once_ok_broadcast:
  assumes "once_ok tk e" "broadcast_msg env e n m = (e', r)"
  shows "once_ok tk e'"
proof (cases "ep_seen e (mid m)")
  case None
  have "e' = push_app (e\<lparr>ep_plumtree := (ep_plumtree e)\<lparr>pt_seen := (ep_seen e)(mid m \<mapsto> encode_authority_msg m)\<rparr>\<rparr>) m (mid m)"
    using assms(2) None by (simp add: broadcast_msg_def pt_defs mid_def [symmetric] Let_def)
  then show ?thesis by (auto intro!: once_ok_deliver [OF assms(1) None])
next
  case (Some pl)
  have "e' = e\<lparr>ep_plumtree := (ep_plumtree e)\<lparr>pt_seen := (ep_seen e)(mid m \<mapsto> encode_authority_msg m)\<rparr>\<rparr>"
    using assms(2) Some by (simp add: broadcast_msg_def pt_defs mid_def [symmetric] Let_def)
  then show ?thesis
    using Some once_ok_disjoint [OF assms(1)] by (auto intro!: once_ok_views [OF assms(1)] split: if_splits)
qed

lemma once_ok_poll:
  assumes "once_ok tk e" "epi_poll env e n = (e', n', ms)"
  shows "once_ok (tk @ ms) e'"
proof -
  obtain e1 n1 r where p: "epi_process env e n = (e1, n1, r)" by (metis prod.collapse)
  have "once_ok tk e1" by (rule once_ok_process [OF assms(1) p])
  moreover have "e' = e1\<lparr>ep_app_inbox := []\<rparr>" "ms = ep_app_inbox e1" using assms(2) p by (auto simp: epi_poll_def)
  ultimately show ?thesis by (simp add: once_ok_def deliver_count_def)
qed

lemma once_ok_peers:
  assumes "once_ok tk e"
  shows "once_ok tk (ep_add_peer e q)" "once_ok tk (ep_remove_peer e q)" "once_ok tk (remove_eager_edge env e q)"
  using once_ok_disjoint [OF assms]
  by (auto intro!: once_ok_views [OF assms] simp: ep_add_peer_def ep_remove_peer_def remove_eager_edge_def pt_defs Let_def)

text \<open>Runs: the endpoints act in any order, and the network may change in any way between their actions.\<close>

inductive epi_step :: "epi_env \<Rightarrow> ep_store \<times> epi_net \<times> (peer_id \<Rightarrow> authority_msg list) \<Rightarrow>
    ep_store \<times> epi_net \<times> (peer_id \<Rightarrow> authority_msg list) \<Rightarrow> bool" for env where
  network: "epi_step env (st, n, tk) (st, n', tk)"
| broadcast: "broadcast_msg env (st p) n m = (e, n', r) \<Longrightarrow> epi_step env (st, n, tk) (st(p := e), n', tk)"
| process: "epi_process env (st p) n = (e, n', r) \<Longrightarrow> epi_step env (st, n, tk) (st(p := e), n', tk)"
| tick: "epi_tick env (st p) n = (e, n', r) \<Longrightarrow> epi_step env (st, n, tk) (st(p := e), n', tk)"
| poll: "epi_poll env (st p) n = (e, n', ms) \<Longrightarrow> epi_step env (st, n, tk) (st(p := e), n', tk(p := tk p @ ms))"
| add: "epi_step env (st, n, tk) (st(p := ep_add_peer (st p) q), n, tk)"
| remove: "epi_step env (st, n, tk) (st(p := ep_remove_peer (st p) q), n, tk)"
| drop_edge: "epi_step env (st, n, tk) (st(p := remove_eager_edge env (st p) q), n, tk)"

definition fresh_store :: ep_store where
  "fresh_store p = snd (epi_join epi_new p)"

definition epi_reach :: "epi_env \<Rightarrow> ep_store \<times> epi_net \<times> (peer_id \<Rightarrow> authority_msg list) \<Rightarrow> bool" where
  "epi_reach env s \<longleftrightarrow> (\<exists>n. (epi_step env)\<^sup>*\<^sup>* (fresh_store, n, \<lambda>p. []) s)"

lemma epi_step_once:
  assumes "epi_step env s s'" "\<forall>p. once_ok (snd (snd s) p) (fst s p)"
  shows "\<forall>p. once_ok (snd (snd s') p) (fst s' p)"
  using assms
proof (cases rule: epi_step.cases)
  case (poll st p n e n' ms tk)
  then show ?thesis using assms(2) once_ok_poll [OF _ poll(3)] by auto
next
  case (broadcast st p n m e n' r tk)
  then show ?thesis using assms(2) once_ok_broadcast [OF _ broadcast(3)] by auto
next
  case (process st p n e n' r tk)
  then show ?thesis using assms(2) once_ok_process [OF _ process(3)] by auto
next
  case (tick st p n e n' r tk)
  then show ?thesis using assms(2) once_ok_tick [OF _ tick(3)] by auto
next
  case (add st n tk p q)
  then show ?thesis using assms(2) once_ok_peers(1) by auto
next
  case (remove st n tk p q)
  then show ?thesis using assms(2) once_ok_peers(2) by auto
next
  case (drop_edge st n tk p q)
  then show ?thesis using assms(2) once_ok_peers(3) by auto
qed auto

definition demo_env :: epi_env where
  "demo_env = \<lparr>ee_crypto = demo_crypto, ee_order = (\<lambda>me S. sorted_list_of_set S), ee_base58 = (\<lambda>x. [])\<rparr>"

lemma demo_env_ok: "hash_order_ok (ee_order demo_env)" "ee_crypto demo_env = demo_crypto"
  by (simp_all add: demo_env_def hash_order_ok_def)

lemma demo_wire_ok: "wire_msg_ok demo_crypto (MsgOrder demo_order)"
  using demo_order_fits by (simp add: record_fits_def)

text \<open>C33: at most once. In any run of endpoints, over a network that loses, repeats, invents and reorders messages and fails at any
  point, every endpoint has handed each message id to its application exactly once if it has seen it and never otherwise, as its
  delivery counts say, and its eager and lazy views are disjoint.\<close>

theorem epidemic_delivers_once:
  assumes "epi_reach env (st, n, tk)"
  shows "distinct (map (\<lambda>m. msg_id_of (encode_authority_msg m)) (tk p @ ep_app_inbox (st p))) \<and>
    (i \<in> (\<lambda>m. msg_id_of (encode_authority_msg m)) ` set (tk p @ ep_app_inbox (st p)) \<longleftrightarrow> has_msg (st p) i) \<and>
    deliver_count (st p) i = (if has_msg (st p) i then 1 else 0) \<and>
    pt_eager (ep_plumtree (st p)) \<inter> pt_lazy (ep_plumtree (st p)) = {}"
proof -
  obtain n0 where r: "(epi_step env)\<^sup>*\<^sup>* (fresh_store, n0, \<lambda>p. []) (st, n, tk)" using assms by (auto simp: epi_reach_def)
  have "\<forall>p. once_ok (snd (snd (st, n, tk)) p) (fst (st, n, tk) p)"
    using r
  proof (induction rule: rtranclp_induct)
    case base
    show ?case by (simp add: once_ok_def fresh_store_def epi_join_def plumtree_new_def deliver_count_def)
  next
    case (step y z)
    then show ?case using epi_step_once by blast
  qed
  then have o: "once_ok (tk p) (st p)" by simp
  have "distinct (map (\<lambda>m. msg_id_of (encode_authority_msg m)) (tk p @ ep_app_inbox (st p)))"
    using o by (simp add: once_ok_def mid_def [abs_def])
  moreover have "i \<in> (\<lambda>m. msg_id_of (encode_authority_msg m)) ` set (tk p @ ep_app_inbox (st p)) \<longleftrightarrow> has_msg (st p) i"
    using o unfolding once_ok_def mid_def [abs_def] has_msg_def pt_get_def by blast
  moreover have "deliver_count (st p) i = (if has_msg (st p) i then 1 else 0)"
    using o by (auto simp: once_ok_def has_msg_def pt_get_def)
  ultimately show ?thesis using once_ok_disjoint [OF o] by blast
qed

theorem epidemic_delivers_once_witness:
  "\<exists>st n. epi_reach demo_env (st, n, \<lambda>p. []) \<and> has_msg (st ''a'') (msg_id_of (encode_authority_msg (MsgOrder demo_order))) \<and>
     deliver_count (st ''a'') (msg_id_of (encode_authority_msg (MsgOrder demo_order))) = 1"
proof -
  let ?m = "MsgOrder demo_order"
  obtain e n r where b: "broadcast_msg demo_env (fresh_store ''a'') epi_new ?m = (e, n, r)" by (metis prod.collapse)
  have r: "epi_reach demo_env (fresh_store(''a'' := e), n, \<lambda>p. [])"
    unfolding epi_reach_def using epi_step.broadcast [where st = fresh_store and p = "''a''", OF b, of "\<lambda>p. []"] by blast
  have s: "has_msg ((fresh_store(''a'' := e)) ''a'') (msg_id_of (encode_authority_msg ?m))"
    using b by (auto simp: broadcast_msg_def fresh_store_def epi_join_def pt_defs has_msg_def push_app_def Let_def)
  have "deliver_count ((fresh_store(''a'' := e)) ''a'') (msg_id_of (encode_authority_msg ?m)) = 1"
    using epidemic_delivers_once [OF r, of "''a''" "msg_id_of (encode_authority_msg ?m)"] s by simp
  then show ?thesis using r s by blast
qed

end
