(* ===== verification/Epidemic_Delivery.thy ===== *)
theory Epidemic_Delivery
  imports Epidemic_Safety
begin

text \<open>
  Eventual delivery: on a network on which nothing fails, a broadcast reaches every endpoint connected to
  the sender within three rounds per link. The proof follows one message: for every link whose near end has
  it, the far end has it, or it is in the mailbox, asked for, or announced there; every turn of an endpoint
  keeps this, and a round of turns brings the message at least one stage closer.
\<close>

section \<open>Dispatch on a working network\<close>

definition mails :: "epi_net \<Rightarrow> peer_id \<Rightarrow> (peer_id option \<times> authority_msg) set" where
  "mails n p = (case map_of (mesh_mailboxes (en_mesh n)) p of
     None \<Rightarrow> {} | Some mb \<Rightarrow> (\<lambda>e. (mail_from e, mail_msg e)) ` set mb)"

definition ctls :: "epi_net \<Rightarrow> peer_id \<Rightarrow> control_msg set" where
  "ctls n p = (case map_of (en_control n) p of None \<Rightarrow> {} | Some cs \<Rightarrow> set cs)"

text \<open>The mesh is open and the peers have joined it.\<close>

definition net_up :: "peer_id set \<Rightarrow> epi_net \<Rightarrow> bool" where
  "net_up P n \<longleftrightarrow> \<not> mesh_closed (en_mesh n) \<and>
     (\<forall>p \<in> P. map_of (mesh_mailboxes (en_mesh n)) p \<noteq> None \<and> map_of (en_control n) p \<noteq> None)"

fun event_to :: "gossip_event \<Rightarrow> gnode" where
  "event_to (Eager t _) = t"
| "event_to (IHave t _ _) = t"
| "event_to (Graft t _) = t"
| "event_to (Prune t) = t"

fun event_ok :: "epi_env \<Rightarrow> peer_id set \<Rightarrow> endpoint \<Rightarrow> gossip_event \<Rightarrow> bool" where
  "event_ok env P e ev \<longleftrightarrow> (\<exists>q \<in> P. ep_peers e (event_to ev) = Some q) \<and>
     (\<forall>t msg. ev = Eager t msg \<longrightarrow> (\<exists>m. decode_authority_msg (ee_crypto env) (gm_payload msg) = Inr m))"

definition sent_mail :: "epi_env \<Rightarrow> endpoint \<Rightarrow> gossip_event list \<Rightarrow> peer_id \<Rightarrow> (peer_id option \<times> authority_msg) set" where
  "sent_mail env e evs q = {(Some (ep_me e), m) | m. \<exists>t msg. Eager t msg \<in> set evs \<and> ep_peers e t = Some q \<and>
     decode_authority_msg (ee_crypto env) (gm_payload msg) = Inr m}"

fun event_ctl :: "epi_env \<Rightarrow> endpoint \<Rightarrow> gossip_event \<Rightarrow> control_msg option" where
  "event_ctl env e (Eager _ _) = None"
| "event_ctl env e (IHave _ i s) = Some (CtlIHave (ep_me e) i (case resolve_peer env e s of Inr q \<Rightarrow> q | Inl _ \<Rightarrow> ep_me e))"
| "event_ctl env e (Graft _ i) = Some (CtlGraft (ep_me e) i)"
| "event_ctl env e (Prune _) = Some (CtlPrune (ep_me e))"

definition sent_ctl :: "epi_env \<Rightarrow> endpoint \<Rightarrow> gossip_event list \<Rightarrow> peer_id \<Rightarrow> control_msg set" where
  "sent_ctl env e evs q = {c. \<exists>ev \<in> set evs. event_ctl env e ev = Some c \<and> ep_peers e (event_to ev) = Some q}"

lemma deliver_up:
  assumes "net_up P n" "q \<in> P"
  shows "\<exists>g. deliver_to_from (en_mesh n) q h m = (g, Inr ()) \<and> net_up P (n\<lparr>en_mesh := g\<rparr>) \<and>
    (\<forall>p. mails (n\<lparr>en_mesh := g\<rparr>) p = mails n p \<union> (if p = q then {(h, m)} else {})) \<and> (\<forall>p. ctls (n\<lparr>en_mesh := g\<rparr>) p = ctls n p)"
proof -
  obtain mb where "map_of (mesh_mailboxes (en_mesh n)) q = Some mb" using assms by (auto simp: net_up_def)
  then show ?thesis using assms by (auto simp: deliver_to_from_def net_up_def mails_def ctls_def map_of_bt_insert)
qed

lemma control_up:
  assumes "net_up P n" "q \<in> P"
  shows "\<exists>n'. control_deliver n q c = (n', Inr ()) \<and> net_up P n' \<and> (\<forall>p. mails n' p = mails n p) \<and>
    (\<forall>p. ctls n' p = ctls n p \<union> (if p = q then {c} else {}))"
proof -
  obtain mb where "map_of (en_control n) q = Some mb" using assms by (auto simp: net_up_def)
  then show ?thesis using assms by (auto simp: control_deliver_def net_up_def mails_def ctls_def map_of_bt_insert)
qed

lemma dispatch_one:
  assumes "net_up P n" "event_ok env P e ev"
  shows "\<exists>n'. dispatch_event env e n ev = (n', Inr ()) \<and> net_up P n' \<and>
    (\<forall>q. mails n' q = mails n q \<union> sent_mail env e [ev] q) \<and> (\<forall>q. ctls n' q = ctls n q \<union> sent_ctl env e [ev] q)"
proof -
  obtain q where q: "q \<in> P" "ep_peers e (event_to ev) = Some q" using assms(2) by auto
  show ?thesis
  proof (cases ev)
    case (Eager t msg)
    then obtain m where m: "decode_authority_msg (ee_crypto env) (gm_payload msg) = Inr m" using assms(2) by auto
    obtain g where g: "deliver_to_from (en_mesh n) q (Some (ep_me e)) m = (g, Inr ())" "net_up P (n\<lparr>en_mesh := g\<rparr>)"
      "\<forall>p. mails (n\<lparr>en_mesh := g\<rparr>) p = mails n p \<union> (if p = q then {(Some (ep_me e), m)} else {})"
      "\<forall>p. ctls (n\<lparr>en_mesh := g\<rparr>) p = ctls n p"
      using deliver_up [OF assms(1) q(1)] by blast
    have "sent_mail env e [ev] p = (if p = q then {(Some (ep_me e), m)} else {})" "sent_ctl env e [ev] p = {}" for p
      using q(2) m by (auto simp: sent_mail_def sent_ctl_def Eager)
    then show ?thesis using g q(2) m by (simp add: Eager resolve_peer_def)
  next
    case (IHave t i s)
    have "sent_mail env e [ev] p = {}" "sent_ctl env e [ev] p = (if p = q then {the (event_ctl env e ev)} else {})" for p
      using q(2) by (auto simp: sent_mail_def sent_ctl_def IHave)
    then show ?thesis using control_up [OF assms(1) q(1), of "the (event_ctl env e ev)"] q(2) by (simp add: IHave resolve_peer_def)
  next
    case (Graft t i)
    have "sent_mail env e [ev] p = {}" "sent_ctl env e [ev] p = (if p = q then {the (event_ctl env e ev)} else {})" for p
      using q(2) by (auto simp: sent_mail_def sent_ctl_def Graft)
    then show ?thesis using control_up [OF assms(1) q(1), of "the (event_ctl env e ev)"] q(2) by (simp add: Graft resolve_peer_def)
  next
    case (Prune t)
    have "sent_mail env e [ev] p = {}" "sent_ctl env e [ev] p = (if p = q then {the (event_ctl env e ev)} else {})" for p
      using q(2) by (auto simp: sent_mail_def sent_ctl_def Prune)
    then show ?thesis using control_up [OF assms(1) q(1), of "the (event_ctl env e ev)"] q(2) by (simp add: Prune resolve_peer_def)
  qed
qed

lemma sent_Cons:
  "sent_mail env e (ev # evs) q = sent_mail env e [ev] q \<union> sent_mail env e evs q"
  "sent_ctl env e (ev # evs) q = sent_ctl env e [ev] q \<union> sent_ctl env e evs q"
  by (auto simp: sent_mail_def sent_ctl_def)

lemma sent_Nil [simp]: "sent_mail env e [] q = {}" "sent_ctl env e [] q = {}"
  by (simp_all add: sent_mail_def sent_ctl_def)

lemma dispatch_up:
  assumes "net_up P n" "\<forall>ev \<in> set evs. event_ok env P e ev"
  shows "\<exists>n'. dispatch_events env e n evs = (n', Inr ()) \<and> net_up P n' \<and>
    (\<forall>q. mails n' q = mails n q \<union> sent_mail env e evs q) \<and> (\<forall>q. ctls n' q = ctls n q \<union> sent_ctl env e evs q)"
  using assms
proof (induction evs arbitrary: n)
  case (Cons ev evs)
  obtain n1 where 1: "dispatch_event env e n ev = (n1, Inr ())" "net_up P n1"
    "\<forall>q. mails n1 q = mails n q \<union> sent_mail env e [ev] q" "\<forall>q. ctls n1 q = ctls n q \<union> sent_ctl env e [ev] q"
    using dispatch_one [OF Cons.prems(1)] Cons.prems(2) by (meson list.set_intros(1))
  obtain n2 where 2: "dispatch_events env e n1 evs = (n2, Inr ())" "net_up P n2"
    "\<forall>q. mails n2 q = mails n1 q \<union> sent_mail env e evs q" "\<forall>q. ctls n2 q = ctls n1 q \<union> sent_ctl env e evs q"
    using Cons.IH [OF 1(2)] Cons.prems(2) by (meson list.set_intros(2))
  show ?case
    using 1 2 by (simp add: sent_Cons [of env e ev evs] Un_assoc)
qed simp

section \<open>The invariant of a healthy network\<close>

text \<open>Every known peer is one of \<open>P\<close> under its own node id, the views name known peers, and stored payloads decode.\<close>

definition endpoint_ok :: "epi_env \<Rightarrow> peer_id set \<Rightarrow> peer_id \<Rightarrow> endpoint \<Rightarrow> bool" where
  "endpoint_ok env P p e \<longleftrightarrow> ep_me e = p \<and> (\<forall>x q. ep_peers e x = Some q \<longrightarrow> q \<in> P \<and> x = peer_node_id q) \<and>
     finite (ep_views e) \<and> (\<forall>x \<in> ep_views e. ep_peers e x \<noteq> None) \<and>
     (\<forall>i pl. ep_seen e i = Some pl \<longrightarrow> i = msg_id_of pl \<and> (\<exists>m. wire_msg_ok (ee_crypto env) m \<and> pl = encode_authority_msg m)) \<and>
     (\<forall>z \<in> set (pt_pending (ep_plumtree e)). ep_peers e (fst z) \<noteq> None)"

fun ctl_from :: "control_msg \<Rightarrow> peer_id" where
  "ctl_from (CtlIHave p _ _) = p"
| "ctl_from (CtlGraft p _) = p"
| "ctl_from (CtlPrune p) = p"

text \<open>What is under way: mails \<open>M\<close> and control messages \<open>C\<close>.\<close>

definition flights_ok :: "epi_env \<Rightarrow> peer_id set \<Rightarrow> (peer_id \<Rightarrow> (peer_id option \<times> authority_msg) set) \<Rightarrow> (peer_id \<Rightarrow> control_msg set) \<Rightarrow> bool" where
  "flights_ok env P M C \<longleftrightarrow> (\<forall>p \<in> P.
     (\<forall>h m. (h, m) \<in> M p \<longrightarrow> wire_msg_ok (ee_crypto env) m \<and> (\<forall>q. h = Some q \<longrightarrow> q \<in> P)) \<and> (\<forall>c \<in> C p. ctl_from c \<in> P))"

text \<open>The message \<open>m\<close>: no other message has its id, who sent it has seen it, and who has seen it has delivered it.\<close>

definition msg_sound :: "peer_id set \<Rightarrow> authority_msg \<Rightarrow> ep_store \<Rightarrow> (peer_id \<Rightarrow> (peer_id option \<times> authority_msg) set) \<Rightarrow> bool" where
  "msg_sound P m st M \<longleftrightarrow> (\<forall>p \<in> P.
     (\<forall>h m'. (h, m') \<in> M p \<longrightarrow> mid m' = mid m \<longrightarrow> m' = m \<and> (\<forall>q. h = Some q \<longrightarrow> ep_seen (st q) (mid m) \<noteq> None)) \<and>
     (ep_seen (st p) (mid m) \<noteq> None \<longrightarrow> ep_seen (st p) (mid m) = Some (encode_authority_msg m) \<and> m \<in> set (ep_app_inbox (st p))))"

definition neighbours :: "peer_id set \<Rightarrow> (peer_id \<times> peer_id) set \<Rightarrow> ep_store \<Rightarrow> bool" where
  "neighbours P N st \<longleftrightarrow> (\<forall>(a, b) \<in> N. a \<in> P \<and> b \<in> P \<and> peer_node_id b \<in> ep_views (st a))"

definition sound where
  "sound env P N m st M C \<longleftrightarrow> (\<forall>p \<in> P. endpoint_ok env P p (st p)) \<and> flights_ok env P M C \<and> msg_sound P m st M \<and> neighbours P N st"

text \<open>How far \<open>m\<close> is from \<open>b\<close> when \<open>a\<close> has it: seen, in the mailbox, asked for, announced.\<close>

definition level :: "authority_msg \<Rightarrow> ep_store \<Rightarrow> (peer_id \<Rightarrow> (peer_id option \<times> authority_msg) set) \<Rightarrow>
    (peer_id \<Rightarrow> control_msg set) \<Rightarrow> nat \<Rightarrow> peer_id \<Rightarrow> peer_id \<Rightarrow> bool" where
  "level m st M C k a b \<longleftrightarrow> ep_seen (st b) (mid m) \<noteq> None \<or> (1 \<le> k \<and> (\<exists>h. (h, m) \<in> M b)) \<or>
     (2 \<le> k \<and> CtlGraft b (mid m) \<in> C a) \<or>
     (3 \<le> k \<and> ((\<exists>y. CtlIHave a (mid m) y \<in> C b) \<or> (\<exists>y. (peer_node_id a, mid m, y) \<in> set (pt_pending (ep_plumtree (st b))))))"

definition announced where
  "announced N m st M C \<longleftrightarrow> (\<forall>(a, b) \<in> N. ep_seen (st a) (mid m) \<noteq> None \<longrightarrow> level m st M C 3 a b)"

text \<open>What an operation of endpoint \<open>x\<close> may do.\<close>

definition acts where
  "acts env P m x e e' evs \<longleftrightarrow> endpoint_ok env P x e' \<and> (\<forall>ev \<in> set evs. event_ok env P e' ev) \<and> ep_views e \<subseteq> ep_views e' \<and>
     (\<forall>i. ep_seen e i \<noteq> None \<longrightarrow> ep_seen e' i \<noteq> None) \<and>
     (ep_seen e' (mid m) \<noteq> None \<longrightarrow> ep_seen e' (mid m) = Some (encode_authority_msg m) \<and> m \<in> set (ep_app_inbox e')) \<and>
     (\<forall>t msg. Eager t msg \<in> set evs \<longrightarrow> ep_seen e' (msg_id_of (gm_payload msg)) = Some (gm_payload msg))"

lemma encode_inj:
  assumes "wire_msg_ok cr m" "wire_msg_ok cr m'" "encode_authority_msg m = encode_authority_msg m'"
  shows "m = m'"
  using decode_authority_msg_iff [of cr "encode_authority_msg m" m] decode_authority_msg_iff [of cr "encode_authority_msg m" m'] assms by simp

lemma acts_sound:
  assumes inv: "sound env P N m st M C" and m: "wire_msg_ok (ee_crypto env) m" and x: "x \<in> P" "acts env P m x (st x) e evs"
    and M: "\<And>p. M' p \<subseteq> M p \<union> sent_mail env e evs p" and C: "\<And>p. C' p \<subseteq> C p \<union> sent_ctl env e evs p"
  shows "sound env P N m (st(x := e)) M' C'"
proof -
  have e: "endpoint_ok env P x e" and me: "ep_me e = x" using x(2) by (auto simp: acts_def endpoint_ok_def)
  have sm: "wire_msg_ok (ee_crypto env) m' \<and> h = Some x \<and> ep_seen e (mid m') = Some (encode_authority_msg m')"
    if s: "(h, m') \<in> sent_mail env e evs p" for h m' p
  proof -
    obtain t msg where t: "h = Some (ep_me e)" "Eager t msg \<in> set evs" "decode_authority_msg (ee_crypto env) (gm_payload msg) = Inr m'"
      using s by (auto simp: sent_mail_def)
    then have "ep_seen e (msg_id_of (gm_payload msg)) = Some (gm_payload msg)" using x(2) unfolding acts_def by blast
    then show ?thesis using t me by (simp add: decode_authority_msg_iff mid_def)
  qed
  have sc: "ctl_from c = x" if s: "c \<in> sent_ctl env e evs p" for c p
  proof -
    obtain ev where "event_ctl env e ev = Some c" using s by (auto simp: sent_ctl_def)
    then show ?thesis using me by (cases ev) auto
  qed
  have "flights_ok env P M' C'"
    unfolding flights_ok_def
  proof (intro ballI conjI allI impI)
    fix p h m' assume "p \<in> P" "(h, m') \<in> M' p"
    then have "(h, m') \<in> M p \<or> (h, m') \<in> sent_mail env e evs p" using M by blast
    then show "wire_msg_ok (ee_crypto env) m'" using inv sm \<open>p \<in> P\<close> by (auto simp: sound_def flights_ok_def)
  next
    fix p h m' q assume "p \<in> P" "(h, m') \<in> M' p" "h = Some q"
    then have "(h, m') \<in> M p \<or> (h, m') \<in> sent_mail env e evs p" using M by blast
    then show "q \<in> P" using inv sm x(1) \<open>p \<in> P\<close> \<open>h = Some q\<close> by (auto simp: sound_def flights_ok_def)
  next
    fix p c assume "p \<in> P" "c \<in> C' p"
    then have "c \<in> C p \<or> c \<in> sent_ctl env e evs p" using C by blast
    then show "ctl_from c \<in> P" using inv sc x(1) \<open>p \<in> P\<close> by (auto simp: sound_def flights_ok_def)
  qed
  moreover have "msg_sound P m (st(x := e)) M'"
    unfolding msg_sound_def
  proof (intro ballI conjI allI impI)
    fix p h m' assume "p \<in> P" "(h, m') \<in> M' p" "mid m' = mid m"
    then have "(h, m') \<in> M p \<or> (h, m') \<in> sent_mail env e evs p" using M by blast
    then show "m' = m"
    proof
      assume "(h, m') \<in> sent_mail env e evs p"
      then have "wire_msg_ok (ee_crypto env) m'" "encode_authority_msg m' = encode_authority_msg m"
        using sm [of h m' p] x(2) \<open>mid m' = mid m\<close> by (auto simp: acts_def)
      then show ?thesis using encode_inj m by blast
    qed (use inv \<open>p \<in> P\<close> \<open>mid m' = mid m\<close> in \<open>auto simp: sound_def msg_sound_def\<close>)
  next
    fix p h m' q assume p: "p \<in> P" "(h, m') \<in> M' p" "mid m' = mid m" "h = Some q"
    then have "(h, m') \<in> M p \<or> (h, m') \<in> sent_mail env e evs p" using M by blast
    then show "ep_seen ((st(x := e)) q) (mid m) \<noteq> None"
    proof
      assume "(h, m') \<in> M p"
      then have "ep_seen (st q) (mid m) \<noteq> None" using inv p by (auto simp: sound_def msg_sound_def)
      then show ?thesis using x(2) by (auto simp: acts_def)
    qed (use sm [of h m' p] p in auto)
  next
    fix p assume "p \<in> P" "ep_seen ((st(x := e)) p) (mid m) \<noteq> None"
    then show "ep_seen ((st(x := e)) p) (mid m) = Some (encode_authority_msg m)" "m \<in> set (ep_app_inbox ((st(x := e)) p))"
      using inv x(2) by (auto simp: sound_def msg_sound_def acts_def split: if_splits)
  qed
  moreover have "neighbours P N (st(x := e))"
    using inv x(2) unfolding sound_def neighbours_def acts_def by fastforce
  ultimately show ?thesis using inv e by (simp add: sound_def)
qed

section \<open>The operations of a healthy endpoint\<close>

definition setting :: "epi_env \<Rightarrow> peer_id set \<Rightarrow> authority_msg \<Rightarrow> bool" where
  "setting env P m \<longleftrightarrow> hash_order_ok (ee_order env) \<and> inj_on peer_node_id P \<and> wire_msg_ok (ee_crypto env) m"

lemma learn_endpoint_ok:
  assumes "endpoint_ok env P x e" "q \<in> P"
  shows "endpoint_ok env P x (learn_peer e q)" "\<exists>q' \<in> P. ep_peers (learn_peer e q) (peer_node_id q) = Some q'"
  using assms by (auto simp: endpoint_ok_def learn_peer_def split: option.splits)

lemma endpoint_ok_frame:
  assumes "endpoint_ok env P x e" "ep_me e' = ep_me e" "ep_peers e' = ep_peers e" "ep_seen e' = ep_seen e" "finite (ep_views e')"
    "\<forall>t \<in> ep_views e'. ep_peers e t \<noteq> None" "\<forall>z \<in> set (pt_pending (ep_plumtree e')). ep_peers e (fst z) \<noteq> None"
  shows "endpoint_ok env P x e'"
  using assms unfolding endpoint_ok_def by simp

lemma endpoint_okD:
  assumes "endpoint_ok env P x e"
  shows "ep_me e = x" "ep_peers e t = Some q \<Longrightarrow> q \<in> P" "finite (pt_eager (ep_plumtree e))" "finite (pt_lazy (ep_plumtree e))"
    "t \<in> ep_views e \<Longrightarrow> ep_peers e t \<noteq> None" "(t, z) \<in> set (pt_pending (ep_plumtree e)) \<Longrightarrow> ep_peers e t \<noteq> None"
    "ep_seen e i = Some pl \<Longrightarrow> i = msg_id_of pl" "ep_seen e i = Some pl \<Longrightarrow> \<exists>m. wire_msg_ok (ee_crypto env) m \<and> pl = encode_authority_msg m"
  using assms unfolding endpoint_ok_def by (simp, blast, simp, simp, blast, force, blast, blast)

lemma known_peer:
  assumes "endpoint_ok env P x e" "inj_on peer_node_id P" "b \<in> P" "ep_peers e (peer_node_id b) \<noteq> None"
  shows "ep_peers e (peer_node_id b) = Some b"
  using assms by (auto simp: endpoint_ok_def inj_on_def)

lemma view_known:
  assumes "endpoint_ok env P x e" "t \<in> ep_views e"
  shows "\<exists>q \<in> P. ep_peers e t = Some q"
  using assms unfolding endpoint_ok_def by blast

definition msg_local :: "authority_msg \<Rightarrow> endpoint \<Rightarrow> bool" where
  "msg_local m e \<longleftrightarrow> (ep_seen e (mid m) \<noteq> None \<longrightarrow> ep_seen e (mid m) = Some (encode_authority_msg m) \<and> m \<in> set (ep_app_inbox e))"

text \<open>A message is stored and passed on to both views, except to \<open>o\<close>.\<close>

definition passes_on where
  "passes_on env x e' evs m' b \<longleftrightarrow> (Some x, m') \<in> sent_mail env e' evs b \<or> (\<exists>y. CtlIHave x (mid m') y \<in> sent_ctl env e' evs b)"

definition push_events :: "hash_order \<Rightarrow> endpoint \<Rightarrow> authority_msg \<Rightarrow> gnode set \<Rightarrow> gossip_event list" where
  "push_events ho e m' S =
     map (\<lambda>p. Eager p \<lparr>gm_id = mid m', gm_payload = encode_authority_msg m', gm_sender = pt_me (ep_plumtree e)\<rparr>)
       (filter (\<lambda>p. p \<notin> S) (ho (pt_me (ep_plumtree e)) (pt_eager (ep_plumtree e)))) @
     map (\<lambda>p. IHave p (mid m') (pt_me (ep_plumtree e)))
       (filter (\<lambda>p. p \<notin> S) (ho (pt_me (ep_plumtree e)) (pt_lazy (ep_plumtree e))))"

definition store_msg :: "endpoint \<Rightarrow> authority_msg \<Rightarrow> endpoint" where
  "store_msg e m' = push_app (e\<lparr>ep_plumtree := (ep_plumtree e)\<lparr>pt_seen := (ep_seen e)(mid m' \<mapsto> encode_authority_msg m')\<rparr>\<rparr>) m' (mid m')"

lemma store_msg_fields [simp]:
  "ep_me (store_msg e m') = ep_me e" "ep_peers (store_msg e m') = ep_peers e" "ep_seen (store_msg e m') = (ep_seen e)(mid m' \<mapsto> encode_authority_msg m')"
  "pt_eager (ep_plumtree (store_msg e m')) = pt_eager (ep_plumtree e)" "pt_lazy (ep_plumtree (store_msg e m')) = pt_lazy (ep_plumtree e)"
  "pt_pending (ep_plumtree (store_msg e m')) = pt_pending (ep_plumtree e)" "ep_app_inbox (store_msg e m') = ep_app_inbox e @ [m']"
  by (simp_all add: store_msg_def push_app_def)

lemma push_acts:
  assumes "setting env P m" "endpoint_ok env P x e" "msg_local m e" "wire_msg_ok (ee_crypto env) m'" "mid m' = mid m \<longrightarrow> m' = m"
    "ep_seen e (mid m') = None"
  shows "acts env P m x e (store_msg e m') (push_events (ee_order env) e m' S)"
    "\<And>b. b \<in> P \<Longrightarrow> peer_node_id b \<in> ep_views e \<Longrightarrow> peer_node_id b \<notin> S \<Longrightarrow>
       passes_on env x (store_msg e m') (push_events (ee_order env) e m' S) m' b"
proof -
  have fin: "finite (pt_eager (ep_plumtree e))" "finite (pt_lazy (ep_plumtree e))" using assms(2) by (auto simp: endpoint_ok_def)
  have ho: "set (ee_order env a (pt_eager (ep_plumtree e))) = pt_eager (ep_plumtree e)"
    "set (ee_order env a (pt_lazy (ep_plumtree e))) = pt_lazy (ep_plumtree e)" for a
    using assms(1) fin by (auto simp: setting_def hash_order_ok_def)
  have ok: "endpoint_ok env P x (store_msg e m')" using assms(2,4) by (auto simp: endpoint_ok_def mid_def)
  have evs: "\<forall>ev \<in> set (push_events (ee_order env) e m' S). event_ok env P (store_msg e m') ev"
    using view_known [OF assms(2)] assms(4) by (auto simp: push_events_def ho decode_authority_msg_iff)
  have loc: "ep_seen (store_msg e m') (mid m) = Some (encode_authority_msg m) \<and> m \<in> set (ep_app_inbox (store_msg e m'))"
    if "ep_seen (store_msg e m') (mid m) \<noteq> None"
    using that assms(3,5) by (auto simp: msg_local_def split: if_splits)
  show "acts env P m x e (store_msg e m') (push_events (ee_order env) e m' S)"
    unfolding acts_def using ok evs loc by (auto simp: push_events_def mid_def)
  show "passes_on env x (store_msg e m') (push_events (ee_order env) e m' S) m' b"
    if b: "b \<in> P" "peer_node_id b \<in> ep_views e" "peer_node_id b \<notin> S" for b
  proof -
    have "ep_peers e (peer_node_id b) \<noteq> None" using assms(2) b(2) unfolding endpoint_ok_def by blast
    then have "ep_peers e (peer_node_id b) = Some b"
      using known_peer [OF assms(2) _ b(1)] assms(1) by (simp add: setting_def)
    moreover have "ep_me e = x" using assms(2) by (simp add: endpoint_ok_def)
    moreover have "Eager (peer_node_id b) \<lparr>gm_id = mid m', gm_payload = encode_authority_msg m', gm_sender = pt_me (ep_plumtree e)\<rparr>
        \<in> set (push_events (ee_order env) e m' S) \<or>
      IHave (peer_node_id b) (mid m') (pt_me (ep_plumtree e)) \<in> set (push_events (ee_order env) e m' S)"
      using b(2,3) by (auto simp: push_events_def ho)
    ultimately show ?thesis
      using assms(4) unfolding passes_on_def sent_mail_def sent_ctl_def
      by (force simp: decode_authority_msg_iff)
  qed
qed

lemma acts_learn: "acts env P m x (learn_peer e q) e' evs \<longleftrightarrow> acts env P m x e e' evs"
  by (simp add: acts_def)

lemma broadcast_acts:
  assumes "setting env P m" "endpoint_ok env P x e" "ep_seen e (mid m) = None"
  shows "broadcast_msg env e n m = (store_msg e m, dispatch_events env (store_msg e m) n (push_events (ee_order env) e m {}))"
    "acts env P m x e (store_msg e m) (push_events (ee_order env) e m {})"
    "\<And>b. b \<in> P \<Longrightarrow> peer_node_id b \<in> ep_views e \<Longrightarrow> passes_on env x (store_msg e m) (push_events (ee_order env) e m {}) m b"
proof -
  show "broadcast_msg env e n m = (store_msg e m, dispatch_events env (store_msg e m) n (push_events (ee_order env) e m {}))"
    using assms(3) by (simp add: broadcast_msg_def store_msg_def push_events_def mid_def [symmetric] pt_defs Let_def)
  have l: "msg_local m e" "wire_msg_ok (ee_crypto env) m" using assms(1,3) by (simp_all add: msg_local_def setting_def)
  show "acts env P m x e (store_msg e m) (push_events (ee_order env) e m {})"
    using push_acts(1) [OF assms(1,2) l _ assms(3)] by simp
  show "passes_on env x (store_msg e m) (push_events (ee_order env) e m {}) m b" if "b \<in> P" "peer_node_id b \<in> ep_views e" for b
    using push_acts(2) [OF assms(1,2) l _ assms(3) that] by simp
qed

lemma hop_acts:
  assumes "setting env P m" "endpoint_ok env P x e" "msg_local m e" "wire_msg_ok (ee_crypto env) m'" "mid m' = mid m \<longrightarrow> m' = m" "fr \<in> P"
  shows "\<exists>e' evs. on_eager_payload env e n fr m' = (e', dispatch_events env e' n evs) \<and> acts env P m x e e' evs \<and>
    pt_pending (ep_plumtree e') = pt_pending (ep_plumtree e) \<and> ep_seen e' (mid m') \<noteq> None \<and>
    (\<forall>i. i \<noteq> mid m' \<longrightarrow> ep_seen e' i = ep_seen e i) \<and>
    (ep_seen e (mid m') = None \<longrightarrow> (\<forall>b \<in> P. peer_node_id b \<in> ep_views e \<longrightarrow> b \<noteq> fr \<longrightarrow> passes_on env x e' evs m' b))"
proof -
  let ?l = "learn_peer e fr"
  have l: "endpoint_ok env P x ?l" "msg_local m ?l" using learn_endpoint_ok [OF assms(2,6)] assms(3) by (auto simp: msg_local_def)
  obtain q where q: "q \<in> P" "ep_peers ?l (peer_node_id fr) = Some q" using learn_endpoint_ok [OF assms(2,6)] by blast
  show ?thesis
  proof (cases "ep_seen e (mid m')")
    case None
    let ?evs = "push_events (ee_order env) ?l m' {peer_node_id fr}"
    have n: "ep_seen ?l (mid m') = None" using None by simp
    have "on_eager_payload env e n fr m' = (store_msg ?l m', dispatch_events env (store_msg ?l m') n ?evs)"
      using None by (simp add: on_eager_payload_def store_msg_def push_events_def mid_def [symmetric] pt_defs Let_def)
    moreover have "acts env P m x e (store_msg ?l m') ?evs"
      using push_acts(1) [OF assms(1) l assms(4,5) n] by (simp add: acts_learn)
    moreover have "passes_on env x (store_msg ?l m') ?evs m' b" if "b \<in> P" "peer_node_id b \<in> ep_views e" "b \<noteq> fr" for b
    proof (rule push_acts(2) [OF assms(1) l assms(4,5) n])
      show "peer_node_id b \<notin> {peer_node_id fr}" using assms(1,6) that by (auto simp: setting_def inj_on_def)
    qed (use that in auto)
    ultimately show ?thesis by (intro exI [of _ "store_msg ?l m'"] exI [of _ ?evs]) simp
  next
    case (Some pl)
    let ?r = "on_receive (ee_order env) (ep_plumtree e) \<lparr>gm_id = mid m', gm_payload = encode_authority_msg m', gm_sender = peer_node_id fr\<rparr>"
    let ?e = "?l\<lparr>ep_plumtree := fst ?r\<rparr>"
    have "on_eager_payload env e n fr m' = (?e, dispatch_events env ?e n (snd ?r))"
      using Some by (simp add: on_eager_payload_def mid_def [symmetric] Let_def pt_get_def split: prod.splits)
    moreover have "acts env P m x e ?e (snd ?r)"
      using Some l q assms(3) by (auto simp: on_receive_def acts_def endpoint_ok_def msg_local_def)
    ultimately show ?thesis
      using Some by (intro exI [of _ ?e] exI [of _ "snd ?r"]) (simp add: on_receive_def)
  qed
qed

lemma control_acts:
  assumes "setting env P m" "endpoint_ok env P x e" "msg_local m e" "ctl_from c \<in> P"
  shows "\<exists>e' evs. on_control env e n c = (e', dispatch_events env e' n evs) \<and> acts env P m x e e' evs \<and> ep_seen e' = ep_seen e \<and>
    set (pt_pending (ep_plumtree e)) \<subseteq> set (pt_pending (ep_plumtree e')) \<and>
    (\<forall>a i y. c = CtlIHave a i y \<longrightarrow> ep_seen e i \<noteq> None \<or> (peer_node_id a, i, peer_node_id y) \<in> set (pt_pending (ep_plumtree e'))) \<and>
    (\<forall>b. c = CtlGraft b (mid m) \<longrightarrow> ep_seen e (mid m) \<noteq> None \<longrightarrow> (Some x, m) \<in> sent_mail env e' evs b)"
proof (cases c)
  case (CtlIHave a i y)
  let ?l = "learn_peer e a"
  have l: "endpoint_ok env P x ?l" using learn_endpoint_ok [OF assms(2)] assms(4) CtlIHave by simp
  obtain q where q: "q \<in> P" "ep_peers ?l (peer_node_id a) = Some q"
    using learn_endpoint_ok [OF assms(2)] assms(4) CtlIHave by force
  let ?e = "?l\<lparr>ep_plumtree := fst (on_ihave (ep_plumtree e) (peer_node_id a) i (peer_node_id y))\<rparr>"
  have "on_control env e n c = (?e, dispatch_events env ?e n [])"
    by (simp add: CtlIHave on_ihave_def Let_def)
  moreover have "acts env P m x e ?e []"
    using l q assms(3) by (auto simp: on_ihave_def acts_def endpoint_ok_def msg_local_def)
  ultimately show ?thesis
    by (intro exI [of _ ?e] exI [of _ "[]"]) (auto simp: CtlIHave on_ihave_def)
next
  case (CtlGraft b i)
  let ?l = "learn_peer e b"
  have b: "b \<in> P" using assms(4) CtlGraft by simp
  have l: "endpoint_ok env P x ?l" using learn_endpoint_ok [OF assms(2) b] by simp
  have "\<exists>q \<in> P. ep_peers ?l (peer_node_id b) = Some q" using learn_endpoint_ok [OF assms(2) b] by simp
  then have q: "ep_peers ?l (peer_node_id b) = Some b"
    using known_peer [OF l _ b] assms(1) by (auto simp: setting_def)
  let ?r = "on_graft (ep_plumtree e) (peer_node_id b) i"
  let ?e = "?l\<lparr>ep_plumtree := fst ?r\<rparr>"
  have oc: "on_control env e n c = (?e, dispatch_events env ?e n (snd ?r))"
    by (simp add: CtlGraft Let_def split: prod.splits)
  have ac: "acts env P m x e ?e (snd ?r)"
  proof -
    note d = endpoint_okD [OF l]
    have "endpoint_ok env P x ?e"
      by (rule endpoint_ok_frame [OF l]) (use d(3-6) q in \<open>auto simp: on_graft_def Let_def split: option.splits\<close>)
    moreover have "event_ok env P ?e ev" if "ev \<in> set (snd ?r)" for ev
      using that d(8) q b by (auto simp: on_graft_def Let_def decode_authority_msg_iff split: option.splits)
    moreover have "ep_seen e (msg_id_of (gm_payload msg)) = Some (gm_payload msg)" if "Eager t msg \<in> set (snd ?r)" for t msg
      using that d(7) by (fastforce simp: on_graft_def Let_def split: option.splits)
    moreover have "ep_seen ?e = ep_seen e" "ep_views e \<subseteq> ep_views ?e"
      by (auto simp: on_graft_def Let_def split: option.splits)
    ultimately show ?thesis using assms(3) unfolding acts_def msg_local_def by simp
  qed
  have sm: "(Some x, m) \<in> sent_mail env ?e (snd ?r) b" if "i = mid m" "ep_seen e (mid m) \<noteq> None"
    using that assms(1-3) q
    by (auto simp: on_graft_def sent_mail_def msg_local_def setting_def decode_authority_msg_iff endpoint_ok_def)
  have same: "ep_seen ?e = ep_seen e" "set (pt_pending (ep_plumtree e)) \<subseteq> set (pt_pending (ep_plumtree ?e))"
    by (auto simp: on_graft_def Let_def split: option.splits)
  show ?thesis
    by (rule exI [of _ ?e], rule exI [of _ "snd ?r"], intro conjI; (fact oc ac same)?) (use CtlGraft sm in simp_all)
next
  case (CtlPrune a)
  let ?e = "e\<lparr>ep_plumtree := on_prune (ep_plumtree e) (peer_node_id a)\<rparr>"
  have "acts env P m x e ?e []"
    using assms(2,3) by (auto simp: on_prune_def acts_def endpoint_ok_def msg_local_def)
  then show ?thesis by (intro exI [of _ ?e] exI [of _ "[]"]) (auto simp: CtlPrune on_prune_def)
qed

lemma tick_acts:
  assumes "setting env P m" "endpoint_ok env P x e" "msg_local m e"
  shows "\<exists>e' evs. epi_tick env e n = (e', dispatch_events env e' n evs) \<and> acts env P m x e e' evs \<and> ep_seen e' = ep_seen e \<and>
    (\<forall>a \<in> P. \<forall>y. (peer_node_id a, mid m, y) \<in> set (pt_pending (ep_plumtree e)) \<longrightarrow>
       ep_seen e (mid m) \<noteq> None \<or> CtlGraft x (mid m) \<in> sent_ctl env e' evs a)"
proof -
  let ?r = "pt_tick (ep_plumtree e)"
  let ?e = "e\<lparr>ep_plumtree := fst ?r\<rparr>"
  have "epi_tick env e n = (?e, dispatch_events env ?e n (snd ?r))" by (simp add: epi_tick_def Let_def split: prod.splits)
  moreover have "acts env P m x e ?e (snd ?r)"
  proof -
    have "endpoint_ok env P x ?e" using assms(2) by (simp add: endpoint_ok_def pt_tick_def Let_def)
    moreover have "event_ok env P ?e ev" if ev: "ev \<in> set (snd ?r)" for ev
    proof -
      obtain z where z: "ev = Graft (fst z) (fst (snd z))" "z \<in> set (pt_pending (ep_plumtree e))"
        using ev by (auto simp: pt_tick_def Let_def)
      then have "ep_peers e (fst z) \<noteq> None" using endpoint_okD(6) [OF assms(2)] by (cases z) auto
      then show ?thesis using endpoint_okD(2) [OF assms(2)] z(1) by auto
    qed
    moreover have "Eager t msg \<notin> set (snd ?r)" for t msg by (auto simp: pt_tick_def Let_def)
    ultimately show ?thesis using assms(3) by (auto simp: acts_def msg_local_def pt_tick_def Let_def)
  qed
  moreover have "CtlGraft x (mid m) \<in> sent_ctl env ?e (snd ?r) a"
    if "a \<in> P" "(peer_node_id a, mid m, y) \<in> set (pt_pending (ep_plumtree e))" "ep_seen e (mid m) = None" for a y
  proof -
    have "ep_peers e (peer_node_id a) \<noteq> None" using endpoint_okD(6) [OF assms(2) that(2)] .
    then have "ep_peers e (peer_node_id a) = Some a" "ep_me e = x"
      using known_peer [OF assms(2) _ that(1)] assms(1) endpoint_okD(1) [OF assms(2)] by (simp_all add: setting_def)
    moreover have "Graft (peer_node_id a) (mid m) \<in> set (snd ?r)" using that by (force simp: pt_tick_def Let_def)
    ultimately show ?thesis by (auto simp: sent_ctl_def intro!: bexI [of _ "Graft (peer_node_id a) (mid m)"])
  qed
  ultimately show ?thesis
    by (intro exI [of _ ?e] exI [of _ "snd ?r"]) (auto simp: pt_tick_def Let_def)
qed

section \<open>A turn of an endpoint\<close>

text \<open>While \<open>x\<close> works off its mails \<open>R\<close> and control messages \<open>K\<close>, these are under way too.\<close>

definition mail_at where
  "mail_at n x R p = mails n p \<union> (if p = x then set R else {})"

definition ctl_at where
  "ctl_at n x K p = ctls n p \<union> (if p = x then set K else {})"

definition under_way where
  "under_way env P N m x st n R K \<longleftrightarrow> net_up P n \<and> sound env P N m st (mail_at n x R) (ctl_at n x K) \<and>
     announced N m st (mail_at n x R) (ctl_at n x K)"

abbreviation has :: "authority_msg \<Rightarrow> ep_store \<Rightarrow> peer_id \<Rightarrow> bool" where
  "has m st p \<equiv> ep_seen (st p) (mid m) \<noteq> None"

abbreviation lvl where
  "lvl m x st n R K \<equiv> level m st (mail_at n x R) (ctl_at n x K)"

definition keeps where
  "keeps N m x st n R K st' n' R' K' \<longleftrightarrow> (\<forall>p. has m st p \<longrightarrow> has m st' p) \<and>
     (\<forall>(a, b) \<in> N. has m st a \<longrightarrow> (\<forall>k. lvl m x st n R K k a b \<longrightarrow> lvl m x st' n' R' K' k a b))"

lemma keeps_refl [simp]: "keeps N m x st n R K st n R K"
  by (auto simp: keeps_def)

lemma keeps_has: "keeps N m x st n R K st' n' R' K' \<Longrightarrow> has m st p \<Longrightarrow> has m st' p"
  unfolding keeps_def by blast

lemma keeps_lvl:
  "keeps N m x st n R K st' n' R' K' \<Longrightarrow> (a, b) \<in> N \<Longrightarrow> has m st a \<Longrightarrow> lvl m x st n R K k a b \<Longrightarrow> lvl m x st' n' R' K' k a b"
  unfolding keeps_def by blast

lemma level_cases:
  assumes "level m st M C k a b"
  obtains (seen) "has m st b" | (mail) h where "1 \<le> k" "(h, m) \<in> M b" | (graft) "2 \<le> k" "CtlGraft b (mid m) \<in> C a"
  | (ihave) y where "3 \<le> k" "CtlIHave a (mid m) y \<in> C b" | (pending) z where "3 \<le> k" "(peer_node_id a, mid m, z) \<in> set (pt_pending (ep_plumtree (st b)))"
  using assms unfolding level_def by blast

lemma level_intros:
  "has m st b \<Longrightarrow> level m st M C k a b" "(h, m) \<in> M b \<Longrightarrow> 1 \<le> k \<Longrightarrow> level m st M C k a b"
  "CtlGraft b (mid m) \<in> C a \<Longrightarrow> 2 \<le> k \<Longrightarrow> level m st M C k a b" "CtlIHave a (mid m) y \<in> C b \<Longrightarrow> 3 \<le> k \<Longrightarrow> level m st M C k a b"
  "(peer_node_id a, mid m, z) \<in> set (pt_pending (ep_plumtree (st b))) \<Longrightarrow> 3 \<le> k \<Longrightarrow> level m st M C k a b"
  unfolding level_def by blast+

lemma level_mono: "level m st M C j a b \<Longrightarrow> j \<le> k \<Longrightarrow> level m st M C k a b"
  unfolding level_def by (meson order.trans)

lemma keeps_trans:
  "keeps N m x st n R K st1 n1 R1 K1 \<Longrightarrow> keeps N m x st1 n1 R1 K1 st2 n2 R2 K2 \<Longrightarrow> keeps N m x st n R K st2 n2 R2 K2"
  unfolding keeps_def by blast

lemma under_wayD:
  assumes "under_way env P N m x st n R K"
  shows "net_up P n" "p \<in> P \<Longrightarrow> endpoint_ok env P p (st p)" "p \<in> P \<Longrightarrow> msg_local m (st p)"
    "(h, m') \<in> set R \<Longrightarrow> x \<in> P \<Longrightarrow> wire_msg_ok (ee_crypto env) m' \<and> (\<forall>q. h = Some q \<longrightarrow> q \<in> P) \<and>
       (mid m' = mid m \<longrightarrow> m' = m \<and> (\<forall>q. h = Some q \<longrightarrow> has m st q))"
    "c \<in> set K \<Longrightarrow> x \<in> P \<Longrightarrow> ctl_from c \<in> P"
    "(a, b) \<in> N \<Longrightarrow> a \<in> P \<and> b \<in> P \<and> peer_node_id b \<in> ep_views (st a)"
    "(a, b) \<in> N \<Longrightarrow> has m st a \<Longrightarrow> lvl m x st n R K 3 a b"
proof -
  note s = assms [unfolded under_way_def sound_def]
  show "net_up P n" using s by blast
  show "p \<in> P \<Longrightarrow> endpoint_ok env P p (st p)" using s by blast
  show "p \<in> P \<Longrightarrow> msg_local m (st p)" using s unfolding msg_sound_def msg_local_def by blast
  show "wire_msg_ok (ee_crypto env) m' \<and> (\<forall>q. h = Some q \<longrightarrow> q \<in> P) \<and> (mid m' = mid m \<longrightarrow> m' = m \<and> (\<forall>q. h = Some q \<longrightarrow> has m st q))"
    if "(h, m') \<in> set R" "x \<in> P"
  proof -
    have r: "(h, m') \<in> mail_at n x R x" using that by (simp add: mail_at_def)
    have "flights_ok env P (mail_at n x R) (ctl_at n x K)" "msg_sound P m st (mail_at n x R)" using s by blast+
    then show ?thesis using r that(2) unfolding flights_ok_def msg_sound_def by blast
  qed
  show "ctl_from c \<in> P" if "c \<in> set K" "x \<in> P"
  proof -
    have r: "c \<in> ctl_at n x K x" using that by (simp add: ctl_at_def)
    have "flights_ok env P (mail_at n x R) (ctl_at n x K)" using s by blast
    then show ?thesis using r that(2) unfolding flights_ok_def by blast
  qed
  show "(a, b) \<in> N \<Longrightarrow> a \<in> P \<and> b \<in> P \<and> peer_node_id b \<in> ep_views (st a)" using s unfolding neighbours_def by blast
  show "(a, b) \<in> N \<Longrightarrow> has m st a \<Longrightarrow> lvl m x st n R K 3 a b" using s unfolding announced_def by blast
qed

lemma act_step:
  assumes "setting env P m" "under_way env P N m x st n R K" "x \<in> P" "acts env P m x (st x) e evs" "set R' \<subseteq> set R" "set K' \<subseteq> set K"
  shows "\<exists>n'. dispatch_events env e n evs = (n', Inr ()) \<and> net_up P n' \<and>
    sound env P N m (st(x := e)) (mail_at n' x R') (ctl_at n' x K') \<and>
    (\<forall>q. mails n' q = mails n q \<union> sent_mail env e evs q) \<and> (\<forall>q. ctls n' q = ctls n q \<union> sent_ctl env e evs q)"
proof -
  obtain n' where n': "dispatch_events env e n evs = (n', Inr ())" "net_up P n'"
    "\<forall>q. mails n' q = mails n q \<union> sent_mail env e evs q" "\<forall>q. ctls n' q = ctls n q \<union> sent_ctl env e evs q"
    using dispatch_up [OF under_wayD(1) [OF assms(2)]] assms(4) unfolding acts_def by metis
  have "sound env P N m (st(x := e)) (mail_at n' x R') (ctl_at n' x K')"
  proof (rule acts_sound [where st = st and M = "mail_at n x R" and C = "ctl_at n x K" and evs = evs])
    show "sound env P N m st (mail_at n x R) (ctl_at n x K)" using assms(2) by (simp add: under_way_def)
    show "wire_msg_ok (ee_crypto env) m" using assms(1) by (simp add: setting_def)
    show "mail_at n' x R' p \<subseteq> mail_at n x R p \<union> sent_mail env e evs p" for p using n'(3) assms(5) by (auto simp: mail_at_def)
    show "ctl_at n' x K' p \<subseteq> ctl_at n x K p \<union> sent_ctl env e evs p" for p using n'(4) assms(6) by (auto simp: ctl_at_def)
  qed (fact assms(3,4))+
  then show ?thesis using n' by blast
qed

lemma under_way_keeps:
  assumes "under_way env P N m x st n R K" "net_up P n'" "sound env P N m st' (mail_at n' x R') (ctl_at n' x K')"
    "keeps N m x st n R K st' n' R' K'"
    "\<And>a b. (a, b) \<in> N \<Longrightarrow> \<not> has m st a \<Longrightarrow> has m st' a \<Longrightarrow> lvl m x st' n' R' K' 3 a b"
  shows "under_way env P N m x st' n' R' K'"
  using assms unfolding under_way_def announced_def keeps_def by blast

lemma hop_step:
  assumes "setting env P m" "under_way env P N m x st n ((h, m') # R) []" "x \<in> P"
  shows "\<exists>e n'. on_eager_payload env (st x) n (case h of Some p \<Rightarrow> p | None \<Rightarrow> ep_me (st x)) m' = (e, n', Inr ()) \<and>
    under_way env P N m x (st(x := e)) n' R [] \<and> keeps N m x st n ((h, m') # R) [] (st(x := e)) n' R [] \<and>
    (m' = m \<longrightarrow> ep_seen e (mid m) \<noteq> None)"
proof -
  note l = under_wayD [OF assms(2)]
  have h: "wire_msg_ok (ee_crypto env) m'" "\<forall>q. h = Some q \<longrightarrow> q \<in> P" "mid m' = mid m \<longrightarrow> m' = m" "mid m' = mid m \<longrightarrow> (\<forall>q. h = Some q \<longrightarrow> has m st q)"
    using l(4) [of h m'] assms(3) by auto
  define fr where "fr = (case h of Some p \<Rightarrow> p | None \<Rightarrow> ep_me (st x))"
  have fr: "fr \<in> P" using h(2) assms(3) endpoint_okD(1) [OF l(2) [OF assms(3)]] by (auto simp: fr_def split: option.splits)
  obtain e evs where e: "on_eager_payload env (st x) n fr m' = (e, dispatch_events env e n evs)" "acts env P m x (st x) e evs"
    "pt_pending (ep_plumtree e) = pt_pending (ep_plumtree (st x))" "ep_seen e (mid m') \<noteq> None" "\<forall>i. i \<noteq> mid m' \<longrightarrow> ep_seen e i = ep_seen (st x) i"
    "ep_seen (st x) (mid m') = None \<longrightarrow> (\<forall>b \<in> P. peer_node_id b \<in> ep_views (st x) \<longrightarrow> b \<noteq> fr \<longrightarrow> passes_on env x e evs m' b)"
    using hop_acts [OF assms(1) l(2) [OF assms(3)] l(3) [OF assms(3)] h(1,3) fr, of n] by (elim exE conjE) (rule that)
  obtain n' where n': "dispatch_events env e n evs = (n', Inr ())" "net_up P n'" "sound env P N m (st(x := e)) (mail_at n' x R) (ctl_at n' x [])"
    "\<forall>q. mails n' q = mails n q \<union> sent_mail env e evs q" "\<forall>q. ctls n' q = ctls n q \<union> sent_ctl env e evs q"
    using act_step [OF assms(1,2,3) e(2) set_subset_Cons order.refl] by (elim exE conjE) (rule that)
  have mono: "has m (st(x := e)) p" if "has m st p" for p using e(2) that by (auto simp: acts_def)
  have keep: "keeps N m x st n ((h, m') # R) [] (st(x := e)) n' R []"
    unfolding keeps_def
  proof (intro conjI allI ballI impI mono, safe)
    fix a b k assume "lvl m x st n ((h, m') # R) [] k a b"
    then show "lvl m x (st(x := e)) n' R [] k a b"
      using mono [of b] e(3,4) n'(4,5) unfolding level_def by (auto simp: mail_at_def ctl_at_def)
  qed
  have new: "lvl m x (st(x := e)) n' R [] 3 a b" if ab: "(a, b) \<in> N" "\<not> has m st a" "has m (st(x := e)) a" for a b
  proof -
    have a: "a = x" "ep_seen (st x) (mid m) = None" "mid m' = mid m" "m' = m"
      using ab(2,3) e(5) h(3) by (auto split: if_splits)
    show ?thesis
    proof (cases "b = fr")
      case True
      then have "has m (st(x := e)) b"
        using h(4) a mono e(4) endpoint_okD(1) [OF l(2) [OF assms(3)]] by (auto simp: fr_def split: option.splits)
      then show ?thesis by (simp add: level_def)
    next
      case False
      then have "passes_on env x e evs m b" using e(6) a l(6) [OF ab(1)] by auto
      then show ?thesis using n'(4,5) a(1) by (auto simp: passes_on_def level_def mail_at_def ctl_at_def)
    qed
  qed
  show ?thesis
    using e(1,4) n'(1) keep under_way_keeps [OF assms(2) n'(2,3) keep new] by (auto simp: fr_def)
qed

lemma hops_loop:
  assumes "setting env P m" "x \<in> P" "under_way env P N m x st n R []"
  shows "\<exists>e n'. process_hops env (st x) n R = (e, n', Inr ()) \<and> under_way env P N m x (st(x := e)) n' [] [] \<and>
    keeps N m x st n R [] (st(x := e)) n' [] [] \<and> ((\<exists>h. (h, m) \<in> set R) \<longrightarrow> ep_seen e (mid m) \<noteq> None)"
  using assms(3)
proof (induction R arbitrary: st n)
  case Nil
  then show ?case by (intro exI [of _ "st x"] exI [of _ n]) simp
next
  case (Cons r R)
  obtain h m' where r: "r = (h, m')" by force
  obtain e n1 where 1: "on_eager_payload env (st x) n (case h of Some p \<Rightarrow> p | None \<Rightarrow> ep_me (st x)) m' = (e, n1, Inr ())"
    "under_way env P N m x (st(x := e)) n1 R []" "keeps N m x st n (r # R) [] (st(x := e)) n1 R []" "m' = m \<longrightarrow> ep_seen e (mid m) \<noteq> None"
    using hop_step [OF assms(1) _ assms(2)] Cons.prems unfolding r by blast
  obtain e2 n2 where 2: "process_hops env e n1 R = (e2, n2, Inr ())" "under_way env P N m x (st(x := e2)) n2 [] []"
    "keeps N m x (st(x := e)) n1 R [] (st(x := e2)) n2 [] []" "(\<exists>h. (h, m) \<in> set R) \<longrightarrow> ep_seen e2 (mid m) \<noteq> None"
    using Cons.IH [OF 1(2)] unfolding fun_upd_same fun_upd_upd by (elim exE conjE) (rule that)
  have "ep_seen e (mid m) \<noteq> None \<longrightarrow> ep_seen e2 (mid m) \<noteq> None" using keeps_has [OF 2(3), of x] by simp
  then have "(\<exists>h. (h, m) \<in> set (r # R)) \<longrightarrow> ep_seen e2 (mid m) \<noteq> None" using 1(4) 2(4) by (auto simp: r)
  moreover have "process_hops env (st x) n (r # R) = (e2, n2, Inr ())" using 1(1) 2(1) by (simp add: r)
  ultimately show ?case using 2(2) keeps_trans [OF 1(3) 2(3)] by blast
qed

lemma control_step:
  assumes "setting env P m" "under_way env P N m x st n [] (c # K)" "x \<in> P"
  shows "\<exists>e n'. on_control env (st x) n c = (e, n', Inr ()) \<and> under_way env P N m x (st(x := e)) n' [] K \<and>
    keeps N m x st n [] (c # K) (st(x := e)) n' [] K \<and>
    set (pt_pending (ep_plumtree (st x))) \<subseteq> set (pt_pending (ep_plumtree e)) \<and>
    (\<forall>a y. c = CtlIHave a (mid m) y \<longrightarrow> ep_seen e (mid m) \<noteq> None \<or> (\<exists>y. (peer_node_id a, mid m, y) \<in> set (pt_pending (ep_plumtree e)))) \<and>
    (\<forall>b. c = CtlGraft b (mid m) \<longrightarrow> has m st x \<longrightarrow> lvl m x (st(x := e)) n' [] K 1 x b)"
proof -
  note l = under_wayD [OF assms(2)]
  have c: "ctl_from c \<in> P" using l(5) [of c] assms(3) by simp
  obtain e evs where e: "on_control env (st x) n c = (e, dispatch_events env e n evs)" "acts env P m x (st x) e evs" "ep_seen e = ep_seen (st x)"
    "set (pt_pending (ep_plumtree (st x))) \<subseteq> set (pt_pending (ep_plumtree e))"
    "\<forall>a i y. c = CtlIHave a i y \<longrightarrow> ep_seen (st x) i \<noteq> None \<or> (peer_node_id a, i, peer_node_id y) \<in> set (pt_pending (ep_plumtree e))"
    "\<forall>b. c = CtlGraft b (mid m) \<longrightarrow> has m st x \<longrightarrow> (Some x, m) \<in> sent_mail env e evs b"
    using control_acts [OF assms(1) l(2) [OF assms(3)] l(3) [OF assms(3)] c, of n] by (elim exE conjE) (rule that)
  obtain n' where n': "dispatch_events env e n evs = (n', Inr ())" "net_up P n'" "sound env P N m (st(x := e)) (mail_at n' x []) (ctl_at n' x K)"
    "\<forall>q. mails n' q = mails n q \<union> sent_mail env e evs q" "\<forall>q. ctls n' q = ctls n q \<union> sent_ctl env e evs q"
    using act_step [OF assms(1,2,3) e(2) order.refl set_subset_Cons] by (elim exE conjE) (rule that)
  have same: "has m (st(x := e)) p \<longleftrightarrow> has m st p" for p using e(3) by simp
  have ih: "\<exists>y. (peer_node_id a, mid m, y) \<in> set (pt_pending (ep_plumtree e))" if "c = CtlIHave a (mid m) y" "\<not> has m st x" for a y
    using e(5) that by blast
  have gr: "lvl m x (st(x := e)) n' [] K 1 x b" if "c = CtlGraft b (mid m)" "has m st x" for b
    using e(6) that n'(4) by (intro level_intros(2) [of "Some x"]) (simp_all add: mail_at_def)
  have keep: "keeps N m x st n [] (c # K) (st(x := e)) n' [] K"
    unfolding keeps_def
  proof (intro conjI allI impI, simp only: same, safe)
    fix a b k y assume k: "lvl m x st n [] (c # K) k a b" and a: "ep_seen (st a) (mid m) = Some y"
    show "lvl m x (st(x := e)) n' [] K k a b"
      using k
    proof (cases rule: level_cases)
      case seen
      then show ?thesis by (intro level_intros(1) iffD2 [OF same])
    next
      case (mail h)
      then show ?thesis using n'(4) by (intro level_intros(2) [of h]) (auto simp: mail_at_def)
    next
      case graft
      then consider "a = x" "c = CtlGraft b (mid m)" | "CtlGraft b (mid m) \<in> ctl_at n' x K a"
        using n'(5) by (auto simp: ctl_at_def split: if_splits)
      then show ?thesis
      proof cases
        case 1
        then have "lvl m x (st(x := e)) n' [] K 1 a b" using gr [of b] a by simp
        then show ?thesis using graft(1) by (rule level_mono [OF _ order.trans [OF one_le_numeral]])
      next
        case 2
        then show ?thesis using graft(1) by (rule level_intros(3))
      qed
    next
      case (ihave y)
      then consider "b = x" "c = CtlIHave a (mid m) y" | "CtlIHave a (mid m) y \<in> ctl_at n' x K b"
        using n'(5) by (auto simp: ctl_at_def split: if_splits)
      then show ?thesis
      proof cases
        case 1
        show ?thesis
        proof (cases "has m st x")
          case True
          then show ?thesis using 1(1) by (intro level_intros(1) iffD2 [OF same]) simp
        next
          case False
          obtain z where "(peer_node_id a, mid m, z) \<in> set (pt_pending (ep_plumtree e))" using ih [OF 1(2) False] by blast
          then show ?thesis using ihave(1) 1(1) by (intro level_intros(5)) simp_all
        qed
      next
        case 2
        then show ?thesis using ihave(1) by (rule level_intros(4))
      qed
    next
      case (pending z)
      then show ?thesis using e(4) by (intro level_intros(5)) auto
    qed
  qed
  have "under_way env P N m x (st(x := e)) n' [] K"
    by (rule under_way_keeps [OF assms(2) n'(2,3) keep]) (use same in blast)
  moreover have "on_control env (st x) n c = (e, n', Inr ())" using e(1) n'(1) by simp
  moreover have "ep_seen e (mid m) \<noteq> None \<or> (\<exists>y. (peer_node_id a, mid m, y) \<in> set (pt_pending (ep_plumtree e)))"
    if "c = CtlIHave a (mid m) y" for a y
    using ih [OF that] e(3) by metis
  ultimately show ?thesis using keep e(4) gr by (intro exI [of _ e] exI [of _ n']) blast
qed

lemma control_loop:
  assumes "setting env P m" "x \<in> P" "under_way env P N m x st n [] K"
  shows "\<exists>e n'. process_control env (st x) n K = (e, n', Inr ()) \<and> under_way env P N m x (st(x := e)) n' [] [] \<and>
    keeps N m x st n [] K (st(x := e)) n' [] [] \<and> set (pt_pending (ep_plumtree (st x))) \<subseteq> set (pt_pending (ep_plumtree e)) \<and>
    (\<forall>a y. CtlIHave a (mid m) y \<in> set K \<longrightarrow> ep_seen e (mid m) \<noteq> None \<or> (\<exists>y. (peer_node_id a, mid m, y) \<in> set (pt_pending (ep_plumtree e)))) \<and>
    (\<forall>b. (x, b) \<in> N \<longrightarrow> CtlGraft b (mid m) \<in> set K \<longrightarrow> has m st x \<longrightarrow> lvl m x (st(x := e)) n' [] [] 1 x b)"
  using assms(3)
proof (induction K arbitrary: st n)
  case Nil
  then show ?case by (intro exI [of _ "st x"] exI [of _ n]) simp
next
  case (Cons c K)
  obtain e n1 where 1: "on_control env (st x) n c = (e, n1, Inr ())" "under_way env P N m x (st(x := e)) n1 [] K"
    "keeps N m x st n [] (c # K) (st(x := e)) n1 [] K" "set (pt_pending (ep_plumtree (st x))) \<subseteq> set (pt_pending (ep_plumtree e))"
    "\<forall>a y. c = CtlIHave a (mid m) y \<longrightarrow> ep_seen e (mid m) \<noteq> None \<or> (\<exists>y. (peer_node_id a, mid m, y) \<in> set (pt_pending (ep_plumtree e)))"
    "\<forall>b. c = CtlGraft b (mid m) \<longrightarrow> has m st x \<longrightarrow> lvl m x (st(x := e)) n1 [] K 1 x b"
    using control_step [OF assms(1) Cons.prems assms(2)] by (elim exE conjE) (rule that)
  obtain e2 n2 where 2: "process_control env e n1 K = (e2, n2, Inr ())" "under_way env P N m x (st(x := e2)) n2 [] []"
    "keeps N m x (st(x := e)) n1 [] K (st(x := e2)) n2 [] []" "set (pt_pending (ep_plumtree e)) \<subseteq> set (pt_pending (ep_plumtree e2))"
    "\<forall>a y. CtlIHave a (mid m) y \<in> set K \<longrightarrow> ep_seen e2 (mid m) \<noteq> None \<or> (\<exists>y. (peer_node_id a, mid m, y) \<in> set (pt_pending (ep_plumtree e2)))"
    "\<forall>b. (x, b) \<in> N \<longrightarrow> CtlGraft b (mid m) \<in> set K \<longrightarrow> ep_seen e (mid m) \<noteq> None \<longrightarrow> lvl m x (st(x := e2)) n2 [] [] 1 x b"
    using Cons.IH [OF 1(2)] unfolding fun_upd_same fun_upd_upd by (elim exE conjE) (rule that)
  have seen: "ep_seen e (mid m) \<noteq> None \<Longrightarrow> ep_seen e2 (mid m) \<noteq> None" using keeps_has [OF 2(3), of x] by simp
  have seen0: "has m st x \<Longrightarrow> ep_seen e (mid m) \<noteq> None" using keeps_has [OF 1(3), of x] by simp
  have ih: "ep_seen e2 (mid m) \<noteq> None \<or> (\<exists>y. (peer_node_id a, mid m, y) \<in> set (pt_pending (ep_plumtree e2)))"
    if i: "CtlIHave a (mid m) y \<in> set (c # K)" for a y
  proof (cases "c = CtlIHave a (mid m) y")
    case True
    then consider "ep_seen e (mid m) \<noteq> None" | z where "(peer_node_id a, mid m, z) \<in> set (pt_pending (ep_plumtree e))" using 1(5) by blast
    then show ?thesis using seen 2(4) by cases blast+
  next
    case False
    then have "CtlIHave a (mid m) y \<in> set K" using i by simp
    then show ?thesis using 2(5) by blast
  qed
  have gr: "lvl m x (st(x := e2)) n2 [] [] 1 x b" if b: "(x, b) \<in> N" "CtlGraft b (mid m) \<in> set (c # K)" "has m st x" for b
  proof (cases "c = CtlGraft b (mid m)")
    case True
    then have "lvl m x (st(x := e)) n1 [] K 1 x b" using 1(6) b(3) by blast
    then show ?thesis using keeps_lvl [OF 2(3) b(1)] seen0 [OF b(3)] by simp
  next
    case False
    then show ?thesis using 2(6) b seen0 by simp
  qed
  moreover have "process_control env (st x) n (c # K) = (e2, n2, Inr ())" using 1(1) 2(1) by simp
  moreover have "set (pt_pending (ep_plumtree (st x))) \<subseteq> set (pt_pending (ep_plumtree e2))" using 1(4) 2(4) by (rule order.trans)
  ultimately show ?case
    using 2(2) keeps_trans [OF 1(3) 2(3)] ih gr by (intro exI [of _ e2] exI [of _ n2]) blast
qed

lemma tick_step:
  assumes "setting env P m" "under_way env P N m x st n [] []" "x \<in> P"
  shows "\<exists>e n'. epi_tick env (st x) n = (e, n', Inr ()) \<and> under_way env P N m x (st(x := e)) n' [] [] \<and>
    keeps N m x st n [] [] (st(x := e)) n' [] [] \<and>
    (\<forall>a \<in> P. \<forall>y. (peer_node_id a, mid m, y) \<in> set (pt_pending (ep_plumtree (st x))) \<longrightarrow> lvl m x (st(x := e)) n' [] [] 2 a x)"
proof -
  note l = under_wayD [OF assms(2)]
  obtain e evs where e: "epi_tick env (st x) n = (e, dispatch_events env e n evs)" "acts env P m x (st x) e evs" "ep_seen e = ep_seen (st x)"
    "\<forall>a \<in> P. \<forall>y. (peer_node_id a, mid m, y) \<in> set (pt_pending (ep_plumtree (st x))) \<longrightarrow> has m st x \<or> CtlGraft x (mid m) \<in> sent_ctl env e evs a"
    using tick_acts [OF assms(1) l(2) [OF assms(3)] l(3) [OF assms(3)], of n] by (elim exE conjE) (rule that)
  obtain n' where n': "dispatch_events env e n evs = (n', Inr ())" "net_up P n'" "sound env P N m (st(x := e)) (mail_at n' x []) (ctl_at n' x [])"
    "\<forall>q. mails n' q = mails n q \<union> sent_mail env e evs q" "\<forall>q. ctls n' q = ctls n q \<union> sent_ctl env e evs q"
    using act_step [OF assms(1,2,3) e(2) order.refl order.refl] by (elim exE conjE) (rule that)
  have same: "has m (st(x := e)) p \<longleftrightarrow> has m st p" for p using e(3) by simp
  have p2: "lvl m x (st(x := e)) n' [] [] 2 a x" if "a \<in> P" "(peer_node_id a, mid m, y) \<in> set (pt_pending (ep_plumtree (st x)))" for a y
  proof -
    have "has m st x \<or> CtlGraft x (mid m) \<in> sent_ctl env e evs a" using e(4) that by blast
    then show ?thesis
    proof
      assume "has m st x"
      then show ?thesis by (intro level_intros(1) iffD2 [OF same])
    qed (use n'(5) in \<open>simp add: level_def ctl_at_def\<close>)
  qed
  have keep: "keeps N m x st n [] [] (st(x := e)) n' [] []"
    unfolding keeps_def
  proof (intro conjI allI impI, simp only: same, safe)
    fix a b k assume ab: "(a, b) \<in> N" and k: "lvl m x st n [] [] k a b"
    show "lvl m x (st(x := e)) n' [] [] k a b"
      using k
    proof (cases rule: level_cases)
      case seen
      then show ?thesis by (intro level_intros(1) iffD2 [OF same])
    next
      case (mail h)
      then show ?thesis using n'(4) by (intro level_intros(2) [of h]) (auto simp: mail_at_def)
    next
      case graft
      then show ?thesis using n'(5) by (intro level_intros(3)) (auto simp: ctl_at_def)
    next
      case (ihave y)
      then show ?thesis using n'(5) by (intro level_intros(4) [of _ _ y]) (auto simp: ctl_at_def)
    next
      case (pending y)
      show ?thesis
      proof (cases "b = x")
        case True
        then have "lvl m x (st(x := e)) n' [] [] 2 a b" using p2 l(6) [OF ab] pending(2) by blast
        then show ?thesis by (rule level_mono) (use pending(1) in simp)
      next
        case False
        then show ?thesis using pending by (intro level_intros(5)) simp_all
      qed
    qed
  qed
  have "under_way env P N m x (st(x := e)) n' [] []"
    by (rule under_way_keeps [OF assms(2) n'(2,3) keep]) (use same in blast)
  moreover have "epi_tick env (st x) n = (e, n', Inr ())" using e(1) n'(1) by simp
  ultimately show ?thesis using keep p2 by blast
qed

lemma drain_mails:
  assumes "net_up P n" "x \<in> P"
  obtains g hops where "drain_with_hops (en_mesh n) x = (g, hops)" "net_up P (n\<lparr>en_mesh := g\<rparr>)" "set hops = mails n x"
    "mail_at (n\<lparr>en_mesh := g\<rparr>) x hops = mail_at n x []" "ctls (n\<lparr>en_mesh := g\<rparr>) = ctls n"
proof -
  obtain mb where mb: "map_of (mesh_mailboxes (en_mesh n)) x = Some mb" using assms by (auto simp: net_up_def)
  define g where "g = (en_mesh n)\<lparr>mesh_mailboxes := bt_insert x [] (mesh_mailboxes (en_mesh n))\<rparr>"
  have "drain_with_hops (en_mesh n) x = (g, map (\<lambda>e. (mail_from e, mail_msg e)) mb)" using mb by (simp add: drain_with_hops_def g_def)
  moreover have "net_up P (n\<lparr>en_mesh := g\<rparr>)" using assms(1) by (auto simp: net_up_def g_def map_of_bt_insert)
  moreover have s: "set (map (\<lambda>e. (mail_from e, mail_msg e)) mb) = mails n x" using mb by (simp add: mails_def)
  moreover have "mail_at (n\<lparr>en_mesh := g\<rparr>) x (map (\<lambda>e. (mail_from e, mail_msg e)) mb) = mail_at n x []"
    using mb by (rule_tac ext) (auto simp: mail_at_def mails_def g_def map_of_bt_insert)
  moreover have "ctls (n\<lparr>en_mesh := g\<rparr>) = ctls n" by (rule ext) (simp add: ctls_def)
  ultimately show thesis by (rule that)
qed

lemma drain_ctls:
  assumes "net_up P n" "x \<in> P"
  obtains n' cs where "control_drain n x = (n', cs)" "net_up P n'" "set cs = ctls n x"
    "ctl_at n' x cs = ctl_at n x []" "mails n' = mails n"
proof -
  obtain q where q: "map_of (en_control n) x = Some q" using assms by (auto simp: net_up_def)
  let ?n = "n\<lparr>en_control := bt_insert x [] (en_control n)\<rparr>"
  have "control_drain n x = (?n, q)" using q by (simp add: control_drain_def)
  moreover have "net_up P ?n" using assms(1) by (auto simp: net_up_def map_of_bt_insert)
  moreover have "set q = ctls n x" using q by (simp add: ctls_def)
  moreover have "ctl_at ?n x q = ctl_at n x []"
    using q by (rule_tac ext) (auto simp: ctl_at_def ctls_def map_of_bt_insert)
  moreover have "mails ?n = mails n" by (rule ext) (simp add: mails_def)
  ultimately show thesis by (rule that)
qed

lemma same_flights:
  assumes "mail_at n x R = mail_at n' x R'" "ctl_at n x K = ctl_at n' x K'"
  shows "net_up P n' \<Longrightarrow> under_way env P N m x st n R K \<Longrightarrow> under_way env P N m x st n' R' K'" "keeps N m x st n R K st n' R' K'"
  using assms by (simp_all add: under_way_def keeps_def)

lemma turn_step:
  assumes "setting env P m" "under_way env P N m x st n [] []" "x \<in> P" "turn env x (st, n) = (st', n')"
  shows "under_way env P N m x st' n' [] []" "keeps N m x st n [] [] st' n' [] []"
    "\<And>a. (a, x) \<in> N \<Longrightarrow> has m st a \<Longrightarrow> lvl m x st n [] [] 1 a x \<Longrightarrow> lvl m x st' n' [] [] 0 a x"
    "\<And>b. (x, b) \<in> N \<Longrightarrow> has m st x \<Longrightarrow> lvl m x st n [] [] 2 x b \<Longrightarrow> lvl m x st' n' [] [] 1 x b"
    "\<And>a. (a, x) \<in> N \<Longrightarrow> has m st a \<Longrightarrow> lvl m x st n [] [] 3 a x \<Longrightarrow> lvl m x st' n' [] [] 2 a x"
proof -
  note l = under_wayD [OF assms(2)]
  have me: "ep_me (st x) = x" using endpoint_okD(1) [OF l(2) [OF assms(3)]] .
  obtain g hops where d: "drain_with_hops (en_mesh n) x = (g, hops)" "net_up P (n\<lparr>en_mesh := g\<rparr>)" "set hops = mails n x"
    "mail_at (n\<lparr>en_mesh := g\<rparr>) x hops = mail_at n x []" "ctls (n\<lparr>en_mesh := g\<rparr>) = ctls n"
    by (rule drain_mails [OF l(1) assms(3)])
  have eq1: "mail_at n x [] = mail_at (n\<lparr>en_mesh := g\<rparr>) x hops" "ctl_at n x [] = ctl_at (n\<lparr>en_mesh := g\<rparr>) x []"
    using d(4,5) by (simp_all add: ctl_at_def [abs_def])
  have l1: "under_way env P N m x st (n\<lparr>en_mesh := g\<rparr>) hops []" by (rule same_flights(1) [OF eq1 d(2) assms(2)])
  note k1 = same_flights(2) [OF eq1, of N m st]
  obtain e2 n2 where 2: "process_hops env (st x) (n\<lparr>en_mesh := g\<rparr>) hops = (e2, n2, Inr ())" "under_way env P N m x (st(x := e2)) n2 [] []"
    "keeps N m x st (n\<lparr>en_mesh := g\<rparr>) hops [] (st(x := e2)) n2 [] []" "(\<exists>h. (h, m) \<in> set hops) \<longrightarrow> ep_seen e2 (mid m) \<noteq> None"
    using hops_loop [OF assms(1,3) l1] by (elim exE conjE) (rule that)
  note l2 = under_wayD [OF 2(2)]
  have me2: "ep_me e2 = x" using endpoint_okD(1) [OF l2(2) [OF assms(3)]] by simp
  obtain n3 cs where c: "control_drain n2 x = (n3, cs)" "net_up P n3" "set cs = ctls n2 x" "ctl_at n3 x cs = ctl_at n2 x []" "mails n3 = mails n2"
    by (rule drain_ctls [OF l2(1) assms(3)])
  have eq3: "mail_at n2 x [] = mail_at n3 x []" "ctl_at n2 x [] = ctl_at n3 x cs"
    using c(4,5) by (simp_all add: mail_at_def [abs_def])
  have l3: "under_way env P N m x (st(x := e2)) n3 [] cs" by (rule same_flights(1) [OF eq3 c(2) 2(2)])
  note k3 = same_flights(2) [OF eq3, of N m "st(x := e2)"]
  obtain e4 n4 where 4: "process_control env e2 n3 cs = (e4, n4, Inr ())" "under_way env P N m x (st(x := e4)) n4 [] []"
    "keeps N m x (st(x := e2)) n3 [] cs (st(x := e4)) n4 [] []" "set (pt_pending (ep_plumtree e2)) \<subseteq> set (pt_pending (ep_plumtree e4))"
    "\<forall>a y. CtlIHave a (mid m) y \<in> set cs \<longrightarrow> ep_seen e4 (mid m) \<noteq> None \<or> (\<exists>y. (peer_node_id a, mid m, y) \<in> set (pt_pending (ep_plumtree e4)))"
    "\<forall>b. (x, b) \<in> N \<longrightarrow> CtlGraft b (mid m) \<in> set cs \<longrightarrow> ep_seen e2 (mid m) \<noteq> None \<longrightarrow> lvl m x (st(x := e4)) n4 [] [] 1 x b"
    using control_loop [OF assms(1,3) l3] unfolding fun_upd_same fun_upd_upd by (elim exE conjE) (rule that)
  obtain e5 n5 where 5: "epi_tick env e4 n4 = (e5, n5, Inr ())" "under_way env P N m x (st(x := e5)) n5 [] []"
    "keeps N m x (st(x := e4)) n4 [] [] (st(x := e5)) n5 [] []"
    "\<forall>a \<in> P. \<forall>y. (peer_node_id a, mid m, y) \<in> set (pt_pending (ep_plumtree e4)) \<longrightarrow> lvl m x (st(x := e5)) n5 [] [] 2 a x"
    using tick_step [OF assms(1) 4(2) assms(3)] unfolding fun_upd_same fun_upd_upd by (elim exE conjE) (rule that)
  have st': "st' = st(x := e5)" "n' = n5"
    using assms(4) d(1) 2(1) c(1) 4(1) 5(1) me me2 by (auto simp: turn_def process_and_tick_def epi_process_def)
  note k12 = keeps_trans [OF k1 2(3)]
  note k124 = keeps_trans [OF keeps_trans [OF k12 k3] 4(3)]
  note k = keeps_trans [OF k124 5(3)]
  show "under_way env P N m x st' n' [] []" "keeps N m x st n [] [] st' n' [] []" using 5(2) k by (simp_all add: st')
  show "lvl m x st' n' [] [] 0 a x" if "lvl m x st n [] [] 1 a x" for a
  proof -
    have "has m st x \<or> (\<exists>h. (h, m) \<in> set hops)" using that d(3) by (cases rule: level_cases) (auto simp: mail_at_def)
    then have "has m (st(x := e2)) x" using 2(4) keeps_has [OF k12, of x] by auto
    then have "has m (st(x := e5)) x" using keeps_has [OF k3] keeps_has [OF 4(3)] keeps_has [OF 5(3)] by blast
    then show ?thesis unfolding st' by (rule level_intros(1))
  qed
  show "lvl m x st' n' [] [] 1 x b" if b: "(x, b) \<in> N" "has m st x" "lvl m x st n [] [] 2 x b" for b
  proof -
    have x2: "ep_seen e2 (mid m) \<noteq> None" using keeps_has [OF k12 b(2)] by simp
    have x4: "has m (st(x := e4)) x" using keeps_has [OF k124 b(2)] .
    have "lvl m x (st(x := e2)) n2 [] [] 2 x b" by (rule keeps_lvl [OF k12 b])
    then have "lvl m x (st(x := e2)) n2 [] [] 1 x b \<or> CtlGraft b (mid m) \<in> set cs"
      unfolding c(3) by (cases rule: level_cases) (auto simp: ctl_at_def level_def)
    then have "lvl m x (st(x := e4)) n4 [] [] 1 x b"
    proof
      assume "lvl m x (st(x := e2)) n2 [] [] 1 x b"
      then show ?thesis using keeps_lvl [OF keeps_trans [OF k3 4(3)] b(1)] x2 by simp
    qed (use 4(6) b(1) x2 in blast)
    then show ?thesis unfolding st' by (rule keeps_lvl [OF 5(3) b(1) x4])
  qed
  show "lvl m x st' n' [] [] 2 a x" if a: "(a, x) \<in> N" "has m st a" "lvl m x st n [] [] 3 a x" for a
  proof -
    have a2: "has m (st(x := e2)) a" and a4: "has m (st(x := e4)) a" using keeps_has [OF k12 a(2)] keeps_has [OF k124 a(2)] .
    have "a \<in> P" using l(6) [OF a(1)] by simp
    have "lvl m x (st(x := e2)) n2 [] [] 3 a x" by (rule keeps_lvl [OF k12 a])
    then have "lvl m x (st(x := e2)) n2 [] [] 2 a x \<or> (\<exists>y. CtlIHave a (mid m) y \<in> set cs) \<or> (\<exists>y. (peer_node_id a, mid m, y) \<in> set (pt_pending (ep_plumtree e2)))"
      unfolding c(3) by (cases rule: level_cases) (auto simp: ctl_at_def level_def)
    then have "lvl m x (st(x := e4)) n4 [] [] 2 a x \<or> (\<exists>y. (peer_node_id a, mid m, y) \<in> set (pt_pending (ep_plumtree e4)))"
    proof (elim disjE exE)
      assume "lvl m x (st(x := e2)) n2 [] [] 2 a x"
      then show ?thesis using keeps_lvl [OF keeps_trans [OF k3 4(3)] a(1) a2] by blast
    next
      fix y assume "CtlIHave a (mid m) y \<in> set cs"
      then consider "ep_seen e4 (mid m) \<noteq> None" | z where "(peer_node_id a, mid m, z) \<in> set (pt_pending (ep_plumtree e4))" using 4(5) by blast
      then show ?thesis by cases (auto intro: level_intros(1))
    qed (use 4(4) in blast)
    then show ?thesis
    proof (elim disjE exE)
      assume "lvl m x (st(x := e4)) n4 [] [] 2 a x"
      then show ?thesis unfolding st' by (rule keeps_lvl [OF 5(3) a(1) a4])
    qed (use 5(4) \<open>a \<in> P\<close> st' in blast)
  qed
qed

section \<open>Rounds\<close>

definition healthy where
  "healthy env P N m st n \<longleftrightarrow> net_up P n \<and> sound env P N m st (mails n) (ctls n) \<and> announced N m st (mails n) (ctls n)"

definition carries where
  "carries N m st n st' n' \<longleftrightarrow> (\<forall>p. has m st p \<longrightarrow> has m st' p) \<and>
     (\<forall>(a, b) \<in> N. has m st a \<longrightarrow> (\<forall>k. level m st (mails n) (ctls n) k a b \<longrightarrow> level m st' (mails n') (ctls n') k a b))"

lemma at_Nil [simp]: "mail_at n x [] = mails n" "ctl_at n x [] = ctls n"
  by (rule ext, simp add: mail_at_def, rule ext, simp add: ctl_at_def)

lemma under_way_Nil: "under_way env P N m x st n [] [] = healthy env P N m st n" "keeps N m x st n [] [] st' n' [] [] = carries N m st n st' n'"
  by (simp_all add: under_way_def healthy_def keeps_def carries_def)

lemma carries_refl [simp]: "carries N m st n st n"
  by (auto simp: carries_def)

lemma carries_trans: "carries N m st n st1 n1 \<Longrightarrow> carries N m st1 n1 st2 n2 \<Longrightarrow> carries N m st n st2 n2"
  unfolding carries_def by blast

lemma carriesD:
  "carries N m st n st' n' \<Longrightarrow> has m st p \<Longrightarrow> has m st' p"
  "carries N m st n st' n' \<Longrightarrow> (a, b) \<in> N \<Longrightarrow> has m st a \<Longrightarrow> level m st (mails n) (ctls n) k a b \<Longrightarrow> level m st' (mails n') (ctls n') k a b"
  unfolding carries_def by blast+

lemmas turn_carries = turn_step [unfolded under_way_Nil at_Nil]

lemma turns_carry:
  assumes "setting env P m" "set ps \<subseteq> P" "healthy env P N m st n" "fold (turn env) ps (st, n) = (st', n')"
  shows "healthy env P N m st' n' \<and> carries N m st n st' n'"
  using assms(2-4)
proof (induction ps arbitrary: st n)
  case (Cons x ps)
  obtain st1 n1 where 1: "turn env x (st, n) = (st1, n1)" by force
  have x: "x \<in> P" using Cons.prems(1) by simp
  have "healthy env P N m st1 n1" "carries N m st n st1 n1" using turn_carries(1,2) [OF assms(1) Cons.prems(2) x 1] .
  then show ?case using Cons.IH [of st1 n1] Cons.prems 1 carries_trans by fastforce
qed simp

text \<open>The endpoint whose turn brings the message from level \<open>Suc k\<close> to level \<open>k\<close>.\<close>

definition mover :: "nat \<Rightarrow> peer_id \<Rightarrow> peer_id \<Rightarrow> peer_id" where
  "mover k a b = (if k = 1 then a else b)"

lemma mover_turn:
  assumes "setting env P m" "healthy env P N m st n" "turn env (mover k a b) (st, n) = (st', n')" "(a, b) \<in> N" "has m st a"
    "level m st (mails n) (ctls n) (Suc k) a b" "k < 3" "a \<in> P" "b \<in> P"
  shows "level m st' (mails n') (ctls n') k a b"
proof -
  have x: "mover k a b \<in> P" using assms(8,9) by (simp add: mover_def)
  note t = turn_carries [OF assms(1,2) x assms(3)]
  consider "k = 0" | "k = 1" | "k = 2" using assms(7) by linarith
  then show ?thesis
    using t(3-5) assms(4-6) by cases (simp_all add: mover_def numeral_2_eq_2 numeral_3_eq_3)
qed

lemma round_advances:
  assumes "setting env P m" "set ps = P" "healthy env P N m st n" "fold (turn env) ps (st, n) = (st', n')" "(a, b) \<in> N" "has m st a"
    "level m st (mails n) (ctls n) (Suc k) a b" "k < 3"
  shows "level m st' (mails n') (ctls n') k a b"
proof -
  have ab: "a \<in> P" "b \<in> P" using assms(3,5) by (auto simp: healthy_def sound_def neighbours_def)
  then have "mover k a b \<in> set ps" using assms(2) by (simp add: mover_def)
  then obtain us vs where ps: "ps = us @ mover k a b # vs" by (meson split_list)
  obtain st1 n1 where 1: "fold (turn env) us (st, n) = (st1, n1)" by force
  obtain st2 n2 where 2: "turn env (mover k a b) (st1, n1) = (st2, n2)" by force
  have 3: "fold (turn env) vs (st2, n2) = (st', n')" using assms(4) 1 2 by (simp add: ps)
  have sub: "set us \<subseteq> P" "set vs \<subseteq> P" "mover k a b \<in> P" using ps assms(2) by auto
  note t1 = turns_carry [OF assms(1) sub(1) assms(3) 1, THEN conjunct1] turns_carry [OF assms(1) sub(1) assms(3) 1, THEN conjunct2]
  have a1: "has m st1 a" by (rule carriesD(1) [OF t1(2)]) (rule assms(6))
  have "level m st1 (mails n1) (ctls n1) (Suc k) a b" by (rule carriesD(2) [OF t1(2) assms(5)]) (fact assms(6,7))+
  then have l2: "level m st2 (mails n2) (ctls n2) k a b" by (rule mover_turn [OF assms(1) t1(1) 2 assms(5) a1 _ assms(8) ab])
  note t2 = turn_carries(1,2) [OF assms(1) t1(1) sub(3) 2]
  have "has m st2 a" by (rule carriesD(1) [OF t2(2)]) (rule a1)
  then show ?thesis using carriesD(2) [of N m st2 n2 st' n' a b k] assms(5) l2 turns_carry [OF assms(1) sub(2) t2(1) 3] by blast
qed

lemma pump_carries:
  assumes "setting env P m" "set ps = P" "healthy env P N m st n" "pump env ps r (st, n) = (st', n')"
  shows "healthy env P N m st' n' \<and> carries N m st n st' n'"
  using assms(4)
proof (induction r arbitrary: st' n')
  case 0
  then show ?case using assms(3) by (simp add: pump_def)
next
  case (Suc r)
  obtain st1 n1 where 1: "pump env ps r (st, n) = (st1, n1)" by force
  have 2: "fold (turn env) ps (st1, n1) = (st', n')" using Suc.prems 1 by (simp add: pump_def)
  note c1 = Suc.IH [OF 1]
  have "healthy env P N m st' n' \<and> carries N m st1 n1 st' n'"
    using turns_carry [OF assms(1) _ _ 2] c1 assms(2) by blast
  then show ?case using c1 carries_trans by blast
qed

lemma pump_add: "pump env ps (r + k) s = pump env ps r (pump env ps k s)"
  by (simp add: pump_def funpow_add)

lemma three_rounds:
  assumes "setting env P m" "set ps = P" "healthy env P N m st n" "pump env ps 3 (st, n) = (st', n')" "(a, b) \<in> N" "has m st a"
  shows "has m st' b"
proof -
  let ?round = "fold (turn env) ps"
  obtain st1 n1 where 1: "?round (st, n) = (st1, n1)" by force
  obtain st2 n2 where 2: "?round (st1, n1) = (st2, n2)" by force
  have 3: "?round (st2, n2) = (st', n')" using assms(4) 1 2 by (simp add: pump_def numeral_3_eq_3)
  have sub: "set ps \<subseteq> P" using assms(2) by simp
  have h1: "healthy env P N m st1 n1" "has m st1 a"
    using turns_carry [OF assms(1) sub assms(3) 1] assms(6) carriesD(1) [of N m st n st1 n1 a] by blast+
  have h2: "healthy env P N m st2 n2" "has m st2 a"
    using turns_carry [OF assms(1) sub h1(1) 2] h1(2) carriesD(1) [of N m st1 n1 st2 n2 a] by blast+
  have "level m st (mails n) (ctls n) (Suc 2) a b" using assms(3,5,6) by (auto simp: healthy_def announced_def numeral_3_eq_3)
  then have "level m st1 (mails n1) (ctls n1) (Suc 1) a b" using round_advances [OF assms(1,2,3) 1 assms(5,6)] by (simp add: numeral_2_eq_2)
  then have "level m st2 (mails n2) (ctls n2) (Suc 0) a b" using round_advances [OF assms(1,2) h1(1) 2 assms(5) h1(2)] by simp
  then have "level m st' (mails n') (ctls n') 0 a b" using round_advances [OF assms(1,2) h2(1) 3 assms(5) h2(2)] by simp
  then show ?thesis by (simp add: level_def)
qed

lemma path_rounds:
  assumes "setting env P m" "set ps = P"
  shows "healthy env P N m st n \<Longrightarrow> pump env ps (3 * k) (st, n) = (st', n') \<Longrightarrow> (a, b) \<in> N ^^ k \<Longrightarrow> has m st a \<Longrightarrow> has m st' b"
proof (induction k arbitrary: b st' n')
  case 0
  then show ?case by (simp add: pump_def)
next
  case (Suc k)
  then obtain c where c: "(a, c) \<in> N ^^ k" "(c, b) \<in> N" by auto
  obtain st1 n1 where 1: "pump env ps (3 * k) (st, n) = (st1, n1)" by force
  have 2: "pump env ps 3 (st1, n1) = (st', n')" using Suc.prems(2) 1 pump_add [of env ps 3 "3 * k"] by (simp add: add.commute)
  have "healthy env P N m st1 n1" using pump_carries [OF assms Suc.prems(1) 1] by blast
  then show ?case using three_rounds [OF assms _ 2 c(2)] Suc.IH [OF Suc.prems(1) 1 c(1) Suc.prems(4)] by blast
qed

section \<open>Eventual delivery\<close>

text \<open>A network on which nothing fails: the mesh is open, its peers have joined, know each other under the right names, and all
  stored and travelling messages are within the limits of the wire format.\<close>

definition working :: "epi_env \<Rightarrow> peer_id set \<Rightarrow> ep_store \<Rightarrow> epi_net \<Rightarrow> bool" where
  "working env P st n \<longleftrightarrow> net_up P n \<and> (\<forall>p \<in> P. endpoint_ok env P p (st p)) \<and> flights_ok env P (mails n) (ctls n)"

definition linked :: "peer_id set \<Rightarrow> ep_store \<Rightarrow> (peer_id \<times> peer_id) set" where
  "linked P st = {(a, b). a \<in> P \<and> b \<in> P \<and> peer_node_id b \<in> ep_views (st a)}"

text \<open>The message has not been seen by any of the peers and is not under way to them.\<close>

definition unheard :: "peer_id set \<Rightarrow> authority_msg \<Rightarrow> ep_store \<Rightarrow> epi_net \<Rightarrow> bool" where
  "unheard P m st n \<longleftrightarrow> (\<forall>p \<in> P. \<not> has_msg (st p) (mid m) \<and> (\<forall>h m'. (h, m') \<in> mails n p \<longrightarrow> mid m' \<noteq> mid m))"

lemma broadcast_healthy:
  assumes "setting env P m" "working env P st n" "unheard P m st n" "a \<in> P"
  shows "\<exists>e n'. broadcast_msg env (st a) n m = (e, n', Inr ()) \<and> healthy env P (linked P st) m (st(a := e)) n' \<and> has m (st(a := e)) a"
proof -
  have fresh: "\<not> has m st p" if "p \<in> P" for p using assms(3) that by (simp add: unheard_def has_msg_def pt_get_def)
  have ok: "endpoint_ok env P a (st a)" using assms(2,4) by (simp add: working_def)
  have none: "ep_seen (st a) (mid m) = None" using fresh assms(4) by simp
  have "under_way env P (linked P st) m a st n [] []"
    unfolding under_way_Nil healthy_def sound_def
  proof (intro conjI)
    show "msg_sound P m st (mails n)" using assms(3) fresh by (auto simp: msg_sound_def unheard_def)
    show "neighbours P (linked P st) st" by (auto simp: neighbours_def linked_def)
    show "announced (linked P st) m st (mails n) (ctls n)" using fresh by (auto simp: announced_def linked_def)
  qed (use assms(2) in \<open>auto simp: working_def\<close>)
  note b = broadcast_acts [OF assms(1) ok none]
  obtain n' where n': "dispatch_events env (store_msg (st a) m) n (push_events (ee_order env) (st a) m {}) = (n', Inr ())" "net_up P n'"
    "sound env P (linked P st) m (st(a := store_msg (st a) m)) (mail_at n' a []) (ctl_at n' a [])"
    "\<forall>q. mails n' q = mails n q \<union> sent_mail env (store_msg (st a) m) (push_events (ee_order env) (st a) m {}) q"
    "\<forall>q. ctls n' q = ctls n q \<union> sent_ctl env (store_msg (st a) m) (push_events (ee_order env) (st a) m {}) q"
    using act_step [OF assms(1) \<open>under_way env P (linked P st) m a st n [] []\<close> assms(4) b(2) order.refl order.refl] by (elim exE conjE) (rule that)
  have "announced (linked P st) m (st(a := store_msg (st a) m)) (mails n') (ctls n')"
    unfolding announced_def
  proof (safe)
    fix x c y assume xc: "(x, c) \<in> linked P st" and "ep_seen ((st(a := store_msg (st a) m)) x) (mid m) = Some y"
    then have x: "x = a" using fresh [of x] by (auto simp: linked_def split: if_splits)
    have "passes_on env a (store_msg (st a) m) (push_events (ee_order env) (st a) m {}) m c"
      using b(3) [of c] xc x by (simp add: linked_def)
    then show "level m (st(a := store_msg (st a) m)) (mails n') (ctls n') 3 x c"
      using n'(4,5) x by (auto simp: passes_on_def level_def)
  qed
  then have "healthy env P (linked P st) m (st(a := store_msg (st a) m)) n'" using n'(2,3) by (simp add: healthy_def)
  moreover have "broadcast_msg env (st a) n m = (store_msg (st a) m, n', Inr ())" using b(1) [of n] n'(1) by simp
  ultimately show ?thesis by (intro exI [of _ "store_msg (st a) m"] exI [of _ n']) simp
qed

text \<open>C32: epidemic delivery. On a network on which nothing fails, whatever the split of the views into eager and lazy, whatever else is
  under way and in whatever order the endpoints are driven, a broadcast message succeeds, and every endpoint that is \<open>k\<close> links away
  from the sender has it in its inbox after three rounds of \<open>pump\<close> per link.\<close>

theorem epidemic_reaches_all:
  assumes "hash_order_ok (ee_order env)" "inj_on peer_node_id (set ps)" "wire_msg_ok (ee_crypto env) m"
    and "working env (set ps) st n" "unheard (set ps) m st n" "a \<in> set ps" "(a, b) \<in> linked (set ps) st ^^ k" "3 * k \<le> rounds"
    and "broadcast_msg env (st a) n m = (e, n1, r)" "pump env ps rounds (st(a := e), n1) = (st', n')"
  shows "r = Inr () \<and> has_msg (st' b) (msg_id_of (encode_authority_msg m)) \<and> m \<in> set (ep_app_inbox (st' b))"
proof -
  have s: "setting env (set ps) m" using assms(1-3) by (simp add: setting_def)
  have h: "r = Inr ()" "healthy env (set ps) (linked (set ps) st) m (st(a := e)) n1" "has m (st(a := e)) a"
    using broadcast_healthy [OF s assms(4-6)] assms(9) by auto
  obtain j where j: "rounds = j + 3 * k" using assms(8) le_iff_add by (metis add.commute)
  obtain st1 n2 where 1: "pump env ps (3 * k) (st(a := e), n1) = (st1, n2)" by force
  have 2: "pump env ps j (st1, n2) = (st', n')" using assms(10) 1 pump_add by (simp add: j)
  have b1: "has m st1 b" by (rule path_rounds [OF s refl h(2) 1 assms(7) h(3)])
  have "healthy env (set ps) (linked (set ps) st) m st1 n2" using pump_carries [OF s refl h(2) 1] by blast
  then have c: "healthy env (set ps) (linked (set ps) st) m st' n'" "carries (linked (set ps) st) m st1 n2 st' n'"
    using pump_carries [OF s refl _ 2] by blast+
  have b: "has m st' b" by (rule carriesD(1) [OF c(2)]) (rule b1)
  have "b \<in> set ps" using assms(6,7) by (cases k) (auto simp: linked_def)
  then have "m \<in> set (ep_app_inbox (st' b))" using c(1) b unfolding healthy_def sound_def msg_sound_def by blast
  then show ?thesis using h(1) b by (simp add: has_msg_def pt_get_def mid_def)
qed

subsection \<open>An example: three endpoints in a line, with one lazy link\<close>

lemma fresh_endpoint_ok: "endpoint_ok env P p (snd (epi_join n p))"
  by (simp add: endpoint_ok_def epi_join_def plumtree_new_def)

lemma add_endpoint_ok:
  assumes "endpoint_ok env P p e" "q \<in> P"
  shows "endpoint_ok env P p (ep_add_peer e q)"
  using assms by (auto simp: endpoint_ok_def ep_add_peer_def pt_add_peer_def)

lemma drop_endpoint_ok:
  assumes "endpoint_ok env P p e" "peer_node_id q \<in> pt_eager (ep_plumtree e)" "hash_order_ok (ee_order env)"
  shows "endpoint_ok env P p (remove_eager_edge env e q)"
proof -
  have "ep_peers e (peer_node_id q) \<noteq> None" using endpoint_okD(5) [OF assms(1)] assms(2) by blast
  then have l: "learn_peer e q = e" by (auto simp: learn_peer_def)
  have "peer_node_id q \<in> set (pt_eager_peers (ee_order env) (ep_plumtree e))"
    using assms(2,3) endpoint_okD(3) [OF assms(1)] by (simp add: pt_eager_peers_def hash_order_ok_def)
  then have "remove_eager_edge env e q = e\<lparr>ep_plumtree := on_prune (ep_plumtree e) (peer_node_id q)\<rparr>"
    by (simp add: remove_eager_edge_def l Let_def)
  then show ?thesis
    using endpoint_okD(3-6) [OF assms(1)] assms(2) by (auto intro!: endpoint_ok_frame [OF assms(1)] simp: on_prune_def)
qed

definition demo_line :: ep_store where
  "demo_line = fresh_store(
     ''a'' := ep_add_peer (fresh_store ''a'') ''b'',
     ''b'' := remove_eager_edge demo_env (ep_add_peer (fresh_store ''b'') ''c'') ''c'')"

definition demo_epi_net :: epi_net where
  "demo_epi_net = fold (\<lambda>p n. fst (epi_join n p)) [''a'', ''b'', ''c''] epi_new"

lemma le_bytes_second: "le_bytes (Suc (Suc n)) x ! 1 = of_nat (x div 256 mod 256)"
  by simp

lemma hash_second_byte:
  "stable_hash32 [b] ! 1 = of_nat (unat (mix64 (((0xcbf29ce484222325 XOR ucast b) * 0x100000001b3 XOR 1) * 0x100000001b3)) div 256 mod 256)"
proof -
  define h :: u64 where "h = ((0xcbf29ce484222325 XOR ucast b) * 0x100000001b3 XOR 1) * 0x100000001b3"
  have 4: "[0..<4::nat] = 0 # [1..<4]" by (simp add: upt_rec)
  obtain rest where r: "concat (map (\<lambda>i. u64_le (mix64 (h + of_nat i * 0x9e3779b97f4a7c15))) [0..<4]) = u64_le (mix64 h) @ rest"
    by (simp add: 4)
  have "length (u64_le (mix64 h)) = 8" by (simp add: u64_le_def)
  then have "stable_hash32 [b] ! 1 = u64_le (mix64 h) ! 1"
    by (simp add: stable_hash32_def Let_def h_def [symmetric] r nth_append)
  also have "\<dots> = of_nat (unat (mix64 h) div 256 mod 256)"
    using le_bytes_second [of 6 "unat (mix64 h)"] by (simp add: u64_le_def)
  finally show ?thesis by (simp add: h_def)
qed

lemma demo_nodes: "peer_node_id ''a'' ! 1 = 0" "peer_node_id ''b'' ! 1 = 77" "peer_node_id ''c'' ! 1 = 189"
  by (simp_all only: peer_node_id_def as_bytes_def list.map hash_second_byte mix64_def Let_def) simp_all

lemma demo_inj: "inj_on peer_node_id {''a'', ''b'', ''c''}"
proof -
  have "inj_on ((\<lambda>x. x ! 1) \<circ> peer_node_id) {''a'', ''b'', ''c''}" by (simp add: inj_on_def demo_nodes [unfolded One_nat_def])
  then show ?thesis by (rule inj_on_imageI2)
qed

lemma demo_net_is:
  "demo_epi_net = \<lparr>en_mesh = \<lparr>mesh_mailboxes = [(''a'', []), (''b'', []), (''c'', [])], mesh_closed = False\<rparr>,
     en_control = [(''a'', []), (''b'', []), (''c'', [])]\<rparr>"
  by (simp add: demo_epi_net_def epi_join_def epi_new_def mesh_new_def mesh_join_def)

lemma demo_net_empty: "mails demo_epi_net p = {}" "ctls demo_epi_net p = {}"
  by (auto simp: mails_def ctls_def demo_net_is)

lemma demo_line_working: "working demo_env {''a'', ''b'', ''c''} demo_line demo_epi_net"
proof -
  have "endpoint_ok demo_env {''a'', ''b'', ''c''} p (demo_line p)" if "p \<in> {''a'', ''b'', ''c''}" for p
  proof -
    have f: "endpoint_ok demo_env {''a'', ''b'', ''c''} q (fresh_store q)" for q unfolding fresh_store_def by (rule fresh_endpoint_ok)
    have "endpoint_ok demo_env {''a'', ''b'', ''c''} ''b'' (remove_eager_edge demo_env (ep_add_peer (fresh_store ''b'') ''c'') ''c'')"
    proof (rule drop_endpoint_ok [OF add_endpoint_ok [OF f]])
      show "peer_node_id ''c'' \<in> pt_eager (ep_plumtree (ep_add_peer (fresh_store ''b'') ''c''))"
        by (simp add: ep_add_peer_def fresh_store_def epi_join_def pt_add_peer_def)
    qed (simp_all add: demo_env_ok)
    then show ?thesis using that add_endpoint_ok [OF f, of "''b''" "''a''"] f by (auto simp: demo_line_def)
  qed
  moreover have "net_up {''a'', ''b'', ''c''} demo_epi_net" by (simp add: net_up_def demo_net_is)
  moreover have "flights_ok demo_env {''a'', ''b'', ''c''} (mails demo_epi_net) (ctls demo_epi_net)" by (simp add: flights_ok_def demo_net_empty)
  ultimately show ?thesis by (simp add: working_def)
qed

lemma demo_line_links: "(''a'', ''c'') \<in> linked {''a'', ''b'', ''c''} demo_line ^^ 2"
proof -
  have "(''a'', ''b'') \<in> linked {''a'', ''b'', ''c''} demo_line"
    by (simp add: linked_def demo_line_def ep_add_peer_def fresh_store_def epi_join_def pt_add_peer_def)
  moreover have "(''b'', ''c'') \<in> linked {''a'', ''b'', ''c''} demo_line"
    by (simp add: linked_def demo_line_def ep_add_peer_def fresh_store_def epi_join_def pt_defs remove_eager_edge_def Let_def)
  ultimately show ?thesis by (auto simp: numeral_2_eq_2)
qed

lemma demo_line_unheard: "unheard {''a'', ''b'', ''c''} m demo_line demo_epi_net"
  by (simp add: unheard_def demo_net_empty has_msg_def demo_line_def ep_add_peer_def fresh_store_def epi_join_def pt_defs
      remove_eager_edge_def Let_def learn_peer_def)

theorem epidemic_reaches_all_witness:
  "\<exists>e n1 st' n'. broadcast_msg demo_env (demo_line ''a'') demo_epi_net (MsgOrder demo_order) = (e, n1, Inr ()) \<and>
     pump demo_env [''c'', ''b'', ''a''] 6 (demo_line(''a'' := e), n1) = (st', n') \<and> MsgOrder demo_order \<in> set (ep_app_inbox (st' ''c''))"
proof -
  obtain e n1 r where b: "broadcast_msg demo_env (demo_line ''a'') demo_epi_net (MsgOrder demo_order) = (e, n1, r)" by (metis prod.collapse)
  obtain st' n' where p: "pump demo_env [''c'', ''b'', ''a''] 6 (demo_line(''a'' := e), n1) = (st', n')" by force
  have s: "set [''c'', ''b'', ''a''] = {''a'', ''b'', ''c''}" by auto
  have "r = Inr () \<and> has_msg (st' ''c'') (msg_id_of (encode_authority_msg (MsgOrder demo_order))) \<and> MsgOrder demo_order \<in> set (ep_app_inbox (st' ''c''))"
    by (rule epidemic_reaches_all [where ps = "[''c'', ''b'', ''a'']" and k = 2, unfolded s, OF demo_env_ok(1) demo_inj _ demo_line_working
          demo_line_unheard _ demo_line_links _ b p]) (simp_all add: demo_env_ok demo_wire_ok [simplified])
  then show ?thesis using b p by blast
qed

end
