(* ===== verification/Epidemic_Faults.thy ===== *)
theory Epidemic_Faults
  imports Epidemic_Delivery
begin

text \<open>
  Two ways in which epidemic dissemination loses messages for good. Both rest on invariants of networks
  that may fail at any point: the locale \<open>epi_invariant\<close> reduces such an invariant to the four places where
  an endpoint changes state and emits events.
\<close>

section \<open>State change and events of the operations\<close>

definition eager_part :: "epi_env \<Rightarrow> endpoint \<Rightarrow> peer_id \<Rightarrow> authority_msg \<Rightarrow> endpoint \<times> gossip_event list" where
  "eager_part env e fr m =
     (let e = learn_peer e fr;
          (t, evs) = on_receive (ee_order env) (ep_plumtree e) \<lparr>gm_id = mid m, gm_payload = encode_authority_msg m, gm_sender = peer_node_id fr\<rparr>;
          e' = e\<lparr>ep_plumtree := t\<rparr>
      in (if ep_seen e (mid m) = None then push_app e' m (mid m) else e', evs))"

definition control_part :: "endpoint \<Rightarrow> control_msg \<Rightarrow> endpoint \<times> gossip_event list" where
  "control_part e c =
     (case c of
        CtlIHave fr i origin \<Rightarrow> (let (t, evs) = on_ihave (ep_plumtree e) (peer_node_id fr) i (peer_node_id origin) in ((learn_peer e fr)\<lparr>ep_plumtree := t\<rparr>, evs))
      | CtlGraft fr i \<Rightarrow> (let (t, evs) = on_graft (ep_plumtree e) (peer_node_id fr) i in ((learn_peer e fr)\<lparr>ep_plumtree := t\<rparr>, evs))
      | CtlPrune fr \<Rightarrow> (e\<lparr>ep_plumtree := on_prune (ep_plumtree e) (peer_node_id fr)\<rparr>, []))"

definition tick_part :: "endpoint \<Rightarrow> endpoint \<times> gossip_event list" where
  "tick_part e = (let (t, evs) = pt_tick (ep_plumtree e) in (e\<lparr>ep_plumtree := t\<rparr>, evs))"

definition broadcast_part :: "epi_env \<Rightarrow> endpoint \<Rightarrow> authority_msg \<Rightarrow> endpoint \<times> gossip_event list" where
  "broadcast_part env e m =
     (let (t, evs) = pt_broadcast (ee_order env) (ep_plumtree e) (encode_authority_msg m) (mid m); e' = e\<lparr>ep_plumtree := t\<rparr>
      in (if ep_seen e (mid m) = None then push_app e' m (mid m) else e', evs))"

lemma parts:
  "on_eager_payload env e n fr m = (case eager_part env e fr m of (e', evs) \<Rightarrow> (e', dispatch_events env e' n evs))"
  "on_control env e n c = (case control_part e c of (e', evs) \<Rightarrow> (e', dispatch_events env e' n evs))"
  "epi_tick env e n = (case tick_part e of (e', evs) \<Rightarrow> (e', dispatch_events env e' n evs))"
  "broadcast_msg env e n m = (case broadcast_part env e m of (e', evs) \<Rightarrow> (e', dispatch_events env e' n evs))"
  by (simp_all add: on_eager_payload_def eager_part_def control_part_def epi_tick_def tick_part_def broadcast_msg_def broadcast_part_def
      mid_def pt_get_def Let_def split: prod.splits control_msg.splits) auto

text \<open>Whatever fails, only what the events name is sent.\<close>

lemma deliver_bound:
  assumes "deliver_to_from (en_mesh n) p h m = (g, r)"
  shows "mails (n\<lparr>en_mesh := g\<rparr>) q \<subseteq> mails n q \<union> (if q = p then {(h, m)} else {}) \<and> ctls (n\<lparr>en_mesh := g\<rparr>) q = ctls n q"
  using assms by (auto simp: deliver_to_from_def mails_def ctls_def map_of_bt_insert split: if_splits option.splits)

lemma control_bound:
  assumes "control_deliver n p c = (n', r)"
  shows "mails n' q = mails n q \<and> ctls n' q \<subseteq> ctls n q \<union> (if q = p then {c} else {})"
  using assms by (auto simp: control_deliver_def mails_def ctls_def map_of_bt_insert split: if_splits option.splits)

lemma dispatch_one_bound:
  assumes "dispatch_event env e n ev = (n', r)"
  shows "mails n' q \<subseteq> mails n q \<union> sent_mail env e [ev] q \<and> ctls n' q \<subseteq> ctls n q \<union> sent_ctl env e [ev] q"
proof (cases "ep_peers e (event_to ev)")
  case None
  then show ?thesis using assms by (cases ev) (auto simp: resolve_peer_def)
next
  case (Some p)
  show ?thesis
  proof (cases ev)
    case (Eager t msg)
    show ?thesis
    proof (cases "decode_authority_msg (ee_crypto env) (gm_payload msg)")
      case (Inl x)
      then show ?thesis using assms Some by (simp add: Eager resolve_peer_def)
    next
      case (Inr m)
      obtain g r' where g: "deliver_to_from (en_mesh n) p (Some (ep_me e)) m = (g, r')" by force
      then have "n' = n\<lparr>en_mesh := g\<rparr>" using assms Some Inr by (simp add: Eager resolve_peer_def)
      moreover have "(Some (ep_me e), m) \<in> sent_mail env e [ev] p" using Some Inr by (auto simp: sent_mail_def Eager)
      ultimately show ?thesis using deliver_bound [OF g, of q] by (auto split: if_splits)
    qed
  next
    case (IHave t i s)
    have "control_deliver n p (the (event_ctl env e ev)) = (n', r)" "the (event_ctl env e ev) \<in> sent_ctl env e [ev] p"
      using assms Some by (auto simp: IHave resolve_peer_def sent_ctl_def)
    then show ?thesis using control_bound [of n p "the (event_ctl env e ev)" n' r q] by (auto split: if_splits)
  next
    case (Graft t i)
    have "control_deliver n p (the (event_ctl env e ev)) = (n', r)" "the (event_ctl env e ev) \<in> sent_ctl env e [ev] p"
      using assms Some by (auto simp: Graft resolve_peer_def sent_ctl_def)
    then show ?thesis using control_bound [of n p "the (event_ctl env e ev)" n' r q] by (auto split: if_splits)
  next
    case (Prune t)
    have "control_deliver n p (the (event_ctl env e ev)) = (n', r)" "the (event_ctl env e ev) \<in> sent_ctl env e [ev] p"
      using assms Some by (auto simp: Prune resolve_peer_def sent_ctl_def)
    then show ?thesis using control_bound [of n p "the (event_ctl env e ev)" n' r q] by (auto split: if_splits)
  qed
qed

lemma dispatch_bound:
  "dispatch_events env e n evs = (n', r) \<Longrightarrow>
     mails n' q \<subseteq> mails n q \<union> sent_mail env e evs q \<and> ctls n' q \<subseteq> ctls n q \<union> sent_ctl env e evs q"
proof (induction evs arbitrary: n)
  case (Cons ev evs)
  obtain n1 r1 where 1: "dispatch_event env e n ev = (n1, r1)" by force
  note b = dispatch_one_bound [OF 1, of q]
  show ?case
  proof (cases r1)
    case (Inl x)
    then show ?thesis using Cons.prems 1 b sent_Cons [of env e ev evs q] by auto
  next
    case (Inr u)
    then have "dispatch_events env e n1 evs = (n', r)" using Cons.prems 1 by simp
    then show ?thesis using Cons.IH [of n1] b sent_Cons [of env e ev evs q] by blast
  qed
qed simp

section \<open>Invariants of networks that may fail\<close>

datatype epi_op = OpBroadcast peer_id authority_msg | OpProcess peer_id | OpTick peer_id | OpPoll peer_id | OpClose bool

fun op_run :: "epi_env \<Rightarrow> epi_op \<Rightarrow> ep_store \<times> epi_net \<Rightarrow> (ep_store \<times> epi_net) \<times> authority_msg list" where
  "op_run env (OpBroadcast p m) (st, n) = (case broadcast_msg env (st p) n m of (e, n', r) \<Rightarrow> ((st(p := e), n'), []))"
| "op_run env (OpProcess p) (st, n) = (case epi_process env (st p) n of (e, n', r) \<Rightarrow> ((st(p := e), n'), []))"
| "op_run env (OpTick p) (st, n) = (case epi_tick env (st p) n of (e, n', r) \<Rightarrow> ((st(p := e), n'), []))"
| "op_run env (OpPoll p) (st, n) = (case epi_poll env (st p) n of (e, n', ms) \<Rightarrow> ((st(p := e), n'), ms))"
| "op_run env (OpClose c) (st, n) = ((st, n\<lparr>en_mesh := set_closed (en_mesh n) c\<rparr>), [])"

definition ops_run :: "epi_env \<Rightarrow> epi_op list \<Rightarrow> ep_store \<times> epi_net \<Rightarrow> ep_store \<times> epi_net" where
  "ops_run env ops s = foldl (\<lambda>s op. fst (op_run env op s)) s ops"

locale epi_invariant =
  fixes env :: epi_env
    and Q :: "peer_id \<Rightarrow> endpoint \<Rightarrow> bool"
    and MM :: "peer_id \<Rightarrow> peer_id option \<times> authority_msg \<Rightarrow> bool"
    and CC :: "peer_id \<Rightarrow> control_msg \<Rightarrow> bool"
    and B :: "peer_id \<Rightarrow> authority_msg \<Rightarrow> bool"
    and T :: "peer_id \<Rightarrow> bool"
  assumes me: "Q p e \<Longrightarrow> ep_me e = p"
    and hop: "Q p e \<Longrightarrow> MM p (h, m) \<Longrightarrow> eager_part env e (case h of Some q \<Rightarrow> q | None \<Rightarrow> p) m = (e', evs) \<Longrightarrow>
      Q p e' \<and> (\<forall>q. \<forall>x \<in> sent_mail env e' evs q. MM q x) \<and> (\<forall>q. \<forall>c \<in> sent_ctl env e' evs q. CC q c)"
    and ctl: "Q p e \<Longrightarrow> CC p c \<Longrightarrow> control_part e c = (e', evs) \<Longrightarrow>
      Q p e' \<and> (\<forall>q. \<forall>x \<in> sent_mail env e' evs q. MM q x) \<and> (\<forall>q. \<forall>c \<in> sent_ctl env e' evs q. CC q c)"
    and tick: "Q p e \<Longrightarrow> T p \<Longrightarrow> tick_part e = (e', evs) \<Longrightarrow>
      Q p e' \<and> (\<forall>q. \<forall>x \<in> sent_mail env e' evs q. MM q x) \<and> (\<forall>q. \<forall>c \<in> sent_ctl env e' evs q. CC q c)"
    and cast: "Q p e \<Longrightarrow> B p m \<Longrightarrow> broadcast_part env e m = (e', evs) \<Longrightarrow>
      Q p e' \<and> (\<forall>q. \<forall>x \<in> sent_mail env e' evs q. MM q x) \<and> (\<forall>q. \<forall>c \<in> sent_ctl env e' evs q. CC q c)"
    and take_inbox: "Q p e \<Longrightarrow> Q p (e\<lparr>ep_app_inbox := []\<rparr>)"
begin

definition flights :: "epi_net \<Rightarrow> bool" where
  "flights n \<longleftrightarrow> (\<forall>q. (\<forall>x \<in> mails n q. MM q x) \<and> (\<forall>c \<in> ctls n q. CC q c))"

definition kept :: "ep_store \<times> epi_net \<Rightarrow> bool" where
  "kept s \<longleftrightarrow> (\<forall>p. Q p (fst s p)) \<and> flights (snd s)"

fun op_ok :: "epi_op \<Rightarrow> bool" where
  "op_ok (OpBroadcast p m) = B p m"
| "op_ok (OpTick p) = T p"
| "op_ok _ = True"

lemma dispatch_flights:
  assumes "flights n" "\<forall>q. \<forall>x \<in> sent_mail env e evs q. MM q x" "\<forall>q. \<forall>c \<in> sent_ctl env e evs q. CC q c" "dispatch_events env e n evs = (n', r)"
  shows "flights n'"
  using assms(1-3) dispatch_bound [OF assms(4)] unfolding flights_def by blast

lemma hops_kept:
  assumes "\<forall>x \<in> set hops. MM p x" "Q p e" "flights n" "process_hops env e n hops = (e', n', r)"
  shows "Q p e' \<and> flights n'"
  using assms
proof (induction hops arbitrary: e n)
  case (Cons x hops)
  obtain h m where x: "x = (h, m)" by force
  have f: "(case h of Some q \<Rightarrow> q | None \<Rightarrow> ep_me e) = (case h of Some q \<Rightarrow> q | None \<Rightarrow> p)" using me [OF Cons.prems(2)] by (simp split: option.splits)
  obtain e1 evs where 1: "eager_part env e (case h of Some q \<Rightarrow> q | None \<Rightarrow> p) m = (e1, evs)" by force
  obtain n1 r1 where 2: "dispatch_events env e1 n evs = (n1, r1)" by force
  have o: "on_eager_payload env e n (case h of Some q \<Rightarrow> q | None \<Rightarrow> ep_me e) m = (e1, n1, r1)" unfolding f parts using 1 2 by simp
  have h: "Q p e1 \<and> (\<forall>q. \<forall>x \<in> sent_mail env e1 evs q. MM q x) \<and> (\<forall>q. \<forall>c \<in> sent_ctl env e1 evs q. CC q c)"
    by (rule hop [OF Cons.prems(2) _ 1]) (use Cons.prems(1) x in simp)
  then have n1: "flights n1" using dispatch_flights [OF Cons.prems(3) _ _ 2] by blast
  show ?case
  proof (cases r1)
    case (Inl z)
    then show ?thesis using Cons.prems(4) o h n1 by (simp add: x)
  next
    case (Inr u)
    then have "process_hops env e1 n1 hops = (e', n', r)" using Cons.prems(4) o by (simp add: x)
    then show ?thesis using Cons.IH [of e1 n1] Cons.prems(1) h n1 by simp
  qed
qed simp

lemma controls_kept:
  assumes "\<forall>c \<in> set cs. CC p c" "Q p e" "flights n" "process_control env e n cs = (e', n', r)"
  shows "Q p e' \<and> flights n'"
  using assms
proof (induction cs arbitrary: e n)
  case (Cons c cs)
  obtain e1 evs where 1: "control_part e c = (e1, evs)" by force
  obtain n1 r1 where 2: "dispatch_events env e1 n evs = (n1, r1)" by force
  have o: "on_control env e n c = (e1, n1, r1)" unfolding parts using 1 2 by simp
  have h: "Q p e1 \<and> (\<forall>q. \<forall>x \<in> sent_mail env e1 evs q. MM q x) \<and> (\<forall>q. \<forall>c \<in> sent_ctl env e1 evs q. CC q c)"
    by (rule ctl [OF Cons.prems(2) _ 1]) (use Cons.prems(1) in simp)
  then have n1: "flights n1" using dispatch_flights [OF Cons.prems(3) _ _ 2] by blast
  show ?case
  proof (cases r1)
    case (Inl z)
    then show ?thesis using Cons.prems(4) o h n1 by simp
  next
    case (Inr u)
    then have "process_control env e1 n1 cs = (e', n', r)" using Cons.prems(4) o by simp
    then show ?thesis using Cons.IH [of e1 n1] Cons.prems(1) h n1 by simp
  qed
qed simp

lemma process_kept:
  assumes "Q p e" "flights n" "epi_process env e n = (e', n', r)"
  shows "Q p e' \<and> flights n'"
proof -
  obtain g hops where d: "drain_with_hops (en_mesh n) p = (g, hops)" by force
  have g: "mails (n\<lparr>en_mesh := g\<rparr>) q \<subseteq> mails n q" "ctls (n\<lparr>en_mesh := g\<rparr>) q = ctls n q" "set hops \<subseteq> mails n p" for q
    using d by (auto simp: drain_with_hops_def mails_def ctls_def map_of_bt_insert split: option.splits if_splits)
  obtain e1 n1 r1 where h: "process_hops env e (n\<lparr>en_mesh := g\<rparr>) hops = (e1, n1, r1)" by (metis prod.collapse)
  have "flights (n\<lparr>en_mesh := g\<rparr>)" "\<forall>x \<in> set hops. MM p x" using assms(2) g unfolding flights_def by blast+
  then have k1: "Q p e1" "flights n1" using hops_kept [OF _ assms(1) _ h] by blast+
  obtain n2 cs where c: "control_drain n1 p = (n2, cs)" by force
  have n2: "mails n2 q = mails n1 q" "ctls n2 q \<subseteq> ctls n1 q" "set cs \<subseteq> ctls n1 p" for q
    using c by (auto simp: control_drain_def mails_def ctls_def map_of_bt_insert split: option.splits if_splits)
  have "flights n2" "\<forall>c \<in> set cs. CC p c" using k1(2) n2 unfolding flights_def by blast+
  then show ?thesis
    using assms(3) d h c k1 controls_kept [of cs p e1 n2 e' n' r] me [OF assms(1)] me [OF k1(1)]
    by (cases r1) (auto simp: epi_process_def)
qed

lemma op_kept:
  assumes "kept s" "op_ok op"
  shows "kept (fst (op_run env op s))"
proof -
  obtain st n where s: "s = (st, n)" by force
  have q: "Q p (st p)" and f: "flights n" for p using assms(1) by (auto simp: kept_def s)
  show ?thesis
  proof (cases op)
    case (OpBroadcast p m)
    obtain e evs where 1: "broadcast_part env (st p) m = (e, evs)" by force
    obtain n' r where 2: "dispatch_events env e n evs = (n', r)" by force
    have h: "Q p e \<and> (\<forall>q. \<forall>x \<in> sent_mail env e evs q. MM q x) \<and> (\<forall>q. \<forall>c \<in> sent_ctl env e evs q. CC q c)"
      by (rule cast [OF q _ 1]) (use assms(2) OpBroadcast in simp)
    then have "flights n'" using dispatch_flights [OF f _ _ 2] by blast
    then show ?thesis using h q 1 2 by (simp add: OpBroadcast s kept_def parts)
  next
    case (OpTick p)
    obtain e evs where 1: "tick_part (st p) = (e, evs)" by force
    obtain n' r where 2: "dispatch_events env e n evs = (n', r)" by force
    have h: "Q p e \<and> (\<forall>q. \<forall>x \<in> sent_mail env e evs q. MM q x) \<and> (\<forall>q. \<forall>c \<in> sent_ctl env e evs q. CC q c)"
      by (rule tick [OF q _ 1]) (use assms(2) OpTick in simp)
    then have "flights n'" using dispatch_flights [OF f _ _ 2] by blast
    then show ?thesis using h q 1 2 by (simp add: OpTick s kept_def parts)
  next
    case (OpProcess p)
    obtain e n' r where 1: "epi_process env (st p) n = (e, n', r)" by (metis prod.collapse)
    then show ?thesis using process_kept [OF q f 1] q by (simp add: OpProcess s kept_def)
  next
    case (OpPoll p)
    obtain e n' r where 1: "epi_process env (st p) n = (e, n', r)" by (metis prod.collapse)
    then show ?thesis using process_kept [OF q f 1] q take_inbox by (simp add: OpPoll s kept_def epi_poll_def)
  next
    case (OpClose c)
    have "mails (n\<lparr>en_mesh := set_closed (en_mesh n) c\<rparr>) = mails n" "ctls (n\<lparr>en_mesh := set_closed (en_mesh n) c\<rparr>) = ctls n"
      by (rule ext, simp add: mails_def set_closed_def, rule ext, simp add: ctls_def)
    then show ?thesis using q f by (simp add: OpClose s kept_def flights_def)
  qed
qed

lemma ops_kept:
  "kept s \<Longrightarrow> \<forall>op \<in> set ops. op_ok op \<Longrightarrow> kept (ops_run env ops s)"
  by (induction ops arbitrary: s) (simp_all add: ops_run_def op_kept)

end

lemma eager_part_cases:
  "eager_part env e fr m =
     (if ep_seen e (mid m) = None
      then (store_msg (learn_peer e fr) m, push_events (ee_order env) (learn_peer e fr) m {peer_node_id fr})
      else if peer_node_id fr \<in> pt_eager (ep_plumtree e)
      then ((learn_peer e fr)\<lparr>ep_plumtree := (ep_plumtree e)\<lparr>pt_eager := pt_eager (ep_plumtree e) - {peer_node_id fr},
              pt_lazy := insert (peer_node_id fr) (pt_lazy (ep_plumtree e))\<rparr>\<rparr>, [Prune (peer_node_id fr)])
      else (learn_peer e fr, []))"
  by (simp add: eager_part_def store_msg_def push_events_def on_receive_def Let_def)

lemma broadcast_part_cases:
  "broadcast_part env e m =
     (if ep_seen e (mid m) = None then (store_msg e m, push_events (ee_order env) e m {})
      else (e\<lparr>ep_plumtree := (ep_plumtree e)\<lparr>pt_seen := (ep_seen e)(mid m \<mapsto> encode_authority_msg m)\<rparr>\<rparr>, []))"
  by (simp add: broadcast_part_def store_msg_def push_events_def pt_broadcast_def Let_def)

lemma push_sent:
  "x \<in> sent_mail env e' (push_events ho e m S) q \<Longrightarrow> mid (snd x) = mid m \<and> (\<exists>t \<in> set (ho (pt_me (ep_plumtree e)) (pt_eager (ep_plumtree e))). ep_peers e' t = Some q)"
  "c \<in> sent_ctl env e' (push_events ho e m S) q \<Longrightarrow> \<exists>y. c = CtlIHave (ep_me e') (mid m) y"
proof -
  assume "x \<in> sent_mail env e' (push_events ho e m S) q"
  then obtain t m' where t: "x = (Some (ep_me e'), m')" "t \<in> set (ho (pt_me (ep_plumtree e)) (pt_eager (ep_plumtree e)))" "ep_peers e' t = Some q"
    "decode_authority_msg (ee_crypto env) (encode_authority_msg m) = Inr m'"
    by (auto simp: sent_mail_def push_events_def)
  then have "mid m' = mid m" by (simp add: decode_authority_msg_iff mid_def)
  then show "mid (snd x) = mid m \<and> (\<exists>t \<in> set (ho (pt_me (ep_plumtree e)) (pt_eager (ep_plumtree e))). ep_peers e' t = Some q)" using t by auto
qed (auto simp: sent_ctl_def push_events_def)

section \<open>Endpoints that are only polled\<close>

definition right_names :: "endpoint \<Rightarrow> bool" where
  "right_names e \<longleftrightarrow> (\<forall>x q. ep_peers e x = Some q \<longrightarrow> x = peer_node_id q)"

definition starved_end :: "epi_env \<Rightarrow> peer_id \<Rightarrow> peer_id \<Rightarrow> endpoint \<Rightarrow> bool" where
  "starved_end env b p e \<longleftrightarrow> hash_order_ok (ee_order env) \<and> finite (pt_eager (ep_plumtree e)) \<and> ep_me e = p \<and>
     right_names e \<and> peer_node_id b \<notin> pt_eager (ep_plumtree e) \<and> (p = b \<longrightarrow> ep_app_inbox e = [])"

lemma starved_frame:
  assumes "starved_end env b p e" "ep_me e' = ep_me e" "ep_peers e' = ep_peers e" "pt_eager (ep_plumtree e') \<subseteq> pt_eager (ep_plumtree e)"
    "p = b \<longrightarrow> ep_app_inbox e' = ep_app_inbox e"
  shows "starved_end env b p e'"
  using assms finite_subset [OF assms(4)] by (auto simp: starved_end_def right_names_def)

lemma learn_names: "right_names e \<Longrightarrow> right_names (learn_peer e fr)"
  unfolding right_names_def learn_peer_def by (cases "ep_peers e (peer_node_id fr)") auto

lemma starved_learn: "starved_end env b p e \<Longrightarrow> starved_end env b p (learn_peer e fr)"
  by (simp add: starved_end_def learn_names)

lemma starved_push:
  assumes "starved_end env b p e" "p \<noteq> b" "ep_peers e' = ep_peers e" "x \<in> sent_mail env e' (push_events (ee_order env) e m S) q"
  shows "q \<noteq> b"
proof -
  have o: "set (ee_order env (pt_me (ep_plumtree e)) (pt_eager (ep_plumtree e))) = pt_eager (ep_plumtree e)"
    using assms(1) by (simp add: starved_end_def hash_order_ok_def)
  obtain t where "t \<in> pt_eager (ep_plumtree e)" "ep_peers e t = Some q" using push_sent(1) [OF assms(4)] assms(3) unfolding o by auto
  then show ?thesis using assms(1) unfolding starved_end_def right_names_def by blast
qed

interpretation starve: epi_invariant env "starved_end env b" "\<lambda>q x. q \<noteq> b" "\<lambda>q c. \<forall>fr i. c \<noteq> CtlGraft fr i" "\<lambda>p m. p \<noteq> b" "\<lambda>p. False"
  for env b
proof
  fix p e assume "starved_end env b p e"
  then show "ep_me e = p" "starved_end env b p (e\<lparr>ep_app_inbox := []\<rparr>)" by (simp_all add: starved_end_def right_names_def)
next
  fix p e h m e' evs
  assume q: "starved_end env b p e" and p: "p \<noteq> b" and ep: "eager_part env e (case h of Some q \<Rightarrow> q | None \<Rightarrow> p) m = (e', evs)"
  define fr where "fr = (case h of Some q \<Rightarrow> q | None \<Rightarrow> p)"
  have l: "starved_end env b p (learn_peer e fr)" by (rule starved_learn [OF q])
  note ep' = ep [folded fr_def, unfolded eager_part_cases]
  show "starved_end env b p e' \<and> (\<forall>q. \<forall>x \<in> sent_mail env e' evs q. q \<noteq> b) \<and> (\<forall>q. \<forall>c \<in> sent_ctl env e' evs q. \<forall>fr i. c \<noteq> CtlGraft fr i)"
  proof (cases "ep_seen e (mid m)")
    case None
    then have e': "e' = store_msg (learn_peer e fr) m" "evs = push_events (ee_order env) (learn_peer e fr) m {peer_node_id fr}" using ep' by simp_all
    have "starved_end env b p e'" by (rule starved_frame [OF l]) (simp_all add: e' p)
    moreover have "q \<noteq> b" if "x \<in> sent_mail env e' evs q" for x q
      by (rule starved_push [OF l p _ that [unfolded e'(2)]]) (simp add: e')
    ultimately show ?thesis using push_sent(2) unfolding e'(2) by blast
  next
    case (Some pl)
    then have "evs = [Prune (peer_node_id fr)] \<or> evs = []" using ep' by (auto split: if_splits)
    moreover have "starved_end env b p e'" by (rule starved_frame [OF l]) (use ep' Some in \<open>auto split: if_splits\<close>)
    ultimately show ?thesis by (auto simp: sent_mail_def sent_ctl_def)
  qed
next
  fix p e c e' evs
  assume q: "starved_end env b p e" and c: "\<forall>fr i. c \<noteq> CtlGraft fr i" and cp: "control_part e c = (e', evs)"
  show "starved_end env b p e' \<and> (\<forall>q. \<forall>x \<in> sent_mail env e' evs q. q \<noteq> b) \<and> (\<forall>q. \<forall>c \<in> sent_ctl env e' evs q. \<forall>fr i. c \<noteq> CtlGraft fr i)"
  proof (cases c)
    case (CtlIHave fr i y)
    then have "evs = []" "e' = (learn_peer e fr)\<lparr>ep_plumtree := fst (on_ihave (ep_plumtree e) (peer_node_id fr) i (peer_node_id y))\<rparr>"
      using cp by (auto simp: control_part_def on_ihave_def split: if_splits)
    moreover from this have "starved_end env b p e'" by (intro starved_frame [OF starved_learn [OF q]]) (auto simp: on_ihave_def)
    ultimately show ?thesis by simp
  next
    case (CtlPrune fr)
    then have "evs = []" "starved_end env b p e'"
      using cp by (auto simp: control_part_def on_prune_def intro!: starved_frame [OF q] split: if_splits)
    then show ?thesis by simp
  qed (use c in simp)
next
  fix p e m e' evs
  assume q: "starved_end env b p e" and p: "p \<noteq> b" and bp: "broadcast_part env e m = (e', evs)"
  show "starved_end env b p e' \<and> (\<forall>q. \<forall>x \<in> sent_mail env e' evs q. q \<noteq> b) \<and> (\<forall>q. \<forall>c \<in> sent_ctl env e' evs q. \<forall>fr i. c \<noteq> CtlGraft fr i)"
  proof (cases "ep_seen e (mid m)")
    case None
    then have e': "e' = store_msg e m" "evs = push_events (ee_order env) e m {}" using bp by (simp_all add: broadcast_part_cases)
    have "starved_end env b p e'" by (rule starved_frame [OF q]) (simp_all add: e' p)
    moreover have "q' \<noteq> b" if "x \<in> sent_mail env e' evs q'" for x q'
      by (rule starved_push [OF q p _ that [unfolded e'(2)]]) (simp add: e')
    ultimately show ?thesis using push_sent(2) unfolding e'(2) by blast
  next
    case (Some pl)
    then have "evs = []" "starved_end env b p e'"
      using bp by (auto simp: broadcast_part_cases intro!: starved_frame [OF q])
    then show ?thesis by simp
  qed
qed simp

text \<open>Two endpoints that have each other in their eager views.\<close>

definition duo_net :: "peer_id \<Rightarrow> peer_id \<Rightarrow> epi_net" where
  "duo_net a b = fst (epi_join (fst (epi_join epi_new a)) b)"

definition duo_store :: "peer_id \<Rightarrow> peer_id \<Rightarrow> ep_store" where
  "duo_store a b = mesh_all_eager [a, b] fresh_store"

lemma order_small:
  assumes "hash_order_ok ho"
  shows "ho me {} = []" "ho me {x} = [x]"
proof -
  have o: "set (ho me {}) = {}" "set (ho me {x}) = {x}" "distinct (ho me {x})" using assms by (simp_all add: hash_order_ok_def)
  then show "ho me {} = []" by simp
  have "length (ho me {x}) = 1" using distinct_card [OF o(3)] o(2) by simp
  then show "ho me {x} = [x]" using o(2) by (cases "ho me {x}") auto
qed

lemma duo_net_boxes:
  "map_of (mesh_mailboxes (en_mesh (duo_net a b))) q = (if q = a \<or> q = b then Some [] else None)"
  "map_of (en_control (duo_net a b)) q = (if q = a \<or> q = b then Some [] else None)" "\<not> mesh_closed (en_mesh (duo_net a b))"
  by (auto simp: duo_net_def epi_join_def epi_new_def mesh_new_def mesh_join_def map_of_bt_insert split: option.splits)

definition duo_end :: "peer_id \<Rightarrow> peer_id \<Rightarrow> endpoint" where
  "duo_end a b = \<lparr>ep_me = a, ep_plumtree = (plumtree_new (peer_node_id a))\<lparr>pt_eager := {peer_node_id b}\<rparr>,
     ep_peers = [peer_node_id b \<mapsto> b], ep_app_inbox = [], ep_deliver_counts = Map.empty\<rparr>"

lemma duo_store_is:
  assumes "a \<noteq> b"
  shows "duo_store a b = fresh_store(a := duo_end a b, b := duo_end b a)"
  using assms by (simp add: duo_store_def mesh_all_eager_def duo_end_def fresh_store_def epi_join_def ep_add_peer_def pt_add_peer_def plumtree_new_def)

text \<open>An endpoint whose only eager peer is \<open>b\<close>: after its own broadcast of \<open>m\<close>, and after the same message came back from \<open>b\<close>.\<close>

definition duo_sent :: "peer_id \<Rightarrow> peer_id \<Rightarrow> authority_msg \<Rightarrow> endpoint" where
  "duo_sent a b m = store_msg (duo_end a b) m"

definition duo_pruned :: "peer_id \<Rightarrow> peer_id \<Rightarrow> authority_msg \<Rightarrow> endpoint" where
  "duo_pruned a b m = (duo_sent a b m)\<lparr>ep_plumtree := (ep_plumtree (duo_sent a b m))\<lparr>pt_eager := {}, pt_lazy := {peer_node_id b}\<rparr>\<rparr>"

lemma duo_broadcast:
  assumes "hash_order_ok (ee_order env)" "wire_msg_ok (ee_crypto env) m" "\<not> mesh_closed (en_mesh n)" "map_of (mesh_mailboxes (en_mesh n)) b = Some mb"
  shows "broadcast_msg env (duo_end a b) n m = (duo_sent a b m,
    n\<lparr>en_mesh := (en_mesh n)\<lparr>mesh_mailboxes := bt_insert b (mb @ [\<lparr>mail_from = Some a, mail_msg = m\<rparr>]) (mesh_mailboxes (en_mesh n))\<rparr>\<rparr>, Inr ())"
proof -
  have d: "decode_authority_msg (ee_crypto env) (encode_authority_msg m) = Inr m" using assms(2) by (simp add: decode_authority_msg_iff)
  have s: "ep_seen (duo_end a b) (mid m) = None" by (simp add: duo_end_def plumtree_new_def)
  have evs: "push_events (ee_order env) (duo_end a b) m {} =
      [Eager (peer_node_id b) \<lparr>gm_id = mid m, gm_payload = encode_authority_msg m, gm_sender = peer_node_id a\<rparr>]"
    by (simp add: push_events_def duo_end_def plumtree_new_def order_small [OF assms(1)])
  have p: "ep_peers (store_msg (duo_end a b) m) (peer_node_id b) = Some b" "ep_me (store_msg (duo_end a b) m) = a"
    by (simp_all only: store_msg_fields) (simp_all add: duo_end_def)
  show ?thesis
    unfolding parts broadcast_part_cases duo_sent_def
    by (simp add: s evs resolve_peer_def d deliver_to_from_def assms(3,4) p del: store_msg_fields)
qed

lemma duo_hop:
  assumes "map_of (en_control n) b = Some cs"
  shows "on_eager_payload env (duo_sent a b m) n b m =
    (duo_pruned a b m, n\<lparr>en_control := bt_insert b (cs @ [CtlPrune a]) (en_control n)\<rparr>, Inr ())"
proof -
  have "eager_part env (duo_sent a b m) b m = (duo_pruned a b m, [Prune (peer_node_id b)])"
    by (simp add: eager_part_cases duo_pruned_def duo_sent_def)
      (simp add: duo_end_def store_msg_def push_app_def learn_peer_def plumtree_new_def)
  moreover have "ep_peers (duo_pruned a b m) (peer_node_id b) = Some b" "ep_me (duo_pruned a b m) = a"
    by (simp_all add: duo_pruned_def duo_sent_def) (simp_all add: duo_end_def)
  ultimately show ?thesis using assms by (simp add: parts resolve_peer_def control_deliver_def)
qed

text \<open>After both have broadcast \<open>m\<close> and polled.\<close>

definition duo_ops :: "peer_id \<Rightarrow> peer_id \<Rightarrow> authority_msg \<Rightarrow> epi_op list" where
  "duo_ops a b m = [OpBroadcast a m, OpBroadcast b m, OpPoll a, OpPoll b]"

lemma duo_poll:
  assumes "map_of (mesh_mailboxes (en_mesh n)) a = Some [\<lparr>mail_from = Some b, mail_msg = m\<rparr>]" "a \<noteq> b"
    "map_of (en_control n) b = Some cs" "map_of (en_control n) a = Some ds" "set ds \<subseteq> {CtlPrune b}"
  shows "epi_poll env (duo_sent a b m) n =
    ((duo_pruned a b m)\<lparr>ep_app_inbox := []\<rparr>,
     \<lparr>en_mesh = (en_mesh n)\<lparr>mesh_mailboxes := bt_insert a [] (mesh_mailboxes (en_mesh n))\<rparr>,
      en_control = bt_insert a [] (bt_insert b (cs @ [CtlPrune a]) (en_control n))\<rparr>, [m])"
proof -
  have me: "ep_me (duo_sent a b m) = a" "ep_me (duo_pruned a b m) = a" "ep_app_inbox (duo_pruned a b m) = [m]"
    by (simp_all add: duo_pruned_def duo_sent_def) (simp_all add: duo_end_def)
  have prune: "on_control env (duo_pruned a b m) n' (CtlPrune b) = (duo_pruned a b m, n', Inr ())" for n'
    by (simp add: on_prune_def duo_pruned_def)
  have ctl: "process_control env (duo_pruned a b m) n' ds = (duo_pruned a b m, n', Inr ())" for n'
    using assms(5) by (induction ds) (auto simp: prune simp del: on_control.simps)
  show ?thesis
    using assms(1-4) by (cases n) (simp add: epi_poll_def epi_process_def drain_with_hops_def me duo_hop [where cs = cs] control_drain_def map_of_bt_insert ctl)
qed

lemma duo_kept:
  assumes "hash_order_ok (ee_order env)" "wire_msg_ok (ee_crypto env) m" "a \<noteq> b"
  shows "starve.kept env b (ops_run env (duo_ops a b m) (duo_store a b, duo_net a b))"
proof -
  let ?E = "\<lambda>x y. (duo_pruned x y m)\<lparr>ep_app_inbox := []\<rparr>"
  let ?mail = "\<lambda>x. [\<lparr>mail_from = Some x, mail_msg = m\<rparr>]"
  define n2 where "n2 = (duo_net a b)\<lparr>en_mesh := (en_mesh (duo_net a b))\<lparr>mesh_mailboxes := bt_insert a (?mail b) (bt_insert b (?mail a) (mesh_mailboxes (en_mesh (duo_net a b))))\<rparr>\<rparr>"
  have 2: "ops_run env [OpBroadcast a m, OpBroadcast b m] (duo_store a b, duo_net a b) = (fresh_store(a := duo_sent a b m, b := duo_sent b a m), n2)"
    using assms(3) unfolding ops_run_def duo_store_is [OF assms(3)] n2_def
    by (simp add: duo_broadcast [OF assms(1,2)] duo_net_boxes map_of_bt_insert fun_upd_twist)
  have b2: "map_of (mesh_mailboxes (en_mesh n2)) q = (if q = a then Some (?mail b) else if q = b then Some (?mail a) else None)"
    "map_of (en_control n2) q = (if q = a \<or> q = b then Some [] else None)" for q
    using assms(3) by (simp_all add: n2_def duo_net_boxes map_of_bt_insert)
  define n3 where "n3 = \<lparr>en_mesh = (en_mesh n2)\<lparr>mesh_mailboxes := bt_insert a [] (mesh_mailboxes (en_mesh n2))\<rparr>,
      en_control = bt_insert a [] (bt_insert b [CtlPrune a] (en_control n2))\<rparr>"
  have 3: "op_run env (OpPoll a) (fresh_store(a := duo_sent a b m, b := duo_sent b a m), n2) = ((fresh_store(a := ?E a b, b := duo_sent b a m), n3), [m])"
    using duo_poll [where n = n2 and a = a and b = b and m = m and env = env and cs = "[]" and ds = "[]"] assms(3) b2
    by (simp add: n3_def fun_upd_twist)
  have b3: "map_of (mesh_mailboxes (en_mesh n3)) q = (if q = a then Some [] else if q = b then Some (?mail a) else None)"
    "map_of (en_control n3) q = (if q = a then Some [] else if q = b then Some [CtlPrune a] else None)" for q
    using assms(3) by (simp_all add: n3_def b2 map_of_bt_insert)
  define n4 where "n4 = \<lparr>en_mesh = (en_mesh n3)\<lparr>mesh_mailboxes := bt_insert b [] (mesh_mailboxes (en_mesh n3))\<rparr>,
      en_control = bt_insert b [] (bt_insert a [CtlPrune b] (en_control n3))\<rparr>"
  have 4: "op_run env (OpPoll b) (fresh_store(a := ?E a b, b := duo_sent b a m), n3) = ((fresh_store(a := ?E a b, b := ?E b a), n4), [m])"
    using duo_poll [where n = n3 and a = b and b = a and m = m and env = env and cs = "[]" and ds = "[CtlPrune a]"] assms(3) b3
    by (simp add: n4_def)
  have b4: "mails n4 q = {}" "ctls n4 q \<subseteq> {CtlPrune b}" for q
    using assms(3) by (auto simp: mails_def ctls_def n4_def b3 map_of_bt_insert)
  have s4: "ops_run env (duo_ops a b m) (duo_store a b, duo_net a b) = (fresh_store(a := ?E a b, b := ?E b a), n4)"
    using 2 3 4 by (simp add: duo_ops_def ops_run_def del: op_run.simps)
  have fresh: "starved_end env b p (fresh_store p)" for p
    using assms(1) by (simp add: starved_end_def right_names_def fresh_store_def epi_join_def plumtree_new_def)
  have pruned: "starved_end env b x (?E x y)" for x y
    using assms(1) by (simp add: starved_end_def right_names_def duo_pruned_def duo_sent_def) (simp add: duo_end_def)
  have "starved_end env b p ((fresh_store(a := ?E a b, b := ?E b a)) p)" for p using fresh pruned by simp
  then show ?thesis using b4 unfolding s4 starve.kept_def starve.flights_def by fastforce
qed

lemma starved_poll:
  assumes "starve.kept env b (st, n)"
  shows "snd (op_run env (OpPoll b) (st, n)) = []"
proof -
  obtain e n' r where p: "epi_process env (st b) n = (e, n', r)" by (metis prod.collapse)
  have "starved_end env b b e"
    using starve.process_kept [OF _ _ p] assms unfolding starve.kept_def by auto
  then show ?thesis using p by (simp add: epi_poll_def starved_end_def)
qed

text \<open>C34: polling alone starves. Two endpoints that push eagerly to each other and once broadcast the same message each prune the other.
  From then on, whatever messages anyone but \<open>b\<close> broadcasts and however often all endpoints process and poll, with no \<open>tick\<close>,
  every poll of \<open>b\<close> returns nothing. \<open>poll\<close> calls \<open>process\<close> and never \<open>tick\<close>, and the drivers over \<open>AuthorityNet\<close> only poll.\<close>

theorem poll_starves:
  assumes "hash_order_ok (ee_order env)" "wire_msg_ok (ee_crypto env) m" "a \<noteq> b"
    and "\<forall>op \<in> set ops. (\<forall>m'. op \<noteq> OpBroadcast b m') \<and> (\<forall>p. op \<noteq> OpTick p)"
  shows "snd (op_run env (OpPoll b) (ops_run env (duo_ops a b m @ ops) (duo_store a b, duo_net a b))) = []"
proof -
  have ok: "starve.op_ok b op" if "op \<in> set ops" for op using assms(4) that by (cases op) auto
  have eq: "ops_run env (duo_ops a b m @ ops) s = ops_run env ops (ops_run env (duo_ops a b m) s)" for s by (simp add: ops_run_def)
  have k: "starve.kept env b (ops_run env ops (ops_run env (duo_ops a b m) (duo_store a b, duo_net a b)))"
    by (rule starve.ops_kept [OF duo_kept [OF assms(1-3)]]) (use ok in blast)
  obtain st n where s: "ops_run env ops (ops_run env (duo_ops a b m) (duo_store a b, duo_net a b)) = (st, n)" by (rule prod.exhaust)
  show ?thesis unfolding eq s by (rule starved_poll) (rule k [unfolded s])
qed

theorem poll_starves_witness:
  "snd (op_run demo_env (OpPoll ''b'') (ops_run demo_env (duo_ops ''a'' ''b'' (MsgOrder demo_order) @
     [OpBroadcast ''a'' (MsgOrder (demo_order_at 1 3)), OpPoll ''b'', OpPoll ''a'']) (duo_store ''a'' ''b'', duo_net ''a'' ''b''))) = []"
  by (rule poll_starves) (simp_all add: demo_env_ok demo_wire_ok [simplified])

section \<open>Broadcasts that fail\<close>

definition lost_end :: "peer_id \<Rightarrow> msg_id \<Rightarrow> peer_id \<Rightarrow> endpoint \<Rightarrow> bool" where
  "lost_end a i p e \<longleftrightarrow> ep_me e = p \<and> (ep_seen e i \<noteq> None \<longleftrightarrow> p = a) \<and> (\<forall>j pl. ep_seen e j = Some pl \<longrightarrow> msg_id_of pl = j) \<and>
     (\<forall>z \<in> set (pt_pending (ep_plumtree e)). fst (snd z) \<noteq> i)"

definition lost_ctl :: "msg_id \<Rightarrow> control_msg \<Rightarrow> bool" where
  "lost_ctl i c \<longleftrightarrow> (\<forall>f y. c \<noteq> CtlIHave f i y) \<and> (\<forall>f. c \<noteq> CtlGraft f i)"

lemma lost_store:
  assumes "lost_end a i p e" "mid m \<noteq> i"
  shows "lost_end a i p (store_msg e m)"
  using assms by (auto simp: lost_end_def mid_def)

lemma lost_frame:
  assumes "lost_end a i p e" "ep_me e' = ep_me e" "ep_seen e' = ep_seen e" "\<forall>z \<in> set (pt_pending (ep_plumtree e')). fst (snd z) \<noteq> i"
  shows "lost_end a i p e'"
  using assms by (simp add: lost_end_def)

lemma lost_push:
  assumes "mid m \<noteq> i"
  shows "x \<in> sent_mail env e' (push_events ho e m S) q \<Longrightarrow> mid (snd x) \<noteq> i" "c \<in> sent_ctl env e' (push_events ho e m S) q \<Longrightarrow> lost_ctl i c"
  using assms push_sent(1) [of x env e' ho e m S q] push_sent(2) [of c env e' ho e m S q] by (auto simp: lost_ctl_def)

interpretation lost: epi_invariant env "lost_end a i" "\<lambda>q x. mid (snd x) \<noteq> i" "\<lambda>q c. lost_ctl i c" "\<lambda>p m. mid m = i \<longrightarrow> p = a" "\<lambda>p. True"
  for env a i
proof
  fix p e assume "lost_end a i p e"
  then show "ep_me e = p" "lost_end a i p (e\<lparr>ep_app_inbox := []\<rparr>)" by (simp_all add: lost_end_def)
next
  fix p e h m e' evs
  assume q: "lost_end a i p e" and m: "mid (snd (h :: peer_id option, m)) \<noteq> i"
    and ep: "eager_part env e (case h of Some q \<Rightarrow> q | None \<Rightarrow> p) m = (e', evs)"
  define fr where "fr = (case h of Some q \<Rightarrow> q | None \<Rightarrow> p)"
  note ep' = ep [folded fr_def, unfolded eager_part_cases]
  have l: "lost_end a i p (learn_peer e fr)" by (rule lost_frame [OF q]) (use q in \<open>simp_all add: lost_end_def\<close>)
  show "lost_end a i p e' \<and> (\<forall>q. \<forall>x \<in> sent_mail env e' evs q. mid (snd x) \<noteq> i) \<and> (\<forall>q. \<forall>c \<in> sent_ctl env e' evs q. lost_ctl i c)"
  proof (cases "ep_seen e (mid m)")
    case None
    then have e': "e' = store_msg (learn_peer e fr) m" "evs = push_events (ee_order env) (learn_peer e fr) m {peer_node_id fr}" using ep' by simp_all
    show ?thesis using lost_store [OF l] m lost_push [of m i] unfolding e' by simp
  next
    case (Some pl)
    then have "evs = [Prune (peer_node_id fr)] \<or> evs = []" using ep' by (auto split: if_splits)
    moreover have "lost_end a i p e'" by (rule lost_frame [OF l]) (use ep' Some l in \<open>auto simp: lost_end_def split: if_splits\<close>)
    ultimately show ?thesis by (auto simp: sent_mail_def sent_ctl_def lost_ctl_def)
  qed
next
  fix p e c e' evs
  assume q: "lost_end a i p e" and c: "lost_ctl i c" and cp: "control_part e c = (e', evs)"
  show "lost_end a i p e' \<and> (\<forall>q. \<forall>x \<in> sent_mail env e' evs q. mid (snd x) \<noteq> i) \<and> (\<forall>q. \<forall>c \<in> sent_ctl env e' evs q. lost_ctl i c)"
  proof (cases c)
    case (CtlIHave fr j y)
    then have "j \<noteq> i" using c by (auto simp: lost_ctl_def)
    moreover have e': "evs = []" "e' = (learn_peer e fr)\<lparr>ep_plumtree := fst (on_ihave (ep_plumtree e) (peer_node_id fr) j (peer_node_id y))\<rparr>"
      using cp CtlIHave by (auto simp: control_part_def on_ihave_def split: if_splits)
    ultimately have "lost_end a i p e'" using q by (intro lost_frame [OF q]) (auto simp: on_ihave_def lost_end_def)
    then show ?thesis by (simp add: e')
  next
    case (CtlGraft fr j)
    then have j: "j \<noteq> i" using c by (auto simp: lost_ctl_def)
    have e': "e' = (learn_peer e fr)\<lparr>ep_plumtree := fst (on_graft (ep_plumtree e) (peer_node_id fr) j)\<rparr>" "evs = snd (on_graft (ep_plumtree e) (peer_node_id fr) j)"
      using cp CtlGraft by (auto simp: control_part_def split: prod.splits)
    have "lost_end a i p e'" using q unfolding e' by (intro lost_frame [OF q]) (auto simp: on_graft_def Let_def lost_end_def split: option.splits)
    moreover have "mid (snd x) \<noteq> i" if x: "x \<in> sent_mail env e' evs q'" for x q'
    proof -
      obtain pl where "ep_seen e j = Some pl" "decode_authority_msg (ee_crypto env) pl = Inr (snd x)"
        using x unfolding e'(2) by (auto simp: sent_mail_def on_graft_def Let_def split: option.splits)
      then show ?thesis using q j by (auto simp: lost_end_def decode_authority_msg_iff mid_def)
    qed
    moreover have "sent_ctl env e' evs q' = {}" for q' unfolding e'(2) by (auto simp: sent_ctl_def on_graft_def Let_def split: option.splits)
    ultimately show ?thesis by simp
  next
    case (CtlPrune fr)
    then have e': "evs = []" "e' = e\<lparr>ep_plumtree := on_prune (ep_plumtree e) (peer_node_id fr)\<rparr>" using cp by (auto simp: control_part_def)
    have "lost_end a i p e'" using q unfolding e' by (intro lost_frame [OF q]) (auto simp: on_prune_def lost_end_def)
    then show ?thesis by (simp add: e')
  qed
next
  fix p e e' evs
  assume q: "lost_end a i p e" and tp: "tick_part e = (e', evs)"
  have e': "e' = e\<lparr>ep_plumtree := (ep_plumtree e)\<lparr>pt_pending := []\<rparr>\<rparr>" "\<forall>ev \<in> set evs. \<exists>t j. ev = Graft t j \<and> j \<noteq> i"
    using tp q by (auto simp: tick_part_def pt_tick_def Let_def lost_end_def) force+
  have "lost_end a i p e'" unfolding e' by (rule lost_frame [OF q]) simp_all
  moreover have "sent_mail env e' evs q' = {}" for q' using e'(2) by (auto simp: sent_mail_def)
  moreover have "lost_ctl i c" if "c \<in> sent_ctl env e' evs q'" for c q' using that e'(2) by (auto simp: sent_ctl_def lost_ctl_def)
  ultimately show "lost_end a i p e' \<and> (\<forall>q. \<forall>x \<in> sent_mail env e' evs q. mid (snd x) \<noteq> i) \<and> (\<forall>q. \<forall>c \<in> sent_ctl env e' evs q. lost_ctl i c)" by simp
next
  fix p e m e' evs
  assume q: "lost_end a i p e" and m: "mid m = i \<longrightarrow> p = a" and bp: "broadcast_part env e m = (e', evs)"
  show "lost_end a i p e' \<and> (\<forall>q. \<forall>x \<in> sent_mail env e' evs q. mid (snd x) \<noteq> i) \<and> (\<forall>q. \<forall>c \<in> sent_ctl env e' evs q. lost_ctl i c)"
  proof (cases "ep_seen e (mid m)")
    case None
    then have i: "mid m \<noteq> i" using q m by (auto simp: lost_end_def)
    have e': "e' = store_msg e m" "evs = push_events (ee_order env) e m {}" using bp None by (simp_all add: broadcast_part_cases)
    show ?thesis using lost_store [OF q i] lost_push [OF i] unfolding e' by blast
  next
    case (Some pl)
    then have "evs = []" "lost_end a i p e'" using bp q m by (auto simp: broadcast_part_cases lost_end_def mid_def split: if_splits)
    then show ?thesis by simp
  qed
qed

text \<open>No endpoint has seen the message, and nothing under way carries, announces or asks for it.\<close>

definition nowhere :: "msg_id \<Rightarrow> ep_store \<Rightarrow> epi_net \<Rightarrow> bool" where
  "nowhere i st n \<longleftrightarrow>
     (\<forall>p. ep_me (st p) = p \<and> ep_seen (st p) i = None \<and> (\<forall>j pl. ep_seen (st p) j = Some pl \<longrightarrow> msg_id_of pl = j) \<and>
       (\<forall>z \<in> set (pt_pending (ep_plumtree (st p))). fst (snd z) \<noteq> i)) \<and>
     (\<forall>q. (\<forall>x \<in> mails n q. mid (snd x) \<noteq> i) \<and> (\<forall>c \<in> ctls n q. lost_ctl i c))"

lemma closed_broadcast:
  assumes "hash_order_ok (ee_order env)" "wire_msg_ok (ee_crypto env) m" "mesh_closed (en_mesh n)" "ep_seen e (mid m) = None"
    "finite (pt_eager (ep_plumtree e))" "pt_eager (ep_plumtree e) \<noteq> {}" "pt_eager (ep_plumtree e) \<subseteq> dom (ep_peers e)"
  shows "broadcast_msg env e n m = (store_msg e m, n, Inl NetClosed)"
proof -
  have o: "set (ee_order env (pt_me (ep_plumtree e)) (pt_eager (ep_plumtree e))) = pt_eager (ep_plumtree e)"
    using assms(1,5) by (simp add: hash_order_ok_def)
  then obtain t ts where t: "ee_order env (pt_me (ep_plumtree e)) (pt_eager (ep_plumtree e)) = t # ts"
    using assms(6) by (cases "ee_order env (pt_me (ep_plumtree e)) (pt_eager (ep_plumtree e))") auto
  have "t \<in> pt_eager (ep_plumtree e)" using o t by (metis list.set_intros(1))
  then obtain q where q: "ep_peers e t = Some q" using assms(7) by blast
  have d: "decode_authority_msg (ee_crypto env) (encode_authority_msg m) = Inr m" using assms(2) by (simp add: decode_authority_msg_iff)
  show ?thesis
    unfolding parts broadcast_part_cases
    by (simp add: assms(3,4) push_events_def t resolve_peer_def q d deliver_to_from_def)
qed

text \<open>C35: a broadcast that fails is lost for good. When the mesh is closed, \<open>broadcast\<close> of a new message reports that and sends
  nothing, but keeps the message as seen. Once the mesh works again, the sender may broadcast it again, and all endpoints may
  process, tick and poll as they like: every further broadcast of it reports success and sends nothing, and no other endpoint
  ever gets it.\<close>

theorem failed_broadcast_lost:
  assumes "hash_order_ok (ee_order env)" "wire_msg_ok (ee_crypto env) m" "mesh_closed (en_mesh n)" "nowhere (msg_id_of (encode_authority_msg m)) st n"
    and "finite (pt_eager (ep_plumtree (st a)))" "pt_eager (ep_plumtree (st a)) \<noteq> {}" "pt_eager (ep_plumtree (st a)) \<subseteq> dom (ep_peers (st a))"
    and "broadcast_msg env (st a) n m = (e, n1, r)" "ops_run env ops (st(a := e), n1) = (st', n')"
    and "\<forall>p m'. OpBroadcast p m' \<in> set ops \<longrightarrow> msg_id_of (encode_authority_msg m') = msg_id_of (encode_authority_msg m) \<longrightarrow> p = a"
  shows "r = Inl NetClosed \<and> (\<exists>e'. broadcast_msg env (st' a) n' m = (e', n', Inr ())) \<and>
    (\<forall>p. p \<noteq> a \<longrightarrow> \<not> has_msg (st' p) (msg_id_of (encode_authority_msg m)))"
proof -
  have none: "ep_seen (st a) (mid m) = None" using assms(4) by (simp add: nowhere_def mid_def)
  have b: "e = store_msg (st a) m" "n1 = n" "r = Inl NetClosed"
    using closed_broadcast [OF assms(1-3) none assms(5-7)] assms(8) by simp_all
  have "lost_end a (mid m) p ((st(a := e)) p)" for p
    using assms(4) b by (auto simp: nowhere_def mid_def lost_end_def)
  then have "lost.kept a (mid m) (st(a := e), n1)"
    using assms(4) b unfolding lost.kept_def lost.flights_def nowhere_def by (simp add: mid_def)
  moreover have "lost.op_ok (mid m) a op" if "op \<in> set ops" for op using assms(10) [folded mid_def] that by (cases op) auto
  ultimately have k: "lost.kept a (mid m) (st', n')" using lost.ops_kept [of a "mid m" "(st(a := e), n1)" ops env] assms(9) by simp
  then have l: "lost_end a (mid m) p (st' p)" for p by (simp add: lost.kept_def)
  have "ep_seen (st' a) (mid m) \<noteq> None" using l [of a] by (simp add: lost_end_def)
  then have "\<exists>e'. broadcast_msg env (st' a) n' m = (e', n', Inr ())" by (auto simp: parts broadcast_part_cases)
  moreover have "\<not> has_msg (st' p) (mid m)" if "p \<noteq> a" for p using l [of p] that by (simp add: lost_end_def has_msg_def pt_get_def)
  ultimately show ?thesis using b(3) by (simp add: mid_def)
qed

theorem failed_broadcast_lost_witness:
  "\<exists>e n1 st' n'. broadcast_msg demo_env (duo_store ''a'' ''b'' ''a'') ((duo_net ''a'' ''b'')\<lparr>en_mesh := set_closed (en_mesh (duo_net ''a'' ''b'')) True\<rparr>)
       (MsgOrder demo_order) = (e, n1, Inl NetClosed) \<and>
     ops_run demo_env [OpClose False, OpBroadcast ''a'' (MsgOrder demo_order), OpProcess ''b'', OpTick ''b'']
       ((duo_store ''a'' ''b'')(''a'' := e), n1) = (st', n') \<and>
     \<not> has_msg (st' ''b'') (msg_id_of (encode_authority_msg (MsgOrder demo_order)))"
proof -
  let ?m = "MsgOrder demo_order" and ?st = "duo_store ''a'' ''b''"
  let ?n = "(duo_net ''a'' ''b'')\<lparr>en_mesh := set_closed (en_mesh (duo_net ''a'' ''b'')) True\<rparr>"
  let ?ops = "[OpClose False, OpBroadcast ''a'' ?m, OpProcess ''b'', OpTick ''b'']"
  obtain e n1 r where b: "broadcast_msg demo_env (?st ''a'') ?n ?m = (e, n1, r)" by (metis prod.collapse)
  obtain st' n' where o: "ops_run demo_env ?ops (?st(''a'' := e), n1) = (st', n')" by (rule prod.exhaust)
  have st: "?st = fresh_store(''a'' := duo_end ''a'' ''b'', ''b'' := duo_end ''b'' ''a'')" by (rule duo_store_is) simp
  have "mails ?n q = {}" "ctls ?n q = {}" for q by (simp_all add: mails_def ctls_def set_closed_def duo_net_boxes)
  then have nw: "nowhere (msg_id_of (encode_authority_msg ?m)) ?st ?n"
    by (simp add: nowhere_def st fresh_store_def epi_join_def duo_end_def plumtree_new_def)
  have "r = Inl NetClosed \<and> (\<exists>e'. broadcast_msg demo_env (st' ''a'') n' ?m = (e', n', Inr ())) \<and>
    (\<forall>p. p \<noteq> ''a'' \<longrightarrow> \<not> has_msg (st' p) (msg_id_of (encode_authority_msg ?m)))"
    by (rule failed_broadcast_lost [OF demo_env_ok(1) _ _ nw _ _ _ b o])
      (simp_all add: demo_env_ok demo_wire_ok [simplified] set_closed_def st duo_end_def)
  then show ?thesis using b o by fastforce
qed

end
