(* ===== verification/Spec2Isabelle.thy ===== *)
theory Spec2Isabelle
  imports Epoch_Change Net Replica Anti_Entropy Exchange_Safety Slot_Seal HotStuff_Net Saga_Safety Epidemic_Faults
begin

text \<open>
  Verification of the 333 system: its transfer rail (crate \<open>333-transfer\<close>), the replicated data types
  under it (\<open>333-crdt\<close>), the recovery decrees on top of it (\<open>333-slotseal\<close>), and three subsystems beside
  it, the compute exchange (\<open>333-compute-exchange\<close>), the saga coordinator (\<open>333-orchestration\<close>) and the
  platform's HotStuff engine (\<open>333-platform/src/bft\<close>).

  \<^bold>\<open>The program.\<close> Money moves without consensus: an owner signs an order (\<open>owner.rs\<close>) for its own
  account at its next sequence number; a committee of authorities (\<open>authority.rs\<close>) checks it
  against a ledger (\<open>lib.rs\<close>), locks the slot in a write-ahead journal (\<open>journal.rs\<close>) and signs a
  vote; a quorum of votes is a certificate that every authority applies; attestations of the
  effect (\<open>effect.rs\<close>) make it final; the committee changes by epoch certificates (\<open>epoch.rs\<close>).
  Messages travel as bytes (\<open>wire.rs\<close>) over an authority network (\<open>net.rs\<close>), or by epidemic dissemination
  (\<open>epidemic.rs\<close>). Beside the certified
  rail, owner replicas (\<open>lib.rs\<close>, \<open>Replica\<close>) exchange transfers by causal broadcast (\<open>rcb.rs\<close>), which
  rests on version vectors (\<open>dvv.rs\<close>); the same crate has the CRDTs, their delta wrapper and the
  anti-entropy digests. A slot contested by conflicting orders is settled by a single-decree agreement
  (\<open>333-slotseal\<close>) that finalizes a certified order or voids the slot. The compute exchange is a reducer
  over consent, lease, attempt and settlement of a volunteer node; the saga coordinator runs the steps of
  a workflow in dependency order and undoes the committed ones when a step fails; the HotStuff engine orders
  transactions and checkpoints in three voting phases per view.

  \<^bold>\<open>Theories and sources.\<close>
  \<^item> \<open>Prelude\<close>: machine integers, results as sums, \<open>BTreeMap\<close> as a strictly sorted list, shared lemmas.
  \<^item> \<open>Ledger\<close> (\<open>lib.rs\<close> 146--370): genesis, restore, preflight, apply on \<open>u128\<close>/\<open>u64\<close> words. Supply
    conservation, commutation of transfers of different owners, spent slots, the exact outcome of
    \<open>apply\<close> and of \<open>try_genesis\<close>.
  \<^item> \<open>Bytes\<close>, \<open>Crypto\<close>, \<open>Owner\<close> (\<open>owner.rs\<close>), \<open>Committee\<close> (\<open>authority.rs\<close> 25--330 and 1345--1442, \<open>effect.rs\<close>),
    \<open>Epoch\<close> (\<open>epoch.rs\<close>): values, canonical byte strings, signatures, votes, certificates, quorums.
    SHA-256 and Ed25519 are a record of functions; \<open>crypto_ok\<close> lists what the code relies on, and
    \<open>demo_crypto\<close> satisfies it. Unforgeability is stated only where a theorem needs it, as the
    hypothesis that the presented signatures of honest members come from their runs. The locale
    \<open>quorum_system\<close> gives quorum intersection.
  \<^item> \<open>Journal_Port\<close>, \<open>Journal_File\<close> (\<open>journal.rs\<close>): the journal interface, its in-memory forms, and the file
    format with torn tails and a fault script for writes, syncs and renames. The safety theorems cover the \<open>survivable\<close>
    faults; a rename undone by a power cut loses votes, and zeros behind part of a frame make the log unreadable.
  \<^item> \<open>Authority\<close> (\<open>authority.rs\<close> 334--1514): every operation of the authority state machine, recovery
    included. \<open>Authority_Safety\<close>: the runs of one authority over a journal (a step relation with
    crashes, restarts, compactions), its invariant, no equivocation within an epoch, exact recovery.
    \<open>Quorum_Safety\<close>: certificates (within an epoch: the hypothesis \<open>one_epoch\<close>), effect finality, \<open>certify\<close>, the
    divergence across rounds, and what a compaction by a stopped authority loses.
    \<open>Epoch_Change\<close>: fencing, installation, completion, and three defects of epoch changes.
  \<^item> \<open>Wire\<close> (\<open>wire.rs\<close>): all encoders and decoders over the locale \<open>codec\<close>; a byte string decodes exactly
    when it is the encoding of a message within the limits.
  \<^item> \<open>Net\<close> (\<open>net.rs\<close>): the mailbox mesh, the vote collector, ledgers and confirmation over the network,
    and the certification drivers, generic in the \<open>AuthorityNet\<close> trait (locale \<open>broadcast_net\<close>, interpreted
    on the mesh). Certification over the mesh equals the synchronous one, reaches effect finality, and
    collection is exact on every network.
  \<^item> \<open>Plumtree\<close> (\<open>333-gossip/src/lib.rs\<close>), \<open>Epidemic\<close> (\<open>epidemic.rs\<close>): eager and lazy push over the mesh.
    \<open>Epidemic_Safety\<close>: at most one delivery per message on every network. \<open>Epidemic_Delivery\<close>: on a working
    network a broadcast reaches everyone within three rounds per link. \<open>Epidemic_Faults\<close>: two ways to lose a
    message for good, over the locale \<open>epi_invariant\<close> for invariants of networks that may fail.
  \<^item> \<open>CRDT\<close> (\<open>traits.rs\<close>, \<open>scalar.rs\<close>, \<open>lww.rs\<close>, \<open>map.rs\<close>, \<open>delta.rs\<close>): the merges, with the locale \<open>crdt\<close> for the trait and an
    interpretation per type; \<open>Counter\<close> (\<open>counter.rs\<close>); \<open>Causal\<close> (\<open>dvv.rs\<close>, \<open>rcb.rs\<close>): version vectors, causal
    delivery, dotted value sets; \<open>Anti_Entropy\<close> (\<open>anti_entropy.rs\<close>).
  \<^item> \<open>Replica\<close> (\<open>lib.rs\<close> 419--486): replicas over the causal broadcast and a system of them on a network that
    reorders and repeats: no rejections, equal clocks give equal ledgers, and nothing is left behind.
  \<^item> \<open>Slot_Seal\<close> (\<open>333-slotseal/src/lib.rs\<close>, \<open>agreement.rs\<close>, \<open>finality.rs\<close>): evidence, external validity and the
    agreement nodes, over the certificates of \<open>Quorum_Safety\<close>. Void evidence excludes a certificate of the
    same round and epoch, honest nodes decide alike on such evidence and do decide; across rounds the evidence is not sound.
  \<^item> \<open>Exchange\<close>, \<open>Exchange_Safety\<close> (\<open>333-compute-exchange/src/lib.rs\<close>): commands, decisions, events and the
    idempotency inbox; the inductive relation \<open>fsm\<close> is the abstract life cycle that every decision refines.
    Sandboxes only under consent, revocation at any time, effects and credits without duplicates, replay
    of the events rebuilds the state.
  \<^item> \<open>Saga\<close>, \<open>Saga_Safety\<close> (\<open>333-orchestration/src/lib.rs\<close>): workflow validation (exact, against the
    acyclicity of the dependency relation), the coordinator over arbitrary executors and compensators, every
    way a run can end, completion of halted rollbacks without undoing anything twice, and the runs that strand committed steps.
  \<^item> \<open>HotStuff\<close>, \<open>HotStuff_Safety\<close>, \<open>HotStuff_Net\<close> (\<open>333-platform/src/bft\<close>, \<open>crypto_real.rs\<close>, \<open>netcode/bft_bridge.rs\<close>):
    one validator message by message, its runs (a step relation with an invariant), the single-node
    driver with the source's step budget, which six steps satisfy, and a network of honest validators, on
    which two conflicting blocks are committed. Ed25519 is a record of functions again (\<open>hs_crypto_ok\<close>,
    satisfied by \<open>hs_demo\<close>); the JSON text of a block is a parameter.
  \<^item> This theory: properties that span the components above.

  \<^bold>\<open>Conventions.\<close> An operation takes and returns the state it changes; errors are \<open>Inl\<close>; a panic is
  \<open>None\<close> or an error constructor of its own, and the theorems show it is not reached where the code says
  so. \<open>+ 1\<close> on \<open>u64\<close> counters wraps as in a release build where the code does not use checked
  arithmetic. \<open>HashMap\<close>s and \<open>HashSet\<close>s whose order is not observable are sorted maps or lists. Strings are lists
  of bytes, with UTF-8 validity checked where the code checks it. Loops are recursive functions with
  termination proofs; the only bounds are the source's own round counts, and no fuel is used.

  \<^bold>\<open>Not modelled.\<close> Threads, locks and sockets (\<open>tcp.rs\<close>, \<open>bin/node.rs\<close>): the network is the record of operations
  of \<open>Net\<close>, so what holds for every network holds for them.
  The advisory file lock between processes. \<open>Display\<close> and serde implementations, metrics, clocks. The rest of
  the platform (sessions, netcode, browser code, applications) and the other crates (storage, routing,
  hypervisor, token, browser bindings), which none of the modelled parts calls.
\<close>

section \<open>Properties across components\<close>

lemma vote_readers:
  assumes "text_ok MAX_AUTHORITY_ID_BYTES a" "length (committee_bytes c) = 32"
  shows "take_str f MAX_AUTHORITY_ID_BYTES (put_str a @ r) = Inr (a, r)" "take_committee_id (committee_bytes c @ r) = Inr (c, r)"
    "take_u64 (u64_le w @ r) = Inr (w, r)" "expect_domain d (d @ r) = Inr r"
  using assms by (simp_all add: wire_simps)

lemma frontier_too_long:
  assumes "MAX_FRONTIER_ACCOUNTS < length fr" "length fr < 2 ^ 64"
  shows "take_frontier (put_frontier fr @ r) = Inl (FieldTooLong ''epoch.frontier'' (of_nat (length fr)) MAX_FRONTIER_ACCOUNTS)"
proof -
  have "take_u64 (put_frontier fr @ r) = Inr (of_nat (length fr), concat (map put_frontier_item fr) @ r)"
    by (simp add: put_frontier_def take_u64_iff len64_def)
  then show ?thesis using assms by (simp add: take_frontier_def unat_len)
qed

text \<open>C13: a ledger with more than 4096 accounts cannot change its committee over the network: every epoch vote
  its authority signs carries the whole frontier, and the decoder of every peer refuses it.\<close>

theorem big_ledger_epoch_vote_undecodable:
  assumes "crypto_ok cr" "sign_epoch_vote cr a = Inr v" "MAX_FRONTIER_ACCOUNTS < length (accounts (au_ledger a))"
    and "length (accounts (au_ledger a)) < 2 ^ 64" "text_ok MAX_AUTHORITY_ID_BYTES (au_id a)"
    and "length (committee_bytes (au_committee_id a)) = 32"
  shows "decode_authority_msg cr (encode_authority_msg (MsgEpochVote v)) =
    Inl (FieldTooLong ''epoch.frontier'' (of_nat (length (accounts (au_ledger a)))) MAX_FRONTIER_ACCOUNTS)"
proof -
  obtain e nc where v: "v = epoch_vote_sign cr (au_id a) (au_committee_id a) e nc (au_frontier a) (au_signing a)"
    "length (committee_bytes nc) = 32"
    using assms(2) crypto_lengths(1) [OF assms(1)] committee_with_epoch_Some(5)
    by (fastforce simp: sign_epoch_vote_def committee_id_of_def split: epoch_state.splits option.splits)
  have len: "length (au_frontier a) = length (accounts (au_ledger a))" by (simp add: au_frontier_def balances_def)
  have "decode_epoch_vote (encode_epoch_vote v) =
      Inl (FieldTooLong ''epoch.frontier'' (of_nat (length (accounts (au_ledger a)))) MAX_FRONTIER_ACCOUNTS)"
    using frontier_too_long [of "au_frontier a"] assms(3,4) len
    by (simp add: decode_epoch_vote_def encode_epoch_vote_def vote_readers(4) [OF assms(5,6)] v(1) epoch_vote_sign_def Let_def
        put_epoch_vote_body_def take_epoch_vote_body_def vote_readers [OF assms(5,6)] vote_readers(2) [OF assms(5) v(2)])
  then show ?thesis by (simp add: decode_authority_msg_def tags)
qed

text \<open>A fenced authority of a ledger with 5000 accounts.\<close>

definition big_ledger :: ledger where
  "big_ledger = \<lparr>accounts = map (\<lambda>n. (replicate n (CHR ''a''), \<lparr>acc_balance = 1, acc_next_seq = 0\<rparr>)) [0..<5000]\<rparr>"

definition big_authority :: "mem_journal authority" where
  "big_authority = demo_authority\<lparr>au_ledger := big_ledger, au_epoch_state := Fencing (demo_proposal demo_members)\<rparr>"

theorem big_ledger_epoch_vote_undecodable_witness:
  "\<exists>v. sign_epoch_vote demo_crypto big_authority = Inr v \<and>
    decode_authority_msg demo_crypto (encode_authority_msg (MsgEpochVote v)) = Inl (FieldTooLong ''epoch.frontier'' 5000 4096)"
proof -
  obtain v where v: "sign_epoch_vote demo_crypto big_authority = Inr v"
    using demo_authority_fields demo_same_roster
    by (simp add: sign_epoch_vote_def big_authority_def demo_proposal_def)
  have "text_ok MAX_AUTHORITY_ID_BYTES (au_id big_authority)"
    by (simp add: big_authority_def text_ok_def utf8_ascii as_bytes_def MAX_AUTHORITY_ID_BYTES_def)
  then show ?thesis
    using big_ledger_epoch_vote_undecodable [OF demo_crypto_ok v] v demo_sizes(3) demo_authority_fields
    by (simp add: big_authority_def big_ledger_def MAX_FRONTIER_ACCOUNTS_def)
qed

end
